(* ===== verification/Prelude.thy ===== *)
theory Prelude
  imports Main "HOL-Library.Word" "HOL-Library.List_Lexorder" "HOL-Library.Char_ord"
begin

text \<open>
  What every component shares: Go's machine integers and durations, the outcome of a
  fallible call, and the generic facts about lists and maps the component proofs rest on.

  \<^item> Go's \<open>int\<close>, \<open>int64\<close> and \<open>time.Duration\<close> are \<open>int\<close> with the wrap-around written
    out by \<open>wrap64\<close> where the code computes on them.
  \<^item> An absolute \<open>time.Time\<close> is its Unix time in nanoseconds; \<open>unix_nano\<close> is
    \<open>Time.UnixNano\<close> and \<open>time_sub\<close> is \<open>Time.Sub\<close>, which saturates.
  \<^item> A map of Go is \<open>'k \<rightharpoonup> 'v\<close>; iteration over it, whose order Go leaves open, is an
    explicit list of keys wherever the order can be observed.
\<close>

named_theorems go_defs "definitions of Go primitives that evaluate"
named_theorems inv_intros "preservation of the invariants by single steps"
named_theorems map_lemmas "domains and values of updated maps"

subsection \<open>Machine integers, durations and times\<close>

type_synonym duration = int
type_synonym gotime = int

definition wrap64 :: "int \<Rightarrow> int" where
  "wrap64 x = (x + 9223372036854775808) mod 18446744073709551616 - 9223372036854775808"

definition in64 :: "int \<Rightarrow> bool" where
  "in64 x \<longleftrightarrow> -9223372036854775808 \<le> x \<and> x < 9223372036854775808"

lemma wrap64_id [simp]: "in64 x \<Longrightarrow> wrap64 x = x"
  by (simp add: wrap64_def in64_def)

lemma in64_nonneg: "0 \<le> x \<Longrightarrow> x \<le> 9223372036854775807 \<Longrightarrow> in64 x"
  by (simp add: in64_def)

lemma wrap64_range [simp]: "in64 (wrap64 x)"
  by (simp add: wrap64_def in64_def)

lemma wrap64_idem [simp]: "wrap64 (wrap64 x) = wrap64 x"
  by simp

definition sat64 :: "int \<Rightarrow> int" where
  "sat64 x = max (-9223372036854775808) (min 9223372036854775807 x)"

lemma sat64_id [simp]: "in64 x \<Longrightarrow> sat64 x = x"
  by (simp add: sat64_def in64_def)

lemma sat64_mono: "x \<le> y \<Longrightarrow> sat64 x \<le> sat64 y"
  by (simp add: sat64_def)

definition unix_nano :: "gotime \<Rightarrow> int" where
  "unix_nano t = wrap64 t"

definition time_sub :: "gotime \<Rightarrow> gotime \<Rightarrow> duration" where
  "time_sub t u = sat64 (t - u)"

definition millisecond :: duration where "millisecond = 1000000"
definition second :: duration where "second = 1000000000"
definition minute :: duration where "minute = 60000000000"

lemmas duration_defs [go_defs] = millisecond_def second_def minute_def

text \<open>Go's integer division truncates toward zero.\<close>

definition go_div :: "int \<Rightarrow> int \<Rightarrow> int" where
  "go_div a b = sgn a * sgn b * (\<bar>a\<bar> div \<bar>b\<bar>)"

lemma go_div_nonneg [simp]: "0 \<le> a \<Longrightarrow> 0 < b \<Longrightarrow> go_div a b = a div b"
  by (cases "a = 0") (simp_all add: go_div_def)

subsection \<open>Outcomes of fallible calls\<close>

type_synonym ('e, 'a) outcome = "'e + 'a"

definition bind_outcome :: "('e, 'a) outcome \<Rightarrow> ('a \<Rightarrow> ('e, 'b) outcome) \<Rightarrow> ('e, 'b) outcome" where
  "bind_outcome m f = (case m of Inl e \<Rightarrow> Inl e | Inr a \<Rightarrow> f a)"

lemma bind_outcome_simps [simp]:
  "bind_outcome (Inl e) f = Inl e"
  "bind_outcome (Inr a) f = f a"
  by (simp_all add: bind_outcome_def)

lemma bind_outcome_Inr:
  "bind_outcome m f = Inr b \<longleftrightarrow> (\<exists>a. m = Inr a \<and> f a = Inr b)"
  by (cases m) simp_all

subsection \<open>Lists\<close>

lemma nth_filter_upt_mem: "i < length xs \<Longrightarrow> P i \<Longrightarrow> i \<in> set (filter P [0..<length xs])"
  by simp

lemma map_nth_filter: "map ((!) xs) (filter (\<lambda>i. P (xs ! i)) [0..<length xs]) = filter P xs"
proof -
  have "filter P (map ((!) xs) [0..<length xs]) = map ((!) xs) (filter (P \<circ> (!) xs) [0..<length xs])"
    by (simp add: filter_map)
  moreover have "map ((!) xs) [0..<length xs] = xs" by (rule map_nth)
  ultimately show ?thesis by (simp add: comp_def)
qed

lemma length_filter_eq_all: "length (filter P xs) = length xs \<longleftrightarrow> (\<forall>x\<in>set xs. P x)"
  by (metis filter_id_conv length_filter_less less_irrefl)

lemma list_all_mem: "list_all P xs \<Longrightarrow> x \<in> set xs \<Longrightarrow> P x"
  by (simp add: list_all_iff)

subsection \<open>Maps\<close>

lemma map_of_distinct_mem:
  "distinct (map fst kvs) \<Longrightarrow> map_of kvs k = Some v \<longleftrightarrow> (k, v) \<in> set kvs"
  by (rule map_of_eq_Some_iff)

lemma dom_restrict_not [map_lemmas]: "dom (m |` (- S)) = dom m - S"
  by (auto simp: restrict_map_def split: if_splits)

lemma map_add_Some_right [map_lemmas]: "n k = Some v \<Longrightarrow> (m ++ n) k = Some v"
  by (simp add: map_add_def)

lemma map_add_None_right [map_lemmas]: "n k = None \<Longrightarrow> (m ++ n) k = m k"
  by (simp add: map_add_def)

end
