(* ===== verification/GoFloat.thy ===== *)
theory GoFloat
  imports Prelude Complex_Main
begin

text \<open>
  The part of Go's \<open>float64\<close> the retry policy and the rate limiter use: IEEE 754 binary64
  with round to nearest, ties to even. A value is a rational, an infinity or not-a-number.
  The sign of zero, which none of the modelled code can observe, is not represented.
  The laws the clients need are the locale \<open>rounding\<close>, interpreted below on the
  executable \<open>rnd64\<close>.
\<close>

subsection \<open>Rounding\<close>

fun bitlen :: "nat \<Rightarrow> nat" where
  "bitlen n = (if n = 0 then 0 else Suc (bitlen (n div 2)))"

declare bitlen.simps [simp del]

definition pow2 :: "int \<Rightarrow> rat" where
  "pow2 k = (if 0 \<le> k then 2 ^ nat k else 1 / 2 ^ nat (- k))"

definition flog2 :: "rat \<Rightarrow> int" where
  "flog2 x =
     (case quotient_of x of (p, q) \<Rightarrow>
        let k = int (bitlen (nat p)) - int (bitlen (nat q))
        in if pow2 k \<le> x then k else k - 1)"

definition round_half_even :: "rat \<Rightarrow> int" where
  "round_half_even y =
     (let f = floor y; d = y - of_int f
      in if d < 1 / 2 then f else if d > 1 / 2 then f + 1 else if even f then f else f + 1)"

definition grid_exp :: "rat \<Rightarrow> int" where
  "grid_exp x = max (flog2 x) (-1022) - 52"

definition rnd64 :: "rat \<Rightarrow> rat" where
  "rnd64 x =
     (if x = 0 then 0
      else if 0 < x then of_int (round_half_even (x / pow2 (grid_exp x))) * pow2 (grid_exp x)
      else - (of_int (round_half_even (- x / pow2 (grid_exp (- x)))) * pow2 (grid_exp (- x))))"

subsection \<open>Powers of two and binary logarithm\<close>

lemma pow2_powi: "pow2 k = 2 powi k"
  by (simp add: pow2_def power_int_def divide_simps)

lemma pow2_pos [simp]: "0 < pow2 k"
  by (simp add: pow2_def)

lemma pow2_nz [simp]: "pow2 k \<noteq> 0"
  using pow2_pos [of k] by linarith

lemma pow2_add: "pow2 (a + b) = pow2 a * pow2 b"
  by (simp add: pow2_powi power_int_add)

lemma pow2_le: "a \<le> b \<Longrightarrow> pow2 a \<le> pow2 b"
  by (simp add: pow2_powi power_int_increasing)

lemma pow2_less: "a < b \<Longrightarrow> pow2 a < pow2 b"
  by (simp add: pow2_powi power_int_strict_increasing)

lemma pow2_less_iff: "pow2 a < pow2 b \<longleftrightarrow> a < b"
  by (meson linorder_not_le pow2_le pow2_less)

lemma pow2_nat: "0 \<le> k \<Longrightarrow> pow2 k = of_int (2 ^ nat k)"
  by (simp add: pow2_def)

lemma pow2_int: "pow2 (int n) = 2 ^ n"
  by (simp add: pow2_def)

lemma pow2_shift: "0 \<le> k \<Longrightarrow> pow2 (k + e) = of_int (2 ^ nat k) * pow2 e"
  by (simp add: pow2_add pow2_nat)

lemma bitlen_bounds: "0 < n \<Longrightarrow> 2 ^ (bitlen n - 1) \<le> n \<and> n < 2 ^ bitlen n \<and> 0 < bitlen n"
proof (induction n rule: bitlen.induct)
  case (1 n)
  show ?case
  proof (cases "n = 1")
    case True
    have "bitlen 1 = Suc 0" by (simp add: bitlen.simps [of "Suc 0"] bitlen.simps [of 0])
    with True show ?thesis by simp
  next
    case False
    with 1 have IH: "2 ^ (bitlen (n div 2) - 1) \<le> n div 2" "n div 2 < 2 ^ bitlen (n div 2)"
      "0 < bitlen (n div 2)" by auto
    then obtain b where b: "bitlen (n div 2) = Suc b" by (metis gr0_implies_Suc)
    with IH have "2 ^ Suc b \<le> n" "n < 2 ^ Suc (Suc b)" by auto
    with b "1.prems" show ?thesis by (simp add: bitlen.simps [of n])
  qed
qed

lemma bitlen_pow2: "0 < n \<Longrightarrow> pow2 (int (bitlen n) - 1) \<le> of_nat n \<and> (of_nat n :: rat) < pow2 (int (bitlen n))"
proof -
  assume "0 < n"
  then have b: "2 ^ (bitlen n - 1) \<le> n" "n < 2 ^ bitlen n" "0 < bitlen n"
    using bitlen_bounds by auto
  have "(2 ^ (bitlen n - 1) :: rat) \<le> of_nat n" using b(1) by (metis of_nat_le_iff of_nat_numeral of_nat_power)
  moreover have "(of_nat n :: rat) < 2 ^ bitlen n" using b(2) by (metis of_nat_less_iff of_nat_numeral of_nat_power)
  moreover have "int (bitlen n) - 1 = int (bitlen n - 1)" using b(3) by simp
  ultimately show ?thesis by (metis pow2_int)
qed

lemma flog2_bounds:
  assumes "0 < x"
  shows "pow2 (flog2 x) \<le> x" "x < pow2 (flog2 x + 1)"
proof -
  obtain p q where pq: "quotient_of x = (p, q)" by (cases "quotient_of x")
  then have q: "0 < q" by (rule quotient_of_denom_pos)
  have x: "x = of_int p / of_int q" using pq by (rule quotient_of_div)
  with assms q have p: "0 < p" by (simp add: zero_less_divide_iff)
  let ?a = "int (bitlen (nat p))" and ?b = "int (bitlen (nat q))"
  have P: "pow2 (?a - 1) \<le> of_int p" "of_int p < pow2 ?a"
    using bitlen_pow2 [of "nat p"] p by auto
  have Q: "pow2 (?b - 1) \<le> of_int q" "of_int q < pow2 ?b"
    using bitlen_pow2 [of "nat q"] q by auto
  have lo: "pow2 (?a - ?b - 1) \<le> x"
  proof -
    have "pow2 (?a - ?b - 1) * of_int q \<le> pow2 (?a - ?b - 1) * pow2 ?b"
      using Q(2) by (simp add: less_imp_le)
    also have "\<dots> = pow2 (?a - 1)" by (simp flip: pow2_add)
    finally show ?thesis using P(1) q x by (simp add: pos_le_divide_eq)
  qed
  have hi: "x < pow2 (?a - ?b + 1)"
  proof -
    have "of_int p < pow2 (?a - ?b + 1) * pow2 (?b - 1)"
      using P(2) by (simp flip: pow2_add)
    also have "\<dots> \<le> pow2 (?a - ?b + 1) * of_int q" using Q(1) by simp
    finally show ?thesis using q x by (simp add: pos_divide_less_eq)
  qed
  show "pow2 (flog2 x) \<le> x" "x < pow2 (flog2 x + 1)"
    using lo hi by (auto simp: flog2_def pq Let_def)
qed

lemma flog2_mono: "0 < x \<Longrightarrow> x \<le> y \<Longrightarrow> flog2 x \<le> flog2 y"
proof -
  assume "0 < x" "x \<le> y"
  then have "pow2 (flog2 x) < pow2 (flog2 y + 1)"
    using flog2_bounds(1) [of x] flog2_bounds(2) [of y] by linarith
  then show ?thesis by (simp add: pow2_less_iff)
qed

lemma flog2_less: "0 < x \<Longrightarrow> x < pow2 k \<Longrightarrow> flog2 x < k"
  using flog2_bounds(1) [of x] by (metis le_less_trans pow2_less_iff)

subsection \<open>Round to nearest, ties to even\<close>

lemma round_half_even_bounds: "floor y \<le> round_half_even y" "round_half_even y \<le> floor y + 1"
  by (auto simp: round_half_even_def Let_def)

lemma round_half_even_int [simp]: "round_half_even (of_int n) = n"
  by (simp add: round_half_even_def)

lemma round_half_even_mono: "x \<le> y \<Longrightarrow> round_half_even x \<le> round_half_even y"
proof -
  assume le: "x \<le> y"
  then have "floor x \<le> floor y" by (rule floor_mono)
  then consider "floor x = floor y" | "floor x < floor y" by linarith
  then show ?thesis
  proof cases
    case 1
    with le show ?thesis by (auto simp: round_half_even_def Let_def)
  next
    case 2
    then show ?thesis
      using round_half_even_bounds(2) [of x] round_half_even_bounds(1) [of y] by linarith
  qed
qed

definition rnd_pos :: "rat \<Rightarrow> rat" where
  "rnd_pos x = of_int (round_half_even (x / pow2 (grid_exp x))) * pow2 (grid_exp x)"

lemma rnd64_alt: "rnd64 x = (if x = 0 then 0 else if 0 < x then rnd_pos x else - rnd_pos (- x))"
  by (simp add: rnd64_def rnd_pos_def)

lemma rnd_pos_le_grid: "x \<le> of_int n * pow2 (grid_exp x) \<Longrightarrow> rnd_pos x \<le> of_int n * pow2 (grid_exp x)"
proof -
  assume "x \<le> of_int n * pow2 (grid_exp x)"
  then have "x / pow2 (grid_exp x) \<le> of_int n" by (simp add: pos_divide_le_eq)
  then have "round_half_even (x / pow2 (grid_exp x)) \<le> n"
    using round_half_even_mono by (metis round_half_even_int)
  then show ?thesis by (simp add: rnd_pos_def)
qed

lemma rnd_pos_ge_grid: "of_int n * pow2 (grid_exp x) \<le> x \<Longrightarrow> of_int n * pow2 (grid_exp x) \<le> rnd_pos x"
proof -
  assume "of_int n * pow2 (grid_exp x) \<le> x"
  then have "of_int n \<le> x / pow2 (grid_exp x)" by (simp add: pos_le_divide_eq)
  then have "n \<le> round_half_even (x / pow2 (grid_exp x))"
    using round_half_even_mono by (metis round_half_even_int)
  then show ?thesis by (simp add: rnd_pos_def)
qed

lemma rnd_pos_nonneg: "0 < x \<Longrightarrow> 0 \<le> rnd_pos x"
  using rnd_pos_ge_grid [of 0 x] by simp

lemma rnd_pos_mono:
  assumes "0 < x" "x \<le> y"
  shows "rnd_pos x \<le> rnd_pos y"
proof (cases "grid_exp x = grid_exp y")
  case True
  have "x / pow2 (grid_exp y) \<le> y / pow2 (grid_exp y)"
    using assms(2) by (simp add: divide_right_mono less_imp_le)
  with True show ?thesis
    by (simp add: rnd_pos_def round_half_even_mono)
next
  case False
  have f: "flog2 x \<le> flog2 y" using assms by (rule flog2_mono)
  with False have lt: "flog2 x < flog2 y" and g: "grid_exp y = flog2 y - 52" "-1022 < flog2 y"
    by (auto simp: grid_exp_def max_def split: if_splits)
  let ?B = "pow2 (flog2 y)"
  have "rnd_pos x \<le> ?B"
  proof -
    have e: "0 \<le> flog2 y - grid_exp x" using lt g by (simp add: grid_exp_def)
    have B: "?B = of_int (2 ^ nat (flog2 y - grid_exp x)) * pow2 (grid_exp x)"
      using pow2_shift [OF e, of "grid_exp x"] by simp
    have "x \<le> ?B"
      using flog2_bounds(2) [OF assms(1)] pow2_le [of "flog2 x + 1" "flog2 y"] lt by linarith
    with B show ?thesis by (metis rnd_pos_le_grid)
  qed
  moreover have "?B \<le> rnd_pos y"
  proof -
    have B: "?B = of_int (2 ^ nat 52) * pow2 (grid_exp y)"
      using g(1) pow2_shift [of 52 "grid_exp y"] by simp
    have "?B \<le> y" using flog2_bounds(1) [of y] assms by linarith
    with B show ?thesis by (metis rnd_pos_ge_grid)
  qed
  ultimately show ?thesis by linarith
qed

lemma rnd64_zero [simp]: "rnd64 0 = 0"
  by (simp add: rnd64_alt)

lemma rnd64_neg: "rnd64 (- x) = - rnd64 x"
  by (simp add: rnd64_alt)

lemma rnd64_mono: "x \<le> y \<Longrightarrow> rnd64 x \<le> rnd64 y"
proof -
  assume le: "x \<le> y"
  consider "0 < x" | "y < 0" | "x \<le> 0" "0 \<le> y" using le by linarith
  then show ?thesis
  proof cases
    case 1
    with le show ?thesis by (simp add: rnd64_alt rnd_pos_mono)
  next
    case 2
    with le rnd_pos_mono [of "- y" "- x"] show ?thesis by (simp add: rnd64_alt)
  next
    case 3
    then have "rnd64 x \<le> 0" "0 \<le> rnd64 y"
      using rnd_pos_nonneg [of y] rnd_pos_nonneg [of "- x"] by (auto simp: rnd64_alt)
    then show ?thesis by linarith
  qed
qed

subsection \<open>Representable values\<close>

definition representable :: "rat \<Rightarrow> bool" where
  "representable x \<longleftrightarrow> (\<exists>m e. \<bar>m\<bar> \<le> 2 ^ 53 \<and> -1074 \<le> e \<and> x = of_int m * pow2 e)"

lemma representable_int: "\<bar>n\<bar> \<le> 2 ^ 53 \<Longrightarrow> representable (of_int n)"
  unfolding representable_def by (rule exI [of _ n], rule exI [of _ 0]) (simp add: pow2_def)

lemma representable_neg: "representable x \<Longrightarrow> representable (- x)"
  unfolding representable_def by (metis abs_minus_cancel mult_minus_left of_int_minus)

lemma rnd_pos_grid_point: "0 < x \<Longrightarrow> x = of_int n * pow2 (grid_exp x) \<Longrightarrow> rnd_pos x = x"
  using rnd_pos_le_grid [of x n] rnd_pos_ge_grid [of n x] by simp

lemma rnd_pos_representable:
  assumes "0 < x" "representable x"
  shows "rnd_pos x = x"
proof -
  obtain m e where m: "\<bar>m\<bar> \<le> 2 ^ 53" "-1074 \<le> e" "x = of_int m * pow2 e"
    using assms(2) unfolding representable_def by blast
  obtain m' e' where m': "m' < 2 ^ 53" "-1074 \<le> e'" "x = of_int m' * pow2 e'"
  proof (cases "m = 2 ^ 53")
    case True
    then have "x = of_int (2 ^ 52) * pow2 (e + 1)" using m(3) pow2_shift [of 1 e] by (simp add: add.commute)
    with m(2) that [of "2 ^ 52" "e + 1"] show ?thesis by simp
  next
    case False
    with m that [of m e] show ?thesis by simp
  qed
  have "of_int m' < (of_int (2 ^ 53) :: rat)" using m'(1) by (simp only: of_int_less_iff)
  then have "x < of_int (2 ^ 53) * pow2 e'" using m'(3) by simp
  also have "of_int (2 ^ 53) * pow2 e' = pow2 (53 + e')" using pow2_shift [of 53 e'] by simp
  finally have "flog2 x < 53 + e'" using assms(1) flog2_less by blast
  then have g: "grid_exp x \<le> e'" using m'(2) by (simp add: grid_exp_def)
  then have "pow2 e' = of_int (2 ^ nat (e' - grid_exp x)) * pow2 (grid_exp x)"
    using pow2_shift [of "e' - grid_exp x" "grid_exp x"] by simp
  then have "x = of_int (m' * 2 ^ nat (e' - grid_exp x)) * pow2 (grid_exp x)"
    using m'(3) by simp
  with assms(1) show ?thesis by (rule rnd_pos_grid_point)
qed

lemma rnd64_representable: "representable x \<Longrightarrow> rnd64 x = x"
  using rnd_pos_representable [of x] rnd_pos_representable [of "- x"] representable_neg [of x]
  by (auto simp: rnd64_alt)

lemma representable_rnd_pos:
  assumes "0 < x"
  shows "representable (rnd_pos x)"
proof -
  let ?y = "x / pow2 (grid_exp x)"
  have "x < pow2 (flog2 x + 1)" using assms by (rule flog2_bounds)
  also have "\<dots> \<le> pow2 (53 + grid_exp x)" by (rule pow2_le) (simp add: grid_exp_def)
  also have "\<dots> = of_int (2 ^ 53) * pow2 (grid_exp x)" using pow2_shift [of 53 "grid_exp x"] by simp
  finally have "?y \<le> of_int (2 ^ 53)" by (simp add: pos_divide_le_eq)
  then have "round_half_even ?y \<le> 2 ^ 53" using round_half_even_mono by (metis round_half_even_int)
  moreover have "0 \<le> round_half_even ?y"
  proof -
    have "0 \<le> ?y" using assms less_imp_le [OF pow2_pos] by (intro divide_nonneg_nonneg) simp_all
    then show ?thesis using round_half_even_mono [of "of_int 0" ?y] by (simp only: round_half_even_int)
  qed
  moreover have "-1074 \<le> grid_exp x" by (simp add: grid_exp_def)
  ultimately show ?thesis unfolding representable_def rnd_pos_def
    by (intro exI [of _ "round_half_even ?y"] exI [of _ "grid_exp x"]) simp
qed

lemma representable_rnd64: "representable (rnd64 x)"
  using representable_rnd_pos [of x] representable_neg [OF representable_rnd_pos [of "- x"]]
    representable_int [of 0] by (auto simp: rnd64_alt)

lemma representable_half:
  assumes "representable x" "1 \<le> x"
  shows "representable (x / 2)"
proof -
  obtain m e where m: "\<bar>m\<bar> \<le> 2 ^ 53" "-1074 \<le> e" "x = of_int m * pow2 e"
    using assms(1) unfolding representable_def by blast
  have "-1074 < e"
  proof (rule ccontr)
    assume "\<not> -1074 < e"
    with m(2) have "e = -1074" by simp
    moreover have "of_int m \<le> (of_int (2 ^ 53) :: rat)" using m(1) by (simp only: of_int_le_iff)
    ultimately have "x \<le> of_int (2 ^ 53) * pow2 (-1074)" using m(3) by simp
    also have "\<dots> = pow2 (53 + -1074)" using pow2_shift [of 53 "-1074"] by simp
    also have "\<dots> < pow2 0" by (rule pow2_less) simp
    finally show False using assms(2) by (simp add: pow2_def)
  qed
  moreover have "x / 2 = of_int m * pow2 (e - 1)"
    using pow2_add [of "e - 1" 1] m(3) by (simp add: pow2_def [of 1])
  ultimately show ?thesis unfolding representable_def using m(1)
    by (intro exI [of _ m] exI [of _ "e - 1"]) simp
qed

subsection \<open>The laws of rounding the clients use\<close>

locale rounding =
  fixes rnd :: "rat \<Rightarrow> rat" and rep :: "rat \<Rightarrow> bool"
  assumes rnd_mono: "x \<le> y \<Longrightarrow> rnd x \<le> rnd y"
    and rnd_exact: "rep x \<Longrightarrow> rnd x = x"
    and rep_rnd: "rep (rnd x)"
    and rep_int: "\<bar>n\<bar> \<le> 2 ^ 53 \<Longrightarrow> rep (of_int n)"
    and rep_half: "rep x \<Longrightarrow> 1 \<le> x \<Longrightarrow> rep (x / 2)"
begin

lemma rnd_ge: "rep a \<Longrightarrow> a \<le> x \<Longrightarrow> a \<le> rnd x"
  using rnd_mono [of a x] rnd_exact [of a] by simp

lemma rnd_le: "rep a \<Longrightarrow> x \<le> a \<Longrightarrow> rnd x \<le> a"
  using rnd_mono [of x a] rnd_exact [of a] by simp

lemma rnd_nonneg: "0 \<le> x \<Longrightarrow> 0 \<le> rnd x"
  using rnd_ge [of 0 x] rep_int [of 0] by simp

text \<open>Splitting a value into its half and a fraction of its half stays within the value.\<close>

lemma rnd_half_plus:
  assumes "rep d" "1 \<le> d" "0 \<le> r" "r \<le> 1"
  shows "d / 2 \<le> rnd (rnd (d / 2) + rnd (rnd (r * d) / 2))"
    and "rnd (rnd (d / 2) + rnd (rnd (r * d) / 2)) \<le> d"
proof -
  have h: "rnd (d / 2) = d / 2" "rep (d / 2)" using assms rep_half rnd_exact by auto
  have "0 \<le> rnd (r * d)" using assms by (simp add: rnd_nonneg)
  then have q: "0 \<le> rnd (rnd (r * d) / 2)" by (simp add: rnd_nonneg)
  have "r * d \<le> d" using assms by (simp add: mult_left_le_one_le)
  then have "rnd (r * d) \<le> d" using assms(1) by (rule rnd_le [rotated])
  then have s: "rnd (rnd (r * d) / 2) \<le> d / 2" by (intro rnd_le [OF h(2)]) simp
  show "d / 2 \<le> rnd (rnd (d / 2) + rnd (rnd (r * d) / 2))"
    using q h by (intro rnd_ge) simp_all
  show "rnd (rnd (d / 2) + rnd (rnd (r * d) / 2)) \<le> d"
    using s h assms(1) by (intro rnd_le) simp_all
qed

end

interpretation binary64: rounding rnd64 representable
  by unfold_locales
    (simp_all add: rnd64_mono rnd64_representable representable_rnd64 representable_int representable_half)

subsection \<open>Values and operations\<close>

datatype f64 = Fin rat | PosInf | NegInf | NaN

definition to_f64 :: "rat \<Rightarrow> f64" where
  "to_f64 x =
     (let r = rnd64 x
      in if 2 ^ 1024 \<le> r then PosInf else if r \<le> - (2 ^ 1024) then NegInf else Fin r)"

definition f64_of_int :: "int \<Rightarrow> f64" where
  "f64_of_int n = to_f64 (of_int n)"

definition signed_inf :: "bool \<Rightarrow> f64" where
  "signed_inf neg = (if neg then NegInf else PosInf)"

definition is_neg :: "f64 \<Rightarrow> bool" where
  "is_neg x = (case x of Fin a \<Rightarrow> a < 0 | NegInf \<Rightarrow> True | _ \<Rightarrow> False)"

fun fadd :: "f64 \<Rightarrow> f64 \<Rightarrow> f64" where
  "fadd (Fin a) (Fin b) = to_f64 (a + b)"
| "fadd NaN _ = NaN"
| "fadd _ NaN = NaN"
| "fadd PosInf NegInf = NaN"
| "fadd NegInf PosInf = NaN"
| "fadd PosInf _ = PosInf"
| "fadd _ PosInf = PosInf"
| "fadd NegInf _ = NegInf"
| "fadd _ NegInf = NegInf"

fun fneg :: "f64 \<Rightarrow> f64" where
  "fneg (Fin a) = Fin (- a)"
| "fneg PosInf = NegInf"
| "fneg NegInf = PosInf"
| "fneg NaN = NaN"

definition fsub :: "f64 \<Rightarrow> f64 \<Rightarrow> f64" where
  "fsub a b = fadd a (fneg b)"

fun fmul :: "f64 \<Rightarrow> f64 \<Rightarrow> f64" where
  "fmul (Fin a) (Fin b) = to_f64 (a * b)"
| "fmul NaN _ = NaN"
| "fmul _ NaN = NaN"
| "fmul (Fin a) y = (if a = 0 then NaN else signed_inf ((a < 0) \<noteq> is_neg y))"
| "fmul x (Fin b) = (if b = 0 then NaN else signed_inf (is_neg x \<noteq> (b < 0)))"
| "fmul x y = signed_inf (is_neg x \<noteq> is_neg y)"

text \<open>Division; a zero divisor, which no modelled call has, is taken as positive zero.\<close>

fun fdiv :: "f64 \<Rightarrow> f64 \<Rightarrow> f64" where
  "fdiv (Fin a) (Fin b) =
     (if b \<noteq> 0 then to_f64 (a / b) else if a = 0 then NaN else signed_inf (a < 0))"
| "fdiv NaN _ = NaN"
| "fdiv _ NaN = NaN"
| "fdiv (Fin a) _ = Fin 0"
| "fdiv x (Fin b) = signed_inf (is_neg x \<noteq> (b < 0))"
| "fdiv _ _ = NaN"

fun fless :: "f64 \<Rightarrow> f64 \<Rightarrow> bool" where
  "fless (Fin a) (Fin b) = (a < b)"
| "fless NaN _ = False"
| "fless _ NaN = False"
| "fless NegInf y = (y \<noteq> NegInf)"
| "fless x PosInf = (x \<noteq> PosInf)"
| "fless _ _ = False"

definition feq :: "f64 \<Rightarrow> f64 \<Rightarrow> bool" where
  "feq x y \<longleftrightarrow> x = y \<and> x \<noteq> NaN"

text \<open>The built-in \<open>max\<close> and \<open>min\<close>: not-a-number when an argument is.\<close>

definition fmax :: "f64 \<Rightarrow> f64 \<Rightarrow> f64" where
  "fmax x y = (if x = NaN \<or> y = NaN then NaN else if fless x y then y else x)"

definition fmin :: "f64 \<Rightarrow> f64 \<Rightarrow> f64" where
  "fmin x y = (if x = NaN \<or> y = NaN then NaN else if fless y x then y else x)"

text \<open>
  Conversion to \<open>int64\<close> truncates toward zero. When the value does not fit, Go leaves the
  result to the implementation: the parameter \<open>oob\<close>.
\<close>

definition ftrunc :: "rat \<Rightarrow> int" where
  "ftrunc x = (if 0 \<le> x then floor x else - floor (- x))"

definition f64_to_int64 :: "(f64 \<Rightarrow> int) \<Rightarrow> f64 \<Rightarrow> int" where
  "f64_to_int64 oob x =
     (case x of Fin a \<Rightarrow> if in64 (ftrunc a) then ftrunc a else wrap64 (oob x)
      | _ \<Rightarrow> wrap64 (oob x))"

lemma to_f64_small: "\<bar>rnd64 x\<bar> < 2 ^ 1024 \<Longrightarrow> to_f64 x = Fin (rnd64 x)"
  by (auto simp: to_f64_def Let_def abs_less_iff)

lemma f64_of_int_exact: "\<bar>n\<bar> \<le> 2 ^ 53 \<Longrightarrow> f64_of_int n = Fin (of_int n)"
proof -
  assume n: "\<bar>n\<bar> \<le> 2 ^ 53"
  then have r: "rnd64 (of_int n) = of_int n" by (intro rnd64_representable representable_int)
  have "(of_int \<bar>n\<bar> :: rat) \<le> of_int (2 ^ 53)" using n by (simp only: of_int_le_iff)
  also have "\<dots> < 2 ^ 1024" by simp
  finally show ?thesis unfolding f64_of_int_def by (subst to_f64_small) (simp_all add: r)
qed

lemma ftrunc_of_int [simp]: "ftrunc (of_int n) = n"
  by (simp add: ftrunc_def)

lemma ftrunc_mono: "x \<le> y \<Longrightarrow> ftrunc x \<le> ftrunc y"
proof -
  assume le: "x \<le> y"
  consider "0 \<le> x" | "x < 0" "0 \<le> y" | "y < 0" by linarith
  then show ?thesis
  proof cases
    case 1
    with le show ?thesis by (simp add: ftrunc_def floor_mono)
  next
    case 2
    then have a: "0 \<le> floor (- x)" and b: "0 \<le> floor y" by (simp_all add: le_floor_iff)
    from a have "- floor (- x) \<le> 0" by (rule iffD2 [OF neg_le_0_iff_le])
    with b have "- floor (- x) \<le> floor y" by (rule order_trans [rotated])
    with 2 show ?thesis by (simp only: ftrunc_def if_True not_le [symmetric] if_False)
  next
    case 3
    with le show ?thesis by (simp add: ftrunc_def floor_mono)
  qed
qed

lemma f64_to_int64_in_range [simp]: "in64 (f64_to_int64 oob x)"
  by (simp add: f64_to_int64_def split: f64.split)

end
