(* ===== verification/GoStrings.thy ===== *)
theory GoStrings
  imports Prelude
begin

text \<open>
  The parts of Go's \<open>strings\<close>, \<open>strconv\<close> and \<open>unicode/utf8\<close> packages the components call.
  A Go string is its bytes: a list of HOL characters. A rune is a natural number.
  Case mapping of runes outside ASCII is the Unicode table of the Go distribution, a
  parameter \<open>ulow\<close> of the operations that use it.
\<close>

abbreviation byte :: "char \<Rightarrow> nat" where
  "byte c \<equiv> of_char c"

subsection \<open>Prefixes, suffixes, splitting\<close>

fun has_prefix :: "string \<Rightarrow> string \<Rightarrow> bool" where
  "has_prefix s [] = True"
| "has_prefix [] (p # ps) = False"
| "has_prefix (c # s) (p # ps) = (c = p \<and> has_prefix s ps)"

definition has_suffix :: "string \<Rightarrow> string \<Rightarrow> bool" where
  "has_suffix s p = has_prefix (rev s) (rev p)"

definition trim_prefix :: "string \<Rightarrow> string \<Rightarrow> string" where
  "trim_prefix s p = (if has_prefix s p then drop (length p) s else s)"

definition trim_suffix :: "string \<Rightarrow> string \<Rightarrow> string" where
  "trim_suffix s p = (if has_suffix s p then take (length s - length p) s else s)"

text \<open>\<open>strings.Cut\<close>: before and after the first separator, and whether it was found.\<close>

fun cut :: "string \<Rightarrow> string \<Rightarrow> string \<times> string \<times> bool" where
  "cut [] sep = (if sep = [] then ([], [], True) else ([], [], False))"
| "cut (c # s) sep =
     (if has_prefix (c # s) sep then ([], drop (length sep) (c # s), True)
      else case cut s sep of (b, a, f) \<Rightarrow> if f then (c # b, a, True) else (c # s, [], False))"

text \<open>\<open>strings.Split\<close> on a one-byte separator.\<close>

fun split_on :: "char \<Rightarrow> string \<Rightarrow> string list" where
  "split_on d [] = [[]]"
| "split_on d (c # s) =
     (if c = d then [] # split_on d s
      else case split_on d s of [] \<Rightarrow> [[c]] | w # ws \<Rightarrow> (c # w) # ws)"

fun join_with :: "string \<Rightarrow> string list \<Rightarrow> string" where
  "join_with sep [] = []"
| "join_with sep [w] = w"
| "join_with sep (w # v # ws) = w @ sep @ join_with sep (v # ws)"

definition trim_left :: "string \<Rightarrow> string \<Rightarrow> string" where
  "trim_left s cutset = dropWhile (\<lambda>c. c \<in> set cutset) s"

definition trim_right :: "string \<Rightarrow> string \<Rightarrow> string" where
  "trim_right s cutset = rev (dropWhile (\<lambda>c. c \<in> set cutset) (rev s))"

definition trim :: "string \<Rightarrow> string \<Rightarrow> string" where
  "trim s cutset = trim_right (trim_left s cutset) cutset"

definition contains_any :: "string \<Rightarrow> string \<Rightarrow> bool" where
  "contains_any s cs = list_ex (\<lambda>c. c \<in> set cs) s"

text \<open>\<open>strings.IndexByte\<close>, with \<open>None\<close> for -1.\<close>

fun index_byte :: "string \<Rightarrow> char \<Rightarrow> nat option" where
  "index_byte [] d = None"
| "index_byte (c # s) d = (if c = d then Some 0 else map_option Suc (index_byte s d))"

subsection \<open>White space\<close>

text \<open>
  \<open>strings.TrimSpace\<close> removes the white space runes of Unicode: the six ASCII ones and the
  multi-byte ones listed here by their UTF-8 encoding.
\<close>

definition wide_spaces :: "nat list list" where
  "wide_spaces =
     [[194, 133], [194, 160], [225, 154, 128]] @ map (\<lambda>b. [226, 128, b]) [128..<139] @
     [[226, 128, 168], [226, 128, 169], [226, 128, 175], [226, 129, 159], [227, 128, 128]]"

definition space_width :: "string \<Rightarrow> nat" where
  "space_width s =
     (case s of [] \<Rightarrow> 0
      | c # _ \<Rightarrow>
        if byte c \<in> {9, 10, 11, 12, 13, 32} then 1
        else if map byte (take 2 s) \<in> set wide_spaces then 2
        else if map byte (take 3 s) \<in> set wide_spaces then 3
        else 0)"

definition space_width_end :: "string \<Rightarrow> nat" where
  "space_width_end r =
     (case r of [] \<Rightarrow> 0
      | c # _ \<Rightarrow>
        if byte c \<in> {9, 10, 11, 12, 13, 32} then 1
        else if rev (map byte (take 2 r)) \<in> set wide_spaces then 2
        else if rev (map byte (take 3 r)) \<in> set wide_spaces then 3
        else 0)"

fun drop_spaces :: "(string \<Rightarrow> nat) \<Rightarrow> nat \<Rightarrow> string \<Rightarrow> string" where
  "drop_spaces w 0 s = s"
| "drop_spaces w (Suc n) s = (if w s = 0 then s else drop_spaces w n (drop (w s) s))"

definition trim_space :: "string \<Rightarrow> string" where
  "trim_space s =
     (let t = drop_spaces space_width (length s) s
      in rev (drop_spaces space_width_end (length t) (rev t)))"

subsection \<open>Decimal numbers\<close>

definition digit :: "nat \<Rightarrow> char" where
  "digit n = char_of (48 + n)"

definition is_digit :: "char \<Rightarrow> bool" where
  "is_digit c \<longleftrightarrow> 48 \<le> byte c \<and> byte c \<le> 57"

fun utoa :: "nat \<Rightarrow> string" where
  "utoa n = (if n < 10 then [digit n] else utoa (n div 10) @ [digit (n mod 10)])"

declare utoa.simps [simp del]

definition itoa :: "int \<Rightarrow> string" where
  "itoa i = (if i < 0 then CHR ''-'' # utoa (nat (- i)) else utoa (nat i))"

definition digits_val :: "string \<Rightarrow> nat" where
  "digits_val s = foldl (\<lambda>v c. 10 * v + (byte c - 48)) 0 s"

definition parse_digits :: "string \<Rightarrow> nat option" where
  "parse_digits s = (if s \<noteq> [] \<and> list_all is_digit s then Some (digits_val s) else None)"

text \<open>\<open>strconv.ParseUint(s, 10, bits)\<close> and \<open>strconv.ParseInt(s, 10, bits)\<close>; \<open>None\<close> is an error.\<close>

definition parse_uint :: "nat \<Rightarrow> string \<Rightarrow> nat option" where
  "parse_uint bits s =
     (case parse_digits s of None \<Rightarrow> None | Some n \<Rightarrow> if n < 2 ^ bits then Some n else None)"

definition parse_int :: "nat \<Rightarrow> string \<Rightarrow> int option" where
  "parse_int bits s =
     (let neg = (s \<noteq> [] \<and> hd s = CHR ''-'');
          t = (if s \<noteq> [] \<and> (hd s = CHR ''-'' \<or> hd s = CHR ''+'') then tl s else s)
      in case parse_digits t of None \<Rightarrow> None
         | Some n \<Rightarrow>
           if neg then (if n \<le> 2 ^ (bits - 1) then Some (- int n) else None)
           else (if n < 2 ^ (bits - 1) then Some (int n) else None))"

definition atoi :: "string \<Rightarrow> int option" where
  "atoi s = parse_int 64 s"

definition parse_bool :: "string \<Rightarrow> bool option" where
  "parse_bool s =
     (if s \<in> set [''1'', ''t'', ''T'', ''true'', ''TRUE'', ''True''] then Some True
      else if s \<in> set [''0'', ''f'', ''F'', ''false'', ''FALSE'', ''False''] then Some False
      else None)"

definition format_bool :: "bool \<Rightarrow> string" where
  "format_bool b = (if b then ''true'' else ''false'')"

subsection \<open>Runes\<close>

definition rune_error :: nat where
  "rune_error = 65533"

definition cont_byte :: "nat \<Rightarrow> nat \<Rightarrow> char \<Rightarrow> bool" where
  "cont_byte lo hi c \<longleftrightarrow> lo \<le> byte c \<and> byte c \<le> hi"

text \<open>The range of the second byte depends on the first.\<close>

definition second_lo :: "nat \<Rightarrow> nat" where
  "second_lo b = (if b = 224 then 160 else if b = 240 then 144 else 128)"

definition second_hi :: "nat \<Rightarrow> nat" where
  "second_hi b = (if b = 237 then 159 else if b = 244 then 143 else 191)"

text \<open>\<open>utf8.DecodeRuneInString\<close>: the rune and its width; an invalid byte is \<open>rune_error\<close> of width 1.\<close>

definition decode_rune :: "string \<Rightarrow> nat \<times> nat" where
  "decode_rune s =
     (case s of [] \<Rightarrow> (rune_error, 0)
      | c # t \<Rightarrow>
        let b = byte c
        in if b < 128 then (b, 1)
           else if b < 194 \<or> 244 < b then (rune_error, 1)
           else if b < 224 then
             (case t of c1 # _ \<Rightarrow>
                if cont_byte 128 191 c1 then ((b - 192) * 64 + (byte c1 - 128), 2)
                else (rune_error, 1)
              | [] \<Rightarrow> (rune_error, 1))
           else if b < 240 then
             (case t of c1 # c2 # _ \<Rightarrow>
                if cont_byte (second_lo b) (second_hi b) c1 \<and> cont_byte 128 191 c2
                then ((b - 224) * 4096 + (byte c1 - 128) * 64 + (byte c2 - 128), 3)
                else (rune_error, 1)
              | _ \<Rightarrow> (rune_error, 1))
           else
             (case t of c1 # c2 # c3 # _ \<Rightarrow>
                if cont_byte (second_lo b) (second_hi b) c1 \<and> cont_byte 128 191 c2 \<and> cont_byte 128 191 c3
                then ((b - 240) * 262144 + (byte c1 - 128) * 4096 + (byte c2 - 128) * 64
                      + (byte c3 - 128), 4)
                else (rune_error, 1)
              | _ \<Rightarrow> (rune_error, 1)))"

lemma decode_rune_width: "s \<noteq> [] \<Longrightarrow> 0 < snd (decode_rune s)"
  by (auto simp: decode_rune_def Let_def split: list.splits)

lemma decode_rune_width_le: "snd (decode_rune s) \<le> length s"
  by (auto simp: decode_rune_def Let_def split: list.splits)

lemma decode_rune_ascii [simp]: "byte c < 128 \<Longrightarrow> decode_rune (c # t) = (byte c, 1)"
  by (simp add: decode_rune_def)

text \<open>Ranging over a string.\<close>

function runes :: "string \<Rightarrow> nat list" where
  "runes s = (if s = [] then [] else fst (decode_rune s) # runes (drop (snd (decode_rune s)) s))"
  by pat_completeness auto
termination
proof (relation "measure length")
  fix s :: string
  assume "s \<noteq> []"
  with decode_rune_width [of s] show "(drop (snd (decode_rune s)) s, s) \<in> measure length" by simp
qed simp

declare runes.simps [simp del]

lemma runes_Nil [simp]: "runes [] = []"
  by (simp add: runes.simps)

lemma runes_ascii_Cons [simp]: "byte c < 128 \<Longrightarrow> runes (c # s) = byte c # runes s"
  by (simp add: runes.simps [of "c # s"])

lemma runes_ascii: "list_all (\<lambda>c. byte c < 128) s \<Longrightarrow> runes s = map byte s"
  by (induction s) simp_all

text \<open>\<open>unicode.ToLower\<close>; the table covers the runes outside ASCII.\<close>

definition to_lower_rune :: "(nat \<Rightarrow> nat) \<Rightarrow> nat \<Rightarrow> nat" where
  "to_lower_rune ulow r =
     (if r < 128 then (if 65 \<le> r \<and> r \<le> 90 then r + 32 else r) else ulow r)"

text \<open>ASCII lower case of a string of ASCII bytes.\<close>

definition lower_char :: "char \<Rightarrow> char" where
  "lower_char c = (if 65 \<le> byte c \<and> byte c \<le> 90 then char_of (byte c + 32) else c)"

subsection \<open>Facts\<close>

lemma has_prefix_iff: "has_prefix s p \<longleftrightarrow> (\<exists>t. s = p @ t)"
  by (induction s p rule: has_prefix.induct) auto

lemma has_prefix_append [simp]: "has_prefix (p @ t) p"
  by (auto simp: has_prefix_iff)

lemma has_suffix_iff: "has_suffix s p \<longleftrightarrow> (\<exists>t. s = t @ p)"
  by (simp add: has_suffix_def has_prefix_iff) (metis rev_append rev_rev_ident)

lemma trim_prefix_append [simp]: "trim_prefix (p @ t) p = t"
  by (simp add: trim_prefix_def)

lemma split_on_nonempty [simp]: "split_on d s \<noteq> []"
  by (induction s) (auto split: list.split)

lemma split_on_no_sep: "d \<notin> set s \<Longrightarrow> split_on d s = [s]"
  by (induction s) auto

lemma split_on_append: "d \<notin> set s \<Longrightarrow> split_on d (s @ d # t) = s # split_on d t"
  by (induction s) auto

lemma join_split: "join_with [d] (split_on d s) = s"
proof (induction s)
  case (Cons c s)
  obtain w ws where w: "split_on d s = w # ws" using split_on_nonempty [of d s] by (cases "split_on d s") auto
  then show ?case using Cons by (cases ws) auto
qed simp

lemma split_join: "ws \<noteq> [] \<Longrightarrow> (\<forall>w\<in>set ws. d \<notin> set w) \<Longrightarrow> split_on d (join_with [d] ws) = ws"
proof (induction ws)
  case (Cons w ws)
  then show ?case
    by (cases ws) (simp_all add: split_on_no_sep split_on_append)
qed simp

lemma byte_digit [simp]: "n < 10 \<Longrightarrow> byte (digit n) = 48 + n"
  by (simp add: digit_def)

lemma is_digit_digit [simp]: "n < 10 \<Longrightarrow> is_digit (digit n)"
  by (simp add: is_digit_def)

lemma utoa_nonempty [simp]: "utoa n \<noteq> []"
  by (subst utoa.simps) simp

lemma utoa_digits: "list_all is_digit (utoa n)"
proof (induction n rule: utoa.induct)
  case (1 n)
  then show ?case by (subst utoa.simps) simp
qed

lemma digits_val_snoc: "digits_val (s @ [c]) = 10 * digits_val s + (byte c - 48)"
  by (simp add: digits_val_def)

lemma digits_val_utoa: "digits_val (utoa n) = n"
proof (induction n rule: utoa.induct)
  case (1 n)
  show ?case
  proof (cases "n < 10")
    case True
    then show ?thesis by (subst utoa.simps) (simp add: digits_val_def)
  next
    case False
    with 1 show ?thesis by (subst utoa.simps) (simp add: digits_val_snoc)
  qed
qed

lemma parse_digits_utoa [simp]: "parse_digits (utoa n) = Some n"
  by (simp add: parse_digits_def utoa_digits digits_val_utoa)

lemma hd_utoa: "is_digit (hd (utoa n))"
  using utoa_digits [of n] by (cases "utoa n") auto

lemma parse_int_itoa:
  assumes "- (2 ^ (bits - 1)) \<le> i" "i < 2 ^ (bits - 1)"
  shows "parse_int bits (itoa i) = Some i"
proof (cases "i < 0")
  case True
  then have "nat (- i) \<le> 2 ^ (bits - 1)" using assms(1) by (simp add: nat_le_iff)
  with True show ?thesis by (simp add: itoa_def parse_int_def Let_def)
next
  case False
  have h: "hd (utoa (nat i)) \<noteq> CHR ''-''" "hd (utoa (nat i)) \<noteq> CHR ''+''"
    using hd_utoa [of "nat i"] by (auto simp: is_digit_def)
  have "nat i < 2 ^ (bits - 1)" using False assms(2) by (simp add: nat_less_iff)
  with False h show ?thesis by (simp add: itoa_def parse_int_def Let_def)
qed

lemma atoi_itoa [simp]: "in64 i \<Longrightarrow> atoi (itoa i) = Some i"
  unfolding atoi_def by (rule parse_int_itoa) (simp_all add: in64_def)

lemma atoi_range: "atoi s = Some i \<Longrightarrow> in64 i"
  by (auto simp: atoi_def parse_int_def in64_def Let_def split: option.splits if_splits)

lemma itoa_nonempty [simp]: "itoa i \<noteq> []"
  by (simp add: itoa_def)

lemma itoa_inj: "in64 i \<Longrightarrow> in64 j \<Longrightarrow> itoa i = itoa j \<longleftrightarrow> i = j"
  by (metis atoi_itoa option.inject)

lemma itoa_nonneg_digits: "0 \<le> i \<Longrightarrow> list_all is_digit (itoa i)"
  by (simp add: itoa_def utoa_digits)

lemma trim_right_subset: "set (trim_right s cs) \<subseteq> set s"
  by (auto simp: trim_right_def dest: set_dropWhileD)

lemma trim_left_subset: "set (trim_left s cs) \<subseteq> set s"
  unfolding trim_left_def by (auto dest: set_dropWhileD)

lemma trim_subset: "set (trim s cs) \<subseteq> set s"
  unfolding trim_def using trim_right_subset trim_left_subset by fastforce

lemma length_trim_right: "length (trim_right s cs) \<le> length s"
  unfolding trim_right_def by (metis length_dropWhile_le length_rev)

lemma last_trim_right: "trim_right s cs \<noteq> [] \<Longrightarrow> last (trim_right s cs) \<notin> set cs"
  using hd_dropWhile [of "\<lambda>c. c \<in> set cs" "rev s"] by (simp add: trim_right_def last_rev)

lemma hd_trim_left: "trim_left s cs \<noteq> [] \<Longrightarrow> hd (trim_left s cs) \<notin> set cs"
  using hd_dropWhile [of "\<lambda>c. c \<in> set cs" s] by (simp add: trim_left_def)

lemma trim_right_split: "\<exists>t. s = trim_right s cs @ t \<and> set t \<subseteq> set cs"
proof -
  have "rev s = takeWhile (\<lambda>c. c \<in> set cs) (rev s) @ dropWhile (\<lambda>c. c \<in> set cs) (rev s)" by simp
  then have "s = trim_right s cs @ rev (takeWhile (\<lambda>c. c \<in> set cs) (rev s))"
    unfolding trim_right_def by (metis rev_append rev_rev_ident)
  moreover have "set (rev (takeWhile (\<lambda>c. c \<in> set cs) (rev s))) \<subseteq> set cs"
    by (auto dest: set_takeWhileD)
  ultimately show ?thesis by blast
qed

lemma hd_trim_right: "trim_right s cs \<noteq> [] \<Longrightarrow> hd (trim_right s cs) = hd s"
  using trim_right_split [of s cs] by (metis hd_append2)

subsection \<open>Cutting at a separator, finding a byte\<close>

lemma cut_found: "cut s sep = (a, b, True) \<Longrightarrow> s = a @ sep @ b"
proof (induction s arbitrary: a)
  case (Cons c s)
  show ?case
  proof (cases "has_prefix (c # s) sep")
    case True
    then obtain t where "c # s = sep @ t" unfolding has_prefix_iff by blast
    moreover from True have "cut (c # s) sep = ([], drop (length sep) (c # s), True)" by simp
    ultimately show ?thesis using Cons.prems by simp
  next
    case False
    then show ?thesis using Cons by (auto split: prod.splits if_splits)
  qed
qed (simp split: if_splits)

lemma cut_absent: "cut s sep = (a, b, False) \<Longrightarrow> s \<noteq> x @ sep @ y"
proof (induction s arbitrary: a b x)
  case (Cons c s)
  then have "\<not> has_prefix (c # s) sep" by (auto split: if_splits)
  then have "c # s \<noteq> sep @ y" by (metis has_prefix_append)
  moreover have "c # s \<noteq> (d # x') @ sep @ y" for d x'
    using Cons.prems Cons.IH [of _ _ x'] by (auto split: if_splits prod.splits)
  ultimately show ?case by (cases x) auto
qed (simp split: if_splits)

lemma index_byte_None: "index_byte s d = None \<longleftrightarrow> d \<notin> set s"
  by (induction s) auto

lemma index_byte_Some: "index_byte s d = Some i \<Longrightarrow> d \<notin> set (take i s) \<and> i < length s \<and> s ! i = d"
  by (induction s arbitrary: i) (auto split: if_splits)

lemma index_byte_append: "d \<notin> set s \<Longrightarrow> index_byte (s @ d # t) d = Some (length s)"
  by (induction s) auto

end
