(* ===== verification/Errors.thy ===== *)
theory Errors
  imports GoStrings
begin

text \<open>
  Errors of the module (errors.go): the sentinel errors, \<open>ConfigError\<close>,
  \<open>UnsupportedFeatureError\<close>, the aggregate \<open>configErrors\<close>, and Go's error chains.
  An error built by \<open>fmt.Errorf\<close> with \<open>%w\<close> verbs is \<open>Errorf\<close> with the wrapped errors in
  order, \<open>errors.Join\<close> is \<open>Joined\<close>; \<open>errors_is\<close> and \<open>err_find\<close> walk a chain the way
  \<open>errors.Is\<close> and \<open>errors.As\<close> do, in depth-first pre-order.
\<close>

datatype goerr =
    ErrInvalidConfiguration
  | ErrAlreadyStarted
  | ErrAlreadyStopped
  | ErrNotStarted
  | ErrNotRegistered
  | ErrConsulUnavailable
  | ErrRegistrationFailed
  | ErrDeregistrationFailed
  | ErrUnsupportedFeature
  | ErrServiceNotFound
  | ErrClosed
  | ErrAddressNotFound
  | ErrNoAddress
  | ErrNoName
  | ErrServiceLost
  | ErrRequired
  | ErrInvalid
  | CtxCanceled
  | CtxDeadlineExceeded
  | StatusError int string
  | ConfigError string string
  | UnsupportedFeatureError string string string
  | ConfigErrors "(string \<times> string) list"
  | BindError string string goerr
  | PermanentError goerr
  | Errorf string "goerr list"
  | Joined "goerr list"
  | Opaque string

type_synonym 'a res = "(goerr, 'a) outcome"

subsection \<open>Chains\<close>

text \<open>The \<open>Is\<close> methods of the two structured errors.\<close>

fun is_method :: "goerr \<Rightarrow> goerr \<Rightarrow> bool" where
  "is_method (ConfigError f r) target = (target = ErrInvalidConfiguration)"
| "is_method (UnsupportedFeatureError f r a) target = (target = ErrUnsupportedFeature)"
| "is_method _ target = False"

fun errors_is :: "goerr \<Rightarrow> goerr \<Rightarrow> bool" where
  "errors_is (Errorf m es) t = (Errorf m es = t \<or> list_ex (\<lambda>e. errors_is e t) es)"
| "errors_is (Joined es) t = (Joined es = t \<or> list_ex (\<lambda>e. errors_is e t) es)"
| "errors_is (ConfigErrors cs) t =
     (ConfigErrors cs = t \<or> list_ex (\<lambda>(f, r). ConfigError f r = t \<or> is_method (ConfigError f r) t) cs)"
| "errors_is (BindError k ty e) t = (BindError k ty e = t \<or> errors_is e t)"
| "errors_is (PermanentError e) t = (PermanentError e = t \<or> errors_is e t)"
| "errors_is e t = (e = t \<or> is_method e t)"

definition orelse :: "'a option \<Rightarrow> 'a option \<Rightarrow> 'a option" where
  "orelse a b = (case a of None \<Rightarrow> b | Some x \<Rightarrow> Some x)"

lemma orelse_simps [simp]: "orelse None b = b" "orelse (Some x) b = Some x"
  by (simp_all add: orelse_def)

fun first_some :: "'a option list \<Rightarrow> 'a option" where
  "first_some [] = None"
| "first_some (a # as) = orelse a (first_some as)"

fun err_find :: "(goerr \<Rightarrow> 'a option) \<Rightarrow> goerr \<Rightarrow> 'a option" where
  "err_find f (Errorf m es) = orelse (f (Errorf m es)) (first_some (map (err_find f) es))"
| "err_find f (Joined es) = orelse (f (Joined es)) (first_some (map (err_find f) es))"
| "err_find f (ConfigErrors cs) =
     orelse (f (ConfigErrors cs)) (first_some (map (\<lambda>(a, b). f (ConfigError a b)) cs))"
| "err_find f (BindError k ty e) = orelse (f (BindError k ty e)) (err_find f e)"
| "err_find f (PermanentError e) = orelse (f (PermanentError e)) (err_find f e)"
| "err_find f e = f e"

definition as_status :: "goerr \<Rightarrow> int option" where
  "as_status = err_find (\<lambda>e. case e of StatusError c b \<Rightarrow> Some c | _ \<Rightarrow> None)"

definition as_permanent :: "goerr \<Rightarrow> goerr option" where
  "as_permanent = err_find (\<lambda>e. case e of PermanentError i \<Rightarrow> Some i | _ \<Rightarrow> None)"

text \<open>\<open>errors.Join\<close> drops nil errors and is nil when nothing is left.\<close>

definition errors_join :: "goerr option list \<Rightarrow> goerr option" where
  "errors_join es =
     (case List.map_filter (\<lambda>e. e) es of [] \<Rightarrow> None | xs \<Rightarrow> Some (Joined xs))"

subsection \<open>Messages\<close>

definition config_error_message :: "string \<Rightarrow> string \<Rightarrow> string" where
  "config_error_message field reason =
     ''consulx: invalid configuration: '' @ field @ '': '' @ reason"

definition unsupported_message :: "string \<Rightarrow> string \<Rightarrow> string \<Rightarrow> string" where
  "unsupported_message feature requirement agent =
     ''consulx: unsupported feature: '' @ feature @ '' requires '' @ requirement @ '', agent is '' @ agent"

definition config_errors_message :: "(string \<times> string) list \<Rightarrow> string" where
  "config_errors_message es =
     (case es of [(f, r)] \<Rightarrow> config_error_message f r
      | _ \<Rightarrow> ''consulx: invalid configuration: '' @ itoa (int (length es)) @ '' problems:'' @
             concat (map (\<lambda>(f, r). CHR 0x0A # ''  - '' @ f @ '': '' @ r) es))"

definition err_or_nil :: "(string \<times> string) list \<Rightarrow> goerr option" where
  "err_or_nil es = (if es = [] then None else Some (ConfigErrors es))"

subsection \<open>Facts\<close>

lemma errors_is_refl [simp]: "errors_is e e"
  by (cases e) simp_all

lemma errors_is_Errorf: "e \<in> set es \<Longrightarrow> errors_is e t \<Longrightarrow> errors_is (Errorf m es) t"
  by (auto simp: list_ex_iff)

lemma errors_is_Joined: "e \<in> set es \<Longrightarrow> errors_is e t \<Longrightarrow> errors_is (Joined es) t"
  by (auto simp: list_ex_iff)

lemma first_some_None: "first_some xs = None \<longleftrightarrow> (\<forall>x\<in>set xs. x = None)"
  by (induction xs) (auto simp: orelse_def split: option.splits)

lemma errors_join_None: "errors_join es = None \<longleftrightarrow> (\<forall>e\<in>set es. e = None)"
  by (induction es) (auto simp: errors_join_def List.map_filter_simps split: list.splits option.splits)

lemma errors_join_is:
  "Some e \<in> set es \<Longrightarrow> errors_is e t \<Longrightarrow> \<exists>j. errors_join es = Some j \<and> errors_is j t"
proof -
  assume e: "Some e \<in> set es" "errors_is e t"
  then have m: "e \<in> set (List.map_filter (\<lambda>e. e) es)"
    by (induction es) (auto simp: List.map_filter_simps split: option.splits)
  then obtain x xs where x: "List.map_filter (\<lambda>e. e) es = x # xs" by (cases "List.map_filter (\<lambda>e. e) es") auto
  with m e(2) have "errors_is (Joined (x # xs)) t" by (metis errors_is_Joined)
  with x show ?thesis by (simp add: errors_join_def)
qed

lemma config_errors_is_invalid: "cs \<noteq> [] \<Longrightarrow> errors_is (ConfigErrors cs) ErrInvalidConfiguration"
  by (cases cs) auto

end
