(* ===== verification/Backoff.thy ===== *)
theory Backoff
  imports GoFloat Errors
begin

text \<open>
  internal/backoff: the capped exponential policy and the retry loop.
  \<open>next_delay\<close> is \<open>Policy.NextDelay\<close> with \<open>float64\<close> arithmetic as in \<open>GoFloat\<close>. Its parameters
  are \<open>math.Pow\<close>, the result of an out-of-range conversion, and the value the random source
  returned. \<open>retry_loop\<close> is \<open>Retry\<close>; the outcome of each call of \<open>fn\<close>, the state of the
  context, the clock and the interruption of a wait come from an environment indexed by the
  attempt. A loop that never ends is \<open>None\<close>. \<open>equal_jitter\<close> has the delays, \<open>retry_contract\<close> every way the
  loop can finish.
\<close>

record policy =
  p_Initial :: duration
  p_Max :: duration
  p_Multiplier :: f64
  p_Jitter :: bool
  p_MaxAttempts :: int

definition uncapped_delay :: "(f64 \<Rightarrow> f64 \<Rightarrow> f64) \<Rightarrow> policy \<Rightarrow> int \<Rightarrow> f64" where
  "uncapped_delay pow p attempt =
     fmul (f64_of_int (p_Initial p))
          (pow (fmax (p_Multiplier p) (Fin 1)) (f64_of_int (attempt - 1)))"

definition capped_delay :: "(f64 \<Rightarrow> f64 \<Rightarrow> f64) \<Rightarrow> policy \<Rightarrow> int \<Rightarrow> f64" where
  "capped_delay pow p attempt =
     (let d = uncapped_delay pow p attempt
      in if 0 < p_Max p \<and> (fless (f64_of_int (p_Max p)) d \<or> d = PosInf \<or> d = NegInf \<or> d = NaN)
         then f64_of_int (p_Max p) else d)"

definition jittered :: "f64 \<Rightarrow> f64 \<Rightarrow> f64" where
  "jittered r d = fadd (fdiv d (Fin 2)) (fdiv (fmul r d) (Fin 2))"

definition next_delay ::
  "(f64 \<Rightarrow> f64 \<Rightarrow> f64) \<Rightarrow> (f64 \<Rightarrow> int) \<Rightarrow> f64 \<Rightarrow> policy \<Rightarrow> int \<Rightarrow> duration \<times> bool" where
  "next_delay pow oob r p attempt0 =
     (let attempt = (if attempt0 < 1 then 1 else attempt0)
      in if 0 < p_MaxAttempts p \<and> p_MaxAttempts p \<le> attempt then (0, False)
         else let d = capped_delay pow p attempt;
                  j = (if p_Jitter p \<and> fless (Fin 0) d then jittered r d else d)
              in (f64_to_int64 oob j, True))"

subsection \<open>Bounds of the delay\<close>

text \<open>\<open>math.Pow\<close> of a base of at least 1 and an exponent of at least 0 is at least 1, or not a number.\<close>

definition pow_ok :: "(f64 \<Rightarrow> f64 \<Rightarrow> f64) \<Rightarrow> bool" where
  "pow_ok pow \<longleftrightarrow>
     (\<forall>x y. \<not> fless x (Fin 1) \<longrightarrow> \<not> fless y (Fin 0) \<longrightarrow> \<not> fless (pow x y) (Fin 1))"

definition policy_ok :: "policy \<Rightarrow> bool" where
  "policy_ok p \<longleftrightarrow> 1 \<le> p_Initial p \<and> p_Initial p \<le> p_Max p \<and> p_Max p \<le> 2 ^ 53"

lemma fmax_one_ge: "\<not> fless (fmax m (Fin 1)) (Fin 1)"
  by (cases m) (auto simp: fmax_def)

lemma f64_of_nonneg: "0 \<le> n \<Longrightarrow> \<not> fless (f64_of_int n) (Fin 0)"
  using binary64.rnd_nonneg [of "of_int n"] by (auto simp: f64_of_int_def to_f64_def Let_def)

lemma uncapped_delay_ge:
  assumes "pow_ok pow" "policy_ok p" "1 \<le> a"
  shows "(\<exists>x. uncapped_delay pow p a = Fin x \<and> representable x \<and> of_int (p_Initial p) \<le> x)
         \<or> uncapped_delay pow p a = PosInf \<or> uncapped_delay pow p a = NaN"
proof -
  define b where "b = pow (fmax (p_Multiplier p) (Fin 1)) (f64_of_int (a - 1))"
  have b: "\<not> fless b (Fin 1)"
    using assms(1,3) fmax_one_ge f64_of_nonneg [of "a - 1"] unfolding pow_ok_def b_def by simp
  let ?I = "of_int (p_Initial p) :: rat"
  have I: "f64_of_int (p_Initial p) = Fin ?I" "1 \<le> ?I" "representable ?I"
    using assms(2) by (auto simp: policy_ok_def f64_of_int_exact representable_int)
  have u: "uncapped_delay pow p a = fmul (Fin ?I) b"
    by (simp add: uncapped_delay_def I b_def)
  show ?thesis
  proof (cases b)
    case (Fin y)
    with b have "?I * 1 \<le> ?I * y" using I(2) by (intro mult_left_mono) auto
    then have "?I \<le> rnd64 (?I * y)" using I(3) by (intro binary64.rnd_ge) simp_all
    moreover have "\<not> rnd64 (?I * y) \<le> - (2 ^ 1024)" using calculation I(2) by (simp add: not_le)
    ultimately show ?thesis using u Fin representable_rnd64 by (auto simp: to_f64_def Let_def)
  next
    case PosInf
    with u I(2) show ?thesis by (simp add: signed_inf_def is_neg_def)
  next
    case NegInf
    with b show ?thesis by simp
  next
    case NaN
    with u show ?thesis by simp
  qed
qed

lemma capped_delay_bounds:
  assumes "pow_ok pow" "policy_ok p" "1 \<le> a"
  obtains x where "capped_delay pow p a = Fin x" "representable x"
    "of_int (p_Initial p) \<le> x" "x \<le> of_int (p_Max p)"
proof -
  have M: "f64_of_int (p_Max p) = Fin (of_int (p_Max p))" "representable (of_int (p_Max p))"
    "(of_int (p_Initial p) :: rat) \<le> of_int (p_Max p)" "0 < p_Max p"
    using assms(2) by (auto simp: policy_ok_def f64_of_int_exact representable_int)
  from uncapped_delay_ge [OF assms] that show thesis
  proof (elim disjE exE conjE)
    fix x assume x: "uncapped_delay pow p a = Fin x" "representable x" "of_int (p_Initial p) \<le> x"
    show thesis
    proof (cases "of_int (p_Max p) < x")
      case True
      with x M show thesis by (intro that [of "of_int (p_Max p)"]) (simp_all add: capped_delay_def)
    next
      case False
      with x M show thesis by (intro that [of x]) (simp_all add: capped_delay_def)
    qed
  qed (use M in \<open>auto simp: capped_delay_def intro: that\<close>)
qed

lemma f64_to_int64_Fin:
  "1 \<le> x \<Longrightarrow> x \<le> of_int m \<Longrightarrow> m \<le> 2 ^ 53 \<Longrightarrow> f64_to_int64 oob (Fin x) = floor x"
proof -
  assume x: "1 \<le> x" "x \<le> of_int m" "m \<le> 2 ^ 53"
  then have "1 \<le> floor x" "floor x \<le> m" by linarith+
  with x show ?thesis by (simp add: f64_to_int64_def ftrunc_def in64_def)
qed

lemma jittered_bounds:
  assumes "representable x" "1 \<le> x" "x \<le> 2 ^ 53" "0 \<le> r" "r \<le> 1"
  obtains y where "jittered (Fin r) (Fin x) = Fin y" "x / 2 \<le> y" "y \<le> x"
proof -
  have big: "(2::rat) ^ 53 < 2 ^ 1024" by simp
  have h: "rnd64 (x / 2) = x / 2" using assms by (simp add: rnd64_representable representable_half)
  have n: "0 \<le> rnd64 (r * x)" using assms by (simp add: binary64.rnd_nonneg)
  have "r * x \<le> x" using assms by (simp add: mult_left_le_one_le)
  then have l: "rnd64 (r * x) \<le> x" using assms(1) by (rule binary64.rnd_le [rotated])
  have q0: "0 \<le> rnd64 (rnd64 (r * x) / 2)" using n by (simp add: binary64.rnd_nonneg)
  have q1: "rnd64 (rnd64 (r * x) / 2) \<le> x"
    using l n assms(1) by (intro binary64.rnd_le) simp_all
  note e = binary64.rnd_half_plus [OF assms(1,2,4,5)]
  have f: "fmul (Fin r) (Fin x) = Fin (rnd64 (r * x))"
    using n l assms(3) big by (simp add: to_f64_small abs_less_iff)
  have g: "fdiv (Fin x) (Fin 2) = Fin (x / 2)"
    using assms(2,3) big by (simp add: to_f64_small h abs_less_iff)
  have k: "fdiv (Fin (rnd64 (r * x))) (Fin 2) = Fin (rnd64 (rnd64 (r * x) / 2))"
    using q0 q1 assms(3) big by (simp add: to_f64_small abs_less_iff)
  define y where "y = rnd64 (x / 2 + rnd64 (rnd64 (r * x) / 2))"
  have y: "x / 2 \<le> y" "y \<le> x" using e by (simp_all add: y_def h)
  have j: "jittered (Fin r) (Fin x) = Fin y"
    using y assms(2,3) big unfolding jittered_def f g k
    by (simp add: to_f64_small abs_less_iff flip: y_def)
  from that [OF j y] show thesis .
qed

lemma floor_half: "floor x div 2 \<le> floor (x / 2 :: rat)"
  by linarith

text \<open>The delay of a granted retry as a value, with and without jitter.\<close>

lemma plain_delay:
  assumes "pow_ok pow" "policy_ok p" "1 \<le> n"
  obtains x where "capped_delay pow p n = Fin x" "representable x" "1 \<le> x" "x \<le> 2 ^ 53"
    "\<forall>oob. f64_to_int64 oob (Fin x) = floor x" "p_Initial p \<le> floor x" "floor x \<le> p_Max p"
proof -
  obtain x where x: "capped_delay pow p n = Fin x" "representable x"
      "of_int (p_Initial p) \<le> x" "x \<le> of_int (p_Max p)"
    using capped_delay_bounds [OF assms] .
  have I: "1 \<le> p_Initial p" "p_Max p \<le> 2 ^ 53" using assms(2) by (auto simp: policy_ok_def)
  have x1: "1 \<le> x" using x(3) I(1) by linarith
  have "of_int (p_Max p) \<le> (of_int (2 ^ 53) :: rat)" using I(2) by (simp only: of_int_le_iff)
  then have x2: "x \<le> 2 ^ 53" using x(4) by simp
  have "p_Initial p \<le> floor x" "floor x \<le> p_Max p" using x by linarith+
  moreover have "\<forall>oob. f64_to_int64 oob (Fin x) = floor x"
    using f64_to_int64_Fin [OF x1 x(4) I(2)] by blast
  ultimately show thesis using that [OF x(1,2) x1 x2] by blast
qed

lemma jittered_delay:
  assumes "representable x" "1 \<le> x" "x \<le> 2 ^ 53" "0 \<le> r" "r \<le> 1"
  obtains d where "\<forall>oob. f64_to_int64 oob (jittered (Fin r) (Fin x)) = d" "floor x div 2 \<le> d" "d \<le> floor x"
proof -
  obtain y where y: "jittered (Fin r) (Fin x) = Fin y" "x / 2 \<le> y" "y \<le> x"
    using jittered_bounds [OF assms] .
  have "x \<le> of_int (2 ^ 53)" using assms(3) by simp
  then have f: "0 \<le> floor y" "floor y \<le> floor x" "floor x div 2 \<le> floor y" "floor x \<le> 2 ^ 53"
    using y assms(2) by (linarith, linarith, linarith, simp only: floor_le_iff)
  then have "f64_to_int64 oob (Fin y) = floor y" for oob
    using y assms(2) by (simp add: f64_to_int64_def ftrunc_def in64_def)
  with y(1) f that show thesis by metis
qed

text \<open>A granted delay lies between half the initial delay and the maximum.\<close>

lemma next_delay_bounds:
  assumes "pow_ok pow" "policy_ok p" "0 \<le> r" "r \<le> 1"
    and "next_delay pow oob (Fin r) p a = (d, True)"
  shows "p_Initial p div 2 \<le> d" "d \<le> p_Max p"
proof -
  have n: "1 \<le> (if a < 1 then 1 else a)" by simp
  obtain x where
    x: "capped_delay pow p (if a < 1 then 1 else a) = Fin x" "representable x" "1 \<le> x" "x \<le> 2 ^ 53"
    "\<forall>oob. f64_to_int64 oob (Fin x) = floor x" "p_Initial p \<le> floor x" "floor x \<le> p_Max p"
    using plain_delay [OF assms(1,2) n] .
  obtain e where e: "\<forall>oob. f64_to_int64 oob (jittered (Fin r) (Fin x)) = e" "floor x div 2 \<le> e" "e \<le> floor x"
    using jittered_delay [OF x(2,3,4) assms(3,4)] .
  have "1 \<le> p_Initial p" using assms(2) by (simp add: policy_ok_def)
  moreover have "d = (if p_Jitter p then e else floor x)"
    using assms(5) x(1,3,5) e(1) by (auto simp: next_delay_def Let_def split: if_splits)
  ultimately show "p_Initial p div 2 \<le> d" "d \<le> p_Max p" using x(6,7) e(2,3) by (auto split: if_splits)
qed

lemma next_delay_exhausted:
  "0 < p_MaxAttempts p \<Longrightarrow> p_MaxAttempts p \<le> a \<Longrightarrow> snd (next_delay pow oob r p a) = False"
  by (auto simp: next_delay_def Let_def)

text \<open>
  \<open>math.Pow\<close> of a whole base of at least 1 and a whole exponent of at least 0: exact where the power is at most
  \<open>2 ^ 53\<close>, and not below that otherwise.
\<close>

definition pow_exact :: "(f64 \<Rightarrow> f64 \<Rightarrow> f64) \<Rightarrow> bool" where
  "pow_exact pow \<longleftrightarrow>
     (\<forall>k j. 1 \<le> k \<longrightarrow>
        (if k ^ j \<le> 2 ^ 53 then pow (Fin (of_int k)) (Fin (of_nat j)) = Fin (of_int (k ^ j))
         else \<not> fless (pow (Fin (of_int k)) (Fin (of_nat j))) (Fin (2 ^ 53))))"

lemma capped_at_max:
  assumes "policy_ok p" "\<not> fless (uncapped_delay pow p n) (Fin (of_int (p_Max p)))"
  shows "capped_delay pow p n = Fin (of_int (p_Max p))"
  using assms by (cases "uncapped_delay pow p n") (auto simp: capped_delay_def policy_ok_def f64_of_int_exact)

lemma product_beyond:
  assumes "1 \<le> I" "I \<le> 2 ^ 53" "\<not> fless b (Fin 1)" "2 ^ 53 \<le> of_int I * y \<or> b \<noteq> Fin y"
    and "\<And>z. b = Fin z \<Longrightarrow> z = y \<or> 2 ^ 53 \<le> z"
  shows "\<not> fless (fmul (Fin (of_int I)) b) (Fin (2 ^ 53))"
proof (cases b)
  case (Fin z)
  have "2 ^ 53 \<le> of_int I * z"
  proof (cases "z = y")
    case True
    then show ?thesis using assms(4) Fin by simp
  next
    case False
    then have "(1::rat) * 2 ^ 53 \<le> of_int I * z" using assms(1,5) Fin by (intro mult_mono) auto
    then show ?thesis by simp
  qed
  then have "2 ^ 53 \<le> rnd64 (of_int I * z)"
    using representable_int [of "2 ^ 53"] by (intro binary64.rnd_ge) simp_all
  then show ?thesis using Fin by (auto simp: to_f64_def Let_def)
next
  case PosInf
  then show ?thesis using assms(1) by (simp add: signed_inf_def is_neg_def)
qed (use assms(3) in auto)

text \<open>With a whole multiplier the delay is the capped power, without rounding.\<close>

lemma capped_power:
  assumes "pow_ok pow" "pow_exact pow" "policy_ok p" "1 \<le> n" "n \<le> 2 ^ 53"
    and "fmax (p_Multiplier p) (Fin 1) = Fin (of_int k)"
  shows "capped_delay pow p n = Fin (of_int (min (p_Initial p * k ^ nat (n - 1)) (p_Max p)))"
proof -
  let ?j = "nat (n - 1)" and ?I = "p_Initial p" and ?M = "p_Max p"
  have k: "1 \<le> k" using fmax_one_ge [of "p_Multiplier p"] assms(6) by simp
  have I: "1 \<le> ?I" "?I \<le> ?M" "?M \<le> 2 ^ 53" using assms(3) by (auto simp: policy_ok_def)
  define b where "b = pow (Fin (of_int k)) (Fin (of_nat ?j))"
  have "f64_of_int (n - 1) = Fin (of_nat ?j)" using assms(4,5) by (simp add: f64_of_int_exact)
  then have u: "uncapped_delay pow p n = fmul (Fin (of_int ?I)) b"
    using I by (simp add: uncapped_delay_def assms(6) b_def f64_of_int_exact)
  have b: "if k ^ ?j \<le> 2 ^ 53 then b = Fin (of_int (k ^ ?j)) else \<not> fless b (Fin (2 ^ 53))"
    using assms(2) k unfolding pow_exact_def b_def by blast
  show ?thesis
  proof (cases "?I * k ^ ?j \<le> 2 ^ 53")
    case True
    have "1 * k ^ ?j \<le> ?I * k ^ ?j" using I(1) k by (intro mult_right_mono) auto
    then have "b = Fin (of_int (k ^ ?j))" using b True by simp
    then have "uncapped_delay pow p n = to_f64 (of_int (?I * k ^ ?j))" unfolding u by simp
    also have "\<dots> = Fin (of_int (?I * k ^ ?j))"
      using True I(1) k f64_of_int_exact [of "?I * k ^ ?j"] by (simp add: f64_of_int_def)
    finally show ?thesis
      using I by (auto simp: capped_delay_def f64_of_int_exact min_def simp del: of_int_mult of_int_power)
  next
    case False
    have "\<not> fless (fmul (Fin (of_int ?I)) b) (Fin (2 ^ 53))"
    proof (cases "k ^ ?j \<le> 2 ^ 53")
      case True
      have "of_int (2 ^ 53) \<le> (of_int (?I * k ^ ?j) :: rat)" using False by (simp only: of_int_le_iff)
      moreover have "1 \<le> k ^ ?j" using k by simp
      then have "\<not> fless b (Fin 1)" using True b by (simp del: of_int_power)
      ultimately show ?thesis
        using True b I by (intro product_beyond [of _ _ "of_int (k ^ ?j)"]) auto
    next
      case beyond: False
      have "of_int 1 * 2 ^ 53 \<le> of_int ?I * (2 ^ 53 :: rat)" using I(1) by (intro mult_right_mono) (simp_all only: of_int_le_iff, simp)
      moreover have "\<not> fless b (Fin 1)" using beyond b by (cases b) auto
      ultimately show ?thesis
        using beyond b I by (intro product_beyond [of _ _ "2 ^ 53"]) (auto simp: not_less)
    qed
    moreover have "of_int ?M \<le> (of_int (2 ^ 53) :: rat)" using I(3) by (simp only: of_int_le_iff)
    ultimately have "\<not> fless (uncapped_delay pow p n) (Fin (of_int ?M))"
      unfolding u by (cases "fmul (Fin (of_int ?I)) b") auto
    then show ?thesis using capped_at_max [OF assms(3)] False I by (simp add: min_def)
  qed
qed

text \<open>
  C34: equal jitter. For a valid policy, an attempt is granted exactly when \<open>MaxAttempts\<close> is not
  positive or not reached by it. The delay of a granted attempt with jitter lies between half of the delay without
  jitter and that delay (truncated to nanoseconds), which itself lies between the initial and the maximal delay
  and, for a whole multiplier, is the initial delay times the multiplier to the power of the attempts before,
  or the maximal delay if that is smaller. So a wait never collapses towards zero and never exceeds the cap.
\<close>

theorem equal_jitter:
  assumes "pow_ok pow" "pow_exact pow" "policy_ok p" "0 \<le> r" "r \<le> 1"
  shows "(let granted = (p_MaxAttempts p \<le> 0 \<or> max 1 a < p_MaxAttempts p)
    in snd (next_delay pow oob (Fin r) p a) = granted \<and>
       (granted \<longrightarrow>
         (\<exists>D d. next_delay pow oob (Fin r) (p\<lparr>p_Jitter := False\<rparr>) a = (D, True) \<and>
            next_delay pow oob (Fin r) (p\<lparr>p_Jitter := True\<rparr>) a = (d, True) \<and>
            D div 2 \<le> d \<and> d \<le> D \<and> p_Initial p \<le> D \<and> D \<le> p_Max p \<and>
            (\<forall>k. fmax (p_Multiplier p) (Fin 1) = Fin (of_int k) \<and> a \<le> 2 ^ 53 \<longrightarrow>
               D = min (p_Initial p * k ^ nat (max 1 a - 1)) (p_Max p)))))"
proof -
  define n where "n = max 1 a"
  have n: "1 \<le> n" "(if a < 1 then 1 else a) = n" by (auto simp: n_def)
  obtain x where
    x: "capped_delay pow p n = Fin x" "representable x" "1 \<le> x" "x \<le> 2 ^ 53"
    "\<forall>oob. f64_to_int64 oob (Fin x) = floor x" "p_Initial p \<le> floor x" "floor x \<le> p_Max p"
    using plain_delay [OF assms(1,3) n(1)] .
  obtain e where e: "\<forall>oob. f64_to_int64 oob (jittered (Fin r) (Fin x)) = e" "floor x div 2 \<le> e" "e \<le> floor x"
    using jittered_delay [OF x(2,3,4) assms(4,5)] .
  have same: "capped_delay pow (p\<lparr>p_Jitter := j\<rparr>) n = capped_delay pow p n" for n j
    by (simp add: capped_delay_def uncapped_delay_def cong: if_cong)
  have "floor x = min (p_Initial p * k ^ nat (n - 1)) (p_Max p)"
    if "fmax (p_Multiplier p) (Fin 1) = Fin (of_int k)" "a \<le> 2 ^ 53" for k
    using capped_power [OF assms(1-3) n(1) _ that(1)] that(2) x(1) by (auto simp: n_def)
  then show ?thesis
    using x e unfolding n_def [symmetric]
    by (auto simp: next_delay_def n(2) same Let_def)
qed

definition sample_pow :: "f64 \<Rightarrow> f64 \<Rightarrow> f64" where
  "sample_pow x y =
     (case (x, y) of
        (Fin a, Fin b) \<Rightarrow>
          let k = floor a; j = nat (floor b)
          in if a = of_int k \<and> b = of_nat j \<and> 1 \<le> k \<and> k ^ j \<le> 2 ^ 53 then Fin (of_int (k ^ j)) else PosInf
      | _ \<Rightarrow> PosInf)"

definition sample_policy :: policy where
  "sample_policy = \<lparr>p_Initial = 4, p_Max = 10, p_Multiplier = Fin 2, p_Jitter = True, p_MaxAttempts = 5\<rparr>"

lemma sample_policy_ok: "pow_ok sample_pow" "pow_exact sample_pow" "policy_ok sample_policy"
proof -
  have "1 \<le> k \<Longrightarrow> \<not> of_int (k ^ j) < (1 :: rat)" for k :: int and j
    by (simp add: not_less)
  then show "pow_ok sample_pow"
    by (auto simp: pow_ok_def sample_pow_def Let_def simp del: of_int_power split: f64.split)
qed (auto simp: pow_exact_def sample_pow_def policy_ok_def sample_policy_def Let_def)

theorem equal_jitter_witness:
  "(\<exists>d. next_delay sample_pow (\<lambda>_. 0) (Fin (1 / 2)) sample_policy 2 = (d, True) \<and> 4 \<le> d \<and> d \<le> 8) \<and>
   \<not> snd (next_delay sample_pow (\<lambda>_. 0) (Fin (1 / 2)) sample_policy 5)"
proof -
  note t = equal_jitter [OF sample_policy_ok, of "1 / 2" _ "\<lambda>_. 0", simplified]
  have m: "fmax (p_Multiplier sample_policy) (Fin 1) = Fin (of_int 2)" by (simp add: sample_policy_def fmax_def)
  have j: "sample_policy\<lparr>p_Jitter := True\<rparr> = sample_policy" by (simp add: sample_policy_def)
  have p: "p_Initial sample_policy = 4" "p_Max sample_policy = 10" "p_MaxAttempts sample_policy = 5"
    by (simp_all add: sample_policy_def)
  show ?thesis using t [of 2] t [of 5] m by (auto simp: p j)
qed

subsection \<open>The retry loop\<close>

text \<open>
  What the loop observes: the result of the \<open>k\<close>-th call of \<open>fn\<close>, \<open>ctx.Err\<close> after it,
  \<open>time.Since(start)\<close>, and whether the context ended first in the wait after it.
\<close>

record retry_env =
  re_fn :: "int \<Rightarrow> goerr option"
  re_ctx :: "int \<Rightarrow> goerr option"
  re_since :: "int \<Rightarrow> duration"
  re_race :: "int \<Rightarrow> goerr option"

definition Permanent :: "goerr option \<Rightarrow> goerr option" where
  "Permanent err = (case err of None \<Rightarrow> None | Some e \<Rightarrow> Some (PermanentError e))"

text \<open>\<open>Sleep\<close>: \<open>now\<close> is \<open>ctx.Err()\<close> at the call, \<open>race\<close> the context error if it ends before the timer.\<close>

definition sleep :: "goerr option \<Rightarrow> goerr option \<Rightarrow> duration \<Rightarrow> goerr option" where
  "sleep now race d = (if d \<le> 0 then now else race)"

type_synonym retry_log = "(int \<times> duration \<times> goerr) list"
type_synonym retry_result = "goerr option \<times> retry_log \<times> int"

definition retry_aborted :: "goerr \<Rightarrow> goerr \<Rightarrow> goerr" where
  "retry_aborted err cerr = Errorf ''retry aborted'' [err, cerr]"

partial_function (option) retry_loop ::
  "('p \<Rightarrow> int \<Rightarrow> duration \<times> bool) \<Rightarrow> 'p \<Rightarrow> duration \<Rightarrow> retry_env \<Rightarrow> int \<Rightarrow> retry_log \<Rightarrow> retry_result option"
where
  "retry_loop nd p maxElapsed env n seen =
     (case re_fn env n of
        None \<Rightarrow> Some (None, seen, n)
      | Some err \<Rightarrow>
        (case as_permanent err of
           Some inner \<Rightarrow> Some (Some inner, seen, n)
         | None \<Rightarrow>
           (case re_ctx env n of
              Some cerr \<Rightarrow> Some (Some (retry_aborted err cerr), seen, n)
            | None \<Rightarrow>
              (if \<not> snd (nd p n) then Some (Some err, seen, n)
               else if 0 < maxElapsed \<and> maxElapsed < wrap64 (re_since env n + fst (nd p n))
               then Some (Some err, seen, n)
               else
                 (case sleep (re_ctx env n) (re_race env n) (fst (nd p n)) of
                    Some werr \<Rightarrow> Some (Some (retry_aborted err werr), seen @ [(n, fst (nd p n), err)], n)
                  | None \<Rightarrow>
                    retry_loop nd p maxElapsed env (n + 1) (seen @ [(n, fst (nd p n), err)]))))))"

definition retry ::
  "('p \<Rightarrow> int \<Rightarrow> duration \<times> bool) \<Rightarrow> 'p \<Rightarrow> duration \<Rightarrow> retry_env \<Rightarrow> retry_result option" where
  "retry nd p maxElapsed env = retry_loop nd p maxElapsed env 1 []"

text \<open>An attempt after which the loop goes on, and one after which it ends.\<close>

definition goes_on :: "('p \<Rightarrow> int \<Rightarrow> duration \<times> bool) \<Rightarrow> 'p \<Rightarrow> duration \<Rightarrow> retry_env \<Rightarrow> int \<Rightarrow> bool" where
  "goes_on nd p maxElapsed env n \<longleftrightarrow>
     (\<exists>err. re_fn env n = Some err \<and> as_permanent err = None) \<and> re_ctx env n = None \<and> snd (nd p n) \<and>
     \<not> (0 < maxElapsed \<and> maxElapsed < wrap64 (re_since env n + fst (nd p n))) \<and>
     sleep (re_ctx env n) (re_race env n) (fst (nd p n)) = None"

definition log_entry :: "('p \<Rightarrow> int \<Rightarrow> duration \<times> bool) \<Rightarrow> 'p \<Rightarrow> retry_env \<Rightarrow> int \<Rightarrow> int \<times> duration \<times> goerr" where
  "log_entry nd p env n = (n, fst (nd p n), the (re_fn env n))"

lemma retry_loop_goes_on:
  "goes_on nd p m env n \<Longrightarrow>
     retry_loop nd p m env n seen = retry_loop nd p m env (n + 1) (seen @ [log_entry nd p env n])"
  by (subst retry_loop.simps) (auto simp: goes_on_def log_entry_def)

lemma retry_loop_stops:
  "\<not> goes_on nd p m env n \<Longrightarrow>
     \<exists>res seen'. retry_loop nd p m env n seen = Some (res, seen', n) \<and>
       (seen' = seen \<or> seen' = seen @ [log_entry nd p env n] \<and> snd (nd p n)) \<and>
       (case re_fn env n of None \<Rightarrow> res = None
        | Some err \<Rightarrow> (case as_permanent err of Some i \<Rightarrow> res = Some i
                       | None \<Rightarrow> \<exists>e. res = Some e \<and> (\<forall>t. errors_is err t \<longrightarrow> errors_is e t)))"
  by (subst retry_loop.simps)
    (auto simp: goes_on_def log_entry_def retry_aborted_def split: option.splits)

lemma retry_loop_Some_stops:
  assumes ret: "retry_loop nd p m env n seen = Some r"
  shows "\<exists>k\<ge>n. \<not> goes_on nd p m env k"
proof (rule retry_loop.raw_induct
    [where P = "\<lambda>nd p m env n seen r. \<exists>k\<ge>n. \<not> goes_on nd p m env k", OF _ ret])
  fix f nd p m env n seen r
  assume IH: "\<And>nd p m env n seen r. f nd p m env n seen = Some r \<Longrightarrow> \<exists>k\<ge>n. \<not> goes_on nd p m env k"
    and eq: "(case re_fn env n of
        None \<Rightarrow> Some (None, seen, n)
      | Some err \<Rightarrow>
        (case as_permanent err of
           Some inner \<Rightarrow> Some (Some inner, seen, n)
         | None \<Rightarrow>
           (case re_ctx env n of
              Some cerr \<Rightarrow> Some (Some (retry_aborted err cerr), seen, n)
            | None \<Rightarrow>
              (if \<not> snd (nd p n) then Some (Some err, seen, n)
               else if 0 < m \<and> m < wrap64 (re_since env n + fst (nd p n))
               then Some (Some err, seen, n)
               else
                 (case sleep (re_ctx env n) (re_race env n) (fst (nd p n)) of
                    Some werr \<Rightarrow> Some (Some (retry_aborted err werr), seen @ [(n, fst (nd p n), err)], n)
                  | None \<Rightarrow> f nd p m env (n + 1) (seen @ [(n, fst (nd p n), err)])))))) = Some r"
  show "\<exists>k\<ge>n. \<not> goes_on nd p m env k"
  proof (cases "goes_on nd p m env n")
    case True
    with eq have "\<exists>s. f nd p m env (n + 1) s = Some r"
      by (auto simp: goes_on_def)
    then obtain k where "k \<ge> n + 1" "\<not> goes_on nd p m env k" using IH by blast
    then show ?thesis by (intro exI [of _ k]) simp
  qed blast
qed

lemma retry_loop_skip:
  "(\<forall>j\<in>{n..<n + int k}. goes_on nd p m env j) \<Longrightarrow>
     retry_loop nd p m env n seen =
     retry_loop nd p m env (n + int k) (seen @ map (log_entry nd p env) [n..n + int k - 1])"
proof (induction k arbitrary: n seen)
  case (Suc k)
  have "retry_loop nd p m env n seen = retry_loop nd p m env (n + 1) (seen @ [log_entry nd p env n])"
    using Suc.prems by (intro retry_loop_goes_on) simp
  also have "\<dots> = retry_loop nd p m env (n + 1 + int k)
      ((seen @ [log_entry nd p env n]) @ map (log_entry nd p env) [n + 1..n + 1 + int k - 1])"
    using Suc.prems by (intro Suc.IH) auto
  also have "(seen @ [log_entry nd p env n]) @ map (log_entry nd p env) [n + 1..n + 1 + int k - 1]
      = seen @ map (log_entry nd p env) [n..n + int (Suc k) - 1]"
    by (simp add: upto_rec1 [of n])
  finally show ?case by (simp add: algebra_simps)
qed simp

lemma retry_loop_end:
  "\<not> goes_on nd p m env n \<Longrightarrow>
     retry_loop nd p m env n before = Some (res, seen, k) \<longleftrightarrow> k = n \<and>
     (re_fn env n = None \<and> res = None \<and> seen = before \<or>
      (\<exists>err. re_fn env n = Some err \<and>
        ((\<exists>i. as_permanent err = Some i \<and> res = Some i \<and> seen = before) \<or>
         as_permanent err = None \<and>
          ((\<exists>c. re_ctx env n = Some c \<and> res = Some (retry_aborted err c) \<and> seen = before) \<or>
           re_ctx env n = None \<and>
            ((\<not> snd (nd p n) \<or> 0 < m \<and> m < wrap64 (re_since env n + fst (nd p n))) \<and> res = Some err \<and> seen = before \<or>
             (\<exists>w. snd (nd p n) \<and> (m \<le> 0 \<or> wrap64 (re_since env n + fst (nd p n)) \<le> m) \<and>
               0 < fst (nd p n) \<and> re_race env n = Some w \<and> res = Some (retry_aborted err w) \<and>
               seen = before @ [log_entry nd p env n]))))))"
  by (subst retry_loop.simps) (auto simp: goes_on_def log_entry_def sleep_def split: option.splits)

text \<open>The first attempt at which the loop ends decides the result and the notifications.\<close>

lemma retry_first_stop:
  assumes "1 \<le> n" "\<forall>j\<in>{1..<n}. goes_on nd p m env j" "\<not> goes_on nd p m env n"
  shows "\<exists>res seen. retry nd p m env = Some (res, seen, n) \<and>
     (seen = map (log_entry nd p env) [1..n - 1] \<or>
      seen = map (log_entry nd p env) [1..n] \<and> snd (nd p n)) \<and>
     (case re_fn env n of None \<Rightarrow> res = None
      | Some err \<Rightarrow> (case as_permanent err of Some i \<Rightarrow> res = Some i
                     | None \<Rightarrow> \<exists>e. res = Some e \<and> (\<forall>t. errors_is err t \<longrightarrow> errors_is e t)))"
proof -
  have "retry nd p m env = retry_loop nd p m env n (map (log_entry nd p env) [1..n - 1])"
    unfolding retry_def using retry_loop_skip [of 1 "nat (n - 1)" nd p m env "[]"] assms(1,2) by simp
  moreover have "map (log_entry nd p env) [1..n] = map (log_entry nd p env) [1..n - 1] @ [log_entry nd p env n]"
    using assms(1) by (simp add: upto_rec2)
  ultimately show ?thesis
    using retry_loop_stops [OF assms(3), of "map (log_entry nd p env) [1..n - 1]"] by auto
qed

lemma first_stop_exists:
  assumes "1 \<le> k" "\<not> goes_on nd p m env k"
  shows "\<exists>n. 1 \<le> n \<and> n \<le> k \<and> (\<forall>j\<in>{1..<n}. goes_on nd p m env j) \<and> \<not> goes_on nd p m env n"
proof -
  define P where "P i \<longleftrightarrow> \<not> goes_on nd p m env (1 + int i)" for i
  have Pk: "P (nat (k - 1))" using assms by (simp add: P_def)
  have "goes_on nd p m env j" if "j \<in> {1..<1 + int (LEAST i. P i)}" for j
  proof -
    have "nat (j - 1) < (LEAST i. P i)" using that by auto
    then have "\<not> P (nat (j - 1))" by (rule not_less_Least)
    with that show ?thesis by (simp add: P_def)
  qed
  moreover have "\<not> goes_on nd p m env (1 + int (LEAST i. P i))" using LeastI [of P, OF Pk] by (simp add: P_def)
  moreover have "(LEAST i. P i) \<le> nat (k - 1)" using Pk by (rule Least_le)
  ultimately show ?thesis using assms(1) by (intro exI [of _ "1 + int (LEAST i. P i)"]) auto
qed

lemma retry_Some:
  assumes "retry nd p m env = Some (res, seen, n)"
  shows "1 \<le> n" "\<forall>j\<in>{1..<n}. goes_on nd p m env j" "\<not> goes_on nd p m env n"
proof -
  from assms obtain k where "1 \<le> k" "\<not> goes_on nd p m env k"
    unfolding retry_def using retry_loop_Some_stops by fastforce
  then obtain n' where n': "1 \<le> n'" "\<forall>j\<in>{1..<n'}. goes_on nd p m env j" "\<not> goes_on nd p m env n'"
    using first_stop_exists by metis
  from retry_first_stop [OF n'] assms have "n' = n" by auto
  with n' show "1 \<le> n" "\<forall>j\<in>{1..<n}. goes_on nd p m env j" "\<not> goes_on nd p m env n" by auto
qed

subsection \<open>The Delayer interface\<close>

text \<open>
  What \<open>Retry\<close> and the watches rely on in a \<open>Delayer\<close> (discovery and kvconfig declare the same
  method set): a granted delay lies within the bounds of the delayer. A delayer with a limit
  grants nothing from the limit on.
\<close>

locale delayer =
  fixes nd :: "'p \<Rightarrow> int \<Rightarrow> duration \<times> bool"
    and valid :: "'p \<Rightarrow> bool"
    and lo :: "'p \<Rightarrow> duration"
    and hi :: "'p \<Rightarrow> duration"
  assumes granted: "valid p \<Longrightarrow> nd p a = (d, True) \<Longrightarrow> lo p \<le> d \<and> d \<le> hi p"
begin

lemma retry_waits:
  assumes "valid p" "retry nd p m env = Some (res, seen, n)" "(k, d, e) \<in> set seen"
  shows "lo p \<le> d" "d \<le> hi p"
proof -
  note r = retry_Some [OF assms(2)]
  have seen: "seen = map (log_entry nd p env) [1..n - 1] \<or>
      seen = map (log_entry nd p env) [1..n] \<and> snd (nd p n)"
    using retry_first_stop [OF r] assms(2) by auto
  have g: "j \<in> {1..n - 1} \<Longrightarrow> snd (nd p j)" for j
    using r(2) by (auto simp: goes_on_def)
  have "\<exists>j. d = fst (nd p j) \<and> snd (nd p j)"
  proof -
    from seen assms(3) obtain j where j: "(k, d, e) = log_entry nd p env j"
      "j \<in> {1..n - 1} \<or> j \<in> {1..n} \<and> snd (nd p n)" by auto
    then have "snd (nd p j)" using g [of j] by (cases "j = n") auto
    with j(1) show ?thesis by (auto simp: log_entry_def)
  qed
  then obtain j where "nd p j = (d, True)" by (metis prod.collapse)
  with granted [OF assms(1)] show "lo p \<le> d" "d \<le> hi p" by blast+
qed

end

locale limited_delayer = delayer +
  fixes limit :: "'a \<Rightarrow> int"
  assumes exhausted: "0 < limit p \<Longrightarrow> limit p \<le> a \<Longrightarrow> \<not> snd (nd p a)"
begin

lemma retry_ends:
  assumes "0 < limit p"
  shows "\<exists>res seen n. retry nd p m env = Some (res, seen, n) \<and> 1 \<le> n \<and> n \<le> limit p"
proof -
  have "\<not> goes_on nd p m env (limit p)" using assms exhausted by (simp add: goes_on_def)
  then obtain n where n: "1 \<le> n" "n \<le> limit p" "\<forall>j\<in>{1..<n}. goes_on nd p m env j" "\<not> goes_on nd p m env n"
    using first_stop_exists [of "limit p" nd p m env] assms by auto
  from retry_first_stop [OF n(1,3,4)] n(1,2) show ?thesis by auto
qed

end

text \<open>The default policy as a Delayer object: its settings and the float environment it runs in.\<close>

record policy_env =
  pe_policy :: policy
  pe_pow :: "f64 \<Rightarrow> f64 \<Rightarrow> f64"
  pe_oob :: "f64 \<Rightarrow> int"
  pe_rand :: "int \<Rightarrow> f64"

definition policy_next :: "policy_env \<Rightarrow> int \<Rightarrow> duration \<times> bool" where
  "policy_next pe a = next_delay (pe_pow pe) (pe_oob pe) (pe_rand pe a) (pe_policy pe) a"

definition policy_valid :: "policy_env \<Rightarrow> bool" where
  "policy_valid pe \<longleftrightarrow> pow_ok (pe_pow pe) \<and> policy_ok (pe_policy pe) \<and>
     (\<forall>a. \<exists>r. pe_rand pe a = Fin r \<and> 0 \<le> r \<and> r \<le> 1)"

interpretation exp_policy: limited_delayer policy_next policy_valid
  "\<lambda>pe. p_Initial (pe_policy pe) div 2" "\<lambda>pe. p_Max (pe_policy pe)" "\<lambda>pe. p_MaxAttempts (pe_policy pe)"
proof unfold_locales
  fix pe :: policy_env and a d
  assume v: "policy_valid pe" and n: "policy_next pe a = (d, True)"
  then obtain r where r: "pe_rand pe a = Fin r" "0 \<le> r" "r \<le> 1" unfolding policy_valid_def by blast
  from v n r next_delay_bounds [of "pe_pow pe" "pe_policy pe" r "pe_oob pe" a d]
  show "p_Initial (pe_policy pe) div 2 \<le> d \<and> d \<le> p_Max (pe_policy pe)"
    by (simp add: policy_valid_def policy_next_def)
next
  fix pe :: policy_env and a
  assume "0 < p_MaxAttempts (pe_policy pe)" "p_MaxAttempts (pe_policy pe) \<le> a"
  then show "\<not> snd (policy_next pe a)" by (simp add: policy_next_def next_delay_exhausted)
qed

text \<open>\<open>fixedDelay\<close> of discovery and \<open>fixed\<close> of kvconfig.\<close>

definition fixed_next :: "duration \<Rightarrow> int \<Rightarrow> duration \<times> bool" where
  "fixed_next d a = (d, True)"

interpretation fixed_delay: delayer fixed_next "\<lambda>_. True" "\<lambda>d. d" "\<lambda>d. d"
  by unfold_locales (simp add: fixed_next_def)

subsection \<open>Properties of Retry\<close>

lemma retry_aborted_is: "errors_is err t \<or> errors_is c t \<Longrightarrow> errors_is (retry_aborted err c) t"
  by (auto simp: retry_aborted_def)

lemma goes_on_iff:
  "goes_on nd p m env j \<longleftrightarrow>
     (\<exists>err. re_fn env j = Some err \<and> as_permanent err = None \<and> re_ctx env j = None \<and> snd (nd p j) \<and>
        (m \<le> 0 \<or> wrap64 (re_since env j + fst (nd p j)) \<le> m) \<and> (fst (nd p j) \<le> 0 \<or> re_race env j = None))"
  by (auto simp: goes_on_def sleep_def)

text \<open>
  C35: what Retry returns, and when. It returns after the \<open>n\<close>-th call of \<open>fn\<close> exactly if every earlier call
  failed with a retryable error, found the context alive, was granted a delay that fits the elapsed budget, and waited
  it out, and the \<open>n\<close>-th call succeeded (the result is nil), or failed with a permanent error (which is
  returned unwrapped), or found the context over (the result wraps the error and that of the context), or
  was granted no delay or one beyond the budget (the result is its error), or was interrupted in
  the wait (wrapped again). The notifications are those of the granted waits, in order. A wrapped
  result matches whatever either error matches.
\<close>

theorem retry_contract:
  "(retry nd p m env = Some (res, seen, n) \<longleftrightarrow>
     1 \<le> n \<and>
     (\<forall>j\<in>{1..<n}. \<exists>err. re_fn env j = Some err \<and> as_permanent err = None \<and> re_ctx env j = None \<and> snd (nd p j) \<and>
        (m \<le> 0 \<or> wrap64 (re_since env j + fst (nd p j)) \<le> m) \<and> (fst (nd p j) \<le> 0 \<or> re_race env j = None)) \<and>
     (re_fn env n = None \<and> res = None \<and> seen = map (log_entry nd p env) [1..n - 1] \<or>
      (\<exists>err. re_fn env n = Some err \<and>
        ((\<exists>i. as_permanent err = Some i \<and> res = Some i \<and> seen = map (log_entry nd p env) [1..n - 1]) \<or>
         as_permanent err = None \<and>
          ((\<exists>c. re_ctx env n = Some c \<and> res = Some (retry_aborted err c) \<and> seen = map (log_entry nd p env) [1..n - 1]) \<or>
           re_ctx env n = None \<and>
            ((\<not> snd (nd p n) \<or> 0 < m \<and> m < wrap64 (re_since env n + fst (nd p n))) \<and>
               res = Some err \<and> seen = map (log_entry nd p env) [1..n - 1] \<or>
             (\<exists>w. snd (nd p n) \<and> (m \<le> 0 \<or> wrap64 (re_since env n + fst (nd p n)) \<le> m) \<and>
               0 < fst (nd p n) \<and> re_race env n = Some w \<and> res = Some (retry_aborted err w) \<and>
               seen = map (log_entry nd p env) [1..n]))))))) \<and>
   (\<forall>err c t. errors_is err t \<or> errors_is c t \<longrightarrow> errors_is (retry_aborted err c) t)"
  (is "(?returns \<longleftrightarrow> 1 \<le> n \<and> (\<forall>j\<in>{1..<n}. ?on j) \<and> ?stop) \<and> _")
proof -
  have "?returns \<longleftrightarrow> 1 \<le> n \<and> (\<forall>j\<in>{1..<n}. goes_on nd p m env j) \<and> ?stop"
  proof (cases "1 \<le> n \<and> (\<forall>j\<in>{1..<n}. goes_on nd p m env j) \<and> \<not> goes_on nd p m env n")
    case True
    then have "retry nd p m env = retry_loop nd p m env n (map (log_entry nd p env) [1..n - 1])"
      unfolding retry_def using retry_loop_skip [of 1 "nat (n - 1)" nd p m env "[]"] by simp
    moreover have "map (log_entry nd p env) [1..n] = map (log_entry nd p env) [1..n - 1] @ [log_entry nd p env n]"
      using True by (simp add: upto_rec2)
    ultimately show ?thesis using True retry_loop_end [of nd p m env n _ res seen n] by simp
  next
    case False
    then have "\<not> ?returns" using retry_Some [of nd p m env res seen n] by blast
    moreover have "\<not> goes_on nd p m env n" if ?stop using that by (auto simp: goes_on_def sleep_def)
    ultimately show ?thesis using False by blast
  qed
  then show ?thesis unfolding goes_on_iff using retry_aborted_is by blast
qed

definition sample_env :: retry_env where
  "sample_env =
     \<lparr>re_fn = (\<lambda>k. if k < 3 then Some (Opaque ''refused'') else None), re_ctx = (\<lambda>_. None),
      re_since = (\<lambda>_. 0), re_race = (\<lambda>_. None)\<rparr>"

lemma sample_retry:
  "retry fixed_next 5 0 sample_env = Some (None, [(1, 5, Opaque ''refused''), (2, 5, Opaque ''refused'')], 3)"
  by (simp add: retry_def retry_loop.simps sample_env_def fixed_next_def sleep_def as_permanent_def)

text \<open>A budget of 25: the third failure comes after 30.\<close>

definition budget_env :: retry_env where
  "budget_env =
     \<lparr>re_fn = (\<lambda>_. Some (Opaque ''refused'')), re_ctx = (\<lambda>_. None), re_since = (\<lambda>k. 10 * k), re_race = (\<lambda>_. None)\<rparr>"

theorem retry_contract_witness:
  "retry fixed_next 5 25 budget_env =
     Some (Some (Opaque ''refused''), [(1, 5, Opaque ''refused''), (2, 5, Opaque ''refused'')], 3)"
proof -
  have j: "j = 1 \<or> j = 2" if "j \<in> {1..<3}" for j :: int using that by auto
  show ?thesis
    by (rule conjunct1 [OF retry_contract, THEN iffD2])
      (auto dest!: j simp: budget_env_def fixed_next_def as_permanent_def wrap64_def log_entry_def upto_rec1)
qed

text \<open>
  C36: with a positive \<open>MaxAttempts\<close> the retry loop under the exponential policy always returns, after
  at most \<open>MaxAttempts\<close> calls of \<open>fn\<close>, whatever \<open>fn\<close>, the context and the clock do, and every wait it
  announced lies between half the initial delay and the maximal delay.
\<close>

theorem retry_terminates:
  assumes "policy_valid pe" "0 < p_MaxAttempts (pe_policy pe)"
  shows "\<exists>res seen n. retry policy_next pe m env = Some (res, seen, n) \<and> 1 \<le> n
    \<and> n \<le> p_MaxAttempts (pe_policy pe)
    \<and> (\<forall>(k, d, e)\<in>set seen. p_Initial (pe_policy pe) div 2 \<le> d \<and> d \<le> p_Max (pe_policy pe))"
proof -
  obtain res seen n where r: "retry policy_next pe m env = Some (res, seen, n)" "1 \<le> n"
    "n \<le> p_MaxAttempts (pe_policy pe)" using exp_policy.retry_ends [OF assms(2)] by blast
  with exp_policy.retry_waits [OF assms(1) r(1)] show ?thesis by fast
qed

definition sample_policy_env :: policy_env where
  "sample_policy_env =
     \<lparr>pe_policy = sample_policy\<lparr>p_MaxAttempts := 2\<rparr>, pe_pow = sample_pow, pe_oob = (\<lambda>_. 0),
      pe_rand = (\<lambda>_. Fin 0)\<rparr>"

theorem retry_terminates_witness:
  "\<exists>res seen n. retry policy_next sample_policy_env 0 sample_env = Some (res, seen, n) \<and> 1 \<le> n \<and> n \<le> 2"
proof -
  have "policy_valid sample_policy_env"
    using sample_policy_ok by (simp add: policy_valid_def sample_policy_env_def policy_ok_def)
  from retry_terminates [OF this, of 0 sample_env] show ?thesis
    by (auto simp: sample_policy_env_def)
qed

end
