(* ===== verification/Blocking.thy ===== *)
theory Blocking
  imports GoFloat
begin

text \<open>
  internal/blocking: the client-side rules of Consul blocking queries. \<open>next_index\<close> is
  \<open>NextIndex\<close> on \<open>uint64\<close>, \<open>limiter_wait\<close> is the part of \<open>Limiter.Wait\<close> under its lock (the
  wait it decides and the new bucket), with \<open>float64\<close> tokens, and \<open>request_timeout\<close> is
  \<open>RequestTimeout\<close>. The rule a watch relies on is the locale \<open>index_rule\<close>.
\<close>

subsection \<open>Wait indexes\<close>

definition next_index :: "64 word \<Rightarrow> 64 word \<Rightarrow> 64 word" where
  "next_index prev got = (if got < prev then 0 else if got = 0 then 1 else got)"

text \<open>The wait indexes a watch sends for a sequence of answers, and after them.\<close>

fun wait_indexes :: "('i \<Rightarrow> 'i \<Rightarrow> 'i) \<Rightarrow> 'i \<Rightarrow> 'i list \<Rightarrow> 'i list" where
  "wait_indexes nxt i [] = [i]"
| "wait_indexes nxt i (g # gs) = i # wait_indexes nxt (nxt i g) gs"

locale index_rule =
  fixes nxt :: "'i::{linorder, zero, one} \<Rightarrow> 'i \<Rightarrow> 'i"
  assumes backwards: "got < prev \<Longrightarrow> nxt prev got = 0"
    and forward_nonzero: "\<not> got < prev \<Longrightarrow> nxt prev got \<noteq> 0"
    and forward: "\<not> got < prev \<Longrightarrow> got \<noteq> 0 \<Longrightarrow> nxt prev got = got"
    and zero_least: "(0 :: 'i) \<le> x"
begin

lemma nxt_zero_iff: "nxt prev got = 0 \<longleftrightarrow> got < prev"
  using backwards forward_nonzero by blast

lemma nxt_ge: "\<not> got < prev \<Longrightarrow> got \<noteq> 0 \<Longrightarrow> prev \<le> nxt prev got"
  by (simp add: forward)

lemma wait_indexes_zero:
  "k < length gs \<Longrightarrow> wait_indexes nxt i gs ! Suc k = 0 \<Longrightarrow> gs ! k < wait_indexes nxt i gs ! k"
proof (induction gs arbitrary: i k)
  case (Cons g gs)
  show ?case
  proof (cases k)
    case 0
    with Cons.prems show ?thesis by (cases gs) (auto simp: nxt_zero_iff)
  next
    case (Suc j)
    with Cons show ?thesis by simp
  qed
qed simp

text \<open>Two requests in a row never carry the index 0: the answer to the first is never below 0.\<close>

lemma no_two_zero:
  "k < length gs \<Longrightarrow> \<not> (wait_indexes nxt i gs ! k = 0 \<and> wait_indexes nxt i gs ! Suc k = 0)"
  using wait_indexes_zero [of k gs i] zero_least by (auto simp: not_less [symmetric])

end

interpretation consul_index: index_rule next_index
  by unfold_locales (auto simp: next_index_def)

subsection \<open>The token bucket\<close>

text \<open>\<open>l_last\<close> is \<open>None\<close> while the time is zero (before the first call).\<close>

record limiter =
  l_interval :: duration
  l_burst :: f64
  l_tokens :: f64
  l_last :: "gotime option"

definition new_limiter :: "duration \<Rightarrow> int \<Rightarrow> limiter" where
  "new_limiter interval burst =
     \<lparr>l_interval = interval, l_burst = f64_of_int burst, l_tokens = f64_of_int burst, l_last = None\<rparr>"

definition refilled :: "limiter \<Rightarrow> gotime \<Rightarrow> f64" where
  "refilled l now =
     (case l_last l of None \<Rightarrow> l_tokens l
      | Some t \<Rightarrow> fmin (l_burst l)
          (fadd (l_tokens l) (fdiv (f64_of_int (time_sub now t)) (f64_of_int (l_interval l)))))"

definition limiter_wait :: "(f64 \<Rightarrow> int) \<Rightarrow> limiter \<Rightarrow> gotime \<Rightarrow> duration \<times> limiter" where
  "limiter_wait oob l now =
     (if l_interval l \<le> 0 then (0, l)
      else let tokens = refilled l now
           in if \<not> fless tokens (Fin 1) \<and> tokens \<noteq> NaN
              then (0, l\<lparr>l_tokens := fsub tokens (Fin 1), l_last := Some now\<rparr>)
              else let w = f64_to_int64 oob (fmul (fsub (Fin 1) tokens) (f64_of_int (l_interval l)))
                   in (w, l\<lparr>l_tokens := Fin 0, l_last := Some (now + w)\<rparr>))"

text \<open>The waits of a sequence of calls at the given times.\<close>

fun limiter_run :: "(f64 \<Rightarrow> int) \<Rightarrow> limiter \<Rightarrow> gotime list \<Rightarrow> duration list" where
  "limiter_run oob l [] = []"
| "limiter_run oob l (t # ts) =
     (case limiter_wait oob l t of (w, l') \<Rightarrow> w # limiter_run oob l' ts)"

subsection \<open>Exact arithmetic on small integers\<close>

lemma to_f64_int: "\<bar>n\<bar> \<le> 2 ^ 53 \<Longrightarrow> to_f64 (of_int n) = Fin (of_int n)"
  using f64_of_int_exact by (simp add: f64_of_int_def)

lemma fadd_int: "\<bar>a + b\<bar> \<le> 2 ^ 53 \<Longrightarrow> fadd (Fin (of_int a)) (Fin (of_int b)) = Fin (of_int (a + b))"
  using to_f64_int [of "a + b"] by simp

lemma fsub_int: "\<bar>a - b\<bar> \<le> 2 ^ 53 \<Longrightarrow> fsub (Fin (of_int a)) (Fin (of_int b)) = Fin (of_int (a - b))"
  using to_f64_int [of "a - b"] by (simp add: fsub_def)

lemma fmul_int: "\<bar>a * b\<bar> \<le> 2 ^ 53 \<Longrightarrow> fmul (Fin (of_int a)) (Fin (of_int b)) = Fin (of_int (a * b))"
  using to_f64_int [of "a * b"] by simp

lemma fdiv_int:
  "b \<noteq> 0 \<Longrightarrow> \<bar>a\<bar> \<le> 2 ^ 53 \<Longrightarrow> fdiv (Fin (of_int (a * b))) (Fin (of_int b)) = Fin (of_int a)"
  using to_f64_int [of a] by simp

lemma f64_to_int64_int [simp]: "in64 n \<Longrightarrow> f64_to_int64 oob (Fin (of_int n)) = n"
  by (simp add: f64_to_int64_def)

subsection \<open>Bursts and pacing\<close>

text \<open>After \<open>burst\<close> immediate admissions the bucket is empty and further callers queue up.\<close>

lemma limiter_wait_int:
  assumes "0 < l_interval l" "l_interval l * (1 + k) \<le> 2 ^ 53" "0 \<le> k" "in64 (now + k * l_interval l)"
    and "l_burst l = Fin (of_int b)" "1 \<le> b" "b \<le> 2 ^ 53"
    and "l_tokens l = Fin 0" "l_last l = Some (now + k * l_interval l)"
  shows "limiter_wait oob l now =
    ((k + 1) * l_interval l, l\<lparr>l_last := Some (now + (k + 1) * l_interval l)\<rparr>)"
proof -
  let ?I = "l_interval l"
  have kI: "0 \<le> k * ?I" "k * ?I \<le> 2 ^ 53" "?I \<le> 2 ^ 53" "k \<le> 2 ^ 53" "1 + k \<le> 2 ^ 53"
  proof -
    have "1 * (1 + k) \<le> ?I * (1 + k)" using assms by (intro mult_right_mono) simp_all
    with assms(2) show "1 + k \<le> 2 ^ 53" by simp
    show "0 \<le> k * ?I" using assms by simp
    show "k * ?I \<le> 2 ^ 53" using assms by (simp add: distrib_left mult.commute)
    show "?I \<le> 2 ^ 53" using assms(2) \<open>0 \<le> k * ?I\<close> by (simp add: distrib_left mult.commute)
    have "k * 1 \<le> k * ?I" using assms by (intro mult_left_mono) simp_all
    with \<open>k * ?I \<le> 2 ^ 53\<close> show "k \<le> 2 ^ 53" by simp
  qed
  have sub: "time_sub now (now + k * ?I) = - k * ?I"
    using kI by (simp add: time_sub_def in64_def)
  have I: "f64_of_int ?I = Fin (of_int ?I)" using assms(1) kI by (simp add: f64_of_int_exact)
  have s: "f64_of_int (- k * ?I) = Fin (of_int (- k * ?I))" using kI by (intro f64_of_int_exact) simp
  have d: "fdiv (f64_of_int (- k * ?I)) (f64_of_int ?I) = Fin (of_int (- k))"
    unfolding I s using assms(1,3) kI by (intro fdiv_int) simp_all
  have a: "fadd (Fin 0) (Fin (of_int (- k))) = Fin (of_int (- k))"
    using fadd_int [of 0 "- k"] kI assms(3) by simp
  have r: "refilled l now = Fin (of_int (- k))"
    unfolding refilled_def assms(8,9) option.case sub d a using assms(3,5,6)
    by (auto simp: fmin_def)
  have f: "fsub (Fin 1) (Fin (of_int (- k))) = Fin (of_int (1 + k))"
    using fsub_int [of 1 "- k"] kI assms(3) by simp
  have m: "fmul (Fin (of_int (1 + k))) (f64_of_int ?I) = Fin (of_int ((1 + k) * ?I))"
    unfolding I using assms(1-3) by (intro fmul_int) (simp add: mult.commute)
  have w: "f64_to_int64 oob (fmul (fsub (Fin 1) (Fin (of_int (- k)))) (f64_of_int ?I)) = (1 + k) * ?I"
  proof -
    have "0 \<le> (1 + k) * ?I" using assms(1,3) by simp
    moreover have "(1 + k) * ?I \<le> 2 ^ 53" using assms(2) by (simp add: mult.commute)
    ultimately have "in64 ((1 + k) * ?I)" by (intro in64_nonneg) simp_all
    then show ?thesis unfolding f m by (rule f64_to_int64_int)
  qed
  have lt: "fless (Fin (of_int (- k))) (Fin 1)" using assms(3) by simp
  show ?thesis
    using assms(1,8) lt w unfolding limiter_wait_def r Let_def
    by (simp add: add.commute del: of_int_minus)
qed

lemma limiter_wait_token:
  assumes "0 < l_interval l" "l_interval l \<le> 2 ^ 53" "1 \<le> j" "j \<le> b" "b \<le> 2 ^ 53"
    and "l_burst l = Fin (of_int b)" "l_tokens l = Fin (of_int j)" "l_last l = None \<or> l_last l = Some now"
  shows "limiter_wait oob l now = (0, l\<lparr>l_tokens := Fin (of_int (j - 1)), l_last := Some now\<rparr>)"
proof -
  have z: "time_sub now now = 0" by (simp add: time_sub_def in64_def)
  have I: "f64_of_int (l_interval l) = Fin (of_int (l_interval l))" "f64_of_int 0 = Fin 0"
    using assms(1,2) f64_of_int_exact [of 0] by (simp_all add: f64_of_int_exact)
  have d: "fdiv (Fin 0) (Fin (of_int (l_interval l))) = Fin 0"
    using fdiv_int [of "l_interval l" 0] assms(1) by simp
  have a: "fadd (Fin (of_int j)) (Fin 0) = Fin (of_int j)"
    using fadd_int [of j 0] assms(3-5) by simp
  have e: "fadd (Fin (of_int j)) (fdiv (f64_of_int 0) (f64_of_int (l_interval l))) = Fin (of_int j)"
    unfolding I d a ..
  have r: "refilled l now = Fin (of_int j)"
    using assms(4,6-8) e by (auto simp: refilled_def z fmin_def)
  have f: "fsub (Fin (of_int j)) (Fin 1) = Fin (of_int (j - 1))"
    using fsub_int [of j 1] assms(3-5) by simp
  show ?thesis
    using assms(1,3) unfolding limiter_wait_def r Let_def f by (simp del: of_int_diff)
qed

lemma limiter_run_empty:
  assumes "0 < I" "I * (1 + k + int m) \<le> 2 ^ 53" "0 \<le> k" "1 \<le> b" "b \<le> 2 ^ 53" "0 \<le> now" "now \<le> 2 ^ 62"
    and "l = \<lparr>l_interval = I, l_burst = Fin (of_int b), l_tokens = Fin 0, l_last = Some (now + k * I)\<rparr>"
  shows "limiter_run oob l (replicate m now) = map (\<lambda>i. (k + 1 + int i) * I) [0..<m]"
  using assms(2,3,8)
proof (induction m arbitrary: k l)
  case (Suc m)
  have kI: "0 \<le> k * I" using Suc.prems(2) assms(1) by simp
  have kJ: "k * I \<le> 2 ^ 53"
  proof -
    have "I * k \<le> I * (1 + k + int (Suc m))" using assms(1) by (intro mult_left_mono) simp_all
    then show ?thesis using Suc.prems(1) by (simp add: mult.commute)
  qed
  have w: "limiter_wait oob l now = ((k + 1) * I, l\<lparr>l_last := Some (now + (k + 1) * I)\<rparr>)"
  proof (subst limiter_wait_int [where k = k and b = b])
    show "in64 (now + k * l_interval l)" using Suc.prems(3) assms(6,7) kI kJ unfolding in64_def by simp
    have "I * (1 + k) \<le> I * (1 + k + int (Suc m))" using assms(1) by (intro mult_left_mono) simp_all
    then show "l_interval l * (1 + k) \<le> 2 ^ 53" using Suc.prems by simp
  qed (use Suc.prems assms in simp_all)
  have "limiter_run oob (l\<lparr>l_last := Some (now + (k + 1) * I)\<rparr>) (replicate m now)
      = map (\<lambda>i. (k + 1 + 1 + int i) * I) [0..<m]"
    using Suc.prems by (intro Suc.IH) (simp_all add: algebra_simps)
  then show ?case
    by (simp add: w map_upt_Suc algebra_simps del: upt_Suc)
qed simp

lemma limiter_run_tokens:
  assumes "0 < I" "I * (1 + int m) \<le> 2 ^ 53" "int j \<le> b" "1 \<le> b" "b \<le> 2 ^ 53" "0 \<le> now" "now \<le> 2 ^ 62"
    and "l = \<lparr>l_interval = I, l_burst = Fin (of_int b), l_tokens = Fin (of_int (int j)), l_last = t\<rparr>"
    and "t = None \<and> 0 < j \<or> t = Some now"
  shows "limiter_run oob l (replicate (j + m) now) = replicate j 0 @ map (\<lambda>i. (1 + int i) * I) [0..<m]"
  using assms(3,8,9)
proof (induction j arbitrary: l t)
  case 0
  then show ?case using limiter_run_empty [of I 0 m b now l oob] assms by simp
next
  case (Suc j)
  have "I * 1 \<le> I * (1 + int m)" using assms(1) by (intro mult_left_mono) simp_all
  then have "I \<le> 2 ^ 53" using assms(2) by simp
  then have w: "limiter_wait oob l now = (0, l\<lparr>l_tokens := Fin (of_int (int j)), l_last := Some now\<rparr>)"
    using Suc.prems assms limiter_wait_token [of l "int (Suc j)" b now oob] by auto
  have "limiter_run oob (l\<lparr>l_tokens := Fin (of_int (int j)), l_last := Some now\<rparr>) (replicate (j + m) now)
      = replicate j 0 @ map (\<lambda>i. (1 + int i) * I) [0..<m]"
    using Suc.prems by (intro Suc.IH) auto
  with w show ?case by simp
qed

text \<open>
  the limiter admits a burst at once and then paces. Of \<open>burst + m\<close> calls made at the same
  instant on a fresh limiter the first \<open>burst\<close> do not wait, and the \<open>k\<close>-th further caller waits
  exactly \<open>k\<close> intervals, so requests queued behind an empty bucket leave it one per interval.
  The bound keeps the waits within the integers a \<open>float64\<close> holds exactly.
\<close>

theorem limiter_burst_then_paced:
  assumes "0 < interval" "0 < burst" "int burst \<le> 2 ^ 53" "interval * (1 + int m) \<le> 2 ^ 53"
    and "0 \<le> now" "now \<le> 2 ^ 62"
  shows "limiter_run oob (new_limiter interval (int burst)) (replicate (burst + m) now)
         = replicate burst 0 @ map (\<lambda>k. (1 + int k) * interval) [0..<m]"
  using assms by (intro limiter_run_tokens [where b = "int burst" and t = None])
    (simp_all add: new_limiter_def f64_of_int_exact)

theorem limiter_burst_then_paced_witness:
  "limiter_run (\<lambda>_. 0) (new_limiter 1000000000 2) (replicate 5 1000) = [0, 0, 1000000000, 2000000000, 3000000000]"
  using limiter_burst_then_paced [of 1000000000 2 3 1000 "\<lambda>_. 0"] by (simp add: numeral_eq_Suc)

subsection \<open>Request time-outs\<close>

definition request_timeout :: "duration \<Rightarrow> duration \<Rightarrow> duration" where
  "request_timeout wait request = wrap64 (wrap64 (wait + go_div wait 16) + request)"

lemma request_timeout_exact:
  "0 \<le> wait \<Longrightarrow> wait \<le> 2 ^ 62 \<Longrightarrow> 0 \<le> request \<Longrightarrow> request \<le> 2 ^ 61 \<Longrightarrow>
     request_timeout wait request = wait + wait div 16 + request"
proof -
  assume a: "0 \<le> wait" "wait \<le> 2 ^ 62" "0 \<le> request" "request \<le> 2 ^ 61"
  then have "wait div 16 \<le> 2 ^ 58" "0 \<le> wait div 16" by simp_all
  with a have "in64 (wait + wait div 16)" "in64 (wait + wait div 16 + request)" by (simp_all add: in64_def)
  with a show ?thesis by (simp add: request_timeout_def)
qed

text \<open>
  how a watch moves its wait index. Whatever indexes Consul answers with, the next request
  carries index 0 exactly when the answer went backwards (a restored snapshot or a new leader, so that no update is
  missed); otherwise it never goes back, and two requests in a row never both carry 0, so Consul
  is never asked to answer immediately twice.
\<close>

theorem wait_index_rule:
  "(next_index prev got = 0 \<longleftrightarrow> got < prev)
   \<and> (got < prev \<or> got = 0 \<and> prev = 0 \<and> next_index prev got = 1 \<or> next_index prev got = got \<and> prev \<le> got)
   \<and> \<not> (k < length gs \<and> wait_indexes next_index i gs ! k = 0 \<and> wait_indexes next_index i gs ! Suc k = 0)"
proof -
  have "got < prev \<or> got = 0 \<and> prev = 0 \<and> next_index prev got = 1 \<or> next_index prev got = got \<and> prev \<le> got"
    by (auto simp: next_index_def not_less word_le_0_iff)
  then show ?thesis
    using consul_index.nxt_zero_iff [of prev got] consul_index.no_two_zero [of k gs i] by force
qed

end
