(* ===== verification/Compat.thy ===== *)
theory Compat
  imports GoStrings
begin

text \<open>
  internal/compat: agent versions and the feature gate. \<open>parse_version\<close> is \<open>Parse\<close> (\<open>None\<close> is
  its error), \<open>at_least\<close> and \<open>supports\<close> are the methods of \<open>Version\<close>, \<open>requirements\<close> is the
  package's table. \<open>detect\<close> is \<open>Detect\<close> over the answer of the agent, which is a parameter.
\<close>

record version =
  v_Major :: int
  v_Minor :: int
  v_Patch :: int
  v_Pre :: string
  v_Enterprise :: bool
  v_Raw :: string

definition Unknown :: version where
  "Unknown = \<lparr>v_Major = 0, v_Minor = 0, v_Patch = 0, v_Pre = [], v_Enterprise = False, v_Raw = []\<rparr>"

definition is_unknown :: "version \<Rightarrow> bool" where
  "is_unknown v \<longleftrightarrow> v_Raw v = []"

definition version_string :: "version \<Rightarrow> string" where
  "version_string v = (if is_unknown v then ''unknown'' else v_Raw v)"

definition at_least :: "version \<Rightarrow> int \<Rightarrow> int \<Rightarrow> int \<Rightarrow> bool" where
  "at_least v major minor patch =
     (if v_Major v \<noteq> major then major < v_Major v
      else if v_Minor v \<noteq> minor then minor < v_Minor v
      else patch \<le> v_Patch v)"

text \<open>The part before and after the first occurrence of a byte.\<close>

definition split_at_byte :: "string \<Rightarrow> char \<Rightarrow> string \<times> string" where
  "split_at_byte s d = (case index_byte s d of None \<Rightarrow> (s, []) | Some i \<Rightarrow> (take i s, drop (i + 1) s))"

definition parse_number :: "string \<Rightarrow> int option" where
  "parse_number p = (case atoi p of None \<Rightarrow> None | Some n \<Rightarrow> if n < 0 then None else Some n)"

definition parse_version :: "string \<Rightarrow> version option" where
  "parse_version s =
     (let raw = trim_space s;
          core0 = trim_prefix raw ''v'';
          (core1, build) = split_at_byte core0 (CHR ''+'');
          (core, pre) = split_at_byte core1 (CHR ''-'')
      in case split_on (CHR ''.'') core of
           [a, b, c] \<Rightarrow>
             (case (parse_number a, parse_number b, parse_number c) of
                (Some x, Some y, Some z) \<Rightarrow>
                  Some \<lparr>v_Major = x, v_Minor = y, v_Patch = z, v_Pre = pre,
                        v_Enterprise = (build = ''ent'' \<or> has_prefix build ''ent.''), v_Raw = raw\<rparr>
              | _ \<Rightarrow> None)
         | _ \<Rightarrow> None)"

subsection \<open>Features\<close>

definition MultiPort :: int where "MultiPort = 1"
definition IPv6Address :: int where "IPv6Address = 2"
definition Namespaces :: int where "Namespaces = 3"
definition Partitions :: int where "Partitions = 4"
definition AIService :: int where "AIService = 5"

lemmas feature_defs = MultiPort_def IPv6Address_def Namespaces_def Partitions_def AIService_def

record requirement =
  rq_name :: string
  rq_major :: int
  rq_minor :: int
  rq_patch :: int
  rq_enterprise :: bool
  rq_never :: bool

definition req :: "string \<Rightarrow> requirement" where
  "req n = \<lparr>rq_name = n, rq_major = 0, rq_minor = 0, rq_patch = 0, rq_enterprise = False, rq_never = False\<rparr>"

definition requirements :: "int \<rightharpoonup> requirement" where
  "requirements =
     [MultiPort \<mapsto> (req ''multi-port services'')\<lparr>rq_major := 1, rq_minor := 22\<rparr>,
      IPv6Address \<mapsto> (req ''IPv6 service addresses'')\<lparr>rq_major := 1, rq_minor := 22\<rparr>,
      Namespaces \<mapsto> (req ''namespaces'')\<lparr>rq_enterprise := True\<rparr>,
      Partitions \<mapsto> (req ''admin partitions'')\<lparr>rq_enterprise := True\<rparr>,
      AIService \<mapsto> (req ''AI service definitions'')\<lparr>rq_never := True\<rparr>]"

text \<open>Indexing the table with an unknown feature yields the zero requirement.\<close>

definition requirement_of :: "int \<Rightarrow> requirement" where
  "requirement_of f = (case requirements f of None \<Rightarrow> req [] | Some r \<Rightarrow> r)"

definition feature_name :: "int \<Rightarrow> string" where
  "feature_name f = rq_name (requirement_of f)"

definition feature_requirement :: "int \<Rightarrow> string" where
  "feature_requirement f =
     (let r = requirement_of f
      in if rq_never r then ''a Consul version not yet verified by ConsulX''
         else if rq_enterprise r then ''Consul Enterprise''
         else ''Consul >= '' @ itoa (rq_major r) @ ''.'' @ itoa (rq_minor r) @ ''.'' @ itoa (rq_patch r))"

definition supports :: "version \<Rightarrow> int \<Rightarrow> bool" where
  "supports v f =
     (case requirements f of
        None \<Rightarrow> False
      | Some r \<Rightarrow>
        if rq_never r then False
        else if is_unknown v then True
        else if rq_enterprise r then v_Enterprise v
        else at_least v (rq_major r) (rq_minor r) (rq_patch r))"

record agent_info =
  ai_Version :: version
  ai_Datacenter :: string
  ai_NodeName :: string

text \<open>
  \<open>Detect\<close>: the answer of \<open>GET /v1/agent/self\<close> is the version, datacenter and node name, or the
  error of the request. A malformed version is an error of its own.
\<close>

definition detect :: "('e, string \<times> string \<times> string) outcome \<Rightarrow> 'e \<Rightarrow> ('e, agent_info) outcome" where
  "detect answer malformed =
     (case answer of
        Inl e \<Rightarrow> Inl e
      | Inr (ver, dc, node) \<Rightarrow>
        (case parse_version ver of
           None \<Rightarrow> Inl malformed
         | Some v \<Rightarrow> Inr \<lparr>ai_Version = v, ai_Datacenter = dc, ai_NodeName = node\<rparr>))"

subsection \<open>Lemmas\<close>

lemma at_least_lex:
  "at_least v a b c \<longleftrightarrow>
     a < v_Major v \<or> a = v_Major v \<and> (b < v_Minor v \<or> b = v_Minor v \<and> c \<le> v_Patch v)"
  by (auto simp: at_least_def)

lemma at_least_trans:
  "at_least v (v_Major u) (v_Minor u) (v_Patch u) \<Longrightarrow> at_least u a b c \<Longrightarrow> at_least v a b c"
  by (auto simp: at_least_lex)

lemma split_at_byte_absent: "d \<notin> set s \<Longrightarrow> split_at_byte s d = (s, [])"
  using index_byte_None [of s d] by (simp add: split_at_byte_def)

lemma split_at_byte_append: "d \<notin> set s \<Longrightarrow> split_at_byte (s @ d # t) d = (s, t)"
  by (simp add: split_at_byte_def index_byte_append)

lemma digits_plain: "list_all is_digit s \<Longrightarrow> c \<in> set s \<Longrightarrow> 48 \<le> byte c \<and> byte c \<le> 57"
  by (auto simp: list_all_iff is_digit_def)

lemma itoa_plain: "0 \<le> n \<Longrightarrow> c \<in> set (itoa n) \<Longrightarrow> 48 \<le> byte c \<and> byte c \<le> 57"
  using itoa_nonneg_digits digits_plain by blast

lemma parse_number_itoa [simp]: "0 \<le> n \<Longrightarrow> in64 n \<Longrightarrow> parse_number (itoa n) = Some n"
  by (simp add: parse_number_def)

lemma parse_number_range: "parse_number p = Some n \<Longrightarrow> 0 \<le> n \<and> in64 n"
  by (auto simp: parse_number_def dest: atoi_range split: option.splits if_splits)

lemma supports_mono_release:
  "supports u f \<Longrightarrow> \<not> is_unknown u \<Longrightarrow> v_Enterprise u \<le> v_Enterprise v \<Longrightarrow>
     at_least v (v_Major u) (v_Minor u) (v_Patch u) \<Longrightarrow> supports v f"
  by (auto simp: supports_def intro: at_least_trans split: option.splits if_splits)

text \<open>White space at neither end: nothing is trimmed.\<close>

definition plain :: "string \<Rightarrow> bool" where
  "plain s \<longleftrightarrow> list_all (\<lambda>c. 33 \<le> byte c \<and> byte c \<le> 126) s"

lemma space_width_plain: "plain s \<Longrightarrow> space_width s = 0 \<and> space_width_end s = 0"
proof (cases s)
  case (Cons c t)
  assume "plain s"
  with Cons have c: "33 \<le> byte c" "byte c \<le> 126" "plain t" by (auto simp: plain_def)
  then have hd: "\<forall>w\<in>set wide_spaces. hd w \<noteq> byte c" by (auto simp: wide_spaces_def)
  have f: "map byte (take n s) \<notin> set wide_spaces" if "0 < n" for n
    using hd Cons that by (cases n) force+
  moreover have last: "\<forall>w\<in>set wide_spaces. last w \<noteq> byte c"
    using c by (auto simp: wide_spaces_def)
  have g: "rev (map byte (take n s)) \<notin> set wide_spaces" if "0 < n" for n
    using last Cons that by (cases n) force+
  show ?thesis
    using f [of 2] f [of 3] g [of 2] g [of 3] Cons c
    by (simp add: space_width_def space_width_end_def)
qed (simp add: space_width_def space_width_end_def)

lemma trim_space_plain: "plain s \<Longrightarrow> trim_space s = s"
proof -
  assume p: "plain s"
  then have "plain (rev s)" by (simp add: plain_def list_all_iff)
  with p have w: "space_width s = 0" "space_width_end (rev s) = 0" using space_width_plain by auto
  have "drop_spaces space_width (length s) s = s" using w by (cases "length s") simp_all
  moreover have "drop_spaces space_width_end (length s) (rev s) = rev s" using w by (cases "length s") simp_all
  ultimately show ?thesis by (simp add: trim_space_def)
qed

definition release_text :: "int \<Rightarrow> int \<Rightarrow> int \<Rightarrow> string \<Rightarrow> bool \<Rightarrow> string" where
  "release_text a b c pre ent =
     (itoa a @ ''.'' @ itoa b @ ''.'' @ itoa c) @ (if pre = [] then [] else ''-'' @ pre) @
     (if ent then ''+ent'' else [])"

lemma plain_append [simp]: "plain (s @ t) \<longleftrightarrow> plain s \<and> plain t"
  by (auto simp: plain_def)

lemma plain_Cons [simp]: "plain (c # t) \<longleftrightarrow> 33 \<le> byte c \<and> byte c \<le> 126 \<and> plain t"
  by (auto simp: plain_def)

lemma plain_Nil [simp]: "plain []"
  by (simp add: plain_def)

lemma plain_itoa: "0 \<le> n \<Longrightarrow> plain (itoa n)"
  using itoa_plain [of n] by (fastforce simp: plain_def list_all_iff)

lemma itoa_lacks: "0 \<le> n \<Longrightarrow> \<not> (48 \<le> byte d \<and> byte d \<le> 57) \<Longrightarrow> d \<notin> set (itoa n)"
  using itoa_plain by blast

lemma trim_prefix_other: "s \<noteq> [] \<Longrightarrow> hd s \<noteq> c \<Longrightarrow> trim_prefix s [c] = s"
  by (cases s) (auto simp: trim_prefix_def)

lemma parse_version_raw: "parse_version s = Some v \<Longrightarrow> v_Raw v = trim_space s"
  by (auto simp: parse_version_def Let_def split: prod.splits list.splits option.splits)

lemma parse_version_known:
  assumes "parse_version s = Some v"
  shows "\<not> is_unknown v"
proof
  assume "is_unknown v"
  then have "trim_space s = []" using parse_version_raw [OF assms] by (simp add: is_unknown_def)
  then show False
    using assms by (simp add: parse_version_def trim_prefix_def split_at_byte_def)
qed

lemma parse_release:
  assumes "0 \<le> a" "0 \<le> b" "0 \<le> c" "in64 a" "in64 b" "in64 c"
    and pre: "plain pre" "CHR ''+'' \<notin> set pre"
  shows "parse_version (release_text a b c pre ent) =
           Some \<lparr>v_Major = a, v_Minor = b, v_Patch = c, v_Pre = pre, v_Enterprise = ent,
                 v_Raw = release_text a b c pre ent\<rparr>"
proof -
  define n where "n = itoa a @ ''.'' @ itoa b @ ''.'' @ itoa c"
  define m where "m = n @ (if pre = [] then [] else ''-'' @ pre)"
  define s where "s = release_text a b c pre ent"
  have s: "s = m @ (if ent then ''+ent'' else [])" by (simp add: s_def m_def n_def release_text_def)
  have "hd (itoa a) \<noteq> CHR ''v''"
    using itoa_plain [of a "hd (itoa a)"] \<open>0 \<le> a\<close> by (cases "itoa a") auto
  moreover have "trim_space s = s"
    using assms by (intro trim_space_plain) (simp add: s_def release_text_def plain_itoa)
  moreover have "hd s = hd (itoa a)" "s \<noteq> []" by (simp_all add: s_def release_text_def)
  ultimately have raw: "trim_space s = s" "trim_prefix s ''v'' = s"
    by (simp_all add: trim_prefix_other)
  have "CHR ''+'' \<notin> set m"
    using assms itoa_lacks [of _ "CHR ''+''"] by (auto simp: m_def n_def)
  then have build: "split_at_byte s (CHR ''+'') = (m, if ent then ''ent'' else [])"
    using split_at_byte_append [of "CHR ''+''" m "''ent''"] split_at_byte_absent by (simp add: s)
  have "CHR ''-'' \<notin> set n"
    using assms itoa_lacks [of _ "CHR ''-''"] by (auto simp: n_def)
  then have label: "split_at_byte m (CHR ''-'') = (n, pre)"
    using split_at_byte_append [of "CHR ''-''" n pre] split_at_byte_absent by (simp add: m_def)
  have "split_on (CHR ''.'') n = [itoa a, itoa b, itoa c]"
    using assms itoa_lacks [of _ "CHR ''.''"] by (simp add: n_def split_on_append split_on_no_sep)
  then have "parse_version s = Some \<lparr>v_Major = a, v_Minor = b, v_Patch = c, v_Pre = pre,
      v_Enterprise = ent, v_Raw = s\<rparr>"
    using assms by (simp add: parse_version_def Let_def raw build label)
  then show ?thesis by (simp add: s_def)
qed

text \<open>
  \<open>Parse\<close> reads back every version text of the form major.minor.patch with an optional
  pre-release label and an optional enterprise build tag, and keeps the text it read.
\<close>

theorem parse_release_text:
  assumes "0 \<le> a" "0 \<le> b" "0 \<le> c" "in64 a" "in64 b" "in64 c"
    and "plain pre" "CHR ''+'' \<notin> set pre"
  shows "parse_version (release_text a b c pre ent) =
           Some \<lparr>v_Major = a, v_Minor = b, v_Patch = c, v_Pre = pre, v_Enterprise = ent,
                 v_Raw = release_text a b c pre ent\<rparr>"
  using assms by (rule parse_release)

theorem parse_release_text_witness:
  "parse_version (release_text 1 22 7 ''rc1'' True) =
     Some \<lparr>v_Major = 1, v_Minor = 22, v_Patch = 7, v_Pre = ''rc1'', v_Enterprise = True,
           v_Raw = release_text 1 22 7 ''rc1'' True\<rparr>"
  by (rule parse_release_text) (simp_all add: in64_def)

text \<open>
  For a version the agent reported, the feature gate opens multi-port services and IPv6
  addresses from 1.22.0 on, namespaces and partitions on Enterprise builds only, AI definitions
  never and unknown features never; and a feature an agent supports is supported by every later
  agent of the same edition.
\<close>

theorem feature_gate:
  assumes "parse_version s = Some v"
  shows "supports v MultiPort = at_least v 1 22 0 \<and> supports v IPv6Address = at_least v 1 22 0 \<and>
     supports v Namespaces = v_Enterprise v \<and> supports v Partitions = v_Enterprise v \<and>
     \<not> supports v AIService \<and> (f \<notin> {1..5} \<longrightarrow> \<not> supports v f) \<and>
     (supports v f \<and> v_Enterprise v \<le> v_Enterprise w \<and>
        at_least w (v_Major v) (v_Minor v) (v_Patch v) \<longrightarrow> supports w f)"
proof -
  have "\<not> is_unknown v" using assms by (rule parse_version_known)
  then show ?thesis
    using supports_mono_release [of v f w]
    by (auto simp: supports_def requirements_def feature_defs req_def)
qed

theorem feature_gate_witness:
  "\<exists>v. parse_version ''1.22.7'' = Some v \<and> supports v MultiPort \<and> \<not> supports v Namespaces"
proof -
  have s: "release_text 1 22 7 [] False = ''1.22.7''"
    by (simp add: release_text_def itoa_def) code_simp
  have "parse_version ''1.22.7'' =
      Some \<lparr>v_Major = 1, v_Minor = 22, v_Patch = 7, v_Pre = [], v_Enterprise = False, v_Raw = ''1.22.7''\<rparr>"
    using parse_release [of 1 22 7 "[]" False] by (simp add: s in64_def)
  from feature_gate [OF this, of 1] this show ?thesis
    by (simp add: at_least_def)
qed

end
