(* ===== verification/ServiceID.thy ===== *)
theory ServiceID
  imports GoStrings
begin

text \<open>
  internal/serviceid: instance ids. \<open>sanitize\<close> is \<open>Sanitize\<close>, \<open>with_suffix\<close> is \<open>withSuffix\<close>
  (\<open>None\<close> where its slice expression panics), \<open>hostname_port\<close> and \<open>random_id\<close> are the two
  generators; the bytes of the random source are an argument, and so is the table of
  \<open>unicode.ToLower\<close> outside ASCII.
\<close>

abbreviation dash :: char where
  "dash \<equiv> CHR ''-''"

definition max_len :: int where
  "max_len = 128"

definition id_rune :: "nat \<Rightarrow> bool" where
  "id_rune r \<longleftrightarrow> 97 \<le> r \<and> r \<le> 122 \<or> 48 \<le> r \<and> r \<le> 57 \<or> r = 46 \<or> r = 95 \<or> r = 45"

text \<open>One rune of the loop of \<open>Sanitize\<close>; the state is the builder and the flag \<open>dash\<close>.\<close>

definition sanitize_rune :: "string \<times> bool \<Rightarrow> nat \<Rightarrow> string \<times> bool" where
  "sanitize_rune st r =
     (let (b, d) = st
      in if \<not> id_rune r \<or> r = 45
         then (if \<not> d \<and> b \<noteq> [] then b @ [dash] else b, True)
         else (b @ [char_of r], False))"

definition sanitize :: "(nat \<Rightarrow> nat) \<Rightarrow> string \<Rightarrow> string" where
  "sanitize ulow s =
     (let b = fst (foldl sanitize_rune ([], False) (map (to_lower_rune ulow) (runes s)));
          out = trim b [dash]
      in if int (length out) > max_len then trim_right (take (nat max_len) out) [dash] else out)"

definition with_suffix :: "string \<Rightarrow> string \<Rightarrow> string option" where
  "with_suffix base suffix =
     (let room = max_len - int (length suffix) - 1
      in if int (length base) > room
         then if room < 0 then None
              else (let base' = trim_right (take (nat room) base) [dash]
                    in Some (if base' = [] then suffix else base' @ [dash] @ suffix))
         else Some (if base = [] then suffix else base @ [dash] @ suffix))"

text \<open>The verb \<open>%x\<close> of a byte slice, and the version 4 UUID of sixteen random bytes.\<close>

definition hex_digit :: "nat \<Rightarrow> char" where
  "hex_digit n = (if n < 10 then char_of (48 + n) else char_of (87 + n))"

definition hex :: "8 word list \<Rightarrow> string" where
  "hex bs = concat (map (\<lambda>b. [hex_digit (unat b div 16), hex_digit (unat b mod 16)]) bs)"

definition uuid_bytes :: "8 word list \<Rightarrow> 8 word list" where
  "uuid_bytes b =
     (let b1 = b[6 := or (and (b ! 6) 0x0f) 0x40]
      in b1[8 := or (and (b1 ! 8) 0x3f) 0x80])"

definition uuid :: "8 word list \<Rightarrow> string" where
  "uuid b =
     (let u = uuid_bytes b
      in hex (take 4 u) @ [dash] @ hex (take 2 (drop 4 u)) @ [dash] @ hex (take 2 (drop 6 u)) @
         [dash] @ hex (take 2 (drop 8 u)) @ [dash] @ hex (drop 10 u))"

definition random_suffix :: "8 word list \<Rightarrow> string" where
  "random_suffix b = take 8 (uuid b)"

definition hostname_port ::
    "(nat \<Rightarrow> nat) \<Rightarrow> 8 word list \<Rightarrow> string \<Rightarrow> string \<Rightarrow> int \<Rightarrow> string option" where
  "hostname_port ulow rnd name hostname port =
     (let h = sanitize ulow hostname;
          host = (if h = [] then random_suffix rnd else h)
      in with_suffix (sanitize ulow (name @ [dash] @ host)) (itoa port))"

definition random_id :: "(nat \<Rightarrow> nat) \<Rightarrow> 8 word list \<Rightarrow> string \<Rightarrow> string option" where
  "random_id ulow rnd name = with_suffix (sanitize ulow name) (uuid rnd)"

subsection \<open>Canonical texts\<close>

definition no_double_dash :: "string \<Rightarrow> bool" where
  "no_double_dash = successively (\<lambda>a b. \<not> (a = dash \<and> b = dash))"

definition canonical :: "string \<Rightarrow> bool" where
  "canonical s \<longleftrightarrow>
     list_all (\<lambda>c. id_rune (byte c)) s \<and> no_double_dash s \<and>
     (s \<noteq> [] \<longrightarrow> hd s \<noteq> dash \<and> last s \<noteq> dash)"

lemma no_double_dash_snoc:
  "no_double_dash (s @ [c]) \<longleftrightarrow> no_double_dash s \<and> (s = [] \<or> c \<noteq> dash \<or> last s \<noteq> dash)"
  by (auto simp: no_double_dash_def successively_append_iff)

lemma no_double_dash_append: "no_double_dash (s @ t) \<Longrightarrow> no_double_dash s \<and> no_double_dash t"
  by (auto simp: no_double_dash_def successively_append_iff)

lemma byte_char_of_id: "id_rune r \<Longrightarrow> byte (char_of r) = r"
  by (auto simp: id_rune_def)

lemma byte_dash: "byte c = 45 \<longleftrightarrow> c = dash"
proof
  assume "byte c = 45"
  moreover have "45 = byte dash" by simp
  ultimately have "byte c = byte dash" by (rule trans)
  then show "c = dash" by (simp only: of_char_eq_iff)
qed simp

lemma id_rune_45: "id_rune 45"
  by (simp add: id_rune_def)

definition builder_ok :: "string \<times> bool \<Rightarrow> bool" where
  "builder_ok st \<longleftrightarrow>
     (case st of (b, d) \<Rightarrow>
        list_all (\<lambda>c. id_rune (byte c)) b \<and> no_double_dash b \<and>
        (b \<noteq> [] \<longrightarrow> hd b \<noteq> dash \<and> (last b = dash \<longleftrightarrow> d)))"

lemma builder_ok_step:
  assumes "builder_ok st"
  shows "builder_ok (sanitize_rune st r)"
proof (cases st)
  case (Pair b d)
  have "char_of r \<noteq> dash" if "id_rune r" "r \<noteq> 45"
  proof
    assume "char_of r = dash"
    then have "byte (char_of r) = 45" by simp
    then show False using that byte_char_of_id [of r] by simp
  qed
  then show ?thesis
    using assms byte_char_of_id [of r] id_rune_45
    by (auto simp: builder_ok_def sanitize_rune_def Pair no_double_dash_snoc hd_append Let_def)
qed

lemma builder_ok_fold: "builder_ok st \<Longrightarrow> builder_ok (foldl sanitize_rune st rs)"
  by (induction rs arbitrary: st) (simp_all add: builder_ok_step)

lemma trim_right_canonical:
  assumes "list_all (\<lambda>c. id_rune (byte c)) b" "no_double_dash b" "b \<noteq> [] \<longrightarrow> hd b \<noteq> dash"
  shows "canonical (trim_right b [dash])"
proof -
  obtain t where t: "b = trim_right b [dash] @ t" using trim_right_split by blast
  have "list_all (\<lambda>c. id_rune (byte c)) (trim_right b [dash] @ t)"
    "no_double_dash (trim_right b [dash] @ t)" using assms t by simp_all
  then show ?thesis
    using assms(3) hd_trim_right [of b "[dash]"] last_trim_right [of b "[dash]"]
      no_double_dash_append [of "trim_right b [dash]" t]
    by (auto simp: canonical_def trim_right_def)
qed

lemma trim_left_id: "s = [] \<or> hd s \<notin> set cs \<Longrightarrow> trim_left s cs = s"
  by (cases s) (auto simp: trim_left_def)

lemma trim_right_id: "s = [] \<or> last s \<notin> set cs \<Longrightarrow> trim_right s cs = s"
  by (cases s rule: rev_cases) (auto simp: trim_right_def)

lemma canonical_take: "canonical s \<Longrightarrow> canonical (trim_right (take n s) [dash])"
proof (rule trim_right_canonical)
  assume c: "canonical s"
  then show "list_all (\<lambda>c. id_rune (byte c)) (take n s)"
    by (auto simp: canonical_def list_all_iff dest: in_set_takeD)
  show "no_double_dash (take n s)"
    using c no_double_dash_append [of "take n s" "drop n s"] by (simp add: canonical_def)
  show "take n s \<noteq> [] \<longrightarrow> hd (take n s) \<noteq> dash"
    using c by (auto simp: canonical_def)
qed

lemma sanitize_canon: "canonical (sanitize ulow s) \<and> int (length (sanitize ulow s)) \<le> max_len"
proof -
  let ?b = "fst (foldl sanitize_rune ([], False) (map (to_lower_rune ulow) (runes s)))"
  have "builder_ok (foldl sanitize_rune ([], False) (map (to_lower_rune ulow) (runes s)))"
    by (rule builder_ok_fold) (simp add: builder_ok_def no_double_dash_def)
  then have b: "list_all (\<lambda>c. id_rune (byte c)) ?b" "no_double_dash ?b" "?b \<noteq> [] \<longrightarrow> hd ?b \<noteq> dash"
    by (auto simp: builder_ok_def split: prod.splits)
  from b(3) have "trim ?b [dash] = trim_right ?b [dash]"
    by (cases "?b = []") (simp_all add: trim_def trim_left_id)
  then have c: "canonical (trim ?b [dash])" using trim_right_canonical [OF b] by simp
  have "length (trim_right (take (nat max_len) (trim ?b [dash])) [dash]) \<le> nat max_len"
    using length_trim_right [of "take (nat max_len) (trim ?b [dash])" "[dash]"] by simp
  then show ?thesis using c canonical_take [OF c] by (auto simp: sanitize_def max_len_def Let_def)
qed

text \<open>A canonical text of admissible length is left alone.\<close>

lemma fold_canonical:
  "list_all (\<lambda>c. id_rune (byte c)) s \<Longrightarrow> no_double_dash s \<Longrightarrow> (s \<noteq> [] \<longrightarrow> hd s \<noteq> dash) \<Longrightarrow>
     foldl sanitize_rune ([], False) (map byte s) = (s, s \<noteq> [] \<and> last s = dash)"
proof (induction s rule: rev_induct)
  case (snoc c s)
  have h: "s \<noteq> [] \<longrightarrow> hd s \<noteq> dash" "s = [] \<longrightarrow> c \<noteq> dash" using snoc.prems(3) by (auto simp: hd_append)
  show ?case
    using snoc h by (auto simp: sanitize_rune_def no_double_dash_snoc byte_dash)
qed simp

lemma id_rune_lower: "id_rune r \<Longrightarrow> to_lower_rune ulow r = r \<and> r < 128"
  by (auto simp: id_rune_def to_lower_rune_def)

lemma sanitize_fixpoint:
  assumes c: "canonical s" and l: "int (length s) \<le> max_len"
  shows "sanitize ulow s = s"
proof -
  have "list_all (\<lambda>c. byte c < 128) s"
    using c id_rune_lower by (auto simp: canonical_def list_all_iff)
  then have "runes s = map byte s" by (rule runes_ascii)
  then have "map (to_lower_rune ulow) (runes s) = map byte s"
    using c id_rune_lower by (auto simp: canonical_def list_all_iff)
  then have "fst (foldl sanitize_rune ([], False) (map (to_lower_rune ulow) (runes s))) = s"
    using c fold_canonical [of s] by (simp add: canonical_def)
  moreover have "trim s [dash] = s"
    using c by (cases "s = []") (auto simp: trim_def canonical_def trim_left_id trim_right_id)
  ultimately show ?thesis using l by (simp add: sanitize_def)
qed

text \<open>The suffix survives, whatever the base.\<close>

lemma with_suffix_total:
  assumes "int (length suffix) < max_len"
  obtains base' where
    "with_suffix base suffix = Some (if base' = [] then suffix else base' @ [dash] @ suffix)"
    "base' = base \<or> base' = trim_right (take (nat (max_len - int (length suffix) - 1)) base) [dash]"
    "int (length base') + int (length suffix) + 1 \<le> max_len"
proof (cases "int (length base) > max_len - int (length suffix) - 1")
  case True
  let ?b = "trim_right (take (nat (max_len - int (length suffix) - 1)) base) [dash]"
  have "length ?b \<le> nat (max_len - int (length suffix) - 1)"
    using length_trim_right [of "take (nat (max_len - int (length suffix) - 1)) base" "[dash]"] by simp
  with True assms show ?thesis
    by (intro that [of ?b]) (simp_all add: with_suffix_def Let_def)
next
  case False
  then show ?thesis by (intro that [of base]) (simp_all add: with_suffix_def Let_def)
qed

lemma length_utoa: "n < 10 ^ k \<Longrightarrow> 0 < k \<Longrightarrow> length (utoa n) \<le> k"
proof (induction k arbitrary: n)
  case (Suc k)
  show ?case
  proof (cases "n < 10")
    case False
    then have "0 < k" using Suc.prems(1) by (cases k) auto
    moreover have "n div 10 < 10 ^ k" using Suc.prems(1) by (simp add: less_mult_imp_div_less mult.commute)
    ultimately have "length (utoa (n div 10)) \<le> k" using Suc.IH by blast
    then show ?thesis using False by (subst utoa.simps) simp
  qed (subst utoa.simps, simp)
qed simp

lemma length_itoa: "0 \<le> i \<Longrightarrow> in64 i \<Longrightarrow> length (itoa i) \<le> 19"
  using length_utoa [of "nat i" 19] by (simp add: itoa_def in64_def)

lemma itoa_no_dash: "0 \<le> i \<Longrightarrow> dash \<notin> set (itoa i)"
  using itoa_nonneg_digits [of i] by (auto simp: list_all_iff is_digit_def)

definition after_dash :: "string \<Rightarrow> string" where
  "after_dash s = rev (takeWhile (\<lambda>c. c \<noteq> dash) (rev s))"

lemma after_dash_suffix:
  assumes "dash \<notin> set ds"
  shows "after_dash (if b = [] then ds else b @ [dash] @ ds) = ds"
proof -
  have "takeWhile (\<lambda>c. c \<noteq> dash) (rev ds @ dash # rev b) = rev ds"
    "takeWhile (\<lambda>c. c \<noteq> dash) (rev ds) = rev ds"
    using assms by (auto simp: takeWhile_tail takeWhile_eq_all_conv)
  then show ?thesis by (cases "b = []") (simp_all only: after_dash_def if_True if_False rev_append
      rev.simps append_assoc append_Cons append_Nil rev_rev_ident simp_thms)
qed

lemma canonical_join:
  assumes "canonical b" "list_all is_digit ds" "ds \<noteq> []"
  shows "canonical (if b = [] then ds else b @ [dash] @ ds)"
proof -
  have d: "id_rune (byte c) \<and> c \<noteq> dash" if "c \<in> set ds" for c
    using assms(2) that by (auto simp: list_all_iff is_digit_def id_rune_def)
  then have "successively (\<lambda>a b. \<not> (a = dash \<and> b = dash)) ds"
    by (induction ds) (auto simp: successively_Cons)
  moreover have "hd ds \<noteq> dash" "last ds \<noteq> dash" using d assms(3) by simp_all
  ultimately show ?thesis
    using assms d id_rune_45
    by (auto simp: canonical_def no_double_dash_def successively_append_iff successively_Cons
        list_all_iff)
qed

lemma with_suffix_port:
  assumes "canonical base" "0 \<le> p" "in64 p"
  obtains i where "with_suffix base (itoa p) = Some i" "canonical i" "int (length i) \<le> max_len"
    "after_dash i = itoa p"
proof -
  have "int (length (itoa p)) < max_len" using length_itoa assms by (fastforce simp: max_len_def)
  then obtain b where b:
    "with_suffix base (itoa p) = Some (if b = [] then itoa p else b @ [dash] @ itoa p)"
    "b = base \<or> b = trim_right (take (nat (max_len - int (length (itoa p)) - 1)) base) [dash]"
    "int (length b) + int (length (itoa p)) + 1 \<le> max_len"
    using with_suffix_total by metis
  then have "canonical b" using assms(1) canonical_take by auto
  then have "canonical (if b = [] then itoa p else b @ [dash] @ itoa p)"
    using assms itoa_nonneg_digits by (intro canonical_join) simp_all
  then show ?thesis using b assms itoa_no_dash after_dash_suffix by (intro that) auto
qed

text \<open>
  \<open>Sanitize\<close> yields only characters of \<open>[a-z0-9._-]\<close>, never two dashes in a row nor a dash at
  an end, and at most 128 of them; applied to its own output it changes nothing.
\<close>

theorem sanitize_canonical:
  "canonical (sanitize ulow s) \<and> int (length (sanitize ulow s)) \<le> max_len \<and>
   sanitize ulow (sanitize ulow s) = sanitize ulow s"
  using sanitize_canon sanitize_fixpoint by blast

text \<open>
  For every name, host and port, \<open>HostnamePort\<close> returns (its slice expression never panics) a
  canonical id of at most 128 characters; ids of two different ports differ, whatever the names,
  hosts and truncations; and the id of a host with a usable name does not depend on the random
  source, so a restarted process replaces its own registration.
\<close>

theorem hostname_port_ids:
  assumes "0 \<le> p" "in64 p" "0 \<le> q" "in64 q"
  shows "\<exists>i j. hostname_port ulow r name host p = Some i \<and>
      hostname_port ulow r' name' host' q = Some j \<and>
      canonical i \<and> int (length i) \<le> max_len \<and> (p \<noteq> q \<longrightarrow> i \<noteq> j) \<and>
      (sanitize ulow host \<noteq> [] \<longrightarrow> hostname_port ulow r' name host p = Some i)"
proof -
  obtain i where i: "hostname_port ulow r name host p = Some i" "canonical i"
    "int (length i) \<le> max_len" "after_dash i = itoa p"
    using with_suffix_port [OF conjunct1 [OF sanitize_canon] assms(1,2)]
    by (metis hostname_port_def Let_def)
  obtain j where j: "hostname_port ulow r' name' host' q = Some j" "after_dash j = itoa q"
    using with_suffix_port [OF conjunct1 [OF sanitize_canon] assms(3,4)]
    by (metis hostname_port_def Let_def)
  have "sanitize ulow host \<noteq> [] \<longrightarrow>
      hostname_port ulow r' name host p = hostname_port ulow r name host p"
    by (simp add: hostname_port_def)
  then show ?thesis using i j assms itoa_inj by metis
qed

theorem hostname_port_ids_witness:
  "\<exists>i j. hostname_port id [] ''Orders API'' ''node_1.local'' 8080 = Some i \<and>
      hostname_port id [] ''Orders API'' ''node_1.local'' 8081 = Some j \<and> i \<noteq> j"
  using hostname_port_ids [of 8080 8081 id "[]" "''Orders API''" "''node_1.local''" "[]"
      "''Orders API''" "''node_1.local''"]
  by (auto simp: in64_def)

subsection \<open>Random ids\<close>

lemma byte_hex_digit: "n < 16 \<Longrightarrow> byte (hex_digit n) = (if n < 10 then 48 + n else 87 + n)"
  by (simp add: hex_digit_def)

lemma hex_digit_inj:
  assumes "n < 16" "m < 16" "hex_digit n = hex_digit m"
  shows "n = m"
proof -
  have "byte (hex_digit n) = byte (hex_digit m)" using assms by simp
  then show ?thesis using assms(1,2) by (simp add: byte_hex_digit split: if_splits)
qed

lemma length_hex [simp]: "length (hex bs) = 2 * length bs"
  by (induction bs) (simp_all add: hex_def)

lemma hex_Cons: "hex (b # bs) = hex_digit (unat b div 16) # hex_digit (unat b mod 16) # hex bs"
  by (simp add: hex_def)

lemma hex_inj: "hex bs = hex cs \<Longrightarrow> bs = cs"
proof (induction bs arbitrary: cs)
  case Nil
  then show ?case by (cases cs) (simp_all add: hex_def)
next
  case (Cons b bs)
  from Cons.prems obtain c cs' where cs: "cs = c # cs'" by (cases cs) (simp_all add: hex_def)
  have bound: "unat x div 16 < 16" for x :: "8 word"
  proof -
    have "unat x < 2 ^ LENGTH(8)" by (rule unsigned_less)
    then show ?thesis by simp
  qed
  have "unat b div 16 = unat c div 16" "unat b mod 16 = unat c mod 16"
    using Cons.prems bound by (auto simp: hex_Cons cs intro!: hex_digit_inj)
  then have "unat b = unat c" by (metis div_mult_mod_eq)
  then have "b = c" by (rule unsigned_word_eqI)
  then show ?case using Cons by (simp add: hex_Cons cs)
qed

lemma length_uuid_bytes [simp]: "length (uuid_bytes b) = length b"
  by (simp add: uuid_bytes_def Let_def)

lemma length_uuid: "length b = 16 \<Longrightarrow> length (uuid b) = 36"
  by (simp add: uuid_def Let_def)

lemma five_parts:
  assumes "a @ [x] @ b @ [x] @ c @ [x] @ d @ [x] @ e = a' @ [x] @ b' @ [x] @ c' @ [x] @ d' @ [x] @ e'"
    and "length a = length a'" "length b = length b'" "length c = length c'" "length d = length d'"
  shows "a = a' \<and> b = b' \<and> c = c' \<and> d = d' \<and> e = e'"
  using assms by simp

lemma uuid_inj:
  assumes "length b = 16" "length c = 16" "uuid b = uuid c"
  shows "uuid_bytes b = uuid_bytes c"
proof -
  let ?u = "uuid_bytes b" and ?v = "uuid_bytes c"
  have "hex (take 4 ?u) = hex (take 4 ?v) \<and>
      hex (take 2 (drop 4 ?u)) = hex (take 2 (drop 4 ?v)) \<and>
      hex (take 2 (drop 6 ?u)) = hex (take 2 (drop 6 ?v)) \<and>
      hex (take 2 (drop 8 ?u)) = hex (take 2 (drop 8 ?v)) \<and> hex (drop 10 ?u) = hex (drop 10 ?v)"
    using assms(3) unfolding uuid_def Let_def by (rule five_parts) (simp_all add: assms(1,2))
  then have "take 4 ?u = take 4 ?v" "take 2 (drop 4 ?u) = take 2 (drop 4 ?v)"
    "take 2 (drop 6 ?u) = take 2 (drop 6 ?v)" "take 2 (drop 8 ?u) = take 2 (drop 8 ?v)"
    "drop 10 ?u = drop 10 ?v" using hex_inj by blast+
  moreover have split: "w = take 4 w @ take 2 (drop 4 w) @ take 2 (drop 6 w) @ take 2 (drop 8 w) @
      drop 10 w" for w :: "8 word list"
  proof -
    have "drop n w = take 2 (drop n w) @ drop (n + 2) w" for n
      using append_take_drop_id [of 2 "drop n w"] by (simp add: add.commute)
    from this [of 4] this [of 6] this [of 8] show ?thesis
      using append_take_drop_id [of 4 w] by simp
  qed
  ultimately show ?thesis by (metis (no_types) split)
qed

lemma join_tail:
  assumes "(if b = [] then u else b @ [dash] @ u) = (if c = [] then v else c @ [dash] @ v)"
    and "length u = length v"
  shows "u = v"
proof -
  obtain p where p: "(if b = [] then u else b @ [dash] @ u) = p @ u"
    by (rule that [of "if b = [] then [] else b @ [dash]"]) simp
  obtain q where q: "(if c = [] then v else c @ [dash] @ v) = q @ v"
    by (rule that [of "if c = [] then [] else c @ [dash]"]) simp
  have "p @ u = q @ v" using assms(1) unfolding p q .
  then show ?thesis using assms(2) by simp
qed

text \<open>
  \<open>Random\<close> always returns, with at most 128 characters and the UUID at the end, and two ids
  are equal only when the sixteen random bytes agree in every bit the version leaves free,
  whatever the names.
\<close>

theorem random_ids:
  assumes "length r = 16" "length r' = 16"
  shows "\<exists>i j. random_id ulow r name = Some i \<and> random_id ulow r' name' = Some j \<and>
      int (length i) \<le> max_len \<and> has_suffix i (uuid r) \<and>
      (i = j \<longrightarrow> uuid_bytes r = uuid_bytes r')"
proof -
  have l: "int (length (uuid r)) < max_len" "int (length (uuid r')) < max_len"
    using assms by (simp_all add: length_uuid max_len_def)
  obtain b where b: "random_id ulow r name = Some (if b = [] then uuid r else b @ [dash] @ uuid r)"
    "int (length b) + int (length (uuid r)) + 1 \<le> max_len"
    using with_suffix_total [OF l(1), of "sanitize ulow name"] by (metis random_id_def)
  obtain c where c: "random_id ulow r' name' = Some (if c = [] then uuid r' else c @ [dash] @ uuid r')"
    using with_suffix_total [OF l(2), of "sanitize ulow name'"] by (metis random_id_def)
  define i where "i = (if b = [] then uuid r else b @ [dash] @ uuid r)"
  define j where "j = (if c = [] then uuid r' else c @ [dash] @ uuid r')"
  have "int (length i) \<le> max_len" using b(2) by (auto simp: i_def)
  moreover have "has_suffix i (uuid r)" by (auto simp: i_def has_suffix_iff)
  moreover have "uuid_bytes r = uuid_bytes r'" if "i = j"
  proof -
    have "uuid r = uuid r'"
      using that unfolding i_def j_def by (rule join_tail) (simp add: length_uuid assms)
    then show ?thesis by (rule uuid_inj [OF assms])
  qed
  ultimately show ?thesis using b(1) c unfolding i_def [symmetric] j_def [symmetric] by blast
qed

theorem random_ids_witness:
  "\<exists>i j. random_id id (replicate 16 0) ''orders'' = Some i \<and>
      random_id id (replicate 16 1) ''orders'' = Some j \<and> i \<noteq> j"
proof -
  have "uuid_bytes (replicate 16 0) ! 0 \<noteq> uuid_bytes (replicate 16 1) ! 0"
    by (simp add: uuid_bytes_def)
  then have "uuid_bytes (replicate 16 0) \<noteq> uuid_bytes (replicate 16 1)" by metis
  then show ?thesis
    using random_ids [of "replicate 16 0" "replicate 16 1" id "''orders''" "''orders''"] by auto
qed

end
