(* ===== verification/Instance.thy ===== *)
theory Instance
  imports GoStrings "HOL-Library.Finite_Map" "HOL-Library.Product_Lexorder" "HOL-Library.Multiset"
begin

text \<open>
  discovery/instance.go: the instances of a service. \<open>from_entry\<close> converts a health entry of the
  official client (the records \<open>api_*\<close> hold the fields the code reads of it),
  \<open>equal_instance\<close> is the comparison of the watch path, \<open>sort_instances\<close> the order of a snapshot.
  Go slices are lists, so a nil and an empty slice are the same value here, as they are for
  \<open>slices.Equal\<close>; Go maps are finite maps. The aggregation of check states is a method of the
  official client and a parameter.
\<close>

type_synonym status = string

definition StatusPassing :: status where "StatusPassing = ''passing''"
definition StatusWarning :: status where "StatusWarning = ''warning''"
definition StatusCritical :: status where "StatusCritical = ''critical''"
definition StatusMaintenance :: status where "StatusMaintenance = ''maintenance''"

lemmas status_defs = StatusPassing_def StatusWarning_def StatusCritical_def StatusMaintenance_def

record named_port =
  np_Name :: string
  np_Port :: int
  np_Default :: bool

record tagged_address =
  ta_Address :: string
  ta_Port :: int

record weights =
  wt_Passing :: int
  wt_Warning :: int

record service_node =
  n_ID :: string
  n_Name :: string
  n_Address :: string
  n_Datacenter :: string
  n_TaggedAddresses :: "(string, string) fmap"
  n_Meta :: "(string, string) fmap"

record service_check =
  c_ID :: string
  c_Name :: string
  c_Status :: status
  c_Output :: string
  c_ServiceID :: string
  c_Type :: string

record service_instance =
  i_ID :: string
  i_Name :: string
  i_Address :: string
  i_Port :: int
  i_Ports :: "named_port list"
  i_Scheme :: string
  i_Tags :: "string list"
  i_Meta :: "(string, string) fmap"
  i_TaggedAddresses :: "(string, tagged_address) fmap"
  i_Weights :: weights
  i_Datacenter :: string
  i_Namespace :: string
  i_Partition :: string
  i_Node :: service_node
  i_Status :: status
  i_Checks :: "service_check list"

record endpoint =
  e_ID :: string
  e_Node :: string
  e_Address :: string
  e_Port :: int
  e_Scheme :: string
  e_HostPort :: string
  e_URL :: string

text \<open>\<open>net.JoinHostPort\<close>.\<close>

definition join_host_port :: "string \<Rightarrow> string \<Rightarrow> string" where
  "join_host_port host port =
     (if CHR '':'' \<in> set host then ''['' @ host @ '']:'' @ port else host @ '':'' @ port)"

definition host_port :: "service_instance \<Rightarrow> string" where
  "host_port i = join_host_port (i_Address i) (itoa (i_Port i))"

definition instance_url :: "service_instance \<Rightarrow> string" where
  "instance_url i = i_Scheme i @ ''://'' @ host_port i"

definition endpoint_of :: "service_instance \<Rightarrow> endpoint" where
  "endpoint_of i =
     (let hp = host_port i
      in \<lparr>e_ID = i_ID i, e_Node = n_Name (i_Node i), e_Address = i_Address i, e_Port = i_Port i,
          e_Scheme = i_Scheme i, e_HostPort = hp, e_URL = i_Scheme i @ ''://'' @ hp\<rparr>)"

fun find_port :: "named_port list \<Rightarrow> string \<Rightarrow> int option" where
  "find_port [] n = None"
| "find_port (p # ps) n = (if np_Name p = n then Some (np_Port p) else find_port ps n)"

definition port_named :: "service_instance \<Rightarrow> string \<Rightarrow> int \<times> bool" where
  "port_named i n = (case find_port (i_Ports i) n of Some p \<Rightarrow> (p, True) | None \<Rightarrow> (0, False))"

definition instance_weight :: "service_instance \<Rightarrow> int" where
  "instance_weight i =
     (if i_Status i = StatusWarning then wt_Warning (i_Weights i) else max (wt_Passing (i_Weights i)) 1)"

subsection \<open>Health entries\<close>

record api_service =
  as_ID :: string
  as_Service :: string
  as_Address :: string
  as_Port :: int
  as_Ports :: "named_port list"
  as_Tags :: "string list"
  as_Meta :: "(string, string) fmap"
  as_TaggedAddresses :: "(string, tagged_address) fmap"
  as_Weights :: weights
  as_Datacenter :: string
  as_Namespace :: string
  as_Partition :: string

record api_node =
  an_ID :: string
  an_Node :: string
  an_Address :: string
  an_Datacenter :: string
  an_TaggedAddresses :: "(string, string) fmap"
  an_Meta :: "(string, string) fmap"

record api_check =
  ac_CheckID :: string
  ac_Name :: string
  ac_Status :: string
  ac_Output :: string
  ac_ServiceID :: string
  ac_Type :: string

record service_entry =
  se_Service :: api_service
  se_Node :: api_node
  se_Checks :: "api_check list"

definition cmp_or :: "string \<Rightarrow> string \<Rightarrow> string" where
  "cmp_or a b = (if a \<noteq> [] then a else b)"

text \<open>The last default port wins: the loop goes on after an assignment.\<close>

definition default_port :: "named_port list \<Rightarrow> int \<Rightarrow> int" where
  "default_port ps p = (if p = 0 then foldl (\<lambda>acc q. if np_Default q then np_Port q else acc) p ps else p)"

definition from_check :: "api_check \<Rightarrow> service_check" where
  "from_check c =
     \<lparr>c_ID = ac_CheckID c, c_Name = ac_Name c, c_Status = ac_Status c, c_Output = ac_Output c,
      c_ServiceID = ac_ServiceID c, c_Type = ac_Type c\<rparr>"

definition from_entry :: "(api_check list \<Rightarrow> status) \<Rightarrow> service_entry \<Rightarrow> service_instance" where
  "from_entry aggregated e =
     (let s = se_Service e; n = se_Node e
      in \<lparr>i_ID = as_ID s, i_Name = as_Service s, i_Address = cmp_or (as_Address s) (an_Address n),
          i_Port = default_port (as_Ports s) (as_Port s), i_Ports = as_Ports s,
          i_Scheme = (if fmlookup (as_Meta s) ''secure'' = Some ''true'' then ''https'' else ''http''),
          i_Tags = as_Tags s, i_Meta = as_Meta s, i_TaggedAddresses = as_TaggedAddresses s,
          i_Weights = as_Weights s, i_Datacenter = cmp_or (as_Datacenter s) (an_Datacenter n),
          i_Namespace = as_Namespace s, i_Partition = as_Partition s,
          i_Node = \<lparr>n_ID = an_ID n, n_Name = an_Node n, n_Address = an_Address n,
                    n_Datacenter = an_Datacenter n, n_TaggedAddresses = an_TaggedAddresses n,
                    n_Meta = an_Meta n\<rparr>,
          i_Status = aggregated (se_Checks e), i_Checks = map from_check (se_Checks e)\<rparr>)"

subsection \<open>Order and equality\<close>

text \<open>An instance is identified by its node and its id.\<close>

definition instance_key :: "service_instance \<Rightarrow> string \<times> string" where
  "instance_key i = (n_Name (i_Node i), i_ID i)"

definition sort_key_of :: "service_instance \<Rightarrow> string \<times> string" where
  "sort_key_of i = (i_ID i, n_Name (i_Node i))"

definition sort_instances :: "service_instance list \<Rightarrow> service_instance list" where
  "sort_instances xs = sort_key sort_key_of xs"

definition maps_equal :: "('k, 'v) fmap \<Rightarrow> ('k, 'v) fmap \<Rightarrow> bool" where
  "maps_equal m n \<longleftrightarrow>
     fcard (fmdom m) = fcard (fmdom n) \<and> fmpred (\<lambda>k v. fmlookup n k = Some v) m"

fun slices_equal :: "'a list \<Rightarrow> 'a list \<Rightarrow> bool" where
  "slices_equal [] [] = True"
| "slices_equal (x # xs) (y # ys) = (x = y \<and> slices_equal xs ys)"
| "slices_equal _ _ = False"

definition equal_instance :: "service_instance \<Rightarrow> service_instance \<Rightarrow> bool" where
  "equal_instance a b \<longleftrightarrow>
     i_ID a = i_ID b \<and> i_Name a = i_Name b \<and> i_Address a = i_Address b \<and> i_Port a = i_Port b \<and>
     i_Scheme a = i_Scheme b \<and> i_Weights a = i_Weights b \<and> i_Datacenter a = i_Datacenter b \<and>
     i_Namespace a = i_Namespace b \<and> i_Partition a = i_Partition b \<and> i_Status a = i_Status b \<and>
     n_ID (i_Node a) = n_ID (i_Node b) \<and> n_Name (i_Node a) = n_Name (i_Node b) \<and>
     n_Address (i_Node a) = n_Address (i_Node b) \<and>
     n_Datacenter (i_Node a) = n_Datacenter (i_Node b) \<and>
     slices_equal (i_Ports a) (i_Ports b) \<and> slices_equal (i_Tags a) (i_Tags b) \<and>
     slices_equal (i_Checks a) (i_Checks b) \<and>
     maps_equal (i_Meta a) (i_Meta b) \<and> maps_equal (i_TaggedAddresses a) (i_TaggedAddresses b) \<and>
     maps_equal (n_TaggedAddresses (i_Node a)) (n_TaggedAddresses (i_Node b)) \<and>
     maps_equal (n_Meta (i_Node a)) (n_Meta (i_Node b))"

text \<open>
  \<open>clone\<close> rebuilds every slice and map of the instance. Values here are immutable, so the copy is
  the value itself; what it protects against is aliasing between callers, which this model of the
  values does not show.
\<close>

definition clone :: "service_instance \<Rightarrow> service_instance" where
  "clone i =
     i\<lparr>i_Tags := map id (i_Tags i), i_Meta := fmmap id (i_Meta i), i_Ports := map id (i_Ports i),
       i_TaggedAddresses := fmmap id (i_TaggedAddresses i),
       i_Node := (i_Node i)\<lparr>n_TaggedAddresses := fmmap id (n_TaggedAddresses (i_Node i)),
                           n_Meta := fmmap id (n_Meta (i_Node i))\<rparr>,
       i_Checks := map id (i_Checks i)\<rparr>"

definition clone_all :: "service_instance list \<Rightarrow> service_instance list" where
  "clone_all xs = map clone xs"

lemma fmmap_id: "fmmap id m = m"
  by (rule fmap_ext) (simp add: option.map_id0)

lemma clone_id [simp]: "clone i = i"
  by (simp add: clone_def fmmap_id)

lemma clone_all_id [simp]: "clone_all xs = xs"
  by (simp add: clone_all_def map_idI)

lemma slices_equal_eq [simp]: "slices_equal xs ys \<longleftrightarrow> xs = ys"
  by (induction xs ys rule: slices_equal.induct) auto

lemma maps_equal_eq [simp]: "maps_equal m n \<longleftrightarrow> m = n"
proof
  assume e: "maps_equal m n"
  then have l: "fmlookup n k = Some v" if "fmlookup m k = Some v" for k v
    using that by (auto simp: maps_equal_def fmpred_iff)
  have "fmdom m |\<subseteq>| fmdom n"
    by (rule fsubsetI) (metis l fmdomI fmlookup_dom_iff)
  moreover have "fcard (fmdom m) = fcard (fmdom n)" using e by (simp add: maps_equal_def)
  ultimately have d: "fmdom m = fmdom n" using fcard_seteq by fastforce
  show "m = n"
  proof (rule fmap_ext)
    fix k
    show "fmlookup m k = fmlookup n k"
      using l [of k] fmdom_notI [of m k] fmdom_notD [of k n] d by (cases "fmlookup m k") auto
  qed
qed (simp add: maps_equal_def fmpred_iff)

lemma equal_instance_refl: "equal_instance a a"
  by (simp add: equal_instance_def)

lemma equal_instance_eq: "equal_instance a b \<longleftrightarrow> a = b"
  by (cases a, cases b, cases "i_Node a", cases "i_Node b") (auto simp: equal_instance_def)

lemma mset_sort_instances [simp]: "mset (sort_instances xs) = mset xs"
  by (simp add: sort_instances_def)

lemma set_sort_instances [simp]: "set (sort_instances xs) = set xs"
  by (simp add: sort_instances_def)

lemma sort_key_of_inj: "sort_key_of a = sort_key_of b \<longleftrightarrow> instance_key a = instance_key b"
  by (auto simp: sort_key_of_def instance_key_def)

text \<open>
  \<open>slices.SortFunc\<close> promises a sorted permutation only. Instances of a response have distinct keys,
  and then every sorted permutation is the one of the model.
\<close>

lemma sorted_permutation_unique:
  assumes "mset ys = mset xs" "sorted (map sort_key_of ys)" "distinct (map instance_key xs)"
  shows "ys = sort_instances xs"
proof -
  have "inj_on sort_key_of (set xs)"
    using assms(3) by (auto simp: inj_on_def distinct_map sort_key_of_inj)
  moreover have "set ys = set xs" using assms(1) by (rule mset_eq_setD)
  moreover have d: "distinct (map sort_key_of xs)"
    using assms(3) by (auto simp: distinct_map inj_on_def sort_key_of_inj)
  moreover have "distinct (map sort_key_of ys)"
  proof -
    have "mset (map sort_key_of ys) = mset (map sort_key_of xs)" using assms(1) by simp
    then show ?thesis using d by (metis mset_eq_imp_distinct_iff)
  qed
  moreover have "map sort_key_of ys = map sort_key_of (sort_instances xs)"
  proof (rule map_sorted_distinct_set_unique [of id, simplified])
    show "sorted (map sort_key_of (sort_instances xs))" by (simp add: sort_instances_def)
    show "distinct (map sort_key_of (sort_instances xs))"
    proof -
      have "mset (map sort_key_of (sort_instances xs)) = mset (map sort_key_of xs)" by simp
      then show ?thesis using d by (metis mset_eq_imp_distinct_iff)
    qed
  qed (use assms calculation in auto)
  ultimately show ?thesis
    using inj_on_map_eq_map [of sort_key_of ys "sort_instances xs"] by simp
qed

lemma key_inj_on:
  "distinct (map instance_key xs) \<Longrightarrow> i \<in> set xs \<Longrightarrow> j \<in> set xs \<Longrightarrow> instance_key i = instance_key j \<Longrightarrow> i = j"
  by (auto simp: distinct_map inj_on_def)

text \<open>
  The typed comparison of the watch path covers every field: two instances are equal for
  \<open>equalInstance\<close> exactly when they are the same value, nested node, slices and maps included.
\<close>

theorem equal_instance_exact: "equal_instance a b = (a = b)"
  by (rule equal_instance_eq)

end
