(* ===== verification/Query.thy ===== *)
theory Query
  imports Instance Errors Prelude
begin

text \<open>
  discovery/discovery.go: the client configuration and the query builder. A \<open>query\<close> is the
  immutable value of the code; \<open>query_call\<close> lists the builder methods, \<open>apply_call\<close> is their bodies.
  The answer of the health endpoint is an argument of \<open>fetch\<close>, \<open>query_all\<close> and \<open>query_first\<close>.
\<close>

subsection \<open>Quoting\<close>

text \<open>
  \<open>strconv.Quote\<close>. \<open>printable\<close> is \<open>strconv.IsPrint\<close> for the runes outside ASCII.
\<close>

definition hex_nibble :: "nat \<Rightarrow> char" where
  "hex_nibble n = (if n < 10 then char_of (48 + n) else char_of (87 + n))"

fun hex_fixed :: "nat \<Rightarrow> nat \<Rightarrow> string" where
  "hex_fixed 0 n = []"
| "hex_fixed (Suc w) n = hex_fixed w (n div 16) @ [hex_nibble (n mod 16)]"

definition bslash :: char where
  "bslash = CHR 0x5C"

definition dquote :: char where
  "dquote = CHR 0x22"

definition is_print :: "(nat \<Rightarrow> bool) \<Rightarrow> nat \<Rightarrow> bool" where
  "is_print printable r = (if r < 128 then 32 \<le> r \<and> r < 127 else printable r)"

definition valid_rune :: "nat \<Rightarrow> bool" where
  "valid_rune r \<longleftrightarrow> r < 55296 \<or> 57343 < r \<and> r \<le> 1114111"

definition control_escape :: "nat \<Rightarrow> char option" where
  "control_escape =
     map_of [(7, CHR ''a''), (8, CHR ''b''), (12, CHR ''f''), (10, CHR ''n''), (13, CHR ''r''),
             (9, CHR ''t''), (11, CHR ''v'')]"

definition escape_rune :: "nat \<Rightarrow> string" where
  "escape_rune r =
     (case control_escape r of
        Some c \<Rightarrow> [bslash, c]
      | None \<Rightarrow>
        if r < 32 \<or> r = 127 then [bslash, CHR ''x''] @ hex_fixed 2 r
        else (let r' = (if valid_rune r then r else rune_error)
              in if r' < 65536 then [bslash, CHR ''u''] @ hex_fixed 4 r'
                 else [bslash, CHR ''U''] @ hex_fixed 8 r'))"

text \<open>One rune of the input, given the bytes it was decoded from.\<close>

definition quote_rune :: "(nat \<Rightarrow> bool) \<Rightarrow> string \<Rightarrow> nat \<Rightarrow> string" where
  "quote_rune printable bs r =
     (if length bs = 1 \<and> r = rune_error then [bslash, CHR ''x''] @ hex_fixed 2 (byte (hd bs))
      else if r = byte dquote \<or> r = byte bslash then bslash # bs
      else if is_print printable r then bs
      else escape_rune r)"

function quote_body :: "(nat \<Rightarrow> bool) \<Rightarrow> string \<Rightarrow> string" where
  "quote_body printable s =
     (if s = [] then []
      else (let (r, w) = decode_rune s
            in quote_rune printable (take w s) r @ quote_body printable (drop w s)))"
  by pat_completeness auto
termination
proof (relation "measure (length \<circ> snd)")
  fix printable and s :: string and x r w
  assume "s \<noteq> []" "x = decode_rune s" "(r, w) = x"
  then have "w = snd (decode_rune s)" by (metis snd_conv)
  with \<open>s \<noteq> []\<close> decode_rune_width [of s]
  show "((printable, drop w s), printable, s) \<in> measure (length \<circ> snd)" by simp
qed simp

declare quote_body.simps [simp del]

definition quote :: "(nat \<Rightarrow> bool) \<Rightarrow> string \<Rightarrow> string" where
  "quote printable s = [dquote] @ quote_body printable s @ [dquote]"

subsection \<open>The builder\<close>

datatype consistency = Default | Stale | Consistent

record query =
  q_name :: string
  q_tags :: "string list"
  q_meta :: "(string, string) fmap"
  q_filter :: string
  q_expr :: string
  q_passing :: bool
  q_dc :: string
  q_ns :: string
  q_partition :: string
  q_near :: string
  q_consistency :: consistency
  q_useCache :: bool

definition service_query :: "string \<Rightarrow> query" where
  "service_query name =
     \<lparr>q_name = name, q_tags = [], q_meta = fmempty, q_filter = [], q_expr = [], q_passing = True,
      q_dc = [], q_ns = [], q_partition = [], q_near = [], q_consistency = Default,
      q_useCache = False\<rparr>"

definition meta_term :: "(nat \<Rightarrow> bool) \<Rightarrow> string \<Rightarrow> string \<Rightarrow> string" where
  "meta_term printable k v =
     ''Service.Meta['' @ quote printable k @ ''] == '' @ quote printable v"

definition meta_terms :: "(nat \<Rightarrow> bool) \<Rightarrow> (string, string) fmap \<Rightarrow> string list" where
  "meta_terms printable m =
     map (\<lambda>k. meta_term printable k (case fmlookup m k of Some v \<Rightarrow> v | None \<Rightarrow> []))
       (sorted_list_of_fset (fmdom m))"

definition filter_expr :: "(nat \<Rightarrow> bool) \<Rightarrow> query \<Rightarrow> string" where
  "filter_expr printable q =
     (if fmdom (q_meta q) = {||} \<and> q_filter q = [] then []
      else join_with '' and ''
        (meta_terms printable (q_meta q) @
         (if q_filter q \<noteq> [] then [''('' @ q_filter q @ '')''] else [])))"

datatype query_call =
    TagCall "string list"
  | MetaCall string string
  | FilterCall string
  | PassingCall
  | AnyStatusCall
  | DatacenterCall string
  | NamespaceCall string
  | PartitionCall string
  | NearCall string
  | ConsistencyCall consistency
  | CachedCall

definition with_expr :: "(nat \<Rightarrow> bool) \<Rightarrow> query \<Rightarrow> query" where
  "with_expr printable q = q\<lparr>q_expr := filter_expr printable q\<rparr>"

fun apply_call :: "(nat \<Rightarrow> bool) \<Rightarrow> query \<Rightarrow> query_call \<Rightarrow> query" where
  "apply_call pr q (TagCall ts) = q\<lparr>q_tags := q_tags q @ ts\<rparr>"
| "apply_call pr q (MetaCall k v) = with_expr pr (q\<lparr>q_meta := fmupd k v (q_meta q)\<rparr>)"
| "apply_call pr q (FilterCall e) =
     with_expr pr (q\<lparr>q_filter := (if q_filter q = [] then e
                                  else ''('' @ q_filter q @ '') and ('' @ e @ '')'')\<rparr>)"
| "apply_call pr q PassingCall = q\<lparr>q_passing := True\<rparr>"
| "apply_call pr q AnyStatusCall = q\<lparr>q_passing := False\<rparr>"
| "apply_call pr q (DatacenterCall dc) = q\<lparr>q_dc := dc\<rparr>"
| "apply_call pr q (NamespaceCall ns) = q\<lparr>q_ns := ns\<rparr>"
| "apply_call pr q (PartitionCall p) = q\<lparr>q_partition := p\<rparr>"
| "apply_call pr q (NearCall n) = q\<lparr>q_near := n\<rparr>"
| "apply_call pr q (ConsistencyCall m) = q\<lparr>q_consistency := m\<rparr>"
| "apply_call pr q CachedCall = q\<lparr>q_useCache := True\<rparr>"

definition build_query :: "(nat \<Rightarrow> bool) \<Rightarrow> string \<Rightarrow> query_call list \<Rightarrow> query" where
  "build_query pr name calls = foldl (apply_call pr) (service_query name) calls"

record query_options =
  o_Datacenter :: string
  o_Namespace :: string
  o_Partition :: string
  o_Near :: string
  o_Filter :: string
  o_AllowStale :: bool
  o_RequireConsistent :: bool
  o_UseCache :: bool
  o_WaitIndex :: "64 word"
  o_WaitTime :: duration

definition options_of :: "query \<Rightarrow> query_options" where
  "options_of q =
     \<lparr>o_Datacenter = q_dc q, o_Namespace = q_ns q, o_Partition = q_partition q, o_Near = q_near q,
      o_Filter = q_expr q, o_AllowStale = (q_consistency q = Stale),
      o_RequireConsistent = (q_consistency q = Consistent), o_UseCache = False, o_WaitIndex = 0,
      o_WaitTime = 0\<rparr>"

subsection \<open>The client\<close>

record discovery_config =
  dc_WaitTime :: duration
  dc_RequestTimeout :: duration
  dc_MinInterval :: duration
  dc_Retry :: "(int \<Rightarrow> duration \<times> bool) option"

definition fixed_retry :: "duration \<Rightarrow> int \<Rightarrow> duration \<times> bool" where
  "fixed_retry d _ = (d, True)"

definition new_discovery :: "discovery_config \<Rightarrow> discovery_config" where
  "new_discovery c =
     c\<lparr>dc_WaitTime := (if dc_WaitTime c \<le> 0 then 5 * minute else dc_WaitTime c),
       dc_MinInterval := (if dc_MinInterval c \<le> 0 then second else dc_MinInterval c),
       dc_Retry := (case dc_Retry c of None \<Rightarrow> Some (fixed_retry (5 * second)) | r \<Rightarrow> r)\<rparr>"

text \<open>The answer of the health endpoint: the entries and the index, or the error.\<close>

type_synonym health_answer = "(goerr, service_entry list \<times> 64 word) outcome"

definition fetch :: "(api_check list \<Rightarrow> status) \<Rightarrow> query \<Rightarrow> health_answer \<Rightarrow>
    (goerr, service_instance list \<times> 64 word) outcome" where
  "fetch agg q answer =
     (case answer of
        Inl err \<Rightarrow> Inl err
      | Inr (entries, idx) \<Rightarrow>
        let out = map (from_entry agg) entries
        in Inr (if q_near q = [] then sort_instances out else out, idx))"

definition query_all :: "(api_check list \<Rightarrow> status) \<Rightarrow> query \<Rightarrow> health_answer \<Rightarrow> service_instance list res" where
  "query_all agg q answer =
     (if q_name q = [] then Inl ErrNoName
      else (case fetch agg q answer of
              Inl err \<Rightarrow> Inl (Errorf (''consulx: discover '' @ q_name q @ '': '') [err])
            | Inr (out, _) \<Rightarrow> Inr out))"

definition query_first :: "(api_check list \<Rightarrow> status) \<Rightarrow> query \<Rightarrow> health_answer \<Rightarrow> service_instance res" where
  "query_first agg q answer =
     (case query_all agg q answer of
        Inl err \<Rightarrow> Inl err
      | Inr [] \<Rightarrow> Inl (Errorf ('': '' @ q_name q) [ErrServiceNotFound])
      | Inr (i # _) \<Rightarrow> Inr i)"

subsection \<open>Literals keep to themselves\<close>

text \<open>
  The skeleton of a filter expression: every string literal is emptied. \<open>skeleton False\<close> reads
  outside of a literal, \<open>skeleton True\<close> inside one, where a backslash protects the next character.
\<close>

fun skeleton :: "bool \<Rightarrow> string \<Rightarrow> string" where
  "skeleton b [] = []"
| "skeleton False (c # s) = c # skeleton (c = dquote) s"
| "skeleton True (c # s) =
     (if c = bslash then (case s of [] \<Rightarrow> [] | _ # t \<Rightarrow> skeleton True t)
      else if c = dquote then c # skeleton False s
      else skeleton True s)"

text \<open>A text that a reader inside a literal passes over.\<close>

definition inert :: "string \<Rightarrow> bool" where
  "inert s \<longleftrightarrow> (\<forall>t. skeleton True (s @ t) = skeleton True t)"

lemma inert_Nil [simp]: "inert []"
  by (simp add: inert_def)

lemma inert_append: "inert s \<Longrightarrow> inert t \<Longrightarrow> inert (s @ t)"
  by (simp add: inert_def)

lemma quote_chars: "bslash \<noteq> dquote" "byte bslash = 92" "byte dquote = 34"
  by (simp_all add: bslash_def dquote_def)

lemma inert_plain: "c \<noteq> bslash \<Longrightarrow> c \<noteq> dquote \<Longrightarrow> inert [c]"
  by (simp add: inert_def)

lemma inert_escape: "inert (bslash # [c])"
  by (simp add: inert_def)

lemma inert_all: "(\<forall>c\<in>set s. c \<noteq> bslash \<and> c \<noteq> dquote) \<Longrightarrow> inert s"
proof (induction s)
  case (Cons c s)
  then show ?case using inert_append [OF inert_plain [of c]] by fastforce
qed simp

lemma hex_nibble_inert: "n < 16 \<Longrightarrow> hex_nibble n \<noteq> bslash \<and> hex_nibble n \<noteq> dquote"
proof -
  assume n: "n < 16"
  then have "byte (hex_nibble n) = (if n < 10 then 48 + n else 87 + n)" by (simp add: hex_nibble_def)
  then have "byte (hex_nibble n) \<noteq> 92 \<and> byte (hex_nibble n) \<noteq> 34" using n by (auto split: if_splits)
  then show ?thesis using quote_chars by metis
qed

lemma inert_hex: "inert (hex_fixed w n)"
  by (rule inert_all) (induction w arbitrary: n, auto simp: hex_nibble_inert)

lemma inert_esc_hex: "inert ([bslash, c] @ hex_fixed w n)"
  using inert_append [OF inert_escape [of c] inert_hex [of w n]] by simp

lemma inert_escape_rune: "inert (escape_rune r)"
  using inert_escape inert_esc_hex
  by (auto simp: escape_rune_def Let_def split: option.splits)

lemma cont_byte_high: "cont_byte (second_lo b) hi c \<Longrightarrow> 128 \<le> byte c" "cont_byte 128 hi c \<Longrightarrow> 128 \<le> byte c"
  by (auto simp: cont_byte_def second_lo_def split: if_splits)

lemma decode_rune_high:
  assumes "s \<noteq> []" "128 \<le> byte (hd s)" "c \<in> set (take (snd (decode_rune s)) s)"
  shows "128 \<le> byte c"
proof -
  obtain a t where s: "s = a # t" using assms(1) by (cases s) auto
  then show ?thesis
    using assms(2,3)
    by (auto simp: decode_rune_def Let_def dest: cont_byte_high split: list.splits if_splits)
qed

lemma inert_quote_rune:
  assumes "s \<noteq> []" and d: "decode_rune s = (r, w)"
  shows "inert (quote_rune pr (take w s) r)"
proof -
  obtain c t where s: "s = c # t" using assms(1) by (cases s) auto
  show ?thesis
  proof (cases "byte c < 128")
    case True
    then have "take w s = [c]" "r = byte c" using d s by auto
    moreover have "c = bslash \<or> c = dquote" if "byte c = byte bslash \<or> byte c = byte dquote"
      using that by (simp only: of_char_eq_iff)
    ultimately show ?thesis
      using inert_escape [of c] inert_esc_hex inert_escape_rune inert_plain [of c]
      by (auto simp: quote_rune_def)
  next
    case False
    then have high: "\<forall>c\<in>set (take w s). 128 \<le> byte c"
      using decode_rune_high [OF assms(1)] d s by auto
    then have "\<forall>c\<in>set (take w s). c \<noteq> bslash \<and> c \<noteq> dquote" by (auto simp: quote_chars)
    moreover have "inert (bslash # take w s)" if "r = byte dquote \<or> r = byte bslash"
    proof -
      have "0 < w" using decode_rune_width [OF assms(1)] d by simp
      then have e: "bslash # take w s = [bslash, c] @ take (w - 1) t" using s by (cases w) simp_all
      have "set (take (w - 1) t) \<subseteq> set (take w s)" using s \<open>0 < w\<close> by (cases w) auto
      then have "inert (take (w - 1) t)" using calculation by (intro inert_all) blast
      then show ?thesis unfolding e by (intro inert_append) (simp_all add: inert_escape)
    qed
    ultimately show ?thesis
      using inert_all inert_esc_hex inert_escape_rune by (auto simp: quote_rune_def)
  qed
qed

lemma inert_quote_body: "inert (quote_body pr s)"
proof (induction s rule: length_induct)
  case (1 s)
  show ?case
  proof (cases "s = []")
    case False
    obtain r w where d: "decode_rune s = (r, w)" by fastforce
    then have "length (drop w s) < length s" using False decode_rune_width [OF False] by simp
    then have "inert (quote_body pr (drop w s))" using 1 by blast
    then show ?thesis
      using inert_append [OF inert_quote_rune [OF False d]] False d
      by (subst quote_body.simps) simp
  qed (simp add: quote_body.simps)
qed

lemma skeleton_quote: "skeleton False (quote pr s @ t) = [dquote, dquote] @ skeleton False t"
  using inert_quote_body [of pr s] quote_chars(1) by (auto simp: quote_def inert_def)

lemma skeleton_plain: "(\<forall>c\<in>set s. c \<noteq> dquote) \<Longrightarrow> skeleton False (s @ t) = s @ skeleton False t"
  by (induction s) auto

definition bare_term :: string where
  "bare_term = ''Service.Meta['' @ [dquote, dquote] @ ''] == '' @ [dquote, dquote]"

lemma skeleton_term: "skeleton False (meta_term pr k v @ t) = bare_term @ skeleton False t"
  by (simp add: meta_term_def skeleton_plain skeleton_quote bare_term_def dquote_def)

lemma skeleton_terms:
  "\<forall>x\<in>set ts. \<exists>k v. x = meta_term pr k v \<Longrightarrow>
     skeleton False (join_with '' and '' ts) = join_with '' and '' (replicate (length ts) bare_term)"
proof (induction ts rule: induct_list012)
  case (2 x)
  then show ?case using skeleton_term [of pr _ _ "[]"] by auto
next
  case (3 x y zs)
  then obtain k v where "x = meta_term pr k v" by auto
  with 3 show ?case
    using skeleton_plain [of "'' and ''"] by (simp add: skeleton_term dquote_def)
qed simp

lemma join_with_snoc: "join_with s (xs @ [y]) = (if xs = [] then y else join_with s xs @ s @ y)"
  by (induction xs rule: induct_list012) auto

lemma meta_terms_are_terms: "x \<in> set (meta_terms pr m) \<Longrightarrow> \<exists>k v. x = meta_term pr k v"
  by (auto simp: meta_terms_def)

lemma length_meta_terms: "length (meta_terms pr m) = fcard (fmdom m)"
  by (simp add: meta_terms_def sorted_list_of_fset.rep_eq fcard.rep_eq)

lemma meta_terms_Nil: "meta_terms pr m = [] \<longleftrightarrow> fmdom m = {||}"
  using length_meta_terms [of pr m] by (metis fcard_fempty fcard_0_eq length_0_conv)

lemma filter_expr_split:
  "filter_expr pr q = join_with '' and '' (meta_terms pr (q_meta q)) @
     (if q_filter q = [] then []
      else (if fmdom (q_meta q) = {||} then [] else '' and '') @ ''('' @ q_filter q @ '')'')"
  using meta_terms_Nil [of pr "q_meta q"] by (auto simp: filter_expr_def join_with_snoc)

lemma expr_current_step: "q_expr q = filter_expr pr q \<Longrightarrow> q_expr (apply_call pr q c) = filter_expr pr (apply_call pr q c)"
  by (cases c) (simp_all add: with_expr_def filter_expr_def)

lemma expr_current: "q_expr (build_query pr name calls) = filter_expr pr (build_query pr name calls)"
proof -
  have "q_expr q = filter_expr pr q \<Longrightarrow>
      q_expr (foldl (apply_call pr) q calls) = filter_expr pr (foldl (apply_call pr) q calls)" for q
    by (induction calls arbitrary: q) (simp_all add: expr_current_step)
  moreover have "q_expr (service_query name) = filter_expr pr (service_query name)"
    by (simp add: service_query_def filter_expr_def)
  ultimately show ?thesis by (simp add: build_query_def)
qed

text \<open>
  C39. After any sequence of builder calls, in any order, the filter sent to Consul is the current
  combination of the metadata requirements and the user filter: one term per metadata key, then the
  user filter in parentheses. No key or value of the metadata can change the structure of the
  expression: with the contents of its string literals removed, the metadata part is always the same
  conjunction of bare terms.
\<close>

theorem built_query_filter:
  "let q = build_query pr name calls;
       m = join_with '' and '' (meta_terms pr (q_meta q))
   in o_Filter (options_of q) =
        m @ (if q_filter q = [] then []
             else (if fmdom (q_meta q) = {||} then [] else '' and '') @ ''('' @ q_filter q @ '')'') \<and>
      skeleton False m = join_with '' and '' (replicate (fcard (fmdom (q_meta q))) bare_term)"
proof -
  have "skeleton False (join_with '' and '' (meta_terms pr m)) =
      join_with '' and '' (replicate (fcard (fmdom m)) bare_term)" for m
    using skeleton_terms [of "meta_terms pr m" pr] meta_terms_are_terms
    by (auto simp: length_meta_terms)
  then show ?thesis
    by (simp add: Let_def options_of_def expr_current filter_expr_split)
qed

subsection \<open>Results\<close>

text \<open>
  A query without \<open>Near\<close> returns the instances of the answer in one canonical order: sorted by
  id and node, and the same list for every order in which Consul sends the same entries.
\<close>

theorem fetch_canonical:
  assumes "q_near q = []" "mset es = mset es'" "distinct (map (instance_key \<circ> from_entry agg) es)"
  shows "fetch agg q (Inr (es, idx)) = fetch agg q (Inr (es', idx)) \<and>
     (\<exists>out. fetch agg q (Inr (es, idx)) = Inr (out, idx) \<and> sorted (map sort_key_of out) \<and>
        mset out = image_mset (from_entry agg) (mset es))"
proof -
  let ?out = "sort_instances (map (from_entry agg) es)"
  let ?out' = "sort_instances (map (from_entry agg) es')"
  have s: "sorted (map sort_key_of ?out)" "sorted (map sort_key_of ?out')"
    by (simp_all add: sort_instances_def)
  have "?out' = ?out"
    using assms s(2) by (intro sorted_permutation_unique) simp_all
  then show ?thesis using assms s by (simp add: fetch_def)
qed

definition sample_entry :: "string \<Rightarrow> service_entry" where
  "sample_entry sid =
     \<lparr>se_Service = \<lparr>as_ID = sid, as_Service = ''orders'', as_Address = ''10.0.0.1'', as_Port = 8080,
        as_Ports = [], as_Tags = [], as_Meta = fmempty, as_TaggedAddresses = fmempty,
        as_Weights = \<lparr>wt_Passing = 1, wt_Warning = 1\<rparr>, as_Datacenter = [], as_Namespace = [],
        as_Partition = []\<rparr>,
      se_Node = \<lparr>an_ID = [], an_Node = ''n1'', an_Address = ''10.0.0.1'', an_Datacenter = ''dc1'',
        an_TaggedAddresses = fmempty, an_Meta = fmempty\<rparr>,
      se_Checks = []\<rparr>"

lemma sample_keys: "instance_key (from_entry agg (sample_entry sid)) = (''n1'', sid)"
  by (simp add: instance_key_def from_entry_def sample_entry_def Let_def)

theorem fetch_canonical_witness:
  "fetch (\<lambda>_. StatusPassing) (service_query ''orders'') (Inr ([sample_entry ''b'', sample_entry ''a''], 7)) =
   fetch (\<lambda>_. StatusPassing) (service_query ''orders'') (Inr ([sample_entry ''a'', sample_entry ''b''], 7))"
  using fetch_canonical [of "service_query ''orders''" "[sample_entry ''b'', sample_entry ''a'']"
      "[sample_entry ''a'', sample_entry ''b'']" "\<lambda>_. StatusPassing" 7]
  by (simp add: service_query_def sample_keys add_mset_commute)

text \<open>
  What \<open>First\<close> returns: an instance of the answer, the first of what \<open>All\<close> returns; or an error
  that matches \<open>ErrServiceNotFound\<close> when the answer of a named query has no entry; or the failure of
  the request, wrapped so that it still matches every target it matched.
\<close>

theorem first_contract:
  assumes "q_name q \<noteq> []"
  shows "(\<forall>es idx. es \<noteq> [] \<longrightarrow>
            (\<exists>i rest. query_all agg q (Inr (es, idx)) = Inr (i # rest) \<and>
               query_first agg q (Inr (es, idx)) = Inr i \<and> i \<in> from_entry agg ` set es)) \<and>
     (\<exists>e. query_first agg q (Inr ([], idx)) = Inl e \<and> errors_is e ErrServiceNotFound \<and>
          query_all agg q (Inr ([], idx)) = Inr []) \<and>
     (\<exists>e. query_first agg q (Inl err) = Inl e \<and> (\<forall>t. errors_is err t \<longrightarrow> errors_is e t))"
proof (intro conjI allI impI)
  fix es :: "service_entry list" and idx
  assume "es \<noteq> []"
  let ?out = "if q_near q = [] then sort_instances (map (from_entry agg) es) else map (from_entry agg) es"
  have out: "set ?out = from_entry agg ` set es" by simp
  then obtain i rest where r: "?out = i # rest" using \<open>es \<noteq> []\<close> by (cases ?out) auto
  then have "i \<in> from_entry agg ` set es" using out by (metis list.set_intros(1))
  moreover have all: "query_all agg q (Inr (es, idx)) = Inr (i # rest)"
    using assms r by (simp add: query_all_def fetch_def Let_def)
  ultimately show "\<exists>i rest. query_all agg q (Inr (es, idx)) = Inr (i # rest) \<and>
      query_first agg q (Inr (es, idx)) = Inr i \<and> i \<in> from_entry agg ` set es"
    by (auto simp: query_first_def)
qed (use assms in \<open>auto simp: query_first_def query_all_def fetch_def sort_instances_def\<close>)

theorem first_contract_witness:
  "\<exists>e. query_first (\<lambda>_. StatusPassing) (service_query ''orders'') (Inr ([], 7)) = Inl e \<and>
       errors_is e ErrServiceNotFound"
  using first_contract [of "service_query ''orders''" "\<lambda>_. StatusPassing" 7 ErrNoName]
  by (auto simp: service_query_def)

end
