(* ===== verification/Mailbox.thy ===== *)
theory Mailbox
  imports Prelude
begin

text \<open>
  The one-slot event channel of a watch. Before a send the goroutine takes an unread event
  back; if there was none, the consumer has received the last one. What is sent is built from what the
  consumer has received (\<open>mb_delivered\<close>) and the new value. Only this goroutine sends, so the send
  never blocks. The locale states what a consumer can rely on for every way to build events; the
  watch of services interprets it.
\<close>

record ('v, 'e) mailbox =
  mb_delivered :: 'v
  mb_last :: 'v
  mb_chan :: "'e option"

definition mb_new :: "'v \<Rightarrow> ('v, 'e) mailbox" where
  "mb_new v0 = \<lparr>mb_delivered = v0, mb_last = v0, mb_chan = None\<rparr>"

definition mb_take_back :: "('v, 'e) mailbox \<Rightarrow> ('v, 'e) mailbox" where
  "mb_take_back b =
     (case mb_chan b of
        Some _ \<Rightarrow> b\<lparr>mb_chan := None\<rparr>
      | None \<Rightarrow> b\<lparr>mb_delivered := mb_last b\<rparr>)"

definition mb_send :: "('v \<Rightarrow> 'v \<Rightarrow> 'e) \<Rightarrow> 'v \<Rightarrow> ('v, 'e) mailbox \<Rightarrow> ('v, 'e) mailbox" where
  "mb_send build v b =
     (let b' = mb_take_back b
      in b'\<lparr>mb_chan := Some (build (mb_delivered b') v), mb_last := v\<rparr>)"

definition mb_receive :: "('v, 'e) mailbox \<Rightarrow> ('e \<times> ('v, 'e) mailbox) option" where
  "mb_receive b = (case mb_chan b of None \<Rightarrow> None | Some e \<Rightarrow> Some (e, b\<lparr>mb_chan := None\<rparr>))"

lemma mb_send_simps [simp]:
  "mb_last (mb_send build v b) = v"
  "mb_chan (mb_send build v b) \<noteq> None"
  by (simp_all add: mb_send_def Let_def)

lemma mb_receive_simps:
  "mb_receive b = Some (e, b') \<longleftrightarrow> mb_chan b = Some e \<and> b' = b\<lparr>mb_chan := None\<rparr>"
  by (auto simp: mb_receive_def split: option.splits)

locale coalescing =
  fixes build :: "'v \<Rightarrow> 'v \<Rightarrow> 'e"
    and view :: "'e \<Rightarrow> 'v"
    and v0 :: 'v
  assumes view_build [simp]: "view (build p c) = c"
begin

definition seen_view :: "'e list \<Rightarrow> 'v" where
  "seen_view seen = (if seen = [] then v0 else view (last seen))"

lemma seen_view_snoc [simp]: "seen_view (seen @ [e]) = view e"
  by (simp add: seen_view_def)

lemma seen_view_Nil [simp]: "seen_view [] = v0"
  by (simp add: seen_view_def)

definition chained :: "'e list \<Rightarrow> bool" where
  "chained seen \<longleftrightarrow> (\<forall>k<length seen. seen ! k = build (seen_view (take k seen)) (view (seen ! k)))"

lemma chained_Nil [simp]: "chained []"
  by (simp add: chained_def)

lemma chained_snoc:
  "chained (seen @ [e]) \<longleftrightarrow> chained seen \<and> e = build (seen_view seen) (view e)"
  by (auto simp: chained_def nth_append less_Suc_eq)

definition box_ok :: "('v, 'e) mailbox \<Rightarrow> 'e list \<Rightarrow> bool" where
  "box_ok b seen \<longleftrightarrow>
     chained seen \<and>
     (case mb_chan b of
        None \<Rightarrow> mb_last b = seen_view seen
      | Some e \<Rightarrow> mb_delivered b = seen_view seen \<and> e = build (seen_view seen) (mb_last b))"

lemma box_ok_new: "box_ok (mb_new v0) []"
  by (simp add: box_ok_def mb_new_def)

lemma box_ok_send: "box_ok b seen \<Longrightarrow> box_ok (mb_send build v b) seen"
  by (auto simp: box_ok_def mb_send_def mb_take_back_def Let_def split: option.splits)

lemma box_ok_receive: "box_ok b seen \<Longrightarrow> mb_receive b = Some (e, b') \<Longrightarrow> box_ok b' (seen @ [e])"
  by (auto simp: box_ok_def mb_receive_simps chained_snoc split: option.splits)

text \<open>Whatever was sent in between, the consumer is at most one event from the last value.\<close>

lemma one_event_behind:
  assumes "box_ok b seen"
  shows "mb_chan b = None \<and> seen_view seen = mb_last b \<or>
    mb_chan b = Some (build (seen_view seen) (mb_last b))"
  using assms by (auto simp: box_ok_def split: option.splits)

lemma box_chained: "box_ok b seen \<Longrightarrow> chained seen"
  by (simp add: box_ok_def)

end


end
