(* ===== verification/Watch.thy ===== *)
theory Watch
  imports Query Mailbox Blocking
begin

text \<open>
  discovery/watch.go. \<open>diff\<close> builds an event, \<open>on_response\<close> and \<open>on_failure\<close> are the two bodies of the
  loop of \<open>run\<close>, \<open>watch_step\<close> interleaves them with the consumer's receives and with \<open>Close\<close>.
  Between taking an event back and sending the next one the channel is empty, so a receive cannot
  interfere and the body is one step; the theory \<open>WatchLoop\<close> has the steps of the goroutine and proves it.
\<close>

subsection \<open>Events\<close>

record event =
  ev_Instances :: "service_instance list"
  ev_Added :: "service_instance list"
  ev_Removed :: "service_instance list"
  ev_Changed :: "service_instance list"

type_synonym key_index = "string \<times> string \<rightharpoonup> nat"

definition old_index :: "service_instance list \<Rightarrow> key_index" where
  "old_index prev = foldl (\<lambda>m (n, i). m(instance_key i \<mapsto> n)) Map.empty (enumerate 0 prev)"

text \<open>The loop over the new instances: the index, the added and the changed ones.\<close>

fun diff_loop :: "service_instance list \<Rightarrow> key_index \<Rightarrow> service_instance list \<Rightarrow>
    service_instance list \<Rightarrow> service_instance list \<Rightarrow>
    key_index \<times> service_instance list \<times> service_instance list" where
  "diff_loop prev old added changed [] = (old, added, changed)"
| "diff_loop prev old added changed (i # cur) =
     (let k = instance_key i;
          (added', changed') =
            (case old k of
               None \<Rightarrow> (added @ [clone i], changed)
             | Some n \<Rightarrow> (added, if \<not> equal_instance (prev ! n) i then changed @ [clone i] else changed))
      in diff_loop prev (old(k := None)) added' changed' cur)"

definition diff :: "service_instance list \<Rightarrow> service_instance list \<Rightarrow> event" where
  "diff prev cur =
     (let (old, added, changed) = diff_loop prev (old_index prev) [] [] cur
      in \<lparr>ev_Instances = clone_all cur, ev_Added = added,
          ev_Removed = filter (\<lambda>i. old (instance_key i) \<noteq> None) prev, ev_Changed = changed\<rparr>)"

lemma diff_Instances [simp]: "ev_Instances (diff prev cur) = cur"
  by (simp add: diff_def split: prod.splits)

interpretation feed: coalescing diff ev_Instances "[]"
  by unfold_locales simp

lemma key_apart:
  "instance_key i \<notin> instance_key ` set xs \<Longrightarrow> j \<in> set xs \<Longrightarrow> instance_key j \<noteq> instance_key i"
  by (metis imageI)

lemma old_index_snoc:
  "old_index (prev @ [i]) = (old_index prev)(instance_key i \<mapsto> length prev)"
  by (simp add: old_index_def enumerate_append_eq)

lemma old_index_iff:
  "distinct (map instance_key prev) \<Longrightarrow>
     old_index prev k = Some n \<longleftrightarrow> n < length prev \<and> instance_key (prev ! n) = k"
proof (induction prev rule: rev_induct)
  case (snoc i prev)
  have "instance_key i \<notin> instance_key ` set prev" using snoc.prems by auto
  then have "instance_key (prev ! m) \<noteq> instance_key i" if "m < length prev" for m
    using key_apart nth_mem [OF that] by blast
  then show ?case using snoc by (auto simp: old_index_snoc nth_append less_Suc_eq)
qed (simp add: old_index_def)

lemma old_index_None:
  "old_index prev k = None \<longleftrightarrow> k \<notin> instance_key ` set prev"
  by (induction prev rule: rev_induct) (auto simp: old_index_snoc, simp add: old_index_def)

lemma diff_loop_distinct:
  "distinct (map instance_key cur) \<Longrightarrow>
     diff_loop prev old added changed cur =
       (old |` (- instance_key ` set cur),
        added @ filter (\<lambda>i. old (instance_key i) = None) cur,
        changed @ filter (\<lambda>i. \<exists>n. old (instance_key i) = Some n \<and> prev ! n \<noteq> i) cur)"
proof (induction cur arbitrary: old added changed)
  case (Cons i cur)
  have n: "instance_key j \<noteq> instance_key i" if "j \<in> set cur" for j
    using Cons.prems that key_apart [of i cur j] by simp
  have f: "filter (\<lambda>j. (old(instance_key i := None)) (instance_key j) = None) cur =
      filter (\<lambda>j. old (instance_key j) = None) cur"
    "filter (\<lambda>j. \<exists>m. (old(instance_key i := None)) (instance_key j) = Some m \<and> prev ! m \<noteq> j) cur =
      filter (\<lambda>j. \<exists>m. old (instance_key j) = Some m \<and> prev ! m \<noteq> j) cur"
    using n by (auto intro!: filter_cong)
  have r: "old(instance_key i := None) |` (- instance_key ` set cur) =
      old |` (- instance_key ` set (i # cur))"
    by (auto simp: restrict_map_def)
  have d: "distinct (map instance_key cur)" using Cons.prems by simp
  show ?case
    unfolding diff_loop.simps Let_def
    by (cases "old (instance_key i)")
      (simp_all only: option.simps prod.case Cons.IH [OF d] f r, simp_all add: equal_instance_eq)
qed (simp add: restrict_map_def)

definition same_key :: "service_instance list \<Rightarrow> service_instance \<Rightarrow> bool" where
  "same_key xs i \<longleftrightarrow> list_ex (\<lambda>j. instance_key j = instance_key i) xs"

lemma same_key_iff: "same_key xs i \<longleftrightarrow> instance_key i \<in> instance_key ` set xs"
  unfolding same_key_def list_ex_iff image_iff by metis

lemma diff_distinct:
  assumes p: "distinct (map instance_key prev)" and c: "distinct (map instance_key cur)"
  shows "ev_Added (diff prev cur) = filter (\<lambda>i. \<not> same_key prev i) cur"
    and "ev_Removed (diff prev cur) = filter (\<lambda>i. \<not> same_key cur i) prev"
    and "ev_Changed (diff prev cur) = filter (\<lambda>i. same_key prev i \<and> i \<notin> set prev) cur"
proof -
  let ?old = "old_index prev"
  have d: "diff prev cur = \<lparr>ev_Instances = cur,
      ev_Added = filter (\<lambda>i. ?old (instance_key i) = None) cur,
      ev_Removed = filter (\<lambda>i. (?old |` (- instance_key ` set cur)) (instance_key i) \<noteq> None) prev,
      ev_Changed = filter (\<lambda>i. \<exists>n. ?old (instance_key i) = Some n \<and> prev ! n \<noteq> i) cur\<rparr>"
    by (simp add: diff_def diff_loop_distinct [OF c])
  show "ev_Added (diff prev cur) = filter (\<lambda>i. \<not> same_key prev i) cur"
    by (simp add: d old_index_None same_key_iff)
  have "(?old |` (- instance_key ` set cur)) (instance_key i) \<noteq> None \<longleftrightarrow> \<not> same_key cur i"
    if "i \<in> set prev" for i
    using old_index_None [of prev "instance_key i"] that
    by (auto simp: restrict_map_def same_key_iff split: if_splits)
  then show "ev_Removed (diff prev cur) = filter (\<lambda>i. \<not> same_key cur i) prev"
    by (auto simp: d intro!: filter_cong)
  have "(\<exists>n. ?old (instance_key i) = Some n \<and> prev ! n \<noteq> i) \<longleftrightarrow> same_key prev i \<and> i \<notin> set prev" for i
  proof -
    have u: "j = i" if "i \<in> set prev" "j \<in> set prev" "instance_key j = instance_key i" for j
      using key_inj_on [OF p] that by blast
    show ?thesis
    proof
      assume "\<exists>n. ?old (instance_key i) = Some n \<and> prev ! n \<noteq> i"
      then obtain n where n: "n < length prev" "instance_key (prev ! n) = instance_key i" "prev ! n \<noteq> i"
        by (auto simp: old_index_iff [OF p])
      then have m: "prev ! n \<in> set prev" by simp
      then have "instance_key i \<in> instance_key ` set prev" using n(2) by (metis imageI)
      moreover have "i \<notin> set prev" using u [of "prev ! n"] m n(2,3) by metis
      ultimately show "same_key prev i \<and> i \<notin> set prev" by (simp add: same_key_iff)
    next
      assume a: "same_key prev i \<and> i \<notin> set prev"
      then obtain j where "j \<in> set prev" "instance_key j = instance_key i"
        by (auto simp: same_key_def list_ex_iff)
      then obtain n where "n < length prev" "instance_key (prev ! n) = instance_key i"
        by (metis in_set_conv_nth)
      then show "\<exists>n. ?old (instance_key i) = Some n \<and> prev ! n \<noteq> i"
        using a by (auto simp: old_index_iff [OF p])
    qed
  qed
  then show "ev_Changed (diff prev cur) = filter (\<lambda>i. same_key prev i \<and> i \<notin> set prev) cur"
    by (auto simp: d intro!: filter_cong)
qed

text \<open>The view of a consumer that applies an event to the one it holds.\<close>

definition patched :: "service_instance list \<Rightarrow> event \<Rightarrow> service_instance set" where
  "patched prev ev =
     {i \<in> set prev. \<not> same_key (ev_Removed ev @ ev_Changed ev) i} \<union> set (ev_Added ev) \<union> set (ev_Changed ev)"

lemma patched_subset:
  assumes p: "distinct (map instance_key prev)" and c: "distinct (map instance_key cur)"
  shows "patched prev (diff prev cur) \<subseteq> set cur"
proof
  fix i assume i: "i \<in> patched prev (diff prev cur)"
  show "i \<in> set cur"
  proof (cases "i \<in> set (ev_Added (diff prev cur)) \<union> set (ev_Changed (diff prev cur))")
    case False
    then have i: "i \<in> set prev" "\<not> same_key (ev_Removed (diff prev cur)) i"
      "\<not> same_key (ev_Changed (diff prev cur)) i"
      using i by (auto simp: same_key_def patched_def)
    then have "same_key cur i" using diff_distinct(2) [OF p c] by (auto simp: same_key_def list_ex_iff)
    then obtain j where j: "j \<in> set cur" "instance_key j = instance_key i"
      by (auto simp: same_key_def list_ex_iff)
    have "same_key prev j" using i(1) j(2) by (auto simp: same_key_def list_ex_iff)
    moreover have "j \<notin> set (ev_Changed (diff prev cur))"
      using i(3) j(2) by (auto simp: same_key_def list_ex_iff)
    ultimately have "j \<in> set prev" using j(1) by (auto simp: diff_distinct(3) [OF p c])
    then have "j = i" using key_inj_on [OF p] j i by blast
    then show ?thesis using j by simp
  qed (auto simp: diff_distinct [OF p c])
qed

lemma patched_superset:
  assumes p: "distinct (map instance_key prev)" and c: "distinct (map instance_key cur)"
  shows "set cur \<subseteq> patched prev (diff prev cur)"
proof
  fix i assume i: "i \<in> set cur"
  show "i \<in> patched prev (diff prev cur)"
  proof (cases "i \<in> set (ev_Added (diff prev cur)) \<union> set (ev_Changed (diff prev cur))")
    case False
    then have "i \<in> set prev" using i by (auto simp: diff_distinct [OF p c])
    moreover have "\<not> same_key (ev_Removed (diff prev cur) @ ev_Changed (diff prev cur)) i"
    proof
      assume "same_key (ev_Removed (diff prev cur) @ ev_Changed (diff prev cur)) i"
      then obtain j where j: "instance_key j = instance_key i"
        "j \<in> set (ev_Removed (diff prev cur)) \<or> j \<in> set (ev_Changed (diff prev cur))"
        by (auto simp: same_key_def list_ex_iff)
      have "same_key cur j" using i j(1) by (auto simp: same_key_def list_ex_iff)
      then have "j \<in> set cur" "j \<notin> set prev" using j(2) by (auto simp: diff_distinct [OF p c])
      then show False using key_inj_on [OF c] i j(1) \<open>i \<in> set prev\<close> by metis
    qed
    ultimately show ?thesis by (simp add: patched_def)
  qed (auto simp: patched_def)
qed

text \<open>
  C25. For two states in which Consul names each instance once, an event says exactly what changed:
  the new instances, the ones that are gone, the ones whose value differs; and a consumer that drops
  the removed and changed instances from its previous view and adds the added and changed ones holds
  the new state.
\<close>

theorem diff_exact:
  assumes p: "distinct (map instance_key prev)" and c: "distinct (map instance_key cur)"
  shows "let ev = diff prev cur in
     ev_Instances ev = cur \<and>
     ev_Added ev = filter (\<lambda>i. \<not> same_key prev i) cur \<and>
     ev_Removed ev = filter (\<lambda>i. \<not> same_key cur i) prev \<and>
     ev_Changed ev = filter (\<lambda>i. same_key prev i \<and> i \<notin> set prev) cur \<and>
     patched prev ev = set cur"
  using diff_distinct [OF p c] patched_subset [OF p c] patched_superset [OF p c]
  by (simp add: Let_def)

text \<open>A sample: one instance stays, one changes its port, one goes and one comes.\<close>

definition sample_instance :: "string \<Rightarrow> int \<Rightarrow> service_instance" where
  "sample_instance sid port = (from_entry (\<lambda>_. StatusPassing) (sample_entry sid))\<lparr>i_Port := port\<rparr>"

lemma sample_instance_key [simp]: "instance_key (sample_instance sid port) = (''n1'', sid)"
  by (simp add: sample_instance_def from_entry_def sample_entry_def instance_key_def Let_def)

lemma sample_instance_inj [simp]:
  "sample_instance a p = sample_instance b q \<longleftrightarrow> a = b \<and> p = q"
  by (auto simp: sample_instance_def from_entry_def sample_entry_def Let_def)

theorem diff_exact_witness:
  "let ev = diff [sample_instance ''a'' 1, sample_instance ''b'' 1, sample_instance ''c'' 1]
                 [sample_instance ''a'' 1, sample_instance ''b'' 2, sample_instance ''d'' 1]
   in ev_Added ev = [sample_instance ''d'' 1] \<and> ev_Removed ev = [sample_instance ''c'' 1] \<and>
      ev_Changed ev = [sample_instance ''b'' 2]"
  using diff_exact [of "[sample_instance ''a'' 1, sample_instance ''b'' 1, sample_instance ''c'' 1]"
      "[sample_instance ''a'' 1, sample_instance ''b'' 2, sample_instance ''d'' 1]"]
  by (simp add: same_key_def Let_def)

subsection \<open>Snapshots\<close>

record snapshot =
  sn_list :: "service_instance list"
  sn_endpoints :: "endpoint list"

definition new_snapshot :: "service_instance list \<Rightarrow> snapshot" where
  "new_snapshot xs = \<lparr>sn_list = xs, sn_endpoints = map endpoint_of xs\<rparr>"

text \<open>The methods of the handle, \<open>None\<close> being its zero value.\<close>

definition snapshot_len :: "snapshot option \<Rightarrow> int" where
  "snapshot_len s = (case s of None \<Rightarrow> 0 | Some sn \<Rightarrow> int (length (sn_list sn)))"

definition snapshot_list :: "snapshot option \<Rightarrow> service_instance list" where
  "snapshot_list s = (case s of None \<Rightarrow> [] | Some sn \<Rightarrow> sn_list sn)"

definition snapshot_instances :: "snapshot option \<Rightarrow> service_instance list" where
  "snapshot_instances s = clone_all (snapshot_list s)"

definition snapshot_pick ::
    "(service_instance list \<Rightarrow> service_instance option) \<Rightarrow> snapshot option \<Rightarrow> service_instance option" where
  "snapshot_pick pick s =
     (case pick (snapshot_list s) of None \<Rightarrow> None | Some i \<Rightarrow> Some (clone i))"

definition snapshot_pick_endpoint ::
    "(service_instance list \<Rightarrow> int option) \<Rightarrow> snapshot option \<Rightarrow> endpoint option" where
  "snapshot_pick_endpoint pick s =
     (case pick (snapshot_list s) of
        None \<Rightarrow> None
      | Some i \<Rightarrow>
        if i < 0 \<or> snapshot_len s \<le> i then None
        else (case s of None \<Rightarrow> None | Some sn \<Rightarrow> Some (sn_endpoints sn ! nat i)))"

definition snapshot_endpoints :: "snapshot option \<Rightarrow> endpoint list" where
  "snapshot_endpoints s = (case s of None \<Rightarrow> [] | Some sn \<Rightarrow> sn_endpoints sn)"

definition snapshot_ok :: "snapshot option \<Rightarrow> bool" where
  "snapshot_ok s \<longleftrightarrow> (case s of None \<Rightarrow> True | Some sn \<Rightarrow> sn_endpoints sn = map endpoint_of (sn_list sn))"

lemma snapshot_ok_new [simp]: "snapshot_ok (Some (new_snapshot xs))"
  by (simp add: snapshot_ok_def new_snapshot_def)

lemma snapshot_list_new [simp]: "snapshot_list (Some (new_snapshot xs)) = xs"
  by (simp add: snapshot_list_def new_snapshot_def)

text \<open>An endpoint is handed out for an instance of the state, never out of range.\<close>

lemma pick_endpoint_of_instance:
  assumes "snapshot_ok s" "snapshot_pick_endpoint pick s = Some e"
  shows "\<exists>i. pick (snapshot_list s) = Some i \<and> 0 \<le> i \<and> nat i < length (snapshot_list s) \<and>
    e = endpoint_of (snapshot_list s ! nat i)"
  using assms
  by (auto simp: snapshot_pick_endpoint_def snapshot_ok_def snapshot_len_def snapshot_list_def
      split: option.splits if_splits)

subsection \<open>The loop\<close>

record watch =
  w_index :: "64 word"
  w_failures :: int
  w_box :: "(service_instance list, event) mailbox"
  w_haveState :: bool
  w_current :: "snapshot option"
  w_ready :: bool
  w_errs :: "goerr option"
  w_stopped :: bool

definition new_watch :: watch where
  "new_watch =
     \<lparr>w_index = 0, w_failures = 0, w_box = mb_new [], w_haveState = False, w_current = None,
      w_ready = False, w_errs = None, w_stopped = False\<rparr>"

definition start_watch :: "query \<Rightarrow> watch res" where
  "start_watch q = (if q_name q = [] then Inl ErrNoName else Inr new_watch)"

definition watch_request :: "discovery_config \<Rightarrow> query \<Rightarrow> watch \<Rightarrow> duration \<times> query_options" where
  "watch_request cfg q w =
     (request_timeout (dc_WaitTime cfg) (dc_RequestTimeout cfg),
      (options_of q)\<lparr>o_WaitIndex := w_index w, o_WaitTime := dc_WaitTime cfg\<rparr>)"

fun instances_equal :: "service_instance list \<Rightarrow> service_instance list \<Rightarrow> bool" where
  "instances_equal [] [] = True"
| "instances_equal (a # as) (b # bs) = (equal_instance a b \<and> instances_equal as bs)"
| "instances_equal _ _ = False"

lemma instances_equal_eq [simp]: "instances_equal xs ys \<longleftrightarrow> xs = ys"
  by (induction xs ys rule: instances_equal.induct) (auto simp: equal_instance_eq)

text \<open>\<open>publishErr\<close>: an undelivered error is taken out of the slot before the new one is put in.\<close>

definition publish_err :: "goerr \<Rightarrow> goerr option \<Rightarrow> goerr option" where
  "publish_err err slot =
     (let drained = (case slot of Some _ \<Rightarrow> None | None \<Rightarrow> slot)
      in case drained of None \<Rightarrow> Some err | Some e \<Rightarrow> Some e)"

definition retry_delay :: "discovery_config \<Rightarrow> int \<Rightarrow> duration" where
  "retry_delay cfg n =
     (case dc_Retry cfg of
        None \<Rightarrow> 0
      | Some next \<Rightarrow> (let (d, ok) = next n in if ok then d else go_div (dc_WaitTime cfg) 10))"

definition on_failure :: "discovery_config \<Rightarrow> goerr \<Rightarrow> watch \<Rightarrow> duration \<times> watch" where
  "on_failure cfg err w =
     (let n = w_failures w + 1
      in (retry_delay cfg n,
          w\<lparr>w_failures := n, w_errs := publish_err err (w_errs w), w_index := 0\<rparr>))"

definition on_response :: "service_instance list \<Rightarrow> 64 word \<Rightarrow> watch \<Rightarrow> watch" where
  "on_response ins last_index w =
     (let w1 = w\<lparr>w_failures := 0, w_index := next_index (w_index w) last_index\<rparr>
      in if w_haveState w1 \<and> instances_equal ins (mb_last (w_box w1)) then w1
         else w1\<lparr>w_haveState := True, w_current := Some (new_snapshot ins), w_ready := True,
                 w_box := mb_send diff ins (w_box w1)\<rparr>)"

text \<open>One iteration, given the answer of the request; the duration is the sleep before the next one.\<close>

definition watch_iteration ::
    "(api_check list \<Rightarrow> status) \<Rightarrow> discovery_config \<Rightarrow> query \<Rightarrow> health_answer \<Rightarrow> watch \<Rightarrow> duration \<times> watch" where
  "watch_iteration agg cfg q answer w =
     (case fetch agg q answer of
        Inl err \<Rightarrow> on_failure cfg err w
      | Inr (ins, idx) \<Rightarrow> (0, on_response ins idx w))"

text \<open>The watch and what its consumer has received so far.\<close>

record watch_sys =
  ws_watch :: watch
  ws_seen :: "event list"

inductive watch_step ::
    "(api_check list \<Rightarrow> status) \<Rightarrow> discovery_config \<Rightarrow> query \<Rightarrow> watch_sys \<Rightarrow> watch_sys \<Rightarrow> bool"
  for agg cfg q where
  iterate: "\<not> w_stopped (ws_watch s) \<Longrightarrow>
    watch_step agg cfg q s (s\<lparr>ws_watch := snd (watch_iteration agg cfg q answer (ws_watch s))\<rparr>)"
| receive: "mb_receive (w_box (ws_watch s)) = Some (ev, box) \<Longrightarrow>
    watch_step agg cfg q s (s\<lparr>ws_watch := (ws_watch s)\<lparr>w_box := box\<rparr>, ws_seen := ws_seen s @ [ev]\<rparr>)"
| receive_err: "w_errs (ws_watch s) = Some err \<Longrightarrow>
    watch_step agg cfg q s (s\<lparr>ws_watch := (ws_watch s)\<lparr>w_errs := None\<rparr>\<rparr>)"
| stop: "watch_step agg cfg q s (s\<lparr>ws_watch := (ws_watch s)\<lparr>w_stopped := True\<rparr>\<rparr>)"

inductive watch_reachable ::
    "(api_check list \<Rightarrow> status) \<Rightarrow> discovery_config \<Rightarrow> query \<Rightarrow> watch_sys \<Rightarrow> bool"
  for agg cfg q where
  start: "start_watch q = Inr w \<Longrightarrow> watch_reachable agg cfg q \<lparr>ws_watch = w, ws_seen = []\<rparr>"
| step: "watch_reachable agg cfg q s \<Longrightarrow> watch_step agg cfg q s s' \<Longrightarrow> watch_reachable agg cfg q s'"

definition consumer_view :: "event list \<Rightarrow> service_instance list" where
  "consumer_view seen = (if seen = [] then [] else ev_Instances (last seen))"

lemma consumer_view_feed: "consumer_view = feed.seen_view"
  by (rule ext) (simp add: consumer_view_def feed.seen_view_def)

definition watch_inv :: "watch_sys \<Rightarrow> bool" where
  "watch_inv s \<longleftrightarrow>
     (let w = ws_watch s
      in feed.box_ok (w_box w) (ws_seen s) \<and>
         (if w_haveState w then w_ready w \<and> w_current w = Some (new_snapshot (mb_last (w_box w)))
          else w_box w = mb_new [] \<and> ws_seen s = [] \<and> \<not> w_ready w \<and> w_current w = None))"

lemma on_failure_simps [simp]:
  "w_box (snd (on_failure cfg e w)) = w_box w" "w_haveState (snd (on_failure cfg e w)) = w_haveState w"
  "w_ready (snd (on_failure cfg e w)) = w_ready w" "w_current (snd (on_failure cfg e w)) = w_current w"
  "w_index (snd (on_failure cfg e w)) = 0" "w_failures (snd (on_failure cfg e w)) = w_failures w + 1"
  "w_errs (snd (on_failure cfg e w)) = Some e"
  by (simp_all add: on_failure_def Let_def publish_err_def split: option.splits)

lemma watch_inv_response: "watch_inv s \<Longrightarrow> watch_inv (s\<lparr>ws_watch := on_response ins idx (ws_watch s)\<rparr>)"
  by (auto simp: watch_inv_def on_response_def Let_def feed.box_ok_send)

lemma watch_inv_failure: "watch_inv s \<Longrightarrow> watch_inv (s\<lparr>ws_watch := snd (on_failure cfg e (ws_watch s))\<rparr>)"
  by (simp add: watch_inv_def Let_def)

lemma watch_inv_step: "watch_step agg cfg q s s' \<Longrightarrow> watch_inv s \<Longrightarrow> watch_inv s'"
proof (induction rule: watch_step.induct)
  case (iterate s answer)
  then show ?case
    using watch_inv_response watch_inv_failure
    by (auto simp: watch_iteration_def split: sum.splits prod.splits)
next
  case (receive s ev box)
  then have "feed.box_ok box (ws_seen s @ [ev])" "mb_last box = mb_last (w_box (ws_watch s))"
    "w_haveState (ws_watch s)"
    by (auto simp: watch_inv_def Let_def mb_receive_simps mb_new_def feed.box_ok_receive split: if_splits)
  with receive show ?case by (simp add: watch_inv_def Let_def)
qed (simp_all add: watch_inv_def Let_def)

lemma watch_inv_start: "start_watch q = Inr w \<Longrightarrow> watch_inv \<lparr>ws_watch = w, ws_seen = []\<rparr>"
  by (auto simp: start_watch_def watch_inv_def new_watch_def feed.box_ok_new Let_def split: if_splits)

lemma watch_reachable_inv: "watch_reachable agg cfg q s \<Longrightarrow> watch_inv s"
  by (induction rule: watch_reachable.induct) (blast intro: watch_inv_start watch_inv_step)+

text \<open>
  C9. However responses, failures, receives and a stop interleave, every event a consumer has
  received is the difference between the event it received before and the state it carries, never an
  intermediate state it did not see; and the consumer is at most one event behind: either it holds the
  latest state, or the one event waiting in the channel leads exactly from its view to that state,
  which is also the published snapshot.
\<close>

theorem watch_consumer_view:
  assumes "watch_reachable agg cfg q s"
  shows "let w = ws_watch s; view = consumer_view (ws_seen s); latest = mb_last (w_box w) in
     (\<forall>k<length (ws_seen s). ws_seen s ! k =
        diff (consumer_view (take k (ws_seen s))) (ev_Instances (ws_seen s ! k))) \<and>
     (mb_chan (w_box w) = None \<and> view = latest \<or> mb_chan (w_box w) = Some (diff view latest)) \<and>
     w_ready w = w_haveState w \<and>
     w_current w = (if w_haveState w then Some (new_snapshot latest) else None)"
proof -
  have inv: "watch_inv s" using assms by (rule watch_reachable_inv)
  then have ok: "feed.box_ok (w_box (ws_watch s)) (ws_seen s)" by (simp add: watch_inv_def Let_def)
  show ?thesis
    using feed.box_chained [OF ok] feed.one_event_behind [OF ok] inv
    by (auto simp: consumer_view_feed feed.chained_def watch_inv_def Let_def split: if_splits)
qed

theorem watch_consumer_view_witness:
  "let w = on_response [sample_instance ''b'' 1] 8 (on_response [sample_instance ''a'' 1] 7 new_watch)
   in mb_chan (w_box w) = Some (diff [] [sample_instance ''b'' 1])"
proof -
  let ?q = "service_query ''orders''" and ?agg = "\<lambda>_. StatusPassing"
  let ?cfg = "new_discovery \<lparr>dc_WaitTime = 0, dc_RequestTimeout = second, dc_MinInterval = 0, dc_Retry = None\<rparr>"
  let ?entry = "\<lambda>n. (sample_entry n)\<lparr>se_Service := (se_Service (sample_entry n))\<lparr>as_Port := 1\<rparr>\<rparr>"
  have e: "fetch ?agg ?q (Inr ([?entry n], i)) = Inr ([sample_instance n 1], i)" for n i
    by (simp add: fetch_def service_query_def from_entry_def sample_entry_def sample_instance_def
        sort_instances_def default_port_def Let_def)
  let ?s0 = "\<lparr>ws_watch = new_watch, ws_seen = []\<rparr>"
  have s0: "watch_reachable ?agg ?cfg ?q ?s0"
    by (rule watch_reachable.start) (simp add: start_watch_def service_query_def)
  note i1 = watch_step.iterate [of ?s0 ?agg ?cfg ?q "Inr ([?entry ''a''], 7)"]
  let ?s1 = "\<lparr>ws_watch = on_response [sample_instance ''a'' 1] 7 new_watch, ws_seen = []\<rparr>"
  have s1: "watch_reachable ?agg ?cfg ?q ?s1"
    using watch_reachable.step [OF s0 i1] by (simp add: watch_iteration_def e new_watch_def)
  note i2 = watch_step.iterate [of ?s1 ?agg ?cfg ?q "Inr ([?entry ''b''], 8)"]
  let ?s2 = "\<lparr>ws_watch = on_response [sample_instance ''b'' 1] 8
      (on_response [sample_instance ''a'' 1] 7 new_watch), ws_seen = []\<rparr>"
  have s2: "watch_reachable ?agg ?cfg ?q ?s2"
    using watch_reachable.step [OF s1 i2]
    by (simp add: watch_iteration_def e on_response_def Let_def new_watch_def)
  from watch_consumer_view [OF s2] show ?thesis
    by (auto simp: Let_def consumer_view_def on_response_def)
qed

text \<open>
  What one iteration does in every reachable state. A successful answer makes its instances the
  latest state and the published snapshot, moves the index by the index rule and ends the count of
  failures; when the answer brings the same instances again, no event is queued and an unread one
  stays. A failed answer leaves state, snapshot and events alone, keeps only this error for the
  consumer, and makes the next request start from index 0 after the delay of the retry policy.
\<close>

theorem watch_iteration_effect:
  assumes "watch_reachable agg cfg q s" "watch_iteration agg cfg q answer (ws_watch s) = (d, w')"
  shows "case fetch agg q answer of
     Inr (ins, idx) \<Rightarrow>
       mb_last (w_box w') = ins \<and> w_current w' = Some (new_snapshot ins) \<and> w_failures w' = 0 \<and>
       o_WaitIndex (snd (watch_request cfg q w')) = next_index (w_index (ws_watch s)) idx \<and>
       (w_current (ws_watch s) = Some (new_snapshot ins) \<longrightarrow> w_box w' = w_box (ws_watch s))
   | Inl err \<Rightarrow>
       w_box w' = w_box (ws_watch s) \<and> w_current w' = w_current (ws_watch s) \<and>
       w_errs w' = Some err \<and> o_WaitIndex (snd (watch_request cfg q w')) = 0 \<and>
       d = retry_delay cfg (w_failures w')"
proof (cases "fetch agg q answer")
  case (Inl err)
  then have "(d, w') = on_failure cfg err (ws_watch s)" using assms(2) by (simp add: watch_iteration_def)
  then have w: "w' = snd (on_failure cfg err (ws_watch s))" "d = fst (on_failure cfg err (ws_watch s))"
    by (metis snd_conv, metis fst_conv)
  then have "d = retry_delay cfg (w_failures w')" by (simp add: on_failure_def Let_def)
  then show ?thesis using Inl w(1) by (simp add: watch_request_def)
next
  case (Inr r)
  obtain ins idx where r: "r = (ins, idx)" by fastforce
  then have w: "w' = on_response ins idx (ws_watch s)" using assms(2) Inr by (simp add: watch_iteration_def)
  have inv: "watch_inv s" using assms(1) by (rule watch_reachable_inv)
  show ?thesis
  proof (cases "w_haveState (ws_watch s) \<and> ins = mb_last (w_box (ws_watch s))")
    case True
    then show ?thesis
      using inv Inr r w by (simp add: on_response_def Let_def watch_request_def watch_inv_def)
  next
    case False
    moreover have "w_current (ws_watch s) \<noteq> Some (new_snapshot ins)"
      using False inv by (auto simp: watch_inv_def Let_def new_snapshot_def split: if_splits)
    ultimately show ?thesis
      using Inr r w by (auto simp: on_response_def Let_def watch_request_def)
  qed
qed

theorem watch_iteration_effect_witness:
  "let cfg = new_discovery \<lparr>dc_WaitTime = 0, dc_RequestTimeout = second, dc_MinInterval = 0, dc_Retry = None\<rparr>;
       r = watch_iteration (\<lambda>_. StatusPassing) cfg (service_query ''orders'') (Inl ErrNoName) new_watch
   in fst r = 5 * second \<and> w_errs (snd r) = Some ErrNoName"
proof -
  let ?cfg = "new_discovery \<lparr>dc_WaitTime = 0, dc_RequestTimeout = second, dc_MinInterval = 0, dc_Retry = None\<rparr>"
  let ?r = "watch_iteration (\<lambda>_. StatusPassing) ?cfg (service_query ''orders'') (Inl ErrNoName) new_watch"
  have s0: "watch_reachable (\<lambda>_. StatusPassing) ?cfg (service_query ''orders'')
      \<lparr>ws_watch = new_watch, ws_seen = []\<rparr>"
    by (rule watch_reachable.start) (simp add: start_watch_def service_query_def)
  from watch_iteration_effect [OF s0, of "Inl ErrNoName" "fst ?r" "snd ?r"] show ?thesis
    by (simp add: fetch_def Let_def retry_delay_def new_discovery_def fixed_retry_def)
qed

definition run_answers ::
    "(api_check list \<Rightarrow> status) \<Rightarrow> discovery_config \<Rightarrow> query \<Rightarrow> health_answer list \<Rightarrow> watch" where
  "run_answers agg cfg q answers =
     foldl (\<lambda>w a. snd (watch_iteration agg cfg q a w)) new_watch answers"

definition failures_in_a_row :: "(api_check list \<Rightarrow> status) \<Rightarrow> query \<Rightarrow> health_answer list \<Rightarrow> nat" where
  "failures_in_a_row agg q answers = length (takeWhile (\<lambda>a. isl (fetch agg q a)) (rev answers))"

lemma run_answers_failures:
  "w_failures (run_answers agg cfg q answers) = int (failures_in_a_row agg q answers)"
proof (induction answers rule: rev_induct)
  case (snoc a answers)
  then show ?case
    by (cases "fetch agg q a")
      (auto simp: run_answers_def failures_in_a_row_def watch_iteration_def on_response_def Let_def)
qed (simp add: run_answers_def failures_in_a_row_def new_watch_def)

text \<open>
  The retry policy sees the number of failures in a row: after any history of answers, a failure
  waits for the policy's delay of one more than the failures directly before it.
\<close>

theorem watch_backoff:
  assumes "fetch agg q answer = Inl err"
  shows "fst (watch_iteration agg cfg q answer (run_answers agg cfg q answers)) =
    retry_delay cfg (int (failures_in_a_row agg q answers) + 1)"
  using assms by (simp add: watch_iteration_def on_failure_def Let_def run_answers_failures)

theorem watch_backoff_witness:
  "fst (watch_iteration (\<lambda>_. StatusPassing)
      \<lparr>dc_WaitTime = 600, dc_RequestTimeout = 1, dc_MinInterval = 1, dc_Retry = Some (\<lambda>n. (10 * n, n < 3))\<rparr>
      (service_query ''orders'') (Inl ErrNoName)
      (run_answers (\<lambda>_. StatusPassing)
        \<lparr>dc_WaitTime = 600, dc_RequestTimeout = 1, dc_MinInterval = 1, dc_Retry = Some (\<lambda>n. (10 * n, n < 3))\<rparr>
        (service_query ''orders'') [Inl ErrNoName, Inr ([], 5), Inl ErrNoName])) = 20"
proof -
  have f: "fetch (\<lambda>_. StatusPassing) (service_query ''orders'') (Inl ErrNoName) = Inl ErrNoName"
    by (simp add: fetch_def)
  show ?thesis
    by (subst watch_backoff [OF f])
      (simp add: failures_in_a_row_def fetch_def retry_delay_def Let_def)
qed

end
