(* ===== verification/Winding.thy ===== *)
theory Winding
  imports Prelude
begin

text \<open>
  The argument behind the claims that something comes to an end: \<open>Stop\<close> of a watch (\<open>KVWatch\<close>), the
  rest of a configuration watch after the last write (\<open>KVConverge\<close>), the recovery of a registration
  (\<open>RegSystem\<close>). A system winds down when every step of its own makes a weight smaller, the steps of
  others do not make it larger, and until the end some step of its own is possible. Then the weight bounds
  the number of its steps and the end can be reached from everywhere.
\<close>

locale winding_down =
  fixes step :: "'e \<Rightarrow> 's \<Rightarrow> 's option" and own :: "'e \<Rightarrow> bool" and inv :: "'s \<Rightarrow> bool"
    and ended :: "'s \<Rightarrow> bool" and weight :: "'s \<Rightarrow> nat"
  assumes kept: "inv s \<Longrightarrow> step e s = Some s' \<Longrightarrow> inv s'"
    and own_less: "inv s \<Longrightarrow> own e \<Longrightarrow> step e s = Some s' \<Longrightarrow> weight s' < weight s"
    and other_le: "inv s \<Longrightarrow> \<not> own e \<Longrightarrow> step e s = Some s' \<Longrightarrow> weight s' \<le> weight s"
    and enabled: "inv s \<Longrightarrow> \<not> ended s \<Longrightarrow> \<exists>e s'. own e \<and> step e s = Some s'"
begin

fun steps :: "'e list \<Rightarrow> 's \<Rightarrow> 's option" where
  "steps [] s = Some s"
| "steps (e # es) s = Option.bind (step e s) (steps es)"

lemma bounded: "inv s \<Longrightarrow> steps es s = Some s' \<Longrightarrow> inv s' \<and> length (filter own es) + weight s' \<le> weight s"
proof (induction es arbitrary: s)
  case (Cons e es)
  then obtain s1 where s1: "step e s = Some s1" "steps es s1 = Some s'" by (auto split: bind_splits)
  then have "inv s1" using kept Cons.prems(1) by blast
  with Cons.IH [OF this s1(2)] own_less [OF Cons.prems(1) _ s1(1)] other_le [OF Cons.prems(1) _ s1(1)]
  show ?case by (cases "own e") (auto intro: order.trans)
qed simp

lemma reaches_end: "inv s \<Longrightarrow> \<exists>es s'. list_all own es \<and> steps es s = Some s' \<and> ended s'"
proof (induction "weight s" arbitrary: s rule: less_induct)
  case less
  show ?case
  proof (cases "ended s")
    case True
    then have "list_all own [] \<and> steps [] s = Some s \<and> ended s" by simp
    then show ?thesis by blast
  next
    case False
    then obtain e s1 where e: "own e" "step e s = Some s1" using enabled less.prems by blast
    then obtain es s' where "list_all own es" "steps es s1 = Some s'" "ended s'"
      using less.hyps [OF own_less kept] less.prems by blast
    then have "list_all own (e # es) \<and> steps (e # es) s = Some s' \<and> ended s'" using e by simp
    then show ?thesis by blast
  qed
qed

end

end
