(* ===== verification/WatchLoop.thy ===== *)
theory WatchLoop
  imports Watch Winding
begin

text \<open>
  The goroutine of a service watch (\<open>run\<close> of discovery/watch.go) step by step: the pace of the limiter, the
  request, the store of the snapshot, the publication of an event or an error in its one-slot channel, the
  wait before a retry, the closing of the channels. A step is the code between two operations on something
  shared with the consumer. \<open>loop_refines_watch\<close> shows that the iterations of \<open>Watch\<close>, which are single
  steps there, describe it; \<open>watch_close_returns\<close> that \<open>Close\<close> is not left waiting.
\<close>

subsection \<open>The goroutine\<close>

datatype loop_pc =
    LoopPace
  | LoopPaced duration
  | LoopRequest
  | LoopDrainErr goerr
  | LoopSendErr goerr
  | LoopSleep duration
  | LoopStore "service_instance list"
  | LoopTake "service_instance list"
  | LoopSend "service_instance list"
  | LoopExit
  | LoopDone

record watch_loop =
  wl_pc :: loop_pc
  wl_limiter :: limiter
  wl_index :: "64 word"
  wl_failures :: int
  wl_delivered :: "service_instance list"
  wl_lastSent :: "service_instance list"
  wl_haveState :: bool
  wl_current :: "snapshot option"
  wl_ready :: bool
  wl_events :: "event option"
  wl_errs :: "goerr option"
  wl_cancelled :: bool
  wl_closed :: bool
  wl_observed :: "goerr option list"
  wl_seen :: "event list"

definition new_loop :: "discovery_config \<Rightarrow> watch_loop" where
  "new_loop cfg =
     \<lparr>wl_pc = LoopPace, wl_limiter = new_limiter (dc_MinInterval cfg) 2, wl_index = 0, wl_failures = 0,
      wl_delivered = [], wl_lastSent = [], wl_haveState = False, wl_current = None, wl_ready = False,
      wl_events = None, wl_errs = None, wl_cancelled = False, wl_closed = False, wl_observed = [], wl_seen = []\<rparr>"

text \<open>What the goroutine observes next, and what the consumer does.\<close>

datatype loop_event =
    LimiterAt gotime
  | TimerUp
  | ContextEnds
  | Response health_answer
  | Proceed
  | ConsumeEvent
  | ConsumeErr
  | CloseCall

definition after_pace :: "duration \<Rightarrow> watch_loop \<Rightarrow> loop_pc" where
  "after_pace w l = (if 0 < w then LoopPaced w else if wl_cancelled l then LoopExit else LoopRequest)"

text \<open>The answer of the request: \<open>Observe\<close>, the check of the context, and the branches.\<close>

definition on_answer ::
    "(api_check list \<Rightarrow> status) \<Rightarrow> query \<Rightarrow> health_answer \<Rightarrow> watch_loop \<Rightarrow> watch_loop" where
  "on_answer agg q answer l =
     (case fetch agg q answer of
        Inl err \<Rightarrow>
          (let l1 = l\<lparr>wl_observed := wl_observed l @ [Some err]\<rparr>
           in if wl_cancelled l then l1\<lparr>wl_pc := LoopExit\<rparr>
              else l1\<lparr>wl_failures := wl_failures l + 1, wl_pc := LoopDrainErr err\<rparr>)
      | Inr (ins, idx) \<Rightarrow>
          (let l1 = l\<lparr>wl_observed := wl_observed l @ [None]\<rparr>
           in if wl_cancelled l then l1\<lparr>wl_pc := LoopExit\<rparr>
              else l1\<lparr>wl_failures := 0, wl_index := next_index (wl_index l) idx,
                      wl_pc := (if wl_haveState l \<and> instances_equal ins (wl_lastSent l) then LoopPace
                                else LoopStore ins)\<rparr>))"

text \<open>The steps between observations; \<open>None\<close> is a send on a full channel, which waits.\<close>

definition proceed :: "discovery_config \<Rightarrow> watch_loop \<Rightarrow> watch_loop option" where
  "proceed cfg l =
     (case wl_pc l of
        LoopDrainErr err \<Rightarrow> Some (l\<lparr>wl_errs := None, wl_pc := LoopSendErr err\<rparr>)
      | LoopSendErr err \<Rightarrow>
          (case wl_errs l of
             Some _ \<Rightarrow> None
           | None \<Rightarrow> Some (l\<lparr>wl_errs := Some err, wl_pc := LoopSleep (retry_delay cfg (wl_failures l))\<rparr>))
      | LoopStore ins \<Rightarrow>
          Some (l\<lparr>wl_haveState := True, wl_current := Some (new_snapshot ins), wl_ready := True,
                  wl_pc := LoopTake ins\<rparr>)
      | LoopTake ins \<Rightarrow>
          Some (case wl_events l of
                  Some _ \<Rightarrow> l\<lparr>wl_events := None, wl_pc := LoopSend ins\<rparr>
                | None \<Rightarrow> l\<lparr>wl_delivered := wl_lastSent l, wl_pc := LoopSend ins\<rparr>)
      | LoopSend ins \<Rightarrow>
          (case wl_events l of
             Some _ \<Rightarrow> None
           | None \<Rightarrow> Some (l\<lparr>wl_events := Some (diff (wl_delivered l) ins), wl_lastSent := ins, wl_pc := LoopPace\<rparr>))
      | LoopExit \<Rightarrow> Some (l\<lparr>wl_closed := True, wl_pc := LoopDone\<rparr>)
      | _ \<Rightarrow> None)"

text \<open>\<open>Close\<close> cancels the context; it returns when the channels are closed.\<close>

definition cancel_watch :: "watch_loop \<Rightarrow> watch_loop" where
  "cancel_watch l = l\<lparr>wl_cancelled := True\<rparr>"

fun loop_step ::
    "(f64 \<Rightarrow> int) \<Rightarrow> (api_check list \<Rightarrow> status) \<Rightarrow> discovery_config \<Rightarrow> query \<Rightarrow> loop_event \<Rightarrow> watch_loop \<Rightarrow>
     watch_loop option" where
  "loop_step oob agg cfg q (LimiterAt now) l =
     (if wl_pc l = LoopPace
      then (let (w, tb) = limiter_wait oob (wl_limiter l) now
            in Some (l\<lparr>wl_limiter := tb, wl_pc := after_pace w l\<rparr>))
      else None)"
| "loop_step oob agg cfg q TimerUp l =
     (case wl_pc l of
        LoopPaced w \<Rightarrow> Some (l\<lparr>wl_pc := LoopRequest\<rparr>)
      | LoopSleep d \<Rightarrow> Some (l\<lparr>wl_index := 0, wl_pc := LoopPace\<rparr>)
      | _ \<Rightarrow> None)"
| "loop_step oob agg cfg q ContextEnds l =
     (if wl_cancelled l
      then (case wl_pc l of
              LoopPaced w \<Rightarrow> Some (l\<lparr>wl_pc := LoopExit\<rparr>)
            | LoopSleep d \<Rightarrow> Some (l\<lparr>wl_pc := LoopExit\<rparr>)
            | _ \<Rightarrow> None)
      else None)"
| "loop_step oob agg cfg q (Response answer) l =
     (if wl_pc l = LoopRequest then Some (on_answer agg q answer l) else None)"
| "loop_step oob agg cfg q Proceed l = proceed cfg l"
| "loop_step oob agg cfg q ConsumeEvent l =
     (case wl_events l of
        None \<Rightarrow> None
      | Some ev \<Rightarrow> Some (l\<lparr>wl_events := None, wl_seen := wl_seen l @ [ev]\<rparr>))"
| "loop_step oob agg cfg q ConsumeErr l =
     (case wl_errs l of None \<Rightarrow> None | Some err \<Rightarrow> Some (l\<lparr>wl_errs := None\<rparr>))"
| "loop_step oob agg cfg q CloseCall l = Some (cancel_watch l)"

text \<open>The states of the watch of a query that has a service name.\<close>

inductive loop_reachable ::
    "(f64 \<Rightarrow> int) \<Rightarrow> (api_check list \<Rightarrow> status) \<Rightarrow> discovery_config \<Rightarrow> query \<Rightarrow> watch_loop \<Rightarrow> bool"
  for oob agg cfg q where
  start: "q_name q \<noteq> [] \<Longrightarrow> loop_reachable oob agg cfg q (new_loop cfg)"
| step: "loop_reachable oob agg cfg q l \<Longrightarrow> loop_step oob agg cfg q ev l = Some l' \<Longrightarrow>
    loop_reachable oob agg cfg q l'"

subsection \<open>Refinement\<close>

definition exited :: "watch_loop \<Rightarrow> bool" where
  "exited l \<longleftrightarrow> wl_pc l = LoopExit \<or> wl_pc l = LoopDone"

text \<open>The watch whose variables are those of the goroutine.\<close>

definition as_watch :: "watch_loop \<Rightarrow> watch" where
  "as_watch l =
     \<lparr>w_index = wl_index l, w_failures = wl_failures l,
      w_box = \<lparr>mb_delivered = wl_delivered l, mb_last = wl_lastSent l, mb_chan = wl_events l\<rparr>,
      w_haveState = wl_haveState l, w_current = wl_current l, w_ready = wl_ready l, w_errs = wl_errs l,
      w_stopped = exited l\<rparr>"

text \<open>
  Before the effect of an iteration shows, the watch is the one before it: a failure takes effect when the
  error is sent, a new state when the unread event has been taken back. The index of a goroutine that has
  left the loop is not used any more.
\<close>

definition answered_with ::
    "(api_check list \<Rightarrow> status) \<Rightarrow> query \<Rightarrow> service_instance list \<Rightarrow> 64 word \<Rightarrow> 64 word \<Rightarrow> bool" where
  "answered_with agg q ins i j \<longleftrightarrow>
     (\<exists>answer idx. fetch agg q answer = Inr (ins, idx) \<and> j = next_index i idx)"

definition stands_for ::
    "(api_check list \<Rightarrow> status) \<Rightarrow> query \<Rightarrow> watch_loop \<Rightarrow> watch \<Rightarrow> bool" where
  "stands_for agg q l w \<longleftrightarrow>
     (case wl_pc l of
        LoopDrainErr err \<Rightarrow>
          (\<exists>answer. fetch agg q answer = Inl err) \<and> as_watch l = w\<lparr>w_failures := w_failures w + 1\<rparr>
      | LoopSendErr err \<Rightarrow>
          (\<exists>answer. fetch agg q answer = Inl err) \<and>
          as_watch l = w\<lparr>w_failures := w_failures w + 1, w_errs := None\<rparr>
      | LoopSleep d \<Rightarrow> w = (as_watch l)\<lparr>w_index := 0\<rparr>
      | LoopExit \<Rightarrow> w = (as_watch l)\<lparr>w_index := w_index w\<rparr>
      | LoopDone \<Rightarrow> w = (as_watch l)\<lparr>w_index := w_index w\<rparr>
      | LoopStore ins \<Rightarrow>
          answered_with agg q ins (w_index w) (wl_index l) \<and> \<not> (w_haveState w \<and> ins = mb_last (w_box w)) \<and>
          as_watch l = w\<lparr>w_failures := 0, w_index := wl_index l\<rparr>
      | LoopTake ins \<Rightarrow>
          answered_with agg q ins (w_index w) (wl_index l) \<and> \<not> (w_haveState w \<and> ins = mb_last (w_box w)) \<and>
          as_watch l = w\<lparr>w_failures := 0, w_index := wl_index l, w_haveState := True,
                         w_current := Some (new_snapshot ins), w_ready := True\<rparr>
      | LoopSend ins \<Rightarrow>
          wl_events l = None \<and>
          w = (as_watch l)\<lparr>w_box := \<lparr>mb_delivered = wl_delivered l, mb_last = ins,
                                     mb_chan = Some (diff (wl_delivered l) ins)\<rparr>\<rparr>
      | _ \<Rightarrow> w = as_watch l)"

lemmas loop_forms = stands_for_def as_watch_def exited_def

lemma answered_withI: "fetch agg q answer = Inr (ins, idx) \<Longrightarrow> answered_with agg q ins i (next_index i idx)"
  by (auto simp: answered_with_def)

text \<open>The steps of the abstract watch, on a watch and what was received.\<close>

lemma abstract_iterate:
  "\<not> w_stopped w \<Longrightarrow> w' = snd (watch_iteration agg cfg q answer w) \<Longrightarrow>
     watch_step agg cfg q \<lparr>ws_watch = w, ws_seen = seen\<rparr> \<lparr>ws_watch = w', ws_seen = seen\<rparr>"
  using watch_step.iterate [of "\<lparr>ws_watch = w, ws_seen = seen\<rparr>"] by simp

lemma abstract_receive:
  "mb_chan (w_box w) = Some ev \<Longrightarrow> w' = w\<lparr>w_box := (w_box w)\<lparr>mb_chan := None\<rparr>\<rparr> \<Longrightarrow>
     watch_step agg cfg q \<lparr>ws_watch = w, ws_seen = seen\<rparr> \<lparr>ws_watch = w', ws_seen = seen @ [ev]\<rparr>"
  using watch_step.receive [of "\<lparr>ws_watch = w, ws_seen = seen\<rparr>"] by (simp add: mb_receive_simps)

lemma abstract_receive_err:
  "w_errs w = Some e \<Longrightarrow> w' = w\<lparr>w_errs := None\<rparr> \<Longrightarrow>
     watch_step agg cfg q \<lparr>ws_watch = w, ws_seen = seen\<rparr> \<lparr>ws_watch = w', ws_seen = seen\<rparr>"
  using watch_step.receive_err [of "\<lparr>ws_watch = w, ws_seen = seen\<rparr>"] by simp

lemma abstract_stop:
  "w' = w\<lparr>w_stopped := True\<rparr> \<Longrightarrow>
     watch_step agg cfg q \<lparr>ws_watch = w, ws_seen = seen\<rparr> \<lparr>ws_watch = w', ws_seen = seen\<rparr>"
  using watch_step.stop [of agg cfg q "\<lparr>ws_watch = w, ws_seen = seen\<rparr>"] by simp

lemma iteration_failure:
  "fetch agg q answer = Inl err \<Longrightarrow> snd (watch_iteration agg cfg q answer w) =
     w\<lparr>w_failures := w_failures w + 1, w_errs := Some err, w_index := 0\<rparr>"
  by (cases "w_errs w") (simp_all add: watch_iteration_def on_failure_def publish_err_def Let_def)

lemma iteration_same:
  "fetch agg q answer = Inr (ins, idx) \<Longrightarrow> w_haveState w \<Longrightarrow> ins = mb_last (w_box w) \<Longrightarrow>
   snd (watch_iteration agg cfg q answer w) = w\<lparr>w_failures := 0, w_index := next_index (w_index w) idx\<rparr>"
  by (simp add: watch_iteration_def on_response_def Let_def)

lemma iteration_changed:
  "fetch agg q answer = Inr (ins, idx) \<Longrightarrow> \<not> (w_haveState w \<and> ins = mb_last (w_box w)) \<Longrightarrow>
   snd (watch_iteration agg cfg q answer w) =
     w\<lparr>w_failures := 0, w_index := next_index (w_index w) idx, w_haveState := True,
       w_current := Some (new_snapshot ins), w_ready := True, w_box := mb_send diff ins (w_box w)\<rparr>"
  by (auto simp: watch_iteration_def on_response_def Let_def)

text \<open>What the consumer can see is the same, except for the event and the error that are on their way.\<close>

lemma stands_stopped: "stands_for agg q l w \<Longrightarrow> w_stopped w = exited l"
  by (cases "wl_pc l") (auto simp: loop_forms dest: arg_cong [where f = w_stopped])

lemma stands_chan:
  "stands_for agg q l w \<Longrightarrow> wl_events l = Some ev \<Longrightarrow> mb_chan (w_box w) = Some ev"
  by (cases "wl_pc l") (auto simp: loop_forms dest: arg_cong [where f = "\<lambda>w. mb_chan (w_box w)"])

lemma stands_errs:
  "stands_for agg q l w \<Longrightarrow> wl_errs l = Some e \<Longrightarrow> w_errs w = Some e"
  by (cases "wl_pc l") (auto simp: loop_forms dest: arg_cong [where f = w_errs])

definition matched ::
    "(api_check list \<Rightarrow> status) \<Rightarrow> discovery_config \<Rightarrow> query \<Rightarrow> watch_loop \<Rightarrow> watch \<Rightarrow> watch_loop \<Rightarrow> bool" where
  "matched agg cfg q l w l' \<longleftrightarrow>
     (\<exists>w'. stands_for agg q l' w' \<and>
        (w' = w \<and> wl_seen l' = wl_seen l \<or>
         watch_step agg cfg q \<lparr>ws_watch = w, ws_seen = wl_seen l\<rparr> \<lparr>ws_watch = w', ws_seen = wl_seen l'\<rparr>))"

lemma matched_stutter: "stands_for agg q l' w \<Longrightarrow> wl_seen l' = wl_seen l \<Longrightarrow> matched agg cfg q l w l'"
  by (auto simp: matched_def)

lemma matched_step:
  "watch_step agg cfg q \<lparr>ws_watch = w, ws_seen = wl_seen l\<rparr> \<lparr>ws_watch = w', ws_seen = wl_seen l'\<rparr> \<Longrightarrow>
   stands_for agg q l' w' \<Longrightarrow> matched agg cfg q l w l'"
  by (auto simp: matched_def)

lemma matched_stop:
  "stands_for agg q l' (w\<lparr>w_stopped := True\<rparr>) \<Longrightarrow> wl_seen l' = wl_seen l \<Longrightarrow> matched agg cfg q l w l'"
  by (rule matched_step [rotated], assumption) (simp add: abstract_stop)

lemma matched_iterate:
  "\<not> w_stopped w \<Longrightarrow> stands_for agg q l' (snd (watch_iteration agg cfg q answer w)) \<Longrightarrow>
     wl_seen l' = wl_seen l \<Longrightarrow> matched agg cfg q l w l'"
  by (rule matched_step [rotated], assumption) (simp add: abstract_iterate)

lemma matched_receive:
  "mb_chan (w_box w) = Some ev \<Longrightarrow> stands_for agg q l' (w\<lparr>w_box := (w_box w)\<lparr>mb_chan := None\<rparr>\<rparr>) \<Longrightarrow>
     wl_seen l' = wl_seen l @ [ev] \<Longrightarrow> matched agg cfg q l w l'"
  by (rule matched_step [rotated], assumption) (simp add: abstract_receive)

lemma matched_receive_err:
  "w_errs w = Some e \<Longrightarrow> stands_for agg q l' (w\<lparr>w_errs := None\<rparr>) \<Longrightarrow> wl_seen l' = wl_seen l \<Longrightarrow>
     matched agg cfg q l w l'"
  by (rule matched_step [rotated], assumption) (simp add: abstract_receive_err)

lemma matched_pace:
  assumes w: "stands_for agg q l w" and s: "loop_step oob agg cfg q (LimiterAt now) l = Some l'"
  shows "matched agg cfg q l w l'"
proof (cases "wl_pc l' = LoopExit")
  case True
  then show ?thesis
    using w s by (intro matched_stop) (auto simp: loop_forms after_pace_def split: if_splits prod.splits)
next
  case False
  then show ?thesis
    using w s by (intro matched_stutter) (auto simp: loop_forms after_pace_def split: if_splits prod.splits)
qed

lemma matched_timer:
  "stands_for agg q l w \<Longrightarrow> loop_step oob agg cfg q TimerUp l = Some l' \<Longrightarrow> matched agg cfg q l w l'"
  by (rule matched_stutter) (auto simp: loop_forms split: loop_pc.splits)

lemma matched_context:
  "stands_for agg q l w \<Longrightarrow> loop_step oob agg cfg q ContextEnds l = Some l' \<Longrightarrow> matched agg cfg q l w l'"
  by (rule matched_stop; cases "wl_pc l") (auto simp: loop_forms split: if_splits)

lemma matched_answer:
  assumes w: "stands_for agg q l w" and s: "loop_step oob agg cfg q (Response answer) l = Some l'"
  shows "matched agg cfg q l w l'"
proof -
  have pc: "wl_pc l = LoopRequest" and l': "l' = on_answer agg q answer l" using s by (auto split: if_splits)
  have w': "w = as_watch l" using w pc by (simp add: stands_for_def)
  show ?thesis
  proof (cases "wl_cancelled l")
    case True
    then show ?thesis using pc w' l'
      by (intro matched_stop) (auto simp: loop_forms on_answer_def Let_def split: sum.splits prod.splits)
  next
    case False
    show ?thesis
    proof (cases "fetch agg q answer")
      case (Inl err)
      then show ?thesis using pc w' l' False
        by (intro matched_stutter) (auto simp: loop_forms on_answer_def Let_def)
    next
      case (Inr r)
      obtain ins idx where r: "fetch agg q answer = Inr (ins, idx)" using Inr by (cases r) simp
      show ?thesis
      proof (cases "w_haveState w \<and> ins = mb_last (w_box w)")
        case True
        then show ?thesis using pc w' l' False r
          by (intro matched_iterate [where answer = answer])
            (auto simp: iteration_same [OF r] loop_forms on_answer_def Let_def)
      next
        case no: False
        then show ?thesis using pc w' l' False r
          by (intro matched_stutter) (auto simp: loop_forms on_answer_def Let_def answered_withI)
      qed
    qed
  qed
qed

lemma matched_proceed:
  assumes w: "stands_for agg q l w" and s: "loop_step oob agg cfg q Proceed l = Some l'"
  shows "matched agg cfg q l w l'"
proof (cases "wl_pc l")
  case (LoopSendErr err)
  then obtain answer where "fetch agg q answer = Inl err" using w by (auto simp: loop_forms)
  moreover have "\<not> w_stopped w" using stands_stopped [OF w] LoopSendErr by (simp add: exited_def)
  ultimately show ?thesis using LoopSendErr w s
    by (cases w, intro matched_iterate [where answer = answer])
      (auto simp: iteration_failure loop_forms proceed_def split: option.splits)
next
  case (LoopTake ins)
  then obtain answer idx where f: "fetch agg q answer = Inr (ins, idx)"
    and idx: "wl_index l = next_index (w_index w) idx"
    and new: "\<not> (w_haveState w \<and> ins = mb_last (w_box w))"
    using w by (auto simp: stands_for_def answered_with_def)
  let ?w = "w\<lparr>w_failures := 0, w_index := wl_index l, w_haveState := True,
    w_current := Some (new_snapshot ins), w_ready := True, w_box := mb_send diff ins (w_box w)\<rparr>"
  have "stands_for agg q l' ?w \<and> wl_seen l' = wl_seen l"
    using LoopTake w s
    by (cases w; cases "wl_events l") (auto simp: loop_forms proceed_def mb_send_def mb_take_back_def Let_def)
  moreover have "snd (watch_iteration agg cfg q answer w) = ?w" by (simp add: iteration_changed [OF f new] idx)
  moreover have "\<not> w_stopped w" using stands_stopped [OF w] LoopTake by (simp add: exited_def)
  ultimately show ?thesis by (intro matched_iterate [where answer = answer]) simp_all
qed (cases w; use w s in \<open>auto simp: loop_forms proceed_def intro!: matched_stutter split: option.splits\<close>)+

lemma matched_event:
  assumes w: "stands_for agg q l w" and s: "loop_step oob agg cfg q ConsumeEvent l = Some l'"
  shows "matched agg cfg q l w l'"
proof -
  obtain ev where ev: "wl_events l = Some ev" and l': "l' = l\<lparr>wl_events := None, wl_seen := wl_seen l @ [ev]\<rparr>"
    using s by (auto split: option.splits)
  have "stands_for agg q l' (w\<lparr>w_box := (w_box w)\<lparr>mb_chan := None\<rparr>\<rparr>)"
    using w ev l' by (cases w; cases "wl_pc l") (auto simp: loop_forms)
  then show ?thesis using matched_receive [OF stands_chan [OF w ev]] l' by simp
qed

lemma matched_error:
  assumes w: "stands_for agg q l w" and s: "loop_step oob agg cfg q ConsumeErr l = Some l'"
  shows "matched agg cfg q l w l'"
proof -
  obtain e where e: "wl_errs l = Some e" and l': "l' = l\<lparr>wl_errs := None\<rparr>"
    using s by (auto split: option.splits)
  have "stands_for agg q l' (w\<lparr>w_errs := None\<rparr>)"
    using w e l' by (cases w; cases "wl_pc l") (auto simp: loop_forms)
  then show ?thesis using matched_receive_err [OF stands_errs [OF w e]] l' by simp
qed

lemma matched_cancel:
  "stands_for agg q l w \<Longrightarrow> loop_step oob agg cfg q CloseCall l = Some l' \<Longrightarrow> matched agg cfg q l w l'"
  by (rule matched_stutter; cases "wl_pc l") (auto simp: loop_forms cancel_watch_def)

lemma loop_step_matched:
  "stands_for agg q l w \<Longrightarrow> loop_step oob agg cfg q ev l = Some l' \<Longrightarrow> matched agg cfg q l w l'"
  by (cases ev)
    (blast intro: matched_pace matched_timer matched_context matched_answer matched_proceed matched_event
      matched_error matched_cancel)+

lemma loop_refines:
  "loop_reachable oob agg cfg q l \<Longrightarrow>
     \<exists>w. watch_reachable agg cfg q \<lparr>ws_watch = w, ws_seen = wl_seen l\<rparr> \<and> stands_for agg q l w"
proof (induction rule: loop_reachable.induct)
  case start
  have "stands_for agg q (new_loop cfg) new_watch"
    by (simp add: loop_forms new_loop_def new_watch_def mb_new_def)
  moreover have "watch_reachable agg cfg q \<lparr>ws_watch = new_watch, ws_seen = wl_seen (new_loop cfg)\<rparr>"
    using start by (auto simp: new_loop_def start_watch_def intro: watch_reachable.start)
  ultimately show ?case by blast
next
  case (step l ev l')
  then obtain w where w: "watch_reachable agg cfg q \<lparr>ws_watch = w, ws_seen = wl_seen l\<rparr>" "stands_for agg q l w"
    by blast
  from loop_step_matched [OF w(2) step.hyps(2)] w(1) show ?case
    by (auto simp: matched_def intro: watch_reachable.step)
qed

lemma stands_slots:
  assumes "stands_for agg q l w"
  shows "wl_pc l = LoopSend ins \<Longrightarrow> wl_events l = None" and "wl_pc l = LoopSendErr err \<Longrightarrow> wl_errs l = None"
  using assms by (auto simp: loop_forms dest: arg_cong [where f = w_errs])

text \<open>
  C8. The watch of a service, described in one step per answer, is what its goroutine does step by step:
  whatever interleaving of limiter, timers, answers, publications, receives and a close led to a state, the
  description has a run in which the consumer received the same events and whose state the goroutine's
  stands for. In particular the two sends of the goroutine never find their channel full.
\<close>

theorem loop_refines_watch:
  assumes "loop_reachable oob agg cfg q l"
  shows "(\<exists>w. watch_reachable agg cfg q \<lparr>ws_watch = w, ws_seen = wl_seen l\<rparr> \<and> stands_for agg q l w) \<and>
    ((\<exists>ins. wl_pc l = LoopSend ins) \<or> (\<exists>err. wl_pc l = LoopSendErr err) \<longrightarrow> proceed cfg l \<noteq> None)"
proof -
  obtain w where w: "watch_reachable agg cfg q \<lparr>ws_watch = w, ws_seen = wl_seen l\<rparr>" "stands_for agg q l w"
    using loop_refines [OF assms] by blast
  then show ?thesis using stands_slots [OF w(2)] by (auto simp: proceed_def)
qed

subsection \<open>Closing\<close>

definition own_loop_step :: "loop_event \<Rightarrow> bool" where
  "own_loop_step ev \<longleftrightarrow> ev \<notin> {ConsumeEvent, ConsumeErr, CloseCall}"

fun loop_weight :: "loop_pc \<Rightarrow> nat" where
  "loop_weight (LoopStore ins) = 8"
| "loop_weight (LoopDrainErr err) = 8"
| "loop_weight (LoopTake ins) = 7"
| "loop_weight (LoopSendErr err) = 7"
| "loop_weight (LoopSend ins) = 6"
| "loop_weight (LoopSleep d) = 6"
| "loop_weight LoopPace = 5"
| "loop_weight (LoopPaced w) = 3"
| "loop_weight LoopRequest = 2"
| "loop_weight LoopExit = 1"
| "loop_weight LoopDone = 0"

definition closing :: "watch_loop \<Rightarrow> bool" where
  "closing l \<longleftrightarrow> wl_cancelled l \<and>
     (\<forall>ins. wl_pc l = LoopSend ins \<longrightarrow> wl_events l = None) \<and>
     (\<forall>err. wl_pc l = LoopSendErr err \<longrightarrow> wl_errs l = None)"

definition loop_done :: "watch_loop \<Rightarrow> bool" where
  "loop_done l \<longleftrightarrow> wl_pc l = LoopDone"

lemma closing_step: "closing l \<Longrightarrow> loop_step oob agg cfg q ev l = Some l' \<Longrightarrow> closing l'"
  by (cases ev; cases "wl_pc l")
    (auto simp: closing_def after_pace_def on_answer_def proceed_def cancel_watch_def Let_def
      split: if_splits option.splits prod.splits sum.splits)

lemma closing_less:
  "closing l \<Longrightarrow> own_loop_step ev \<Longrightarrow> loop_step oob agg cfg q ev l = Some l' \<Longrightarrow>
     loop_weight (wl_pc l') < loop_weight (wl_pc l)"
  by (cases ev; cases "wl_pc l")
    (auto simp: closing_def own_loop_step_def after_pace_def on_answer_def proceed_def Let_def
      split: if_splits option.splits prod.splits sum.splits)

lemma closing_other:
  "\<not> own_loop_step ev \<Longrightarrow> loop_step oob agg cfg q ev l = Some l' \<Longrightarrow> wl_pc l' = wl_pc l"
  by (cases ev) (auto simp: own_loop_step_def cancel_watch_def split: option.splits)

lemma closing_enabled:
  assumes "closing l" "\<not> loop_done l"
  shows "\<exists>ev l'. own_loop_step ev \<and> loop_step oob agg cfg q ev l = Some l'"
proof -
  define ev where "ev = (case wl_pc l of LoopPace \<Rightarrow> LimiterAt 0 | LoopPaced w \<Rightarrow> TimerUp | LoopSleep d \<Rightarrow> TimerUp
    | LoopRequest \<Rightarrow> Response (Inl ErrNoName) | _ \<Rightarrow> Proceed)"
  have "own_loop_step ev \<and> loop_step oob agg cfg q ev l \<noteq> None"
    using assms by (cases "wl_pc l")
      (auto simp: ev_def own_loop_step_def closing_def loop_done_def proceed_def split: prod.splits)
  then show ?thesis by blast
qed

interpretation loop_end: winding_down "loop_step oob agg cfg q" own_loop_step closing loop_done
    "\<lambda>l. loop_weight (wl_pc l)" for oob agg cfg q
  by unfold_locales (erule (1) closing_step, erule (2) closing_less, simp add: closing_other, erule (1) closing_enabled)

primrec loop_run ::
    "(f64 \<Rightarrow> int) \<Rightarrow> (api_check list \<Rightarrow> status) \<Rightarrow> discovery_config \<Rightarrow> query \<Rightarrow> loop_event list \<Rightarrow> watch_loop \<Rightarrow>
     watch_loop option" where
  "loop_run oob agg cfg q [] l = Some l"
| "loop_run oob agg cfg q (ev # evs) l = Option.bind (loop_step oob agg cfg q ev l) (loop_run oob agg cfg q evs)"

lemma loop_run_steps: "loop_run oob agg cfg q evs l = loop_end.steps oob agg cfg q evs l"
  by (induction evs arbitrary: l) (simp_all add: fun_eq_iff cong: Option.bind_cong)

lemma loop_run_reachable:
  "loop_run oob agg cfg q evs l = Some l' \<Longrightarrow> loop_reachable oob agg cfg q l \<Longrightarrow> loop_reachable oob agg cfg q l'"
  by (induction evs arbitrary: l) (auto intro: loop_reachable.step split: bind_splits)

definition loop_closed_ok :: "watch_loop \<Rightarrow> bool" where
  "loop_closed_ok l \<longleftrightarrow> (wl_closed l \<longleftrightarrow> wl_pc l = LoopDone) \<and> (exited l \<longrightarrow> wl_cancelled l)"

lemma loop_closed_ok_step: "loop_closed_ok l \<Longrightarrow> loop_step oob agg cfg q ev l = Some l' \<Longrightarrow> loop_closed_ok l'"
  by (cases ev; cases "wl_pc l")
    (auto simp: loop_closed_ok_def exited_def after_pace_def on_answer_def proceed_def cancel_watch_def Let_def
      split: if_splits option.splits prod.splits sum.splits)

lemma loop_closed_ok: "loop_reachable oob agg cfg q l \<Longrightarrow> loop_closed_ok l"
proof (induction rule: loop_reachable.induct)
  case start
  show ?case by (simp add: loop_closed_ok_def new_loop_def exited_def)
qed (rule loop_closed_ok_step)

lemma own_step_seen:
  "own_loop_step ev \<Longrightarrow> loop_step oob agg cfg q ev l = Some l' \<Longrightarrow> wl_seen l' = wl_seen l"
  by (cases ev; cases "wl_pc l")
    (auto simp: own_loop_step_def on_answer_def proceed_def Let_def split: if_splits option.splits prod.splits sum.splits)

lemma own_run_seen:
  "list_all own_loop_step evs \<Longrightarrow> loop_run oob agg cfg q evs l = Some l' \<Longrightarrow> wl_seen l' = wl_seen l"
  by (induction evs arbitrary: l) (auto dest: own_step_seen split: bind_splits)

lemma done_step: "wl_pc l = LoopDone \<Longrightarrow> own_loop_step ev \<Longrightarrow> loop_step oob agg cfg q ev l = None"
  by (cases ev) (auto simp: own_loop_step_def proceed_def)

lemma closing_if_cancelled:
  "loop_reachable oob agg cfg q l \<Longrightarrow> wl_cancelled l \<Longrightarrow> closing l"
  using loop_refines stands_slots unfolding closing_def by metis

text \<open>
  C16. \<open>Close\<close> returns: once a watch is cancelled, its goroutine makes at most 8 more steps, whatever the
  consumer does and however Consul answers, and can always reach the closing of the channels without the
  consumer's help. The channels are closed in no other way, nothing happens after it, and the event the
  consumer did not read is still there.
\<close>

theorem watch_close_returns:
  assumes r: "loop_reachable oob agg cfg q l"
  shows "(wl_closed l \<longrightarrow> wl_cancelled l \<and> (\<forall>ev. own_loop_step ev \<longrightarrow> loop_step oob agg cfg q ev l = None)) \<and>
    (wl_cancelled l \<longrightarrow>
      (\<forall>evs l'. loop_run oob agg cfg q evs l = Some l' \<longrightarrow> length (filter own_loop_step evs) \<le> 8) \<and>
      (\<exists>evs l'. list_all own_loop_step evs \<and> loop_run oob agg cfg q evs l = Some l' \<and> wl_closed l' \<and>
         wl_seen l' = wl_seen l))"
proof -
  have ok: "loop_closed_ok l" using r by (rule loop_closed_ok)
  have weight: "loop_weight pc \<le> 8" for pc by (cases pc) simp_all
  have "length (filter own_loop_step evs) \<le> 8"
    if "wl_cancelled l" "loop_run oob agg cfg q evs l = Some l'" for evs l'
    using loop_end.bounded [OF closing_if_cancelled [OF r that(1)] that(2) [unfolded loop_run_steps]]
      weight [of "wl_pc l"] by linarith
  moreover have "\<exists>evs l'. list_all own_loop_step evs \<and> loop_run oob agg cfg q evs l = Some l' \<and> wl_closed l' \<and>
      wl_seen l' = wl_seen l" if c: "wl_cancelled l"
  proof -
    obtain evs l' where e: "list_all own_loop_step evs" "loop_run oob agg cfg q evs l = Some l'" "loop_done l'"
      using loop_end.reaches_end [OF closing_if_cancelled [OF r c]] by (metis loop_run_steps)
    have "wl_closed l'" using loop_closed_ok [OF loop_run_reachable [OF e(2) r]] e(3)
      by (simp add: loop_closed_ok_def loop_done_def)
    then show ?thesis using e own_run_seen by blast
  qed
  ultimately show ?thesis using ok done_step by (auto simp: loop_closed_ok_def exited_def)
qed

subsection \<open>A sample\<close>

text \<open>A watch that has stored its first state when it is closed.\<close>

definition sample_discovery :: discovery_config where
  "sample_discovery =
     new_discovery \<lparr>dc_WaitTime = 0, dc_RequestTimeout = second, dc_MinInterval = 0, dc_Retry = None\<rparr>"

definition sample_loop :: "limiter \<Rightarrow> watch_loop" where
  "sample_loop tb =
     (new_loop sample_discovery)\<lparr>wl_pc := LoopTake [], wl_limiter := tb, wl_index := 5, wl_haveState := True,
       wl_current := Some (new_snapshot []), wl_ready := True, wl_cancelled := True, wl_observed := [None]\<rparr>"

lemma sample_loop_reachable:
  "\<exists>tb. loop_reachable oob agg sample_discovery (service_query ''orders'') (sample_loop tb)"
proof -
  have two: "f64_of_int 2 = Fin 2" using f64_of_int_exact [of 2] by simp
  let ?q = "service_query ''orders''" and ?n = "new_loop sample_discovery"
  have i: "dc_MinInterval sample_discovery = second" by (simp add: sample_discovery_def new_discovery_def)
  have "fst (limiter_wait oob (new_limiter second 2) 0) = 0"
    by (simp add: limiter_wait_def new_limiter_def refilled_def two Let_def)
  then obtain tb where l: "limiter_wait oob (new_limiter second 2) 0 = (0, tb)" by (metis prod.collapse)
  have "loop_run oob agg sample_discovery ?q [LimiterAt 0, Response (Inr ([], 5)), Proceed, CloseCall] ?n =
      Some (sample_loop tb)"
    by (simp add: new_loop_def i l after_pace_def on_answer_def fetch_def proceed_def cancel_watch_def sample_loop_def
        service_query_def sort_instances_def next_index_def Let_def)
  then have "loop_reachable oob agg sample_discovery ?q (sample_loop tb)"
    by (rule loop_run_reachable) (simp add: loop_reachable.start service_query_def)
  then show ?thesis ..
qed

theorem loop_refines_watch_witness:
  "\<exists>tb w. watch_reachable (\<lambda>_. StatusPassing) sample_discovery (service_query ''orders'')
      \<lparr>ws_watch = w, ws_seen = []\<rparr> \<and> stands_for (\<lambda>_. StatusPassing) (service_query ''orders'') (sample_loop tb) w"
proof -
  obtain tb where
    "loop_reachable (\<lambda>_. 0) (\<lambda>_. StatusPassing) sample_discovery (service_query ''orders'') (sample_loop tb)"
    using sample_loop_reachable by blast
  from loop_refines_watch [OF this] show ?thesis by (auto simp: sample_loop_def new_loop_def)
qed

theorem watch_close_returns_witness:
  "\<exists>tb evs l'. list_all own_loop_step evs \<and> wl_closed l' \<and>
     loop_run (\<lambda>_. 0) (\<lambda>_. StatusPassing) sample_discovery (service_query ''orders'') evs (sample_loop tb) = Some l'"
proof -
  obtain tb where
    "loop_reachable (\<lambda>_. 0) (\<lambda>_. StatusPassing) sample_discovery (service_query ''orders'') (sample_loop tb)"
    using sample_loop_reachable by blast
  moreover have "wl_cancelled (sample_loop tb)" by (simp add: sample_loop_def)
  ultimately show ?thesis using watch_close_returns by blast
qed

end
