(* ===== verification/Picker.thy ===== *)
theory Picker
  imports Instance Prelude
begin

text \<open>
  The built-in pickers of balancer/balancer.go. A pick selects an index of the list, or is \<open>None\<close>
  where the code panics (an empty list, a non-positive argument of \<open>rand.IntN\<close>). \<open>rand.IntN n\<close> is
  \<open>r mod n\<close> for an arbitrary natural number \<open>r\<close>; the draws of a picker come from its state, as the
  counter of round robin does. The locale \<open>index_picker\<close> is what the balancer relies on.
\<close>

record picker_state =
  ps_n :: "64 word"
  ps_draws :: "nat \<Rightarrow> nat"

datatype picker = RoundRobin | Random | Weighted

definition new_picker :: "(nat \<Rightarrow> nat) \<Rightarrow> picker_state" where
  "new_picker draws = \<lparr>ps_n = 0, ps_draws = draws\<rparr>"

definition rand_intn :: "int \<Rightarrow> picker_state \<Rightarrow> (int \<times> picker_state) option" where
  "rand_intn n ps =
     (if n \<le> 0 then None
      else Some (int (ps_draws ps 0) mod n, ps\<lparr>ps_draws := (\<lambda>i. ps_draws ps (Suc i))\<rparr>))"

definition round_robin_pick ::
    "picker_state \<Rightarrow> service_instance list \<Rightarrow> (nat \<times> picker_state) option" where
  "round_robin_pick ps xs =
     (if xs = [] then None
      else let n = ps_n ps + 1
           in Some (unat ((n - 1) mod word_of_nat (length xs)), ps\<lparr>ps_n := n\<rparr>))"

definition random_pick ::
    "picker_state \<Rightarrow> service_instance list \<Rightarrow> (nat \<times> picker_state) option" where
  "random_pick ps xs =
     (case rand_intn (int (length xs)) ps of None \<Rightarrow> None | Some (r, ps') \<Rightarrow> Some (nat r, ps'))"

definition clamped_weight :: "service_instance \<Rightarrow> int" where
  "clamped_weight i = max (instance_weight i) 0"

definition weighted_total :: "service_instance list \<Rightarrow> int" where
  "weighted_total xs = foldl (\<lambda>total i. wrap64 (total + clamped_weight i)) 0 xs"

fun weighted_walk :: "int \<Rightarrow> nat \<Rightarrow> service_instance list \<Rightarrow> nat option" where
  "weighted_walk r k [] = None"
| "weighted_walk r k (i # xs) =
     (let r' = wrap64 (r - clamped_weight i)
      in if r' < 0 then Some k else weighted_walk r' (Suc k) xs)"

definition weighted_pick ::
    "picker_state \<Rightarrow> service_instance list \<Rightarrow> (nat \<times> picker_state) option" where
  "weighted_pick ps xs =
     (let total = weighted_total xs
      in if total = 0 then random_pick ps xs
         else case rand_intn total ps of
                None \<Rightarrow> None
              | Some (r, ps') \<Rightarrow>
                (case weighted_walk r 0 xs of
                   Some k \<Rightarrow> Some (k, ps')
                 | None \<Rightarrow> if xs = [] then None else Some (length xs - 1, ps')))"

fun pick_index :: "picker \<Rightarrow> picker_state \<Rightarrow> service_instance list \<Rightarrow> (nat \<times> picker_state) option" where
  "pick_index RoundRobin ps xs = round_robin_pick ps xs"
| "pick_index Random ps xs = random_pick ps xs"
| "pick_index Weighted ps xs = weighted_pick ps xs"

text \<open>The weights fit together in an \<open>int\<close>; lists are shorter than a machine word can count.\<close>

definition weights_ok :: "service_instance list \<Rightarrow> bool" where
  "weights_ok xs \<longleftrightarrow> (\<Sum>i\<leftarrow>xs. clamped_weight i) \<le> 9223372036854775807"

definition list_ok :: "service_instance list \<Rightarrow> bool" where
  "list_ok xs \<longleftrightarrow> length xs < 9223372036854775808 \<and> weights_ok xs"

subsection \<open>The interface of the balancer\<close>

locale index_picker =
  fixes pick :: "'s \<Rightarrow> service_instance list \<Rightarrow> (nat \<times> 's) option"
  assumes pick_ok: "xs \<noteq> [] \<Longrightarrow> list_ok xs \<Longrightarrow> \<exists>k s'. pick s xs = Some (k, s') \<and> k < length xs"
begin

definition picks :: "'s \<Rightarrow> service_instance list \<Rightarrow> service_instance option" where
  "picks s xs = (case pick s xs of Some (k, _) \<Rightarrow> if k < length xs then Some (xs ! k) else None | None \<Rightarrow> None)"

lemma picks_member: "xs \<noteq> [] \<Longrightarrow> list_ok xs \<Longrightarrow> \<exists>i\<in>set xs. picks s xs = Some i"
  using pick_ok [of xs s] by (auto simp: picks_def)

text \<open>Picking among a selection of indexes, mapped back to the full list.\<close>

lemma pick_selection:
  assumes "keep \<noteq> []" "\<forall>k\<in>set keep. k < length xs" "list_ok (map ((!) xs) keep)"
  shows "\<exists>k s'. pick s (map ((!) xs) keep) = Some (k, s') \<and> k < length keep \<and> keep ! k \<in> set keep \<and>
    map ((!) xs) keep ! k = xs ! (keep ! k)"
proof -
  obtain k s' where k: "pick s (map ((!) xs) keep) = Some (k, s')" "k < length keep"
    using pick_ok [of "map ((!) xs) keep" s] assms by auto
  then show ?thesis by auto
qed

end

lemma list_ok_word: "list_ok xs \<Longrightarrow> xs \<noteq> [] \<Longrightarrow> unat (word_of_nat (length xs) :: 64 word) = length xs"
  by (simp add: list_ok_def unsigned_of_nat take_bit_nat_eq_self)

lemma round_robin_index:
  assumes "xs \<noteq> []" "list_ok xs"
  shows "round_robin_pick ps xs = Some (unat (ps_n ps) mod length xs, ps\<lparr>ps_n := ps_n ps + 1\<rparr>)"
  using assms list_ok_word [OF assms(2,1)] by (simp add: round_robin_pick_def unat_mod_distrib)

lemma random_index:
  "xs \<noteq> [] \<Longrightarrow> random_pick ps xs =
     Some (ps_draws ps 0 mod length xs, ps\<lparr>ps_draws := (\<lambda>i. ps_draws ps (Suc i))\<rparr>)"
  by (simp add: random_pick_def rand_intn_def nat_mod_distrib)

lemma clamped_nonneg: "0 \<le> clamped_weight i"
  by (simp add: clamped_weight_def)

lemma sum_clamped_nonneg: "0 \<le> (\<Sum>i\<leftarrow>xs. clamped_weight i)"
  by (induction xs) (simp_all add: clamped_nonneg)

lemma weighted_total_sum: "weights_ok xs \<Longrightarrow> weighted_total xs = (\<Sum>i\<leftarrow>xs. clamped_weight i)"
proof -
  have "0 \<le> t \<Longrightarrow> t + (\<Sum>i\<leftarrow>xs. clamped_weight i) \<le> 9223372036854775807 \<Longrightarrow>
      foldl (\<lambda>total i. wrap64 (total + clamped_weight i)) t xs = t + (\<Sum>i\<leftarrow>xs. clamped_weight i)" for t
  proof (induction xs arbitrary: t)
    case (Cons i xs)
    have s: "0 \<le> (\<Sum>i\<leftarrow>xs. clamped_weight i)" "0 \<le> clamped_weight i"
      by (rule sum_clamped_nonneg, rule clamped_nonneg)
    then have "in64 (t + clamped_weight i)" using Cons.prems by (intro in64_nonneg) simp_all
    then show ?case using Cons.IH [of "t + clamped_weight i"] Cons.prems s by simp
  qed simp
  from this [of 0] show "weights_ok xs \<Longrightarrow> ?thesis"
    by (simp add: weighted_total_def weights_ok_def)
qed

text \<open>The walk stops at the instance whose share of the total contains the draw.\<close>

lemma weighted_walk_spec:
  assumes "0 \<le> r" "r < (\<Sum>i\<leftarrow>xs. clamped_weight i)" "in64 r" "weights_ok xs"
  shows "\<exists>k<length xs. weighted_walk r j xs = Some (j + k) \<and>
    (\<Sum>i\<leftarrow>take k xs. clamped_weight i) \<le> r \<and> r < (\<Sum>i\<leftarrow>take (Suc k) xs. clamped_weight i)"
  using assms
proof (induction xs arbitrary: r j)
  case (Cons i xs)
  have s: "0 \<le> (\<Sum>i\<leftarrow>xs. clamped_weight i)" "0 \<le> clamped_weight i"
      by (rule sum_clamped_nonneg, rule clamped_nonneg)
  have w: "wrap64 (r - clamped_weight i) = r - clamped_weight i"
    using Cons.prems s by (intro wrap64_id) (simp add: in64_def weights_ok_def)
  show ?case
  proof (cases "r < clamped_weight i")
    case True
    then show ?thesis using Cons.prems w by (intro exI [of _ 0]) simp
  next
    case False
    have "\<exists>k<length xs. weighted_walk (r - clamped_weight i) (Suc j) xs = Some (Suc j + k) \<and>
        (\<Sum>i\<leftarrow>take k xs. clamped_weight i) \<le> r - clamped_weight i \<and>
        r - clamped_weight i < (\<Sum>i\<leftarrow>take (Suc k) xs. clamped_weight i)"
      using False Cons.prems s by (intro Cons.IH) (simp_all add: weights_ok_def in64_def)
    then obtain k where "k < length xs" "weighted_walk (r - clamped_weight i) (Suc j) xs = Some (Suc j + k)"
      "(\<Sum>i\<leftarrow>take k xs. clamped_weight i) \<le> r - clamped_weight i"
      "r - clamped_weight i < (\<Sum>i\<leftarrow>take (Suc k) xs. clamped_weight i)" by blast
    then show ?thesis using False w by (intro exI [of _ "Suc k"]) simp
  qed
qed simp

lemma weighted_index:
  assumes "xs \<noteq> []" "list_ok xs" "weighted_total xs \<noteq> 0"
  obtains k where "k < length xs"
    "weighted_pick ps xs = Some (k, ps\<lparr>ps_draws := (\<lambda>i. ps_draws ps (Suc i))\<rparr>)"
    "(\<Sum>i\<leftarrow>take k xs. clamped_weight i) \<le> int (ps_draws ps 0) mod weighted_total xs"
    "int (ps_draws ps 0) mod weighted_total xs < (\<Sum>i\<leftarrow>take (Suc k) xs. clamped_weight i)"
proof -
  let ?t = "weighted_total xs" and ?r = "int (ps_draws ps 0) mod weighted_total xs"
  have ok: "weights_ok xs" using assms(2) by (simp add: list_ok_def)
  then have t: "?t = (\<Sum>i\<leftarrow>xs. clamped_weight i)" by (rule weighted_total_sum)
  then have pos: "0 < ?t" using assms(3) sum_clamped_nonneg [of xs] by linarith
  have r: "0 \<le> ?r" "?r < ?t" using pos by simp_all
  then have "in64 ?r" using ok t by (intro in64_nonneg) (simp_all add: weights_ok_def)
  with r t ok obtain k where "k < length xs" "weighted_walk ?r 0 xs = Some k"
    "(\<Sum>i\<leftarrow>take k xs. clamped_weight i) \<le> ?r" "?r < (\<Sum>i\<leftarrow>take (Suc k) xs. clamped_weight i)"
    using weighted_walk_spec [of ?r xs 0] by auto
  moreover have "weighted_pick ps xs = Some (k, ps\<lparr>ps_draws := (\<lambda>i. ps_draws ps (Suc i))\<rparr>)"
    using calculation(2) pos by (simp add: weighted_pick_def rand_intn_def)
  ultimately show ?thesis by (intro that)
qed

interpretation round_robin: index_picker round_robin_pick
  by unfold_locales (simp add: round_robin_index)

interpretation random: index_picker random_pick
  by unfold_locales (simp add: random_index)

interpretation weighted: index_picker weighted_pick
proof
  fix xs :: "service_instance list" and s :: picker_state
  assume "xs \<noteq> []" "list_ok xs"
  then show "\<exists>k s'. weighted_pick s xs = Some (k, s') \<and> k < length xs"
    using random.pick_ok [of xs s]
    by (cases "weighted_total xs = 0") (simp add: weighted_pick_def, metis weighted_index)
qed

interpretation builtin: index_picker "pick_index p" for p
proof
  fix xs :: "service_instance list" and s :: picker_state
  assume "xs \<noteq> []" "list_ok xs"
  then show "\<exists>k s'. pick_index p s xs = Some (k, s') \<and> k < length xs"
    using round_robin.pick_ok random.pick_ok weighted.pick_ok by (cases p) simp_all
qed

subsection \<open>Fairness of round robin\<close>

fun pick_run :: "picker \<Rightarrow> picker_state \<Rightarrow> service_instance list \<Rightarrow> nat \<Rightarrow> nat option list" where
  "pick_run p ps xs 0 = []"
| "pick_run p ps xs (Suc m) =
     (case pick_index p ps xs of
        None \<Rightarrow> [None]
      | Some (k, ps') \<Rightarrow> Some k # pick_run p ps' xs m)"

definition times_picked :: "nat \<Rightarrow> nat option list \<Rightarrow> nat" where
  "times_picked k run = length (filter (\<lambda>r. r = Some k) run)"

lemma round_robin_run:
  assumes "xs \<noteq> []" "list_ok xs"
  shows "unat (ps_n ps) + m \<le> 2 ^ 64 \<Longrightarrow>
    pick_run RoundRobin ps xs m = map (\<lambda>j. Some (j mod length xs)) [unat (ps_n ps)..<unat (ps_n ps) + m]"
proof (induction m arbitrary: ps)
  case (Suc m)
  show ?case
  proof (cases m)
    case 0
    then show ?thesis using round_robin_index [OF assms, of ps] by simp
  next
    case (Suc m')
    have "unat (ps_n ps + 1) = unat (ps_n ps) + 1"
      using Suc.prems Suc by (simp add: unat_word_ariths)
    then show ?thesis
      using Suc.IH [of "ps\<lparr>ps_n := ps_n ps + 1\<rparr>"] Suc.prems round_robin_index [OF assms, of ps]
      by (simp add: upt_conv_Cons del: upt_Suc)
  qed
qed simp

lemma window_inj: "0 < L \<Longrightarrow> inj_on (\<lambda>j. j mod L) {a..<a + L}" for L :: nat
proof (rule linorder_inj_onI')
  fix i j assume "0 < L" "i \<in> {a..<a + L}" "j \<in> {a..<a + L}" "i < j"
  then show "i mod L \<noteq> j mod L"
    using mod_eq_dvd_iff_nat [of i j L] by (auto dest: dvd_imp_le)
qed

definition hits :: "nat \<Rightarrow> nat \<Rightarrow> nat \<Rightarrow> nat \<Rightarrow> nat" where
  "hits L k a m = card {j \<in> {a..<a + m}. j mod L = k}"

lemma hits_window:
  assumes "0 < L" "k < L"
  shows "hits L k a L = 1"
proof -
  have "(\<lambda>j. j mod L) ` {a..<a + L} = {..<L}"
    using window_inj [OF assms(1), of a] assms(1)
    by (intro card_subset_eq) (auto simp: card_image)
  then obtain j where j: "j \<in> {a..<a + L}" "j mod L = k" using assms(2) by (metis imageE lessThan_iff)
  then have "{j \<in> {a..<a + L}. j mod L = k} = {j}"
    using window_inj [OF assms(1), of a] by (auto dest: inj_onD)
  then have "hits L k a L = card {j}" unfolding hits_def by (rule arg_cong)
  then show ?thesis by simp
qed

lemma hits_mono: "m \<le> n \<Longrightarrow> hits L k a m \<le> hits L k a n"
  unfolding hits_def by (rule card_mono) auto

lemma hits_split: "L \<le> m \<Longrightarrow> hits L k a m = hits L k a L + hits L k (a + L) (m - L)"
proof -
  assume "L \<le> m"
  then have s: "{j \<in> {a..<a + m}. j mod L = k} =
      {j \<in> {a..<a + L}. j mod L = k} \<union> {j \<in> {a + L..<a + L + (m - L)}. j mod L = k}"
    by auto
  show ?thesis unfolding hits_def s by (rule card_Un_disjoint) auto
qed

lemma hits_count:
  assumes "0 < L" "k < L"
  shows "m div L \<le> hits L k a m \<and> hits L k a m \<le> m div L + 1"
proof (induction m arbitrary: a rule: less_induct)
  case (less m)
  show ?case
  proof (cases "m < L")
    case True
    then show ?thesis using hits_mono [of m L L k a] hits_window [OF assms, of a] by simp
  next
    case False
    then have "hits L k a m = 1 + hits L k (a + L) (m - L)"
      using hits_split [of L m k a] hits_window [OF assms] by simp
    moreover have "m div L = (m - L) div L + 1" using False assms(1) by (simp add: le_div_geq)
    ultimately show ?thesis using less.IH [of "m - L" "a + L"] False assms(1) by simp
  qed
qed

lemma length_filter_hits: "length (filter (\<lambda>j. j mod L = k) [a..<a + m]) = hits L k a m"
proof -
  have "hits L k a m = card (set (filter (\<lambda>j. j mod L = k) [a..<a + m]))"
    unfolding hits_def by (rule arg_cong [of _ _ card]) auto
  also have "\<dots> = length (filter (\<lambda>j. j mod L = k) [a..<a + m])" by (rule distinct_card) simp
  finally show ?thesis by simp
qed

text \<open>
  Round robin is fair: among any m consecutive picks from a list of L instances every instance is
  picked m div L or m div L + 1 times, so never more than once more often than another (as long as the
  64-bit counter does not wrap within the run).
\<close>

theorem round_robin_fair:
  assumes "list_ok xs" "k < length xs" "unat (ps_n ps) + m \<le> 2 ^ 64"
  shows "times_picked k (pick_run RoundRobin ps xs m) \<in> {m div length xs, m div length xs + 1}"
proof -
  let ?a = "unat (ps_n ps)"
  have ne: "xs \<noteq> []" using assms(2) by auto
  have "times_picked k (pick_run RoundRobin ps xs m) =
      length (filter (\<lambda>j. j mod length xs = k) [?a..<?a + m])"
    by (simp add: times_picked_def round_robin_run [OF ne assms(1,3)] filter_map o_def)
  also have "\<dots> = hits (length xs) k ?a m" by (rule length_filter_hits)
  finally show ?thesis
    using hits_count [of "length xs" k m ?a] assms(2) by (cases "length xs") auto
qed

definition sample_pool :: "service_instance list" where
  "sample_pool = map (\<lambda>n. \<lparr>i_ID = n, i_Name = ''orders'', i_Address = ''10.0.0.1'', i_Port = 8080,
     i_Ports = [], i_Scheme = ''http'', i_Tags = [], i_Meta = fmempty, i_TaggedAddresses = fmempty,
     i_Weights = \<lparr>wt_Passing = 3, wt_Warning = 0\<rparr>, i_Datacenter = ''dc1'', i_Namespace = [],
     i_Partition = [],
     i_Node = \<lparr>n_ID = [], n_Name = n, n_Address = ''10.0.0.1'', n_Datacenter = ''dc1'',
       n_TaggedAddresses = fmempty, n_Meta = fmempty\<rparr>,
     i_Status = (if n = ''c'' then StatusWarning else StatusPassing), i_Checks = []\<rparr>) [''a'', ''b'', ''c'']"

lemma sample_pool_ok: "length sample_pool = 3" "list_ok sample_pool" "sample_pool \<noteq> []"
  by (simp_all add: sample_pool_def list_ok_def weights_ok_def clamped_weight_def instance_weight_def
      StatusWarning_def StatusPassing_def)

theorem round_robin_fair_witness:
  "times_picked 2 (pick_run RoundRobin (new_picker (\<lambda>_. 0)) sample_pool 10) \<in> {3, 4}"
  using round_robin_fair [of sample_pool 2 "new_picker (\<lambda>_. 0)" 10]
  by (simp add: sample_pool_ok new_picker_def)

lemma prefix_mono:
  "a \<le> b \<Longrightarrow> (\<Sum>i\<leftarrow>take a xs. clamped_weight i) \<le> (\<Sum>i\<leftarrow>take b xs. clamped_weight i)"
proof -
  assume "a \<le> b"
  then have "take b xs = take a xs @ take (b - a) (drop a xs)" by (metis le_add_diff_inverse take_add)
  then show ?thesis using sum_clamped_nonneg [of "take (b - a) (drop a xs)"] by simp
qed

lemma share_unique:
  assumes "(\<Sum>i\<leftarrow>take j xs. clamped_weight i) \<le> r" "r < (\<Sum>i\<leftarrow>take (Suc j) xs. clamped_weight i)"
    and "(\<Sum>i\<leftarrow>take k xs. clamped_weight i) \<le> r" "r < (\<Sum>i\<leftarrow>take (Suc k) xs. clamped_weight i)"
  shows "j = k"
proof (rule linorder_cases [of j k])
  assume "j < k"
  then show ?thesis using prefix_mono [of "Suc j" k xs] assms(2,3) by linarith
next
  assume "k < j"
  then show ?thesis using prefix_mono [of "Suc k" j xs] assms(1,4) by linarith
qed

text \<open>The draws that select an instance are those in its share of the total.\<close>

lemma weighted_share:
  assumes "list_ok xs" "k < length xs" "weighted_total xs \<noteq> 0" "int r < weighted_total xs"
  shows "map_option fst (weighted_pick \<lparr>ps_n = n, ps_draws = (\<lambda>_. r)\<rparr> xs) = Some k \<longleftrightarrow>
    (\<Sum>i\<leftarrow>take k xs. clamped_weight i) \<le> int r \<and> int r < (\<Sum>i\<leftarrow>take (Suc k) xs. clamped_weight i)"
proof -
  let ?ps = "\<lparr>ps_n = n, ps_draws = (\<lambda>_. r)\<rparr>"
  have ne: "xs \<noteq> []" using assms(2) by auto
  have m: "int (ps_draws ?ps 0) mod weighted_total xs = int r" using assms(4) by simp
  obtain j where j: "map_option fst (weighted_pick ?ps xs) = Some j"
    "(\<Sum>i\<leftarrow>take j xs. clamped_weight i) \<le> int r" "int r < (\<Sum>i\<leftarrow>take (Suc j) xs. clamped_weight i)"
  proof (rule weighted_index [OF ne assms(1,3), of ?ps], unfold m)
    fix j assume s: "(\<Sum>i\<leftarrow>take j xs. clamped_weight i) \<le> int r"
      "int r < (\<Sum>i\<leftarrow>take (Suc j) xs. clamped_weight i)"
      and p: "weighted_pick ?ps xs = Some (j, ?ps\<lparr>ps_draws := (\<lambda>i. ps_draws ?ps (Suc i))\<rparr>)"
    have "map_option fst (weighted_pick ?ps xs) = Some j" unfolding p by (simp only: option.map fst_conv)
    then show thesis using s by (rule that)
  qed
  have "map_option fst (weighted_pick ?ps xs) = Some k \<longleftrightarrow> j = k" unfolding j(1) by blast
  then show ?thesis using share_unique [OF j(2,3)] j(2,3) by blast
qed

text \<open>
  The weighted strategy is exactly proportional: of the equally likely outcomes of its one random
  number, below the sum of the weights, the share that selects an instance is its weight, counting the
  warning weight while the instance is in warning and nothing for a negative weight. So an instance
  of weight 0 is never selected; when all weights are 0 the choice is uniform.
\<close>

theorem weighted_proportional:
  assumes "list_ok xs" "k < length xs"
  shows "let total = weighted_total xs;
       chooses = (\<lambda>r. map_option fst (weighted_pick \<lparr>ps_n = n, ps_draws = (\<lambda>_. r)\<rparr> xs) = Some k)
     in if total = 0 then card {r. r < length xs \<and> chooses r} = 1
        else card {r. int r < total \<and> chooses r} = nat (clamped_weight (xs ! k))"
proof -
  have ne: "xs \<noteq> []" using assms(2) by auto
  let ?ps = "\<lambda>r. \<lparr>ps_n = n, ps_draws = (\<lambda>_. r)\<rparr>" and ?p = "\<lambda>j. \<Sum>i\<leftarrow>take j xs. clamped_weight i"
  show ?thesis
  proof (cases "weighted_total xs = 0")
    case True
    have "{r. r < length xs \<and> map_option fst (weighted_pick (?ps r) xs) = Some k} = {k}"
      using True assms ne by (auto simp: weighted_pick_def random_index)
    then show ?thesis using True by (simp add: Let_def)
  next
    case False
    have t: "weighted_total xs = ?p (length xs)"
      using assms by (simp add: weighted_total_sum list_ok_def)
    have "int r < weighted_total xs" if "int r < ?p (Suc k)" for r
      using that prefix_mono [of "Suc k" "length xs" xs] assms(2) t by linarith
    then have "{r. int r < weighted_total xs \<and> map_option fst (weighted_pick (?ps r) xs) = Some k} =
        {r. ?p k \<le> int r \<and> int r < ?p (Suc k)}"
      using weighted_share [OF assms False] by blast
    also have "\<dots> = {nat (?p k)..<nat (?p (Suc k))}"
      using prefix_mono [of 0 k xs] by auto
    also have "card \<dots> = nat (clamped_weight (xs ! k))"
      using prefix_mono [of 0 k xs] assms(2) by (simp add: take_Suc_conv_app_nth nat_add_distrib clamped_nonneg)
    finally show ?thesis using False by (simp add: Let_def)
  qed
qed

theorem weighted_proportional_witness:
  "card {r. int r < weighted_total sample_pool \<and>
      map_option fst (weighted_pick \<lparr>ps_n = 0, ps_draws = (\<lambda>_. r)\<rparr> sample_pool) = Some 1} = 3"
proof -
  have "weighted_total sample_pool = 6" "clamped_weight (sample_pool ! 1) = 3"
    by (simp_all add: sample_pool_def weighted_total_def clamped_weight_def instance_weight_def
        StatusWarning_def StatusPassing_def in64_def)
  then show ?thesis
    using weighted_proportional [of sample_pool 1 0] by (simp add: sample_pool_ok Let_def)
qed

end
