(* ===== verification/Ejection.thy ===== *)
theory Ejection
  imports Picker Watch
begin

text \<open>
  balancer/ejection.go and the choice made by \<open>Next\<close> and \<open>NextEndpoint\<close>: the ejection set of a
  service, \<open>available\<close>, and the picks of both calls from one snapshot. \<open>choice\<close> says what the pick
  function handed to the snapshot does: nothing to choose from, a panic, or a value and the new state
  of the picker.
\<close>

type_synonym ejection_set = "(string, int) fmap"

text \<open>The locked part of \<open>ReportFailure\<close>; \<open>None\<close> is the unset pointer.\<close>

definition eject_host :: "duration \<Rightarrow> string \<Rightarrow> int \<Rightarrow> ejection_set option \<Rightarrow> ejection_set option" where
  "eject_host d host now st =
     (let until = wrap64 (now + d);
          old = (case st of None \<Rightarrow> fmempty | Some s \<Rightarrow> s)
      in Some (fmupd host until
           (fmfilter (\<lambda>k. k \<noteq> host \<and> (case fmlookup old k of Some v \<Rightarrow> now < v | None \<Rightarrow> False)) old)))"

definition ejected :: "ejection_set option \<Rightarrow> int \<Rightarrow> string \<Rightarrow> bool" where
  "ejected st now host =
     (case st of None \<Rightarrow> False
      | Some s \<Rightarrow> (case fmlookup s host of Some until \<Rightarrow> now < until | None \<Rightarrow> False))"

definition available :: "ejection_set option \<Rightarrow> service_instance list \<Rightarrow> int \<Rightarrow> nat list option" where
  "available st xs now =
     (case st of
        None \<Rightarrow> None
      | Some s \<Rightarrow>
        if s = fmempty then None
        else (let keep = filter (\<lambda>k. \<not> ejected st now (host_port (xs ! k))) [0..<length xs]
              in if length keep = length xs \<or> keep = [] then None else Some keep))"

definition subset_of :: "service_instance list \<Rightarrow> nat list \<Rightarrow> service_instance list" where
  "subset_of xs keep = map ((!) xs) keep"

lemma available_Some:
  assumes "available st xs now = Some keep"
  shows "keep \<noteq> []" "\<forall>k\<in>set keep. k < length xs \<and> \<not> ejected st now (host_port (xs ! k))"
    "subset_of xs keep = filter (\<lambda>i. \<not> ejected st now (host_port i)) xs"
  using assms map_nth_filter [of xs "\<lambda>i. \<not> ejected st now (host_port i)"]
  by (auto simp: available_def subset_of_def Let_def split: option.splits if_splits)

lemma available_None:
  assumes "available st xs now = None" "\<exists>i\<in>set xs. \<not> ejected st now (host_port i)" "i \<in> set xs"
  shows "\<not> ejected st now (host_port i)"
proof (cases st)
  case (Some s)
  let ?P = "\<lambda>i. \<not> ejected st now (host_port i)"
  have m: "map ((!) xs) (filter (\<lambda>k. ?P (xs ! k)) [0..<length xs]) = filter ?P xs" by (rule map_nth_filter)
  then have l: "length (filter (\<lambda>k. ?P (xs ! k)) [0..<length xs]) = length (filter ?P xs)"
    by (metis length_map)
  have "filter ?P xs \<noteq> []" using assms(2) by (auto simp: filter_empty_conv)
  then have "s = fmempty \<or> length (filter ?P xs) = length xs"
    using assms(1) Some l by (auto simp: available_def Let_def split: if_splits)
  then show ?thesis
    using assms(3) Some length_filter_eq_all [of ?P xs] by (auto simp: ejected_def)
qed (simp add: ejected_def)

subsection \<open>Reports\<close>

lemma ejected_after_report:
  "now \<le> t \<Longrightarrow> ejected (eject_host d host now st) t h =
     (if h = host then t < wrap64 (now + d) else ejected st t h)"
  by (auto simp: ejected_def eject_host_def Let_def fmlookup_filter split: option.splits)

definition reports :: "duration \<Rightarrow> (string \<times> int) list \<Rightarrow> ejection_set option" where
  "reports d rs = foldl (\<lambda>st (host, now). eject_host d host now st) None rs"

text \<open>When the last report of a host was made.\<close>

definition last_report :: "(string \<times> int) list \<Rightarrow> string \<Rightarrow> int option" where
  "last_report rs host = map_of (rev rs) host"

text \<open>
  C40. The set that \<open>ReportFailure\<close> rebuilds on every report, dropping what has expired, stands for the
  whole history of reports: for reports in the order of the clock, an instance is out of rotation at a
  later time exactly when less than the ejection window has passed since the last report of it.
\<close>

theorem ejection_window:
  assumes "sorted (map snd rs)" "\<forall>(h, r)\<in>set rs. r \<le> t \<and> in64 (r + d)"
  shows "ejected (reports d rs) t host =
     (case last_report rs host of None \<Rightarrow> False | Some r \<Rightarrow> t < r + d)"
  using assms
proof (induction rs rule: rev_induct)
  case (snoc x rs)
  obtain h r where x: "x = (h, r)" by fastforce
  then have "ejected (reports d rs) t host = (case last_report rs host of None \<Rightarrow> False | Some r \<Rightarrow> t < r + d)"
    using snoc by (simp add: sorted_append)
  moreover have "r \<le> t" "in64 (r + d)" using snoc.prems x by auto
  ultimately show ?case by (simp add: reports_def last_report_def x ejected_after_report)
qed (simp add: reports_def last_report_def ejected_def)

theorem ejection_window_witness:
  "ejected (reports 5 [(''a:1'', 10), (''b:1'', 11), (''a:1'', 12)]) 16 ''a:1'' \<and>
   \<not> ejected (reports 5 [(''a:1'', 10), (''b:1'', 11), (''a:1'', 12)]) 16 ''b:1''"
  using ejection_window [of "[(''a:1'', 10), (''b:1'', 11), (''a:1'', 12)]" 16 5 "''a:1''"]
    ejection_window [of "[(''a:1'', 10), (''b:1'', 11), (''a:1'', 12)]" 16 5 "''b:1''"]
  by (simp add: in64_def last_report_def)

subsection \<open>Choosing from a snapshot\<close>

datatype strategy = Builtin picker | Custom "service_instance list \<Rightarrow> service_instance"

datatype 'a choice = Nothing | Panics | Chosen 'a picker_state

text \<open>\<open>Picker.Pick\<close>.\<close>

definition run_picker :: "strategy \<Rightarrow> picker_state \<Rightarrow> service_instance list \<Rightarrow> service_instance choice" where
  "run_picker str ps xs =
     (case str of
        Builtin p \<Rightarrow>
          (case pick_index p ps xs of
             None \<Rightarrow> Panics
           | Some (k, ps') \<Rightarrow> if k < length xs then Chosen (xs ! k) ps' else Panics)
      | Custom f \<Rightarrow> Chosen (f xs) ps)"

text \<open>The index a pick stands for, or the foreign instance of a custom picker.\<close>

datatype picked = AtIndex nat | Foreign service_instance

definition same_target :: "service_instance \<Rightarrow> service_instance \<Rightarrow> bool" where
  "same_target a b \<longleftrightarrow>
     i_ID a = i_ID b \<and> n_Name (i_Node a) = n_Name (i_Node b) \<and> i_Address a = i_Address b \<and>
     i_Port a = i_Port b"

fun locate :: "nat \<Rightarrow> service_instance \<Rightarrow> service_instance list \<Rightarrow> nat option" where
  "locate k i [] = None"
| "locate k i (x # xs) = (if same_target x i then Some k else locate (Suc k) i xs)"

definition run_pick_index :: "strategy \<Rightarrow> picker_state \<Rightarrow> service_instance list \<Rightarrow> picked choice" where
  "run_pick_index str ps xs =
     (case str of
        Builtin p \<Rightarrow>
          (case pick_index p ps xs of None \<Rightarrow> Panics | Some (k, ps') \<Rightarrow> Chosen (AtIndex k) ps')
      | Custom f \<Rightarrow>
          (case locate 0 (f xs) xs of
             Some k \<Rightarrow> Chosen (AtIndex k) ps
           | None \<Rightarrow> Chosen (Foreign (f xs)) ps))"

text \<open>What \<open>Next\<close> picks; \<open>now = 0\<close> means that ejection is off.\<close>

definition next_choice ::
    "strategy \<Rightarrow> ejection_set option \<Rightarrow> int \<Rightarrow> picker_state \<Rightarrow> service_instance list \<Rightarrow> service_instance choice" where
  "next_choice str st now ps xs =
     (if xs = [] then Nothing
      else (case (if now \<noteq> 0 then available st xs now else None) of
              Some keep \<Rightarrow> run_picker str ps (subset_of xs keep)
            | None \<Rightarrow> run_picker str ps xs))"

definition next_endpoint_choice ::
    "strategy \<Rightarrow> ejection_set option \<Rightarrow> int \<Rightarrow> picker_state \<Rightarrow> snapshot option \<Rightarrow> endpoint choice" where
  "next_endpoint_choice str st now ps sn =
     (let xs = snapshot_list sn;
          eps = snapshot_endpoints sn
      in if xs = [] then Nothing
         else (case (if now \<noteq> 0 then available st xs now else None) of
                 Some keep \<Rightarrow>
                   (case run_pick_index str ps (subset_of xs keep) of
                      Nothing \<Rightarrow> Nothing
                    | Panics \<Rightarrow> Panics
                    | Chosen (Foreign i) ps' \<Rightarrow> Chosen (endpoint_of i) ps'
                    | Chosen (AtIndex k) ps' \<Rightarrow>
                        if k < length keep
                        then (if keep ! k < length xs then Chosen (eps ! (keep ! k)) ps' else Nothing)
                        else Panics)
               | None \<Rightarrow>
                   (case run_pick_index str ps xs of
                      Nothing \<Rightarrow> Nothing
                    | Panics \<Rightarrow> Panics
                    | Chosen (Foreign i) ps' \<Rightarrow> Chosen (endpoint_of i) ps'
                    | Chosen (AtIndex k) ps' \<Rightarrow>
                        if k < length xs then Chosen (eps ! k) ps' else Nothing)))"

text \<open>The list the picker is given.\<close>

definition candidates :: "ejection_set option \<Rightarrow> int \<Rightarrow> service_instance list \<Rightarrow> service_instance list" where
  "candidates st now xs =
     (case (if now \<noteq> 0 then available st xs now else None) of
        Some keep \<Rightarrow> subset_of xs keep | None \<Rightarrow> xs)"

lemma next_choice_candidates:
  "next_choice str st now ps xs = (if xs = [] then Nothing else run_picker str ps (candidates st now xs))"
  by (auto simp: next_choice_def candidates_def split: option.splits)

lemma candidates_subset: "set (candidates st now xs) \<subseteq> set xs"
  by (auto simp: candidates_def available_Some split: option.splits if_splits)

lemma candidates_nonempty: "xs \<noteq> [] \<Longrightarrow> candidates st now xs \<noteq> []"
  by (auto simp: candidates_def subset_of_def dest: available_Some(1) split: option.splits if_splits)

lemma sum_clamped_filter:
  "(\<Sum>i\<leftarrow>filter P xs. clamped_weight i) \<le> (\<Sum>i\<leftarrow>xs. clamped_weight i)"
  by (induction xs) (auto simp: clamped_nonneg add_increasing)

lemma candidates_ok: "list_ok xs \<Longrightarrow> list_ok (candidates st now xs)"
proof -
  assume ok: "list_ok xs"
  have "list_ok (filter P xs)" for P
    using ok sum_clamped_filter [of P xs]
    by (auto simp: list_ok_def weights_ok_def intro: le_less_trans [OF length_filter_le])
  then show ?thesis
    using ok by (auto simp: candidates_def available_Some split: option.splits if_splits)
qed

lemma candidates_alive:
  assumes "now \<noteq> 0" "\<exists>i\<in>set xs. \<not> ejected st now (host_port i)" "i \<in> set (candidates st now xs)"
  shows "\<not> ejected st now (host_port i)"
  using assms available_None [OF _ assms(2)]
  by (auto simp: candidates_def available_Some split: option.splits if_splits)

lemma builtin_picks:
  assumes "xs \<noteq> []" "list_ok xs"
  shows "\<exists>k ps'. pick_index p ps xs = Some (k, ps') \<and> k < length xs \<and>
     run_picker (Builtin p) ps xs = Chosen (xs ! k) ps' \<and>
     run_pick_index (Builtin p) ps xs = Chosen (AtIndex k) ps'"
  using builtin.pick_ok [OF assms, of p ps] by (auto simp: run_picker_def run_pick_index_def)

text \<open>
  C21. With ejection on and a built-in strategy, a call on a non-empty list always gets an instance of
  the list; and as long as one instance of the list is not ejected, the one it gets is not ejected.
  When all are ejected the whole list is used, so ejection alone never leaves a caller without an
  instance.
\<close>

theorem ejected_never_picked:
  assumes "xs \<noteq> []" "list_ok xs" "now \<noteq> 0"
  shows "\<exists>i ps'. next_choice (Builtin p) st now ps xs = Chosen i ps' \<and> i \<in> set xs \<and>
     ((\<exists>j\<in>set xs. \<not> ejected st now (host_port j)) \<longrightarrow> \<not> ejected st now (host_port i))"
proof -
  let ?c = "candidates st now xs"
  obtain k ps' where k: "k < length ?c" "run_picker (Builtin p) ps ?c = Chosen (?c ! k) ps'"
    using builtin_picks [OF candidates_nonempty [OF assms(1)] candidates_ok [OF assms(2)]] by blast
  then have "?c ! k \<in> set ?c" by simp
  then show ?thesis
    using k(2) assms(1,3) candidates_subset [of st now xs] candidates_alive [of now xs st]
    by (auto simp: next_choice_candidates)
qed

theorem ejected_never_picked_witness:
  "\<exists>i ps'. next_choice (Builtin Weighted)
       (eject_host 5 (host_port (sample_pool ! 0)) 10 None) 11 (new_picker (\<lambda>_. 4)) sample_pool = Chosen i ps' \<and>
     i \<in> set sample_pool"
proof -
  have "(11 :: int) \<noteq> 0" by simp
  from ejected_never_picked [OF sample_pool_ok(3,2) this] show ?thesis by blast
qed

subsection \<open>Endpoints\<close>

lemma locate_spec:
  "locate k i xs = Some j \<Longrightarrow> k \<le> j \<and> j < k + length xs \<and> same_target (xs ! (j - k)) i"
proof (induction xs arbitrary: k)
  case (Cons x xs)
  show ?case
  proof (cases "same_target x i")
    case False
    with Cons.prems have "locate (Suc k) i xs = Some j" by simp
    then have "Suc k \<le> j \<and> j < Suc k + length xs \<and> same_target (xs ! (j - Suc k)) i" by (rule Cons.IH)
    then show ?thesis by (auto simp: nth_Cons' Suc_diff_Suc)
  qed (use Cons in auto)
qed simp

text \<open>The instance of the full list behind an index of the candidates.\<close>

lemma endpoint_choice_of_index:
  assumes "snapshot_ok sn" "snapshot_list sn = xs" "xs \<noteq> []"
    and "run_pick_index str ps (candidates st now xs) = Chosen (AtIndex k) ps'"
    and "k < length (candidates st now xs)"
  shows "next_endpoint_choice str st now ps sn = Chosen (endpoint_of (candidates st now xs ! k)) ps'"
proof -
  have eps: "snapshot_endpoints sn = map endpoint_of xs"
    using assms(1,2) by (auto simp: snapshot_ok_def snapshot_endpoints_def snapshot_list_def split: option.splits)
  show ?thesis
  proof (cases "if now \<noteq> 0 then available st xs now else None")
    case None
    then show ?thesis using assms eps by (simp add: next_endpoint_choice_def candidates_def Let_def)
  next
    case (Some keep)
    then have "\<forall>k\<in>set keep. k < length xs" using available_Some(2) by (auto split: if_splits)
    moreover have k: "k < length keep" using Some assms(5) by (simp add: candidates_def subset_of_def)
    ultimately have "keep ! k < length xs" by simp
    then show ?thesis
      using Some assms eps k by (simp add: next_endpoint_choice_def candidates_def subset_of_def Let_def)
  qed
qed

lemma endpoint_choice_foreign:
  assumes "snapshot_list sn = xs" "xs \<noteq> []"
    and "run_pick_index str ps (candidates st now xs) = Chosen (Foreign i) ps'"
  shows "next_endpoint_choice str st now ps sn = Chosen (endpoint_of i) ps'"
  using assms by (auto simp: next_endpoint_choice_def candidates_def Let_def split: option.splits)

lemma builtin_endpoint:
  assumes "snapshot_ok sn" "list_ok (snapshot_list sn)"
    and "next_choice (Builtin p) st now ps (snapshot_list sn) = Chosen i ps'"
  shows "next_endpoint_choice (Builtin p) st now ps sn = Chosen (endpoint_of i) ps'"
proof -
  let ?c = "candidates st now (snapshot_list sn)"
  have ne: "snapshot_list sn \<noteq> []" and run: "run_picker (Builtin p) ps ?c = Chosen i ps'"
    using assms(3) by (auto simp: next_choice_candidates split: if_splits)
  then obtain k where "k < length ?c" "i = ?c ! k" "run_pick_index (Builtin p) ps ?c = Chosen (AtIndex k) ps'"
    using builtin_picks [OF candidates_nonempty [OF ne, of st now] candidates_ok [OF assms(2), of st now], of p ps]
    by auto
  then show ?thesis
    using endpoint_choice_of_index [OF assms(1) refl ne, of "Builtin p" ps st now k ps'] by simp
qed

lemma custom_endpoint:
  assumes "snapshot_ok sn" "next_choice (Custom f) st now ps (snapshot_list sn) = Chosen i ps'"
  shows "\<exists>e. next_endpoint_choice (Custom f) st now ps sn = Chosen e ps' \<and> e_ID e = i_ID i \<and>
    e_Node e = n_Name (i_Node i) \<and> e_Address e = i_Address i \<and> e_Port e = i_Port i"
proof -
  let ?c = "candidates st now (snapshot_list sn)"
  have ne: "snapshot_list sn \<noteq> []" and i: "i = f ?c" "ps' = ps"
    using assms(2) by (auto simp: next_choice_candidates run_picker_def split: if_splits)
  show ?thesis
  proof (cases "locate 0 i ?c")
    case None
    then have "run_pick_index (Custom f) ps ?c = Chosen (Foreign i) ps" using i by (simp add: run_pick_index_def)
    from endpoint_choice_foreign [OF refl ne this] show ?thesis
      using i by (simp add: endpoint_of_def Let_def)
  next
    case (Some k)
    then have k: "k < length ?c" "same_target (?c ! k) i" using locate_spec by fastforce+
    have "run_pick_index (Custom f) ps ?c = Chosen (AtIndex k) ps" using i Some by (simp add: run_pick_index_def)
    from endpoint_choice_of_index [OF assms(1) refl ne this k(1)] show ?thesis
      using i k(2) by (simp add: endpoint_of_def Let_def same_target_def)
  qed
qed

text \<open>
  \<open>NextEndpoint\<close> is \<open>Next\<close> for callers that need only the address. With a built-in strategy it
  returns the endpoint of exactly the instance \<open>Next\<close> would return, ejections included, and leaves the
  picker in the same state; with a custom picker the endpoint has the id, node, address and port of
  the instance the picker chose, whether or not that instance is in the list.
\<close>

theorem next_endpoint_agrees:
  assumes "snapshot_ok sn" "list_ok (snapshot_list sn)"
    and "next_choice str st now ps (snapshot_list sn) = Chosen i ps'"
  shows "\<exists>e. next_endpoint_choice str st now ps sn = Chosen e ps' \<and>
     (case str of
        Builtin p \<Rightarrow> e = endpoint_of i
      | Custom f \<Rightarrow> e_ID e = i_ID i \<and> e_Node e = n_Name (i_Node i) \<and> e_Address e = i_Address i \<and>
          e_Port e = i_Port i)"
  using builtin_endpoint [OF assms(1,2)] custom_endpoint [OF assms(1)] assms(3)
  by (cases str) auto

theorem next_endpoint_agrees_witness:
  "next_endpoint_choice (Custom hd) None 0 (new_picker (\<lambda>_. 0)) (Some (new_snapshot sample_pool)) =
     Chosen (endpoint_of (sample_pool ! 0)) (new_picker (\<lambda>_. 0)) \<and>
   (\<exists>e. next_endpoint_choice (Custom hd) None 0 (new_picker (\<lambda>_. 0)) (Some (new_snapshot sample_pool)) =
       Chosen e (new_picker (\<lambda>_. 0)) \<and> e_ID e = ''a'')"
proof -
  have c: "next_choice (Custom hd) None 0 (new_picker (\<lambda>_. 0)) sample_pool =
      Chosen (sample_pool ! 0) (new_picker (\<lambda>_. 0))"
    by (simp add: next_choice_def run_picker_def sample_pool_def)
  have "next_endpoint_choice (Custom hd) None 0 (new_picker (\<lambda>_. 0)) (Some (new_snapshot sample_pool)) =
     Chosen (endpoint_of (sample_pool ! 0)) (new_picker (\<lambda>_. 0))"
    by (simp add: next_endpoint_choice_def snapshot_endpoints_def new_snapshot_def snapshot_list_def
        run_pick_index_def sample_pool_def same_target_def Let_def)
  then show ?thesis
    using next_endpoint_agrees [of "Some (new_snapshot sample_pool)" "Custom hd" None 0 "new_picker (\<lambda>_. 0)"] c
      sample_pool_ok by (auto simp: sample_pool_def)
qed

end
