(* ===== verification/Balancer.thy ===== *)
theory Balancer
  imports Ejection
begin

text \<open>
  balancer/balancer.go: the entries of the watched services, \<open>entry_for\<close> (\<open>entry\<close>), \<open>current_loop\<close>
  (\<open>current\<close>), \<open>next_instance\<close> (\<open>Next\<close>), \<open>next_endpoint\<close>, the stale grace, the janitor and
  \<open>Close\<close>. A watch is a number, the order in which the balancer created it. An entry is a shared
  object of the code: \<open>store_entry\<close> writes it back, without effect once the entry has left the map.
  \<open>balancer_step\<close> interleaves the critical sections of callers, janitor and \<open>Close\<close>.
\<close>

record entry =
  en_watch :: nat
  en_picker :: picker_state
  en_lastUsed :: int
  en_last :: "snapshot option option"
  en_lastSeen :: int
  en_ejection :: "ejection_set option"

record balancer =
  b_query :: "string \<Rightarrow> query"
  b_strategy :: strategy
  b_grace :: duration
  b_idle :: duration
  b_eject :: duration
  b_closed :: bool
  b_ctxDone :: bool
  b_janitor :: bool
  b_services :: "(string, entry) fmap"
  b_created :: nat

definition DefaultIdleTimeout :: duration where
  "DefaultIdleTimeout = 15 * minute"

datatype balancer_option =
    WithQuery "string \<Rightarrow> query"
  | WithStaleGrace duration
  | WithIdleTimeout duration
  | WithEjection duration

fun apply_option :: "balancer \<Rightarrow> balancer_option \<Rightarrow> balancer" where
  "apply_option b (WithQuery f) = b\<lparr>b_query := f\<rparr>"
| "apply_option b (WithStaleGrace d) = b\<lparr>b_grace := d\<rparr>"
| "apply_option b (WithIdleTimeout d) = b\<lparr>b_idle := d\<rparr>"
| "apply_option b (WithEjection d) = b\<lparr>b_eject := d\<rparr>"

definition new_balancer :: "strategy \<Rightarrow> balancer_option list \<Rightarrow> balancer" where
  "new_balancer str opts =
     foldl apply_option
       \<lparr>b_query = service_query, b_strategy = str, b_grace = 0, b_idle = DefaultIdleTimeout,
        b_eject = 0, b_closed = False, b_ctxDone = False, b_janitor = False, b_services = fmempty,
        b_created = 0\<rparr> opts"

definition is_closed :: "balancer \<Rightarrow> bool" where
  "is_closed b \<longleftrightarrow> b_closed b \<or> b_ctxDone b"

definition watched :: "balancer \<Rightarrow> nat" where
  "watched b = fcard (fmdom (b_services b))"

definition eject_now :: "balancer \<Rightarrow> gotime \<Rightarrow> int" where
  "eject_now b now = (if b_eject b \<le> 0 then 0 else unix_nano now)"

subsection \<open>Stale grace\<close>

definition with_grace :: "snapshot option \<Rightarrow> duration \<Rightarrow> gotime \<Rightarrow> entry \<Rightarrow> snapshot option \<times> entry" where
  "with_grace s grace now e =
     (if grace \<le> 0 then (s, e)
      else if 0 < snapshot_len s then (s, e\<lparr>en_lastSeen := unix_nano now, en_last := Some s\<rparr>)
      else (case en_last e of
              None \<Rightarrow> (s, e)
            | Some kept \<Rightarrow>
                if grace < time_sub now (en_lastSeen e) then (s, e) else (kept, e)))"

definition new_entry :: "nat \<Rightarrow> (nat \<Rightarrow> nat) \<Rightarrow> gotime \<Rightarrow> entry" where
  "new_entry w draws now =
     \<lparr>en_watch = w, en_picker = new_picker draws, en_lastUsed = unix_nano now, en_last = None,
      en_lastSeen = 0, en_ejection = None\<rparr>"

definition grace_run :: "duration \<Rightarrow> entry \<Rightarrow> (snapshot option \<times> gotime) list \<Rightarrow> entry" where
  "grace_run g e obs = foldl (\<lambda>e (s, now). snd (with_grace s g now e)) e obs"

definition last_nonempty :: "(snapshot option \<times> gotime) list \<Rightarrow> (snapshot option \<times> gotime) option" where
  "last_nonempty obs = List.find (\<lambda>(s, _). 0 < snapshot_len s) (rev obs)"

lemma grace_state:
  assumes "0 < g" "\<forall>(s, t)\<in>set obs. in64 t"
  shows "let e = grace_run g (new_entry w draws t0) obs in
     (case last_nonempty obs of
        None \<Rightarrow> en_last e = None
      | Some (s, t) \<Rightarrow> en_last e = Some s \<and> en_lastSeen e = t)"
  using assms(2)
proof (induction obs rule: rev_induct)
  case Nil
  then show ?case by (simp add: grace_run_def last_nonempty_def new_entry_def)
next
  case (snoc x obs)
  obtain s t where x: "x = (s, t)" by fastforce
  show ?case
  proof (cases "0 < snapshot_len s")
    case True
    then show ?thesis using assms(1) snoc.prems x
      by (simp add: grace_run_def last_nonempty_def with_grace_def unix_nano_def Let_def)
  next
    case False
    then have "snd (with_grace s g t e) = e" for e
      by (simp add: with_grace_def split: option.splits)
    then show ?thesis using False snoc x
      by (simp add: grace_run_def last_nonempty_def Let_def split: option.splits)
  qed
qed

text \<open>
  The stale grace bridges an empty list: after any sequence of earlier calls, a call that sees a
  non-empty list gets that list; one that sees an empty list gets the most recent non-empty list any
  call saw, as long as that was at most the grace period ago, and the empty list otherwise.
\<close>

theorem grace_bridges:
  assumes "0 < g" "0 \<le> now" "in64 now" "\<forall>(s, t)\<in>set obs. 0 \<le> t \<and> in64 t"
  shows "fst (with_grace s g now (grace_run g (new_entry w draws t0) obs)) =
     (if 0 < snapshot_len s then s
      else case last_nonempty obs of
             None \<Rightarrow> s
           | Some (s', t) \<Rightarrow> if now - t \<le> g then s' else s)"
proof -
  have st: "let e = grace_run g (new_entry w draws t0) obs in
     (case last_nonempty obs of
        None \<Rightarrow> en_last e = None
      | Some (s, t) \<Rightarrow> en_last e = Some s \<and> en_lastSeen e = t)"
    using assms by (intro grace_state) auto
  have sub: "time_sub now t = now - t" if "last_nonempty obs = Some (s', t)" for s' t
  proof -
    have "(s', t) \<in> set obs"
      using that unfolding last_nonempty_def by (metis find_Some_iff nth_mem set_rev)
    then have "0 \<le> t" "in64 t" using assms(4) by auto
    then show ?thesis using assms(2,3) by (simp add: time_sub_def in64_def sat64_def)
  qed
  show ?thesis
  proof (cases "0 < snapshot_len s")
    case True
    then show ?thesis using assms(1) by (simp add: with_grace_def)
  next
    case False
    show ?thesis
    proof (cases "last_nonempty obs")
      case None
      then show ?thesis using st False assms(1) by (simp add: with_grace_def Let_def)
    next
      case (Some x)
      obtain s' t where x: "x = (s', t)" by fastforce
      then show ?thesis
        using st False assms(1) Some sub [of s' t] by (simp add: with_grace_def Let_def not_less)
    qed
  qed
qed

theorem grace_bridges_witness:
  "fst (with_grace None 10 25
     (grace_run 10 (new_entry 0 (\<lambda>_. 0) 0) [(Some (new_snapshot sample_pool), 20), (None, 22)])) =
   Some (new_snapshot sample_pool)"
proof -
  have l: "snapshot_len (Some (new_snapshot sample_pool)) = 3" "snapshot_len None = 0"
    by (simp_all add: snapshot_len_def new_snapshot_def sample_pool_ok)
  then have "last_nonempty [(Some (new_snapshot sample_pool), 20), (None, 22)] =
      Some (Some (new_snapshot sample_pool), 20)"
    by (simp add: last_nonempty_def)
  then show ?thesis
    using grace_bridges [of 10 25 "[(Some (new_snapshot sample_pool), 20), (None, 22)]" None 0 "\<lambda>_. 0" 0] l
    by (simp add: in64_def)
qed

subsection \<open>Entries\<close>

text \<open>
  \<open>entry\<close>: the lock-free hit, or the creation under the lock. The janitor is started with the first
  entry when idle watches are to be released.
\<close>

definition entry_for ::
    "string \<Rightarrow> gotime \<Rightarrow> (nat \<Rightarrow> nat) \<Rightarrow> balancer \<Rightarrow> (goerr, entry) outcome \<times> balancer" where
  "entry_for svc now draws b =
     (if is_closed b then (Inl ErrClosed, b)
      else (case fmlookup (b_services b) svc of
              Some e \<Rightarrow>
                (let e' = e\<lparr>en_lastUsed := unix_nano now\<rparr>
                 in (Inr e', b\<lparr>b_services := fmupd svc e' (b_services b)\<rparr>))
            | None \<Rightarrow>
                (case start_watch (b_query b svc) of
                   Inl err \<Rightarrow> (Inl err, b)
                 | Inr _ \<Rightarrow>
                     (let e = new_entry (b_created b) draws now
                      in (Inr e, b\<lparr>b_services := fmupd svc e (b_services b),
                                  b_created := b_created b + 1,
                                  b_janitor := b_janitor b \<or> 0 < b_idle b\<rparr>)))))"

definition store_entry :: "string \<Rightarrow> entry \<Rightarrow> balancer \<Rightarrow> balancer" where
  "store_entry svc e b =
     (case fmlookup (b_services b) svc of
        Some e0 \<Rightarrow> if en_watch e0 = en_watch e then b\<lparr>b_services := fmupd svc e (b_services b)\<rparr> else b
      | None \<Rightarrow> b)"

definition report_failure :: "string \<Rightarrow> string \<Rightarrow> gotime \<Rightarrow> balancer \<Rightarrow> balancer" where
  "report_failure svc host now b =
     (if b_eject b \<le> 0 \<or> host = [] then b
      else (case fmlookup (b_services b) svc of
              None \<Rightarrow> b
            | Some e \<Rightarrow>
                store_entry svc
                  (e\<lparr>en_ejection := eject_host (b_eject b) host (unix_nano now) (en_ejection e)\<rparr>) b))"

text \<open>One round of the janitor: the entries it will close, and the map without them.\<close>

definition is_idle :: "duration \<Rightarrow> gotime \<Rightarrow> entry \<Rightarrow> bool" where
  "is_idle idle now e \<longleftrightarrow> idle \<le> wrap64 (unix_nano now - en_lastUsed e)"

definition entries_of :: "(string, entry) fmap \<Rightarrow> entry list" where
  "entries_of m = map (\<lambda>k. the (fmlookup m k)) (sorted_list_of_fset (fmdom m))"

definition release_idle :: "gotime \<Rightarrow> balancer \<Rightarrow> entry list \<times> balancer" where
  "release_idle now b =
     (let stays = (\<lambda>k. \<not> (case fmlookup (b_services b) k of
                             Some e \<Rightarrow> is_idle (b_idle b) now e | None \<Rightarrow> False))
      in (filter (is_idle (b_idle b) now) (entries_of (b_services b)),
          b\<lparr>b_services := fmfilter stays (b_services b)\<rparr>))"

text \<open>The critical section of \<open>Close\<close>: the entries it will close.\<close>

definition close_balancer :: "balancer \<Rightarrow> entry list \<times> balancer" where
  "close_balancer b = (entries_of (b_services b), b\<lparr>b_closed := True, b_ctxDone := True\<rparr>)"

subsection \<open>Calls\<close>

text \<open>How the wait for the first state of a watch ends.\<close>

datatype wait_end = StateReady "snapshot option" | CallerDone goerr | WatchDone

text \<open>
  \<open>current\<close>. \<open>waits n\<close> is the end of the wait of attempt n, \<open>others n\<close> what concurrent calls made of
  the balancer meanwhile. Only the first attempt is repeated.
\<close>

function current_loop ::
    "nat \<Rightarrow> (nat \<Rightarrow> wait_end) \<Rightarrow> (nat \<Rightarrow> balancer \<Rightarrow> balancer) \<Rightarrow> string \<Rightarrow> gotime \<Rightarrow> (nat \<Rightarrow> nat) \<Rightarrow>
     balancer \<Rightarrow> (goerr, entry \<times> snapshot option) outcome \<times> balancer" where
  "current_loop attempt waits others svc now draws b =
     (case entry_for svc now draws b of
        (Inl err, b1) \<Rightarrow> (Inl err, b1)
      | (Inr e0, b1) \<Rightarrow>
        (let b2 = others attempt b1;
             e = (case fmlookup (b_services b2) svc of
                    Some e' \<Rightarrow> if en_watch e' = en_watch e0 then e' else e0 | None \<Rightarrow> e0)
         in case waits attempt of
              StateReady s \<Rightarrow>
                (let (sn, e') = with_grace s (b_grace b2) now e
                 in (Inr (e', sn), store_entry svc e' b2))
            | CallerDone err \<Rightarrow> (Inl err, b2)
            | WatchDone \<Rightarrow>
                if attempt = 0 \<and> \<not> is_closed b2
                then current_loop (attempt + 1) waits others svc now draws b2
                else (Inl ErrClosed, b2)))"
  by pat_completeness auto
termination
  by (relation "measure (\<lambda>(attempt, _). 1 - attempt)") auto

declare current_loop.simps [simp del]

text \<open>\<open>Next\<close> and \<open>NextEndpoint\<close>; \<open>None\<close> is a panic of the picker. \<open>t\<close> is the clock at the pick.\<close>

definition finish_call ::
    "string \<Rightarrow> entry \<Rightarrow> balancer \<Rightarrow> 'a choice \<Rightarrow> ((goerr, 'a) outcome \<times> balancer) option" where
  "finish_call svc e b c =
     (case c of
        Nothing \<Rightarrow> Some (Inl (Errorf ('': '' @ svc) [ErrServiceNotFound]), b)
      | Panics \<Rightarrow> None
      | Chosen x ps \<Rightarrow> Some (Inr x, store_entry svc (e\<lparr>en_picker := ps\<rparr>) b))"

definition next_instance where
  "next_instance waits others svc now t draws b =
     (case current_loop 0 waits others svc now draws b of
        (Inl err, b') \<Rightarrow> Some (Inl err, b')
      | (Inr (e, sn), b') \<Rightarrow>
          finish_call svc e b'
            (next_choice (b_strategy b') (en_ejection e) (eject_now b' t) (en_picker e) (snapshot_list sn)))"

definition next_endpoint where
  "next_endpoint waits others svc now t draws b =
     (case current_loop 0 waits others svc now draws b of
        (Inl err, b') \<Rightarrow> Some (Inl err, b')
      | (Inr (e, sn), b') \<Rightarrow>
          finish_call svc e b'
            (next_endpoint_choice (b_strategy b') (en_ejection e) (eject_now b' t) (en_picker e) sn))"

definition resolve where
  "resolve waits others svc now t draws b =
     (case next_endpoint waits others svc now t draws b of
        None \<Rightarrow> None
      | Some (Inl err, b') \<Rightarrow> Some (Inl err, b')
      | Some (Inr ep, b') \<Rightarrow> Some (Inr (e_HostPort ep), b'))"

subsection \<open>Calls from one snapshot\<close>

lemma start_watch_Inr: "start_watch q = Inr w \<Longrightarrow> w = new_watch"
  by (auto simp: start_watch_def split: if_splits)

lemma entry_for_open:
  "entry_for svc now draws b = (Inr e, b') \<Longrightarrow>
     \<not> is_closed b \<and> fmlookup (b_services b') svc = Some e \<and> b_strategy b' = b_strategy b \<and>
     b_grace b' = b_grace b \<and> b_eject b' = b_eject b \<and> is_closed b' = is_closed b"
  by (auto simp: entry_for_def is_closed_def Let_def split: if_splits option.splits sum.splits)

lemma store_entry_fields [simp]:
  "b_strategy (store_entry svc e b) = b_strategy b" "b_eject (store_entry svc e b) = b_eject b"
  "b_closed (store_entry svc e b) = b_closed b" "b_ctxDone (store_entry svc e b) = b_ctxDone b"
  "b_created (store_entry svc e b) = b_created b"
  by (simp_all add: store_entry_def split: option.splits)

lemma with_grace_fields [simp]:
  "en_ejection (snd (with_grace s g now e)) = en_ejection e"
  "en_picker (snd (with_grace s g now e)) = en_picker e"
  "en_watch (snd (with_grace s g now e)) = en_watch e"
  by (simp_all add: with_grace_def split: option.splits)

lemma current_ready:
  assumes "entry_for svc now draws b = (Inr e, b1)" "waits 0 = StateReady s" "others 0 = id"
  shows "current_loop 0 waits others svc now draws b =
    (Inr (snd (with_grace s (b_grace b) now e), fst (with_grace s (b_grace b) now e)),
     store_entry svc (snd (with_grace s (b_grace b) now e)) b1)"
  using assms entry_for_open [OF assms(1)]
  by (subst current_loop.simps) (simp add: Let_def split: prod.splits)

text \<open>
  C32. A call whose watch has a state. \<open>Next\<close> with a built-in strategy returns: it never panics; with
  nothing to serve (the current list is empty and so is what the grace keeps) the error matches
  \<open>ErrServiceNotFound\<close>; otherwise it returns an instance of the served list, one that is not ejected if
  there is one, and \<open>NextEndpoint\<close> in its place would have returned the endpoint of that instance.
\<close>

theorem next_serves:
  assumes e: "entry_for svc now draws b = (Inr e, b1)" and w: "waits 0 = StateReady s" "others 0 = id"
    and str: "b_strategy b = Builtin p"
    and ok: "snapshot_ok (fst (with_grace s (b_grace b) now e))"
      "list_ok (snapshot_list (fst (with_grace s (b_grace b) now e)))"
  shows "let served = snapshot_list (fst (with_grace s (b_grace b) now e)) in
    \<exists>r b'. next_instance waits others svc now t draws b = Some (r, b') \<and>
      (case r of
         Inl err \<Rightarrow> served = [] \<and> errors_is err ErrServiceNotFound
       | Inr i \<Rightarrow> i \<in> set served \<and>
           (eject_now b t \<noteq> 0 \<and> (\<exists>j\<in>set served. \<not> ejected (en_ejection e) (eject_now b t) (host_port j)) \<longrightarrow>
              \<not> ejected (en_ejection e) (eject_now b t) (host_port i)) \<and>
           next_endpoint waits others svc now t draws b = Some (Inr (endpoint_of i), b'))"
proof -
  let ?sn = "fst (with_grace s (b_grace b) now e)" and ?e = "snd (with_grace s (b_grace b) now e)"
  let ?xs = "snapshot_list ?sn" and ?now = "eject_now b t"
  note cur = current_ready [of svc now draws b e b1 waits s others, OF e w]
  note fields = entry_for_open [OF e]
  have now: "eject_now (store_entry svc ?e b1) t = ?now" using fields by (simp add: eject_now_def)
  have nx: "next_instance waits others svc now t draws b =
      finish_call svc ?e (store_entry svc ?e b1)
        (next_choice (Builtin p) (en_ejection e) ?now (en_picker e) ?xs)"
    using fields str now by (simp add: next_instance_def cur)
  have endp: "next_endpoint waits others svc now t draws b =
      finish_call svc ?e (store_entry svc ?e b1)
        (next_endpoint_choice (Builtin p) (en_ejection e) ?now (en_picker e) ?sn)"
    using fields str now by (simp add: next_endpoint_def cur)
  show ?thesis
  proof (cases "?xs = []")
    case True
    then show ?thesis by (simp add: nx finish_call_def next_choice_def Let_def)
  next
    case False
    obtain k ps' where k: "k < length (candidates (en_ejection e) ?now ?xs)"
      "run_picker (Builtin p) (en_picker e) (candidates (en_ejection e) ?now ?xs) =
         Chosen (candidates (en_ejection e) ?now ?xs ! k) ps'"
      using builtin_picks [OF candidates_nonempty [OF False] candidates_ok [OF ok(2)]] by blast
    let ?i = "candidates (en_ejection e) ?now ?xs ! k"
    have mem: "?i \<in> set (candidates (en_ejection e) ?now ?xs)" using k(1) by simp
    have c: "next_choice (Builtin p) (en_ejection e) ?now (en_picker e) ?xs = Chosen ?i ps'"
      using False k(2) by (simp add: next_choice_candidates)
    from builtin_endpoint [OF ok c] candidates_subset [of "en_ejection e" ?now ?xs] mem
      candidates_alive [of ?now ?xs "en_ejection e" ?i] c
    show ?thesis by (auto simp: nx endp finish_call_def Let_def)
  qed
qed

definition sample_balancer :: balancer where
  "sample_balancer = new_balancer (Builtin Weighted) [WithEjection 5, WithStaleGrace 10]"

lemma sample_balancer_entry:
  "entry_for ''orders'' 7 (\<lambda>_. 4) sample_balancer =
     (Inr (new_entry 0 (\<lambda>_. 4) 7),
      sample_balancer\<lparr>b_services := fmupd ''orders'' (new_entry 0 (\<lambda>_. 4) 7) fmempty, b_created := 1,
        b_janitor := True\<rparr>)"
  by (simp add: sample_balancer_def new_balancer_def entry_for_def is_closed_def start_watch_def
      service_query_def DefaultIdleTimeout_def minute_def Let_def)

theorem next_serves_witness:
  "\<exists>i b'. next_instance (\<lambda>_. StateReady (Some (new_snapshot sample_pool))) (\<lambda>_. id) ''orders'' 7 8
     (\<lambda>_. 4) sample_balancer = Some (Inr i, b') \<and> i \<in> set sample_pool"
proof -
  let ?b1 = "sample_balancer\<lparr>b_services := fmupd ''orders'' (new_entry 0 (\<lambda>_. 4) 7) fmempty, b_created := 1,
        b_janitor := True\<rparr>"
  let ?w = "\<lambda>_ :: nat. StateReady (Some (new_snapshot sample_pool))" and ?o = "\<lambda>_ :: nat. id :: balancer \<Rightarrow> balancer"
  have g: "fst (with_grace (Some (new_snapshot sample_pool)) (b_grace sample_balancer) 7
      (new_entry 0 (\<lambda>_. 4) 7)) = Some (new_snapshot sample_pool)"
    by (simp add: with_grace_def snapshot_len_def new_snapshot_def sample_pool_ok)
  have str: "b_strategy sample_balancer = Builtin Weighted"
    by (simp add: sample_balancer_def new_balancer_def)
  have "?w 0 = StateReady (Some (new_snapshot sample_pool))" "?o 0 = id" by simp_all
  from next_serves [of "''orders''" 7 "\<lambda>_. 4" sample_balancer "new_entry 0 (\<lambda>_. 4) 7" ?b1 ?w
      "Some (new_snapshot sample_pool)" ?o Weighted 8, OF sample_balancer_entry this str]
  obtain r b' where r: "next_instance ?w ?o ''orders'' 7 8 (\<lambda>_. 4) sample_balancer = Some (r, b')"
    "case r of Inl err \<Rightarrow> sample_pool = [] | Inr i \<Rightarrow> i \<in> set sample_pool"
    using sample_pool_ok by (fastforce simp: g Let_def split: sum.splits)
  then show ?thesis using sample_pool_ok(3) by (cases r) auto
qed

subsection \<open>Idle watches\<close>

lemma entries_of_iff: "e \<in> set (entries_of m) \<longleftrightarrow> (\<exists>k. fmlookup m k = Some e)"
proof -
  have "set (sorted_list_of_fset (fmdom m)) = fset (fmdom m)" by (simp add: sorted_list_of_fset.rep_eq)
  then have s: "set (entries_of m) = (\<lambda>k. the (fmlookup m k)) ` fset (fmdom m)"
    by (simp add: entries_of_def)
  show ?thesis
  proof
    assume "e \<in> set (entries_of m)"
    then show "\<exists>k. fmlookup m k = Some e" unfolding s by (auto simp: fmlookup_dom_iff)
  next
    assume "\<exists>k. fmlookup m k = Some e"
    then obtain k where k: "fmlookup m k = Some e" by blast
    then have "k \<in> fset (fmdom m)" "e = the (fmlookup m k)" by (auto intro: fmdomI)
    then show "e \<in> set (entries_of m)" unfolding s by blast
  qed
qed

text \<open>
  A round of the janitor releases exactly the services whose last call is at least the idle
  timeout ago: a service called more recently keeps its entry, with its watch and picker state, and
  the watches handed over to be closed are those of the released services.
\<close>

theorem release_idle_exact:
  assumes "\<forall>k e. fmlookup (b_services b) k = Some e \<longrightarrow> 0 \<le> en_lastUsed e \<and> in64 (en_lastUsed e)"
    "0 \<le> now" "in64 now" "release_idle now b = (idle, b')"
  shows "(\<forall>k e. fmlookup (b_services b') k = Some e \<longleftrightarrow>
            fmlookup (b_services b) k = Some e \<and> now - en_lastUsed e < b_idle b) \<and>
         (\<forall>e. e \<in> set idle \<longleftrightarrow>
            (\<exists>k. fmlookup (b_services b) k = Some e \<and> fmlookup (b_services b') k = None))"
proof -
  have late: "is_idle (b_idle b) now e \<longleftrightarrow> b_idle b \<le> now - en_lastUsed e"
    if "fmlookup (b_services b) k = Some e" for k e
  proof -
    have "in64 (now - en_lastUsed e)" using assms(1,2,3) that by (fastforce simp: in64_def)
    then show ?thesis using assms(3) by (simp add: is_idle_def unix_nano_def)
  qed
  have idle: "idle = filter (is_idle (b_idle b) now) (entries_of (b_services b))"
    using assms(4) by (simp add: release_idle_def)
  have b': "fmlookup (b_services b') k =
      (case fmlookup (b_services b) k of
         Some e \<Rightarrow> if is_idle (b_idle b) now e then None else Some e | None \<Rightarrow> None)" for k
    using assms(4) by (auto simp: release_idle_def Let_def split: option.splits)
  have "fmlookup (b_services b') k = Some e \<longleftrightarrow>
      fmlookup (b_services b) k = Some e \<and> now - en_lastUsed e < b_idle b" for k e
    using late by (auto simp: b' split: option.splits if_splits)
  moreover have "e \<in> set idle \<longleftrightarrow>
      (\<exists>k. fmlookup (b_services b) k = Some e \<and> fmlookup (b_services b') k = None)" for e
    by (auto simp: idle entries_of_iff b' split: option.splits if_splits)
  ultimately show ?thesis by blast
qed

theorem release_idle_exact_witness:
  "fmlookup (b_services (snd (release_idle 8 (snd (entry_for ''orders'' 7 (\<lambda>_. 4) sample_balancer))))) ''orders'' =
     Some (new_entry 0 (\<lambda>_. 4) 7)"
proof -
  let ?b = "snd (entry_for ''orders'' 7 (\<lambda>_. 4) sample_balancer)"
  have s: "b_services ?b = fmupd ''orders'' (new_entry 0 (\<lambda>_. 4) 7) fmempty" "b_idle ?b = 900000000000"
    by (simp_all add: sample_balancer_entry) (simp add: sample_balancer_def new_balancer_def
        DefaultIdleTimeout_def minute_def)
  have u: "en_lastUsed (new_entry 0 (\<lambda>_. 4) 7) = 7" by (simp add: new_entry_def unix_nano_def in64_def)
  have h: "\<forall>k e. fmlookup (b_services ?b) k = Some e \<longrightarrow> 0 \<le> en_lastUsed e \<and> in64 (en_lastUsed e)"
    unfolding s using u by (auto simp: in64_def split: if_splits)
  from release_idle_exact [OF h, of 8 "fst (release_idle 8 ?b)" "snd (release_idle 8 ?b)"]
  show ?thesis using s u by (auto simp: in64_def)
qed

subsection \<open>Interleavings\<close>

text \<open>
  The balancer, the watches whose goroutine runs, the entries the janitor has still to close, and
  those the calls of \<open>Close\<close> have still to close.
\<close>

record balancer_sys =
  bs_bal :: balancer
  bs_live :: "nat set"
  bs_release :: "entry list"
  bs_closing :: "entry list"

definition started :: "balancer \<Rightarrow> balancer \<Rightarrow> nat set" where
  "started b b' = {w. b_created b \<le> w \<and> w < b_created b'}"

inductive balancer_step :: "balancer_sys \<Rightarrow> balancer_sys \<Rightarrow> bool" where
  use: "entry_for svc now draws (bs_bal s) = (r, b') \<Longrightarrow>
    balancer_step s (s\<lparr>bs_bal := b', bs_live := bs_live s \<union> started (bs_bal s) b'\<rparr>)"
| store: "balancer_step s (s\<lparr>bs_bal := store_entry svc e (bs_bal s)\<rparr>)"
| report: "balancer_step s (s\<lparr>bs_bal := report_failure svc host now (bs_bal s)\<rparr>)"
| release: "release_idle now (bs_bal s) = (idle, b') \<Longrightarrow>
    balancer_step s (s\<lparr>bs_bal := b', bs_release := bs_release s @ idle\<rparr>)"
| close_idle: "bs_release s = e # es \<Longrightarrow>
    balancer_step s (s\<lparr>bs_release := es, bs_live := bs_live s - {en_watch e}\<rparr>)"
| close_begin: "close_balancer (bs_bal s) = (es, b') \<Longrightarrow>
    balancer_step s (s\<lparr>bs_bal := b', bs_closing := bs_closing s @ es\<rparr>)"
| close_one: "bs_closing s = e # es \<Longrightarrow>
    balancer_step s (s\<lparr>bs_closing := es, bs_live := bs_live s - {en_watch e}\<rparr>)"
| parent_done: "balancer_step s (s\<lparr>bs_bal := (bs_bal s)\<lparr>b_ctxDone := True\<rparr>\<rparr>)"
| watch_exit: "b_ctxDone (bs_bal s) \<Longrightarrow> w \<in> bs_live s \<Longrightarrow>
    balancer_step s (s\<lparr>bs_live := bs_live s - {w}\<rparr>)"

inductive balancer_reachable :: "strategy \<Rightarrow> balancer_option list \<Rightarrow> balancer_sys \<Rightarrow> bool" for str opts where
  start: "balancer_reachable str opts
    \<lparr>bs_bal = new_balancer str opts, bs_live = {}, bs_release = [], bs_closing = []\<rparr>"
| step: "balancer_reachable str opts s \<Longrightarrow> balancer_step s s' \<Longrightarrow> balancer_reachable str opts s'"

definition watch_ids :: "(string, entry) fmap \<Rightarrow> nat set" where
  "watch_ids m = {en_watch e |k e. fmlookup m k = Some e}"

definition no_leak :: "balancer_sys \<Rightarrow> bool" where
  "no_leak s \<longleftrightarrow>
     bs_live s \<subseteq> (if b_closed (bs_bal s) then {} else watch_ids (b_services (bs_bal s))) \<union>
       en_watch ` set (bs_release s) \<union> en_watch ` set (bs_closing s) \<and>
     (b_closed (bs_bal s) \<longrightarrow> b_ctxDone (bs_bal s))"

lemma watch_ids_iff: "w \<in> watch_ids m \<longleftrightarrow> (\<exists>k e. fmlookup m k = Some e \<and> w = en_watch e)"
  by (auto simp: watch_ids_def)

lemma watch_ids_entries: "watch_ids m = en_watch ` set (entries_of m)"
  by (rule set_eqI) (metis entries_of_iff image_iff watch_ids_iff)

lemma watch_ids_upd_same:
  assumes "fmlookup m k = Some e0" "en_watch e = en_watch e0"
  shows "watch_ids (fmupd k e m) = watch_ids m"
proof (rule set_eqI)
  fix w
  show "w \<in> watch_ids (fmupd k e m) \<longleftrightarrow> w \<in> watch_ids m"
    unfolding watch_ids_iff using assms by (metis fmupd_lookup option.inject)
qed

lemma watch_ids_upd_new:
  assumes "fmlookup m k = None"
  shows "watch_ids (fmupd k e m) = insert (en_watch e) (watch_ids m)"
proof (rule set_eqI)
  fix w
  show "w \<in> watch_ids (fmupd k e m) \<longleftrightarrow> w \<in> insert (en_watch e) (watch_ids m)"
    unfolding watch_ids_iff insert_iff using assms by (metis fmupd_lookup option.distinct(1) option.inject)
qed

lemma entry_for_ids:
  assumes "entry_for svc now draws b = (r, b')"
  shows "watch_ids (b_services b') = watch_ids (b_services b) \<union> started b b' \<and> b_closed b' = b_closed b \<and>
    b_ctxDone b' = b_ctxDone b \<and> (b_closed b \<longrightarrow> b' = b)"
  using assms
  by (auto simp: entry_for_def is_closed_def started_def new_entry_def watch_ids_upd_same watch_ids_upd_new
      Let_def split: if_splits option.splits sum.splits)

lemma store_entry_ids [simp]: "watch_ids (b_services (store_entry svc e b)) = watch_ids (b_services b)"
  by (auto simp: store_entry_def watch_ids_upd_same split: option.splits)

lemma report_ids:
  "watch_ids (b_services (report_failure svc host now b)) = watch_ids (b_services b)"
  "b_closed (report_failure svc host now b) = b_closed b"
  "b_ctxDone (report_failure svc host now b) = b_ctxDone b"
  by (simp_all add: report_failure_def split: option.splits)

lemma release_ids:
  assumes "release_idle now b = (idle, b')"
  shows "watch_ids (b_services b) \<subseteq> watch_ids (b_services b') \<union> en_watch ` set idle"
    "b_closed b' = b_closed b" "b_ctxDone b' = b_ctxDone b"
proof -
  show "b_closed b' = b_closed b" "b_ctxDone b' = b_ctxDone b"
    using assms by (auto simp: release_idle_def Let_def)
  show "watch_ids (b_services b) \<subseteq> watch_ids (b_services b') \<union> en_watch ` set idle"
  proof
    fix w assume "w \<in> watch_ids (b_services b)"
    then obtain k e where e: "fmlookup (b_services b) k = Some e" "w = en_watch e" by (auto simp: watch_ids_def)
    show "w \<in> watch_ids (b_services b') \<union> en_watch ` set idle"
    proof (cases "is_idle (b_idle b) now e")
      case True
      then have "e \<in> set idle" using assms e(1) by (auto simp: release_idle_def Let_def entries_of_iff)
      then show ?thesis using e(2) by blast
    next
      case False
      then have "fmlookup (b_services b') k = Some e" using assms e(1) by (auto simp: release_idle_def Let_def)
      then show ?thesis using e(2) by (auto simp: watch_ids_def)
    qed
  qed
qed

lemma no_leak_step: "balancer_step s s' \<Longrightarrow> no_leak s \<Longrightarrow> no_leak s'"
proof (induction rule: balancer_step.induct)
  case (use svc now draws s r b')
  then show ?case using entry_for_ids [OF use(1)] by (auto simp: no_leak_def started_def)
next
  case (store s svc e)
  then show ?case by (simp add: no_leak_def split: if_splits)
next
  case (report s svc host now)
  then show ?case by (simp add: no_leak_def report_ids split: if_splits)
next
  case (release now s idle b')
  then show ?case using release_ids [OF release(1)] by (auto simp: no_leak_def split: if_splits)
next
  case (close_begin s es b')
  then show ?case by (auto simp: no_leak_def close_balancer_def watch_ids_entries split: if_splits)
qed (auto simp: no_leak_def split: if_splits)

lemma new_balancer_closed: "b_closed (new_balancer str opts) = False"
proof -
  have "b_closed (apply_option b opt) = b_closed b" for b opt by (cases opt) simp_all
  then have "b_closed (foldl apply_option b opts) = b_closed b" for b
    by (induction opts arbitrary: b) simp_all
  then show ?thesis by (simp add: new_balancer_def)
qed

lemma no_leak_reachable: "balancer_reachable str opts s \<Longrightarrow> no_leak s"
proof (induction rule: balancer_reachable.induct)
  case start
  then show ?case by (simp add: no_leak_def new_balancer_closed)
next
  case (step s s')
  then show ?case by (blast intro: no_leak_step)
qed

text \<open>
  C18. However calls, reports, the janitor, \<open>Close\<close> and the end of the parent context interleave, every
  running watch is the watch of a listed service or one that the janitor or \<open>Close\<close> is about to close;
  and when \<open>Close\<close> has closed its list and the janitor is done, no watch is left running, and every
  later call gets \<open>ErrClosed\<close> without starting one.
\<close>

theorem close_leaves_no_watch:
  assumes "balancer_reachable str opts s"
  shows "(\<not> b_closed (bs_bal s) \<longrightarrow>
            bs_live s \<subseteq> watch_ids (b_services (bs_bal s)) \<union> en_watch ` set (bs_release s) \<union>
              en_watch ` set (bs_closing s)) \<and>
         (b_closed (bs_bal s) \<and> bs_release s = [] \<and> bs_closing s = [] \<longrightarrow>
            bs_live s = {} \<and> entry_for svc now draws (bs_bal s) = (Inl ErrClosed, bs_bal s))"
  using no_leak_reachable [OF assms]
  by (auto simp: no_leak_def entry_for_def is_closed_def split: if_splits)

theorem close_leaves_no_watch_witness:
  "\<exists>s. balancer_reachable (Builtin Weighted) [WithEjection 5, WithStaleGrace 10] s \<and>
     b_closed (bs_bal s) \<and> bs_live s = {} \<and> b_created (bs_bal s) = 1"
proof -
  let ?R = "balancer_reachable (Builtin Weighted) [WithEjection 5, WithStaleGrace 10]"
  let ?e = "new_entry 0 (\<lambda>_. 4) 7"
  let ?b1 = "snd (entry_for ''orders'' 7 (\<lambda>_. 4) sample_balancer)"
  have s0: "?R \<lparr>bs_bal = sample_balancer, bs_live = {}, bs_release = [], bs_closing = []\<rparr>"
    unfolding sample_balancer_def by (rule balancer_reachable.start)
  have "started sample_balancer ?b1 = {0}"
    by (auto simp: started_def sample_balancer_entry) (simp add: sample_balancer_def new_balancer_def)
  then have s1: "?R \<lparr>bs_bal = ?b1, bs_live = {0}, bs_release = [], bs_closing = []\<rparr>"
    using balancer_reachable.step [OF s0 balancer_step.use [of "''orders''" 7 "\<lambda>_. 4"
        "\<lparr>bs_bal = sample_balancer, bs_live = {}, bs_release = [], bs_closing = []\<rparr>" "Inr ?e" ?b1]]
    by (simp add: sample_balancer_entry)
  have "entries_of (b_services ?b1) = [?e]"
    by (simp add: sample_balancer_entry entries_of_def sorted_list_of_fset.rep_eq)
  then have s2: "?R \<lparr>bs_bal = ?b1\<lparr>b_closed := True, b_ctxDone := True\<rparr>, bs_live = {0}, bs_release = [], bs_closing = [?e]\<rparr>"
    using balancer_reachable.step [OF s1 balancer_step.close_begin [OF refl [THEN trans, OF surjective_pairing]]]
    by (simp add: close_balancer_def)
  have s3: "?R \<lparr>bs_bal = ?b1\<lparr>b_closed := True, b_ctxDone := True\<rparr>, bs_live = {}, bs_release = [], bs_closing = []\<rparr>"
    using balancer_reachable.step [OF s2 balancer_step.close_one] by (simp add: new_entry_def)
  from close_leaves_no_watch [OF s3] show ?thesis
    using s3 by (auto simp: sample_balancer_entry)
qed

end
