(* ===== verification/Health.thy ===== *)
theory Health
  imports Prelude "HOL-Library.Finite_Map"
begin

text \<open>
  health/health.go and health/handler.go: the registry of components, the probes and the HTTP handler.
  The order in which Go visits a map is an argument of \<open>run_probe\<close>; what a checker does is its
  \<open>execution\<close>, and what a probe sees of it is the result published when its wait ends, if any.
\<close>

type_synonym hstatus = string

definition StatusUp :: hstatus where "StatusUp = ''UP''"
definition StatusDegraded :: hstatus where "StatusDegraded = ''DEGRADED''"
definition StatusDown :: hstatus where "StatusDown = ''DOWN''"

lemmas hstatus_defs = StatusUp_def StatusDegraded_def StatusDown_def

definition severity :: "hstatus \<Rightarrow> int" where
  "severity s = (if s = StatusUp then 0 else if s = StatusDegraded then 1 else 2)"

definition worse :: "hstatus \<Rightarrow> hstatus \<Rightarrow> hstatus" where
  "worse s other = (if severity s < severity other then other else s)"

record result =
  r_Status :: hstatus
  r_Details :: "(string, string) fmap"
  r_Error :: string

definition down :: "string \<Rightarrow> result" where
  "down err = \<lparr>r_Status = StatusDown, r_Details = fmempty, r_Error = err\<rparr>"

definition timed_out :: result where
  "timed_out = down ''health check timed out''"

type_synonym scope = "8 word"

definition Readiness :: scope where "Readiness = 1"
definition Liveness :: scope where "Liveness = 2"

lemmas scope_defs = Readiness_def Liveness_def

definition combine_scopes :: "scope list \<Rightarrow> scope" where
  "combine_scopes scopes =
     (if scopes = [] then Readiness
      else (let s = foldl or 0 scopes in if s = 0 then Readiness else s))"

record report =
  rp_Status :: hstatus
  rp_Components :: "(string, result) fmap"

definition DefaultCheckTimeout :: duration where
  "DefaultCheckTimeout = 3 * second"

text \<open>A checker is a number; \<open>None\<close> is a pushed component.\<close>

record component =
  cp_scope :: scope
  cp_checker :: "nat option"
  cp_pushed :: result

record registry =
  rg_timeout :: duration
  rg_components :: "(string, component) fmap"
  rg_draining :: bool
  rg_listeners :: "nat list"

definition new_registry :: "duration \<Rightarrow> registry" where
  "new_registry timeout =
     \<lparr>rg_timeout = (if timeout \<le> 0 then DefaultCheckTimeout else timeout), rg_components = fmempty,
      rg_draining = False, rg_listeners = []\<rparr>"

definition zero_result :: result where
  "zero_result = \<lparr>r_Status = [], r_Details = fmempty, r_Error = []\<rparr>"

definition register_checker :: "string \<Rightarrow> nat \<Rightarrow> scope list \<Rightarrow> registry \<Rightarrow> registry" where
  "register_checker name c scopes r =
     r\<lparr>rg_components := fmupd name
        \<lparr>cp_scope = combine_scopes scopes, cp_checker = Some c, cp_pushed = zero_result\<rparr> (rg_components r)\<rparr>"

text \<open>\<open>Set\<close>: the new registry and the calls of the listeners.\<close>

definition set_status :: "string \<Rightarrow> result \<Rightarrow> scope list \<Rightarrow> registry \<Rightarrow> registry \<times> (nat \<times> hstatus) list" where
  "set_status name res scopes r =
     (let c = (case fmlookup (rg_components r) name of
                 Some c \<Rightarrow>
                   if cp_checker c \<noteq> None
                   then \<lparr>cp_scope = combine_scopes scopes, cp_checker = None, cp_pushed = zero_result\<rparr>
                   else if scopes \<noteq> [] then c\<lparr>cp_scope := combine_scopes scopes\<rparr> else c
               | None \<Rightarrow> \<lparr>cp_scope = combine_scopes scopes, cp_checker = None, cp_pushed = zero_result\<rparr>)
      in (r\<lparr>rg_components := fmupd name (c\<lparr>cp_pushed := res\<rparr>) (rg_components r)\<rparr>,
          map (\<lambda>l. (l, r_Status res)) (rg_listeners r)))"

definition remove_component :: "string \<Rightarrow> registry \<Rightarrow> registry" where
  "remove_component name r = r\<lparr>rg_components := fmdrop name (rg_components r)\<rparr>"

definition set_draining :: "bool \<Rightarrow> registry \<Rightarrow> registry" where
  "set_draining d r = r\<lparr>rg_draining := d\<rparr>"

definition on_push :: "nat \<Rightarrow> registry \<Rightarrow> registry" where
  "on_push l r = r\<lparr>rg_listeners := rg_listeners r @ [l]\<rparr>"

subsection \<open>Executions\<close>

text \<open>A call of \<open>Check\<close>: it returns in time or after its deadline, or it panics.\<close>

datatype execution = ReturnsInTime result | ReturnsLate result | Panicked

definition run_checker :: "execution \<Rightarrow> result" where
  "run_checker x =
     (case x of
        ReturnsInTime res \<Rightarrow> res
      | ReturnsLate res \<Rightarrow> timed_out
      | Panicked \<Rightarrow> down ''health check panicked'')"

definition wait_call :: "result option \<Rightarrow> result" where
  "wait_call published = (case published of Some res \<Rightarrow> res | None \<Rightarrow> timed_out)"

definition component_result :: "(nat \<Rightarrow> result option) \<Rightarrow> component \<Rightarrow> result" where
  "component_result published c =
     (let res = (case cp_checker c of None \<Rightarrow> cp_pushed c | Some k \<Rightarrow> wait_call (published k))
      in if r_Status res = [] then res\<lparr>r_Status := StatusDown\<rparr> else res)"

definition run_probe ::
    "string list \<Rightarrow> (nat \<Rightarrow> result option) \<Rightarrow> scope \<Rightarrow> registry \<Rightarrow> report" where
  "run_probe order published scope r =
     foldl (\<lambda>rep name.
        case fmlookup (rg_components r) name of
          None \<Rightarrow> rep
        | Some c \<Rightarrow>
          if and (cp_scope c) scope \<noteq> 0
          then (let res = component_result published c
                in \<lparr>rp_Status = worse (rp_Status rep) (r_Status res),
                    rp_Components = fmupd name res (rp_Components rep)\<rparr>)
          else rep)
       \<lparr>rp_Status = StatusUp, rp_Components = fmempty\<rparr> order"

definition drained :: "registry \<Rightarrow> report \<Rightarrow> report" where
  "drained r rep =
     (if rg_draining r
      then rep\<lparr>rp_Status := StatusDown,
               rp_Components := fmupd ''shutdown'' (down ''instance is shutting down'') (rp_Components rep)\<rparr>
      else rep)"

definition ready :: "string list \<Rightarrow> (nat \<Rightarrow> result option) \<Rightarrow> registry \<Rightarrow> report" where
  "ready order published r = drained r (run_probe order published Readiness r)"

definition live :: "string list \<Rightarrow> (nat \<Rightarrow> result option) \<Rightarrow> registry \<Rightarrow> report" where
  "live order published r = run_probe order published Liveness r"

definition health :: "string list \<Rightarrow> (nat \<Rightarrow> result option) \<Rightarrow> registry \<Rightarrow> report" where
  "health order published r = drained r (run_probe order published (or Readiness Liveness) r)"

subsection \<open>The handler\<close>

definition status_code :: "hstatus \<Rightarrow> int \<Rightarrow> int" where
  "status_code s degraded =
     (if s = StatusUp then 200
      else if s = StatusDegraded then (if degraded = 0 then 429 else degraded)
      else 503)"

record handler_options =
  ho_HideDetails :: bool
  ho_DegradedStatusCode :: int

record response =
  rs_code :: int
  rs_headers :: "(string \<times> string) list"
  rs_report :: "report option"

definition handler :: "report \<Rightarrow> handler_options \<Rightarrow> string \<Rightarrow> response" where
  "handler rep opts method =
     (if method \<noteq> ''GET'' \<and> method \<noteq> ''HEAD''
      then \<lparr>rs_code = 405, rs_headers = [(''Allow'', ''GET, HEAD'')], rs_report = None\<rparr>
      else (let rep' = (if ho_HideDetails opts then rep\<lparr>rp_Components := fmempty\<rparr> else rep)
            in \<lparr>rs_code = status_code (rp_Status rep') (ho_DegradedStatusCode opts),
                rs_headers = [(''Content-Type'', ''application/json''), (''Cache-Control'', ''no-store'')],
                rs_report = (if method = ''HEAD'' then None else Some rep')\<rparr>))"

subsection \<open>Aggregation\<close>

lemma severity_range: "severity s \<in> {0, 1, 2}"
  by (simp add: severity_def)

lemma severity_worse [simp]: "severity (worse s t) = max (severity s) (severity t)"
  by (auto simp: worse_def)

lemma worse_either: "worse s t \<in> {s, t}"
  by (simp add: worse_def)

text \<open>The results of the components a scope selects.\<close>

definition selected :: "(nat \<Rightarrow> result option) \<Rightarrow> scope \<Rightarrow> registry \<Rightarrow> string \<Rightarrow> result option" where
  "selected published scope r name =
     (case fmlookup (rg_components r) name of
        None \<Rightarrow> None
      | Some c \<Rightarrow> if and (cp_scope c) scope \<noteq> 0 then Some (component_result published c) else None)"

lemma run_probe_snoc:
  "run_probe (order @ [name]) published scope r =
     (let rep = run_probe order published scope r
      in case selected published scope r name of
           None \<Rightarrow> rep
         | Some res \<Rightarrow> \<lparr>rp_Status = worse (rp_Status rep) (r_Status res),
                        rp_Components = fmupd name res (rp_Components rep)\<rparr>)"
  by (simp add: run_probe_def selected_def Let_def split: option.splits)

lemma run_probe_Nil: "run_probe [] published scope r = \<lparr>rp_Status = StatusUp, rp_Components = fmempty\<rparr>"
  by (simp add: run_probe_def)

lemma run_probe_components:
  "fmlookup (rp_Components (run_probe order published scope r)) name =
     (if name \<in> set order then selected published scope r name else None)"
  by (induction order rule: rev_induct)
    (auto simp: run_probe_Nil run_probe_snoc Let_def split: option.splits)

lemma run_probe_severity:
  "severity (rp_Status (run_probe order published scope r)) \<le> v \<longleftrightarrow>
     0 \<le> v \<and> (\<forall>name\<in>set order. \<forall>res. selected published scope r name = Some res \<longrightarrow> severity (r_Status res) \<le> v)"
  by (induction order rule: rev_induct)
    (auto simp: run_probe_Nil run_probe_snoc severity_def [of StatusUp] Let_def split: option.splits)

lemma run_probe_status:
  "rp_Status (run_probe order published scope r) = StatusUp \<or>
     (\<exists>name\<in>set order. \<exists>res. selected published scope r name = Some res \<and>
        rp_Status (run_probe order published scope r) = r_Status res)"
proof (induction order rule: rev_induct)
  case (snoc name order)
  then show ?case
    by (cases "selected published scope r name") (auto simp: run_probe_snoc worse_def Let_def)
qed (simp add: run_probe_Nil)

text \<open>
  C38. A probe reports every component of its scope with its own result and no other component, and
  its status is exactly as bad as the worst of them, in whatever order the components are visited:
  UP for no component, DOWN for an unknown or missing status and for a checker that panicked or did
  not answer in time.
\<close>

theorem probe_worst:
  assumes "set order = fset (fmdom (rg_components r))"
  shows "let rep = run_probe order published scope r in
    (\<forall>name. fmlookup (rp_Components rep) name = selected published scope r name) \<and>
    (\<forall>v. severity (rp_Status rep) \<le> v \<longleftrightarrow>
       0 \<le> v \<and> (\<forall>name res. selected published scope r name = Some res \<longrightarrow> severity (r_Status res) \<le> v)) \<and>
    (rp_Status rep = StatusUp \<or>
       (\<exists>name res. selected published scope r name = Some res \<and> rp_Status rep = r_Status res))"
proof -
  have dom: "name \<in> set order" if "selected published scope r name = Some res" for name res
    using that assms by (auto simp: selected_def fmlookup_dom_iff split: option.splits)
  then have none: "selected published scope r name = None" if "name \<notin> set order" for name
    using that by (meson option.exhaust)
  show ?thesis
    using run_probe_status [of order published scope r] dom none
    by (auto simp: Let_def run_probe_components run_probe_severity)
qed

definition sample_result :: "hstatus \<Rightarrow> result" where
  "sample_result s = \<lparr>r_Status = s, r_Details = fmempty, r_Error = []\<rparr>"

definition sample_registry :: registry where
  "sample_registry =
     fst (set_status ''cache'' (sample_result StatusDegraded) []
       (register_checker ''db'' 1 [Readiness, Liveness] (new_registry 0)))"

lemma sample_registry_components:
  "rg_components sample_registry =
     fmupd ''cache'' \<lparr>cp_scope = 1, cp_checker = None, cp_pushed = sample_result StatusDegraded\<rparr>
       (fmupd ''db'' \<lparr>cp_scope = 3, cp_checker = Some 1, cp_pushed = zero_result\<rparr> fmempty)"
  "\<not> rg_draining sample_registry"
  by (simp_all add: sample_registry_def set_status_def register_checker_def new_registry_def
      combine_scopes_def scope_defs)

theorem probe_worst_witness:
  "severity (rp_Status (run_probe [''db'', ''cache''] (\<lambda>_. None) Readiness sample_registry)) = 2"
proof -
  have o: "set [''db'', ''cache''] = fset (fmdom (rg_components sample_registry))"
    by (auto simp: sample_registry_components)
  have s: "selected (\<lambda>_. None) Readiness sample_registry ''db'' = Some timed_out"
    by (simp add: selected_def sample_registry_components component_result_def wait_call_def
        scope_defs timed_out_def down_def StatusDown_def)
  have "severity (r_Status timed_out) = 2" by (simp add: timed_out_def down_def severity_def hstatus_defs)
  then have "\<not> severity (rp_Status (run_probe [''db'', ''cache''] (\<lambda>_. None) Readiness sample_registry)) \<le> 1"
    using conjunct1 [OF conjunct2 [OF probe_worst [OF o, of "\<lambda>_. None" Readiness, unfolded Let_def]]] s
    by fastforce
  then show ?thesis
    using severity_range [of "rp_Status (run_probe [''db'', ''cache''] (\<lambda>_. None) Readiness sample_registry)"]
    by auto
qed

text \<open>The worst severity among the selected components.\<close>

definition any_severity :: "int \<Rightarrow> string list \<Rightarrow> (nat \<Rightarrow> result option) \<Rightarrow> scope \<Rightarrow> registry \<Rightarrow> bool" where
  "any_severity v order published scope r \<longleftrightarrow>
     list_ex (\<lambda>name. case selected published scope r name of
                None \<Rightarrow> False | Some res \<Rightarrow> severity (r_Status res) = v) order"

lemma run_probe_rank:
  "severity (rp_Status (run_probe order published scope r)) =
     (if any_severity 2 order published scope r then 2
      else if any_severity 1 order published scope r then 1 else 0)"
proof (induction order rule: rev_induct)
  case Nil
  then show ?case by (simp add: run_probe_Nil any_severity_def severity_def)
next
  case (snoc name order)
  have any: "any_severity v (order @ [name]) published scope r \<longleftrightarrow>
      any_severity v order published scope r \<or>
      (case selected published scope r name of None \<Rightarrow> False | Some res \<Rightarrow> severity (r_Status res) = v)" for v
    by (simp add: any_severity_def)
  show ?case
  proof (cases "selected published scope r name")
    case (Some res)
    then show ?thesis using snoc severity_range [of "r_Status res"] by (auto simp: any run_probe_snoc Let_def)
  qed (use snoc in \<open>simp add: any run_probe_snoc Let_def\<close>)
qed

lemma status_code_severity:
  "status_code s d = (if severity s = 0 then 200 else if severity s = 1 then (if d = 0 then 429 else d) else 503)"
  by (simp add: status_code_def severity_def)

lemma severity_down: "severity StatusDown = 2"
  by (simp add: severity_def hstatus_defs)

text \<open>
  What Consul sees of the readiness endpoint: 503 while the instance drains or some readiness
  component is down; else the degraded code (429 unless configured) when one is degraded; else 200.
  Draining never changes the liveness answer, details that are to be hidden never reach the body, and
  other methods than GET and HEAD are refused.
\<close>

theorem readiness_answer:
  "let resp = handler (ready order published r) opts method;
       code = (if ho_DegradedStatusCode opts = 0 then 429 else ho_DegradedStatusCode opts)
   in rs_code resp =
        (if method \<noteq> ''GET'' \<and> method \<noteq> ''HEAD'' then 405
         else if rg_draining r then 503
         else if any_severity 2 order published Readiness r then 503
         else if any_severity 1 order published Readiness r then code else 200) \<and>
      live order published (set_draining d r) = live order published r \<and>
      \<not> (ho_HideDetails opts \<and> (\<exists>rep. rs_report resp = Some rep \<and> rp_Components rep \<noteq> fmempty))"
proof -
  have sel: "selected published scope (set_draining d r) = selected published scope r" for scope
    by (rule ext) (simp add: selected_def set_draining_def)
  have "run_probe order published scope (set_draining d r) = run_probe order published scope r" for scope
    by (induction order rule: rev_induct) (simp_all add: run_probe_Nil run_probe_snoc sel)
  then show ?thesis
    by (auto simp: Let_def handler_def ready_def drained_def live_def status_code_severity run_probe_rank
        severity_down)
qed

subsection \<open>Shared executions\<close>

text \<open>
  The calls of one component's checker: \<open>begin\<close> joins the execution in flight or starts one,
  \<open>finish\<close> is the end of its goroutine.
\<close>

record flight =
  fl_inflight :: "nat option"
  fl_running :: "nat set"
  fl_next :: nat
  fl_published :: "nat \<rightharpoonup> result"

definition no_flight :: flight where
  "no_flight = \<lparr>fl_inflight = None, fl_running = {}, fl_next = 0, fl_published = Map.empty\<rparr>"

definition begin_check :: "flight \<Rightarrow> nat \<times> flight" where
  "begin_check f =
     (case fl_inflight f of
        Some c \<Rightarrow> (c, f)
      | None \<Rightarrow>
        (fl_next f,
         f\<lparr>fl_inflight := Some (fl_next f), fl_running := insert (fl_next f) (fl_running f),
           fl_next := fl_next f + 1\<rparr>))"

definition finish_check :: "nat \<Rightarrow> execution \<Rightarrow> flight \<Rightarrow> flight" where
  "finish_check c x f =
     f\<lparr>fl_published := (fl_published f)(c \<mapsto> run_checker x), fl_inflight := None,
       fl_running := fl_running f - {c}\<rparr>"

inductive flight_reachable :: "flight \<Rightarrow> bool" where
  start: "flight_reachable no_flight"
| began: "flight_reachable f \<Longrightarrow> flight_reachable (snd (begin_check f))"
| finished: "flight_reachable f \<Longrightarrow> c \<in> fl_running f \<Longrightarrow> flight_reachable (finish_check c x f)"

lemma flight_inv:
  "flight_reachable f \<Longrightarrow>
     fl_running f = set_option (fl_inflight f) \<and> dom (fl_published f) \<union> fl_running f = {..<fl_next f}"
proof (induction rule: flight_reachable.induct)
  case (began f)
  then have d: "dom (fl_published f) \<union> fl_running f = {..<fl_next f}"
    and r: "fl_running f = set_option (fl_inflight f)" by blast+
  show ?case
  proof (cases "fl_inflight f")
    case None
    then have "dom (fl_published f) = {..<fl_next f}" using d r by simp
    then show ?thesis using None r by (simp add: begin_check_def lessThan_Suc)
  qed (use d r in \<open>simp add: begin_check_def\<close>)
next
  case (finished f c x)
  then show ?case by (auto simp: finish_check_def)
qed (auto simp: no_flight_def)

text \<open>
  However many probes run, at most one execution of a checker is in progress, so a checker that
  hangs costs one goroutine and not one per probe; and the call a probe waits for is always one that
  is running now, whose result it will get when it is published.
\<close>

theorem one_check_in_flight:
  assumes "flight_reachable f"
  shows "card (fl_running f) \<le> 1 \<and> fst (begin_check f) \<in> fl_running (snd (begin_check f)) \<and>
    card (fl_running (snd (begin_check f))) = 1 \<and>
    (\<forall>c<fl_next f. c \<in> fl_running f \<or> fl_published f c \<noteq> None) \<and>
    fl_published (finish_check (fst (begin_check f)) x (snd (begin_check f))) (fst (begin_check f)) =
      Some (run_checker x)"
proof -
  have i: "fl_running f = set_option (fl_inflight f)" "dom (fl_published f) \<union> fl_running f = {..<fl_next f}"
    using flight_inv [OF assms] by auto
  have "c \<in> fl_running f \<or> fl_published f c \<noteq> None" if "c < fl_next f" for c
    using that i(2) by (auto simp: dom_def set_eq_iff)
  then show ?thesis
    using i(1) by (cases "fl_inflight f") (auto simp: begin_check_def finish_check_def)
qed

theorem one_check_in_flight_witness:
  "fst (begin_check (snd (begin_check no_flight))) \<in> fl_running (snd (begin_check (snd (begin_check no_flight)))) \<and>
   fst (begin_check (snd (begin_check no_flight))) = fst (begin_check no_flight)"
  using one_check_in_flight [OF flight_reachable.began [OF flight_reachable.start]]
  by (simp add: begin_check_def no_flight_def)

end
