(* ===== verification/Config.thy ===== *)
theory Config
  imports Errors GoFloat Prelude "HOL-Library.Finite_Map"
begin

text \<open>
  config.go: the configuration structs, their layering (\<open>overlay\<close>) and defaults. A nil slice and an
  empty one differ for the layering, so slices of the configuration are list options; maps are finite
  maps and pointers are options. The zero value of every struct is its \<open>no_\<close> constant.
\<close>

subsection \<open>Structs\<close>

record tls_config =
  tl_Enabled :: bool
  tl_CAFile :: string
  tl_CAPath :: string
  tl_CAPEM :: "string option"
  tl_CertFile :: string
  tl_KeyFile :: string
  tl_CertPEM :: "string option"
  tl_KeyPEM :: "string option"
  tl_ServerName :: string
  tl_InsecureSkipVerify :: bool

record consul_config =
  cc_Address :: string
  cc_Scheme :: string
  cc_Datacenter :: string
  cc_Namespace :: string
  cc_Partition :: string
  cc_Token :: string
  cc_TokenFile :: string
  cc_HTTPAuth :: string
  cc_TLS :: tls_config
  cc_DialTimeout :: duration
  cc_RequestTimeout :: duration
  cc_WaitTime :: duration

record service_port =
  sp_Name :: string
  sp_Port :: int
  sp_Default :: bool

record tagged_addr =
  tg_Address :: string
  tg_Port :: int

record service_weights =
  sw_Passing :: int
  sw_Warning :: int

record service_config =
  sv_Name :: string
  sv_ID :: string
  sv_IDStrategy :: string
  sv_Address :: string
  sv_AddressEnv :: string
  sv_AllowLoopback :: bool
  sv_PreferIPv6 :: bool
  sv_Port :: int
  sv_Ports :: "service_port list option"
  sv_Scheme :: string
  sv_Tags :: "string list option"
  sv_Meta :: "(string, string) fmap"
  sv_DisableAutoMeta :: bool
  sv_Version :: string
  sv_Environment :: string
  sv_Zone :: string
  sv_TaggedAddresses :: "(string, tagged_addr) fmap"
  sv_Weights :: "service_weights option"
  sv_EnableTagOverride :: bool
  sv_Namespace :: string
  sv_Partition :: string

record health_endpoints =
  he_Health :: string
  he_Live :: string
  he_Ready :: string

record health_config =
  hc_Enabled :: bool
  hc_Endpoints :: health_endpoints
  hc_HideDetails :: bool
  hc_DegradedStatusCode :: int
  hc_Check :: string
  hc_CheckPath :: string
  hc_Interval :: duration
  hc_Timeout :: duration
  hc_TTL :: duration
  hc_Deregister :: duration
  hc_Method :: string
  hc_Header :: "(string, string list) fmap"
  hc_Body :: string
  hc_TLSServerName :: string
  hc_TLSSkipVerify :: bool
  hc_UseTLS :: bool
  hc_GRPCService :: string
  hc_SuccessBeforePassing :: int
  hc_FailuresBeforeWarning :: int
  hc_FailuresBeforeCritical :: int

record retry_config =
  rt_InitialDelay :: duration
  rt_MaxDelay :: duration
  rt_Multiplier :: f64
  rt_DisableJitter :: bool
  rt_MaxAttempts :: int
  rt_MaxElapsed :: duration

record lifecycle_config =
  lc_AutoRegister :: "bool option"
  lc_DeregisterOnShutdown :: "bool option"
  lc_FailFast :: bool
  lc_StartTimeout :: duration
  lc_ShutdownTimeout :: duration
  lc_DrainDelay :: duration

record kv_config =
  kc_Name :: string
  kc_Profiles :: "string list option"
  kc_Prefix :: string
  kc_DefaultContext :: string
  kc_ProfileSeparator :: string
  kc_Format :: string
  kc_DataKey :: string
  kc_ErrorUnused :: bool

record config =
  cf_Consul :: consul_config
  cf_Service :: service_config
  cf_Health :: health_config
  cf_Retry :: retry_config
  cf_Lifecycle :: lifecycle_config
  cf_KV :: kv_config

subsection \<open>Zero values\<close>

definition no_tls :: tls_config where
  "no_tls = \<lparr>tl_Enabled = False, tl_CAFile = [], tl_CAPath = [], tl_CAPEM = None, tl_CertFile = [],
     tl_KeyFile = [], tl_CertPEM = None, tl_KeyPEM = None, tl_ServerName = [],
     tl_InsecureSkipVerify = False\<rparr>"

definition no_consul :: consul_config where
  "no_consul = \<lparr>cc_Address = [], cc_Scheme = [], cc_Datacenter = [], cc_Namespace = [],
     cc_Partition = [], cc_Token = [], cc_TokenFile = [], cc_HTTPAuth = [], cc_TLS = no_tls,
     cc_DialTimeout = 0, cc_RequestTimeout = 0, cc_WaitTime = 0\<rparr>"

definition no_service :: service_config where
  "no_service = \<lparr>sv_Name = [], sv_ID = [], sv_IDStrategy = [], sv_Address = [], sv_AddressEnv = [],
     sv_AllowLoopback = False, sv_PreferIPv6 = False, sv_Port = 0, sv_Ports = None, sv_Scheme = [],
     sv_Tags = None, sv_Meta = fmempty, sv_DisableAutoMeta = False, sv_Version = [],
     sv_Environment = [], sv_Zone = [], sv_TaggedAddresses = fmempty, sv_Weights = None,
     sv_EnableTagOverride = False, sv_Namespace = [], sv_Partition = []\<rparr>"

definition no_endpoints :: health_endpoints where
  "no_endpoints = \<lparr>he_Health = [], he_Live = [], he_Ready = []\<rparr>"

definition no_health :: health_config where
  "no_health = \<lparr>hc_Enabled = False, hc_Endpoints = no_endpoints, hc_HideDetails = False,
     hc_DegradedStatusCode = 0, hc_Check = [], hc_CheckPath = [], hc_Interval = 0, hc_Timeout = 0,
     hc_TTL = 0, hc_Deregister = 0, hc_Method = [], hc_Header = fmempty, hc_Body = [],
     hc_TLSServerName = [], hc_TLSSkipVerify = False, hc_UseTLS = False, hc_GRPCService = [],
     hc_SuccessBeforePassing = 0, hc_FailuresBeforeWarning = 0, hc_FailuresBeforeCritical = 0\<rparr>"

definition no_retry :: retry_config where
  "no_retry = \<lparr>rt_InitialDelay = 0, rt_MaxDelay = 0, rt_Multiplier = Fin 0, rt_DisableJitter = False,
     rt_MaxAttempts = 0, rt_MaxElapsed = 0\<rparr>"

definition no_lifecycle :: lifecycle_config where
  "no_lifecycle = \<lparr>lc_AutoRegister = None, lc_DeregisterOnShutdown = None, lc_FailFast = False,
     lc_StartTimeout = 0, lc_ShutdownTimeout = 0, lc_DrainDelay = 0\<rparr>"

definition no_kv :: kv_config where
  "no_kv = \<lparr>kc_Name = [], kc_Profiles = None, kc_Prefix = [], kc_DefaultContext = [],
     kc_ProfileSeparator = [], kc_Format = [], kc_DataKey = [], kc_ErrorUnused = False\<rparr>"

definition no_config :: config where
  "no_config = \<lparr>cf_Consul = no_consul, cf_Service = no_service, cf_Health = no_health,
     cf_Retry = no_retry, cf_Lifecycle = no_lifecycle, cf_KV = no_kv\<rparr>"

subsection \<open>Layers\<close>

text \<open>\<open>set\<close>, with the zero value of the field's type; \<open>setSlice\<close> and pointer fields; \<open>mergeMap\<close>.\<close>

definition set_field :: "'a \<Rightarrow> 'a \<Rightarrow> 'a \<Rightarrow> 'a" where
  "set_field zero dst v = (if v \<noteq> zero then v else dst)"

abbreviation set_str :: "string \<Rightarrow> string \<Rightarrow> string" where "set_str \<equiv> set_field []"
abbreviation set_int :: "int \<Rightarrow> int \<Rightarrow> int" where "set_int \<equiv> set_field 0"
abbreviation set_bool :: "bool \<Rightarrow> bool \<Rightarrow> bool" where "set_bool \<equiv> set_field False"

definition set_slice :: "'a option \<Rightarrow> 'a option \<Rightarrow> 'a option" where
  "set_slice dst v = (case v of Some x \<Rightarrow> Some x | None \<Rightarrow> dst)"

definition merge_map :: "('k, 'v) fmap \<Rightarrow> ('k, 'v) fmap \<Rightarrow> ('k, 'v) fmap" where
  "merge_map dst src = dst ++\<^sub>f src"

definition overlay_tls :: "tls_config \<Rightarrow> tls_config \<Rightarrow> tls_config" where
  "overlay_tls c s =
     \<lparr>tl_Enabled = set_bool (tl_Enabled c) (tl_Enabled s),
      tl_CAFile = set_str (tl_CAFile c) (tl_CAFile s),
      tl_CAPath = set_str (tl_CAPath c) (tl_CAPath s),
      tl_CAPEM = set_slice (tl_CAPEM c) (tl_CAPEM s),
      tl_CertFile = set_str (tl_CertFile c) (tl_CertFile s),
      tl_KeyFile = set_str (tl_KeyFile c) (tl_KeyFile s),
      tl_CertPEM = set_slice (tl_CertPEM c) (tl_CertPEM s),
      tl_KeyPEM = set_slice (tl_KeyPEM c) (tl_KeyPEM s),
      tl_ServerName = set_str (tl_ServerName c) (tl_ServerName s),
      tl_InsecureSkipVerify = set_bool (tl_InsecureSkipVerify c) (tl_InsecureSkipVerify s)\<rparr>"

definition overlay_consul :: "consul_config \<Rightarrow> consul_config \<Rightarrow> consul_config" where
  "overlay_consul c s =
     \<lparr>cc_Address = set_str (cc_Address c) (cc_Address s),
      cc_Scheme = set_str (cc_Scheme c) (cc_Scheme s),
      cc_Datacenter = set_str (cc_Datacenter c) (cc_Datacenter s),
      cc_Namespace = set_str (cc_Namespace c) (cc_Namespace s),
      cc_Partition = set_str (cc_Partition c) (cc_Partition s),
      cc_Token = set_str (cc_Token c) (cc_Token s),
      cc_TokenFile = set_str (cc_TokenFile c) (cc_TokenFile s),
      cc_HTTPAuth = set_str (cc_HTTPAuth c) (cc_HTTPAuth s),
      cc_TLS = overlay_tls (cc_TLS c) (cc_TLS s),
      cc_DialTimeout = set_int (cc_DialTimeout c) (cc_DialTimeout s),
      cc_RequestTimeout = set_int (cc_RequestTimeout c) (cc_RequestTimeout s),
      cc_WaitTime = set_int (cc_WaitTime c) (cc_WaitTime s)\<rparr>"

definition overlay_service :: "service_config \<Rightarrow> service_config \<Rightarrow> service_config" where
  "overlay_service c s =
     \<lparr>sv_Name = set_str (sv_Name c) (sv_Name s),
      sv_ID = set_str (sv_ID c) (sv_ID s),
      sv_IDStrategy = set_str (sv_IDStrategy c) (sv_IDStrategy s),
      sv_Address = set_str (sv_Address c) (sv_Address s),
      sv_AddressEnv = set_str (sv_AddressEnv c) (sv_AddressEnv s),
      sv_AllowLoopback = set_bool (sv_AllowLoopback c) (sv_AllowLoopback s),
      sv_PreferIPv6 = set_bool (sv_PreferIPv6 c) (sv_PreferIPv6 s),
      sv_Port = set_int (sv_Port c) (sv_Port s),
      sv_Ports = set_slice (sv_Ports c) (sv_Ports s),
      sv_Scheme = set_str (sv_Scheme c) (sv_Scheme s),
      sv_Tags = set_slice (sv_Tags c) (sv_Tags s),
      sv_Meta = merge_map (sv_Meta c) (sv_Meta s),
      sv_DisableAutoMeta = set_bool (sv_DisableAutoMeta c) (sv_DisableAutoMeta s),
      sv_Version = set_str (sv_Version c) (sv_Version s),
      sv_Environment = set_str (sv_Environment c) (sv_Environment s),
      sv_Zone = set_str (sv_Zone c) (sv_Zone s),
      sv_TaggedAddresses = merge_map (sv_TaggedAddresses c) (sv_TaggedAddresses s),
      sv_Weights = set_slice (sv_Weights c) (sv_Weights s),
      sv_EnableTagOverride = set_bool (sv_EnableTagOverride c) (sv_EnableTagOverride s),
      sv_Namespace = set_str (sv_Namespace c) (sv_Namespace s),
      sv_Partition = set_str (sv_Partition c) (sv_Partition s)\<rparr>"

definition overlay_health :: "health_config \<Rightarrow> health_config \<Rightarrow> health_config" where
  "overlay_health c s =
     \<lparr>hc_Enabled = set_bool (hc_Enabled c) (hc_Enabled s),
      hc_Endpoints = set_field no_endpoints (hc_Endpoints c) (hc_Endpoints s),
      hc_HideDetails = set_bool (hc_HideDetails c) (hc_HideDetails s),
      hc_DegradedStatusCode = set_int (hc_DegradedStatusCode c) (hc_DegradedStatusCode s),
      hc_Check = set_str (hc_Check c) (hc_Check s),
      hc_CheckPath = set_str (hc_CheckPath c) (hc_CheckPath s),
      hc_Interval = set_int (hc_Interval c) (hc_Interval s),
      hc_Timeout = set_int (hc_Timeout c) (hc_Timeout s),
      hc_TTL = set_int (hc_TTL c) (hc_TTL s),
      hc_Deregister = set_int (hc_Deregister c) (hc_Deregister s),
      hc_Method = set_str (hc_Method c) (hc_Method s),
      hc_Header = merge_map (hc_Header c) (hc_Header s),
      hc_Body = set_str (hc_Body c) (hc_Body s),
      hc_TLSServerName = set_str (hc_TLSServerName c) (hc_TLSServerName s),
      hc_TLSSkipVerify = set_bool (hc_TLSSkipVerify c) (hc_TLSSkipVerify s),
      hc_UseTLS = set_bool (hc_UseTLS c) (hc_UseTLS s),
      hc_GRPCService = set_str (hc_GRPCService c) (hc_GRPCService s),
      hc_SuccessBeforePassing = set_int (hc_SuccessBeforePassing c) (hc_SuccessBeforePassing s),
      hc_FailuresBeforeWarning = set_int (hc_FailuresBeforeWarning c) (hc_FailuresBeforeWarning s),
      hc_FailuresBeforeCritical = set_int (hc_FailuresBeforeCritical c) (hc_FailuresBeforeCritical s)\<rparr>"

definition overlay_retry :: "retry_config \<Rightarrow> retry_config \<Rightarrow> retry_config" where
  "overlay_retry c s =
     \<lparr>rt_InitialDelay = set_int (rt_InitialDelay c) (rt_InitialDelay s),
      rt_MaxDelay = set_int (rt_MaxDelay c) (rt_MaxDelay s),
      rt_Multiplier = set_field (Fin 0) (rt_Multiplier c) (rt_Multiplier s),
      rt_DisableJitter = set_bool (rt_DisableJitter c) (rt_DisableJitter s),
      rt_MaxAttempts = set_int (rt_MaxAttempts c) (rt_MaxAttempts s),
      rt_MaxElapsed = set_int (rt_MaxElapsed c) (rt_MaxElapsed s)\<rparr>"

definition overlay_kv :: "kv_config \<Rightarrow> kv_config \<Rightarrow> kv_config" where
  "overlay_kv c s =
     \<lparr>kc_Name = set_str (kc_Name c) (kc_Name s),
      kc_Profiles = set_slice (kc_Profiles c) (kc_Profiles s),
      kc_Prefix = set_str (kc_Prefix c) (kc_Prefix s),
      kc_DefaultContext = set_str (kc_DefaultContext c) (kc_DefaultContext s),
      kc_ProfileSeparator = set_str (kc_ProfileSeparator c) (kc_ProfileSeparator s),
      kc_Format = set_str (kc_Format c) (kc_Format s),
      kc_DataKey = set_str (kc_DataKey c) (kc_DataKey s),
      kc_ErrorUnused = set_bool (kc_ErrorUnused c) (kc_ErrorUnused s)\<rparr>"

definition overlay_lifecycle :: "lifecycle_config \<Rightarrow> lifecycle_config \<Rightarrow> lifecycle_config" where
  "overlay_lifecycle c s =
     \<lparr>lc_AutoRegister = set_slice (lc_AutoRegister c) (lc_AutoRegister s),
      lc_DeregisterOnShutdown = set_slice (lc_DeregisterOnShutdown c) (lc_DeregisterOnShutdown s),
      lc_FailFast = set_bool (lc_FailFast c) (lc_FailFast s),
      lc_StartTimeout = set_int (lc_StartTimeout c) (lc_StartTimeout s),
      lc_ShutdownTimeout = set_int (lc_ShutdownTimeout c) (lc_ShutdownTimeout s),
      lc_DrainDelay = set_int (lc_DrainDelay c) (lc_DrainDelay s)\<rparr>"

definition overlay_config :: "config \<Rightarrow> config \<Rightarrow> config" where
  "overlay_config c s =
     \<lparr>cf_Consul = overlay_consul (cf_Consul c) (cf_Consul s),
      cf_Service = overlay_service (cf_Service c) (cf_Service s),
      cf_Health = overlay_health (cf_Health c) (cf_Health s),
      cf_Retry = overlay_retry (cf_Retry c) (cf_Retry s),
      cf_Lifecycle = overlay_lifecycle (cf_Lifecycle c) (cf_Lifecycle s),
      cf_KV = overlay_kv (cf_KV c) (cf_KV s)\<rparr>"

subsection \<open>The laws of layering\<close>

text \<open>
  A layer type: overlaying nothing changes nothing, layers can be combined before they are applied,
  and applying a layer twice is applying it once.
\<close>

locale layering =
  fixes over :: "'a \<Rightarrow> 'a \<Rightarrow> 'a"
    and empty :: 'a
  assumes over_empty [simp]: "over c empty = c"
    and empty_over [simp]: "over empty c = c"
    and over_assoc: "over (over a b) c = over a (over b c)"
    and over_idem [simp]: "over c c = c"
begin

definition stack :: "'a list \<Rightarrow> 'a" where
  "stack ls = foldl over empty ls"

lemma stack_Nil [simp]: "stack [] = empty"
  by (simp add: stack_def)

lemma foldl_over: "foldl over c ls = over c (stack ls)"
proof (induction ls arbitrary: c)
  case (Cons l ls)
  have "stack (l # ls) = over l (stack ls)" by (simp add: stack_def) (rule Cons [unfolded stack_def])
  moreover have "foldl over c (l # ls) = over (over c l) (stack ls)" using Cons [of "over c l"] by simp
  ultimately show ?case by (simp only: over_assoc)
qed simp

lemma stack_append: "stack (ls @ ms) = over (stack ls) (stack ms)"
  using foldl_over [of "stack ls" ms] by (simp add: stack_def)

lemma stack_repeat: "stack (ls @ [l, l]) = stack (ls @ [l])"
  unfolding stack_append by (simp add: stack_def)

lemma stack_skip: "stack (ls @ empty # ms) = stack (ls @ ms)"
  unfolding stack_append by (simp add: stack_def)

end

interpretation scalar: layering "set_field z" z for z :: 'a
  by unfold_locales (auto simp: set_field_def)

interpretation slice: layering set_slice None
  by unfold_locales (auto simp: set_slice_def split: option.splits)

interpretation merged: layering merge_map fmempty
  by unfold_locales (auto simp: merge_map_def intro: fmap_ext)

lemmas layer_laws =
  scalar.over_assoc slice.over_assoc merged.over_assoc

interpretation tls_layer: layering overlay_tls no_tls
  by unfold_locales (simp_all add: overlay_tls_def no_tls_def layer_laws)

interpretation consul_layer: layering overlay_consul no_consul
  by unfold_locales (simp_all add: overlay_consul_def no_consul_def layer_laws tls_layer.over_assoc)

interpretation service_layer: layering overlay_service no_service
  by unfold_locales (simp_all add: overlay_service_def no_service_def layer_laws)

interpretation health_layer: layering overlay_health no_health
  by unfold_locales (simp_all add: overlay_health_def no_health_def layer_laws)

interpretation retry_layer: layering overlay_retry no_retry
  by unfold_locales (simp_all add: overlay_retry_def no_retry_def layer_laws)

interpretation lifecycle_layer: layering overlay_lifecycle no_lifecycle
  by unfold_locales (simp_all add: overlay_lifecycle_def no_lifecycle_def layer_laws)

interpretation kv_layer: layering overlay_kv no_kv
  by unfold_locales (simp_all add: overlay_kv_def no_kv_def layer_laws)

interpretation config_layer: layering overlay_config no_config
  by unfold_locales
    (simp_all add: overlay_config_def no_config_def consul_layer.over_assoc service_layer.over_assoc
      health_layer.over_assoc retry_layer.over_assoc lifecycle_layer.over_assoc kv_layer.over_assoc)

subsection \<open>The last layer that sets a field\<close>

definition last_set :: "'a \<Rightarrow> 'a list \<Rightarrow> 'a \<Rightarrow> 'a" where
  "last_set zero vs d = (case List.find (\<lambda>v. v \<noteq> zero) (rev vs) of Some v \<Rightarrow> v | None \<Rightarrow> d)"

lemma last_set_snoc: "last_set z (vs @ [v]) d = (if v \<noteq> z then v else last_set z vs d)"
  by (simp add: last_set_def)

lemma last_set_Nil [simp]: "last_set z [] d = d"
  by (simp add: last_set_def)

lemma foldl_set_field: "foldl (set_field z) d vs = last_set z vs d"
  by (induction vs rule: rev_induct) (simp_all add: last_set_snoc set_field_def)

lemma foldl_set_slice: "foldl set_slice d vs = last_set None vs d"
  by (induction vs rule: rev_induct) (simp_all add: last_set_snoc set_slice_def option.case_eq_if)

lemma fmdom_lookup: "k |\<in>| fmdom m \<longleftrightarrow> fmlookup m k \<noteq> None"
  by (auto simp: fmlookup_dom_iff)

lemma foldl_merge_map:
  "fmlookup (foldl merge_map d vs) k = last_set None (map (\<lambda>m. fmlookup m k) vs) (fmlookup d k)"
  by (induction vs rule: rev_induct) (simp_all add: last_set_snoc merge_map_def fmdom_lookup)

text \<open>
  The last of the layers that sets the field \<open>f\<close>, or else the value below them; of a map, the last
  layer that has the key. Then section by section the value of every field but the maps.
\<close>

definition newest :: "'a \<Rightarrow> (config \<Rightarrow> 'a) \<Rightarrow> config list \<Rightarrow> config \<Rightarrow> 'a" where
  "newest zero f ls c = last_set zero (map f ls) (f c)"

definition newest_key :: "(config \<Rightarrow> ('k, 'v) fmap) \<Rightarrow> 'k \<Rightarrow> config list \<Rightarrow> config \<Rightarrow> 'v option" where
  "newest_key f k ls c = last_set None (map (\<lambda>l. fmlookup (f l) k) ls) (fmlookup (f c) k)"

definition newest_tls :: "config list \<Rightarrow> config \<Rightarrow> tls_config" where
  "newest_tls ls c =
     \<lparr>tl_Enabled = newest False (\<lambda>l. tl_Enabled (cc_TLS (cf_Consul l))) ls c,
      tl_CAFile = newest [] (\<lambda>l. tl_CAFile (cc_TLS (cf_Consul l))) ls c,
      tl_CAPath = newest [] (\<lambda>l. tl_CAPath (cc_TLS (cf_Consul l))) ls c,
      tl_CAPEM = newest None (\<lambda>l. tl_CAPEM (cc_TLS (cf_Consul l))) ls c,
      tl_CertFile = newest [] (\<lambda>l. tl_CertFile (cc_TLS (cf_Consul l))) ls c,
      tl_KeyFile = newest [] (\<lambda>l. tl_KeyFile (cc_TLS (cf_Consul l))) ls c,
      tl_CertPEM = newest None (\<lambda>l. tl_CertPEM (cc_TLS (cf_Consul l))) ls c,
      tl_KeyPEM = newest None (\<lambda>l. tl_KeyPEM (cc_TLS (cf_Consul l))) ls c,
      tl_ServerName = newest [] (\<lambda>l. tl_ServerName (cc_TLS (cf_Consul l))) ls c,
      tl_InsecureSkipVerify = newest False (\<lambda>l. tl_InsecureSkipVerify (cc_TLS (cf_Consul l))) ls c\<rparr>"

definition newest_consul :: "config list \<Rightarrow> config \<Rightarrow> consul_config" where
  "newest_consul ls c =
     \<lparr>cc_Address = newest [] (\<lambda>l. cc_Address (cf_Consul l)) ls c,
      cc_Scheme = newest [] (\<lambda>l. cc_Scheme (cf_Consul l)) ls c,
      cc_Datacenter = newest [] (\<lambda>l. cc_Datacenter (cf_Consul l)) ls c,
      cc_Namespace = newest [] (\<lambda>l. cc_Namespace (cf_Consul l)) ls c,
      cc_Partition = newest [] (\<lambda>l. cc_Partition (cf_Consul l)) ls c,
      cc_Token = newest [] (\<lambda>l. cc_Token (cf_Consul l)) ls c,
      cc_TokenFile = newest [] (\<lambda>l. cc_TokenFile (cf_Consul l)) ls c,
      cc_HTTPAuth = newest [] (\<lambda>l. cc_HTTPAuth (cf_Consul l)) ls c,
      cc_TLS = newest_tls ls c,
      cc_DialTimeout = newest 0 (\<lambda>l. cc_DialTimeout (cf_Consul l)) ls c,
      cc_RequestTimeout = newest 0 (\<lambda>l. cc_RequestTimeout (cf_Consul l)) ls c,
      cc_WaitTime = newest 0 (\<lambda>l. cc_WaitTime (cf_Consul l)) ls c\<rparr>"

definition newest_service :: "(string, string) fmap \<Rightarrow> (string, tagged_addr) fmap \<Rightarrow> config list \<Rightarrow> config \<Rightarrow> service_config" where
  "newest_service m tagged ls c =
     \<lparr>sv_Name = newest [] (\<lambda>l. sv_Name (cf_Service l)) ls c,
      sv_ID = newest [] (\<lambda>l. sv_ID (cf_Service l)) ls c,
      sv_IDStrategy = newest [] (\<lambda>l. sv_IDStrategy (cf_Service l)) ls c,
      sv_Address = newest [] (\<lambda>l. sv_Address (cf_Service l)) ls c,
      sv_AddressEnv = newest [] (\<lambda>l. sv_AddressEnv (cf_Service l)) ls c,
      sv_AllowLoopback = newest False (\<lambda>l. sv_AllowLoopback (cf_Service l)) ls c,
      sv_PreferIPv6 = newest False (\<lambda>l. sv_PreferIPv6 (cf_Service l)) ls c,
      sv_Port = newest 0 (\<lambda>l. sv_Port (cf_Service l)) ls c,
      sv_Ports = newest None (\<lambda>l. sv_Ports (cf_Service l)) ls c,
      sv_Scheme = newest [] (\<lambda>l. sv_Scheme (cf_Service l)) ls c,
      sv_Tags = newest None (\<lambda>l. sv_Tags (cf_Service l)) ls c,
      sv_Meta = m,
      sv_DisableAutoMeta = newest False (\<lambda>l. sv_DisableAutoMeta (cf_Service l)) ls c,
      sv_Version = newest [] (\<lambda>l. sv_Version (cf_Service l)) ls c,
      sv_Environment = newest [] (\<lambda>l. sv_Environment (cf_Service l)) ls c,
      sv_Zone = newest [] (\<lambda>l. sv_Zone (cf_Service l)) ls c,
      sv_TaggedAddresses = tagged,
      sv_Weights = newest None (\<lambda>l. sv_Weights (cf_Service l)) ls c,
      sv_EnableTagOverride = newest False (\<lambda>l. sv_EnableTagOverride (cf_Service l)) ls c,
      sv_Namespace = newest [] (\<lambda>l. sv_Namespace (cf_Service l)) ls c,
      sv_Partition = newest [] (\<lambda>l. sv_Partition (cf_Service l)) ls c\<rparr>"

definition newest_health :: "(string, string list) fmap \<Rightarrow> config list \<Rightarrow> config \<Rightarrow> health_config" where
  "newest_health m ls c =
     \<lparr>hc_Enabled = newest False (\<lambda>l. hc_Enabled (cf_Health l)) ls c,
      hc_Endpoints = newest no_endpoints (\<lambda>l. hc_Endpoints (cf_Health l)) ls c,
      hc_HideDetails = newest False (\<lambda>l. hc_HideDetails (cf_Health l)) ls c,
      hc_DegradedStatusCode = newest 0 (\<lambda>l. hc_DegradedStatusCode (cf_Health l)) ls c,
      hc_Check = newest [] (\<lambda>l. hc_Check (cf_Health l)) ls c,
      hc_CheckPath = newest [] (\<lambda>l. hc_CheckPath (cf_Health l)) ls c,
      hc_Interval = newest 0 (\<lambda>l. hc_Interval (cf_Health l)) ls c,
      hc_Timeout = newest 0 (\<lambda>l. hc_Timeout (cf_Health l)) ls c,
      hc_TTL = newest 0 (\<lambda>l. hc_TTL (cf_Health l)) ls c,
      hc_Deregister = newest 0 (\<lambda>l. hc_Deregister (cf_Health l)) ls c,
      hc_Method = newest [] (\<lambda>l. hc_Method (cf_Health l)) ls c,
      hc_Header = m,
      hc_Body = newest [] (\<lambda>l. hc_Body (cf_Health l)) ls c,
      hc_TLSServerName = newest [] (\<lambda>l. hc_TLSServerName (cf_Health l)) ls c,
      hc_TLSSkipVerify = newest False (\<lambda>l. hc_TLSSkipVerify (cf_Health l)) ls c,
      hc_UseTLS = newest False (\<lambda>l. hc_UseTLS (cf_Health l)) ls c,
      hc_GRPCService = newest [] (\<lambda>l. hc_GRPCService (cf_Health l)) ls c,
      hc_SuccessBeforePassing = newest 0 (\<lambda>l. hc_SuccessBeforePassing (cf_Health l)) ls c,
      hc_FailuresBeforeWarning = newest 0 (\<lambda>l. hc_FailuresBeforeWarning (cf_Health l)) ls c,
      hc_FailuresBeforeCritical = newest 0 (\<lambda>l. hc_FailuresBeforeCritical (cf_Health l)) ls c\<rparr>"

definition newest_retry :: "config list \<Rightarrow> config \<Rightarrow> retry_config" where
  "newest_retry ls c =
     \<lparr>rt_InitialDelay = newest 0 (\<lambda>l. rt_InitialDelay (cf_Retry l)) ls c,
      rt_MaxDelay = newest 0 (\<lambda>l. rt_MaxDelay (cf_Retry l)) ls c,
      rt_Multiplier = newest (Fin 0) (\<lambda>l. rt_Multiplier (cf_Retry l)) ls c,
      rt_DisableJitter = newest False (\<lambda>l. rt_DisableJitter (cf_Retry l)) ls c,
      rt_MaxAttempts = newest 0 (\<lambda>l. rt_MaxAttempts (cf_Retry l)) ls c,
      rt_MaxElapsed = newest 0 (\<lambda>l. rt_MaxElapsed (cf_Retry l)) ls c\<rparr>"

definition newest_lifecycle :: "config list \<Rightarrow> config \<Rightarrow> lifecycle_config" where
  "newest_lifecycle ls c =
     \<lparr>lc_AutoRegister = newest None (\<lambda>l. lc_AutoRegister (cf_Lifecycle l)) ls c,
      lc_DeregisterOnShutdown = newest None (\<lambda>l. lc_DeregisterOnShutdown (cf_Lifecycle l)) ls c,
      lc_FailFast = newest False (\<lambda>l. lc_FailFast (cf_Lifecycle l)) ls c,
      lc_StartTimeout = newest 0 (\<lambda>l. lc_StartTimeout (cf_Lifecycle l)) ls c,
      lc_ShutdownTimeout = newest 0 (\<lambda>l. lc_ShutdownTimeout (cf_Lifecycle l)) ls c,
      lc_DrainDelay = newest 0 (\<lambda>l. lc_DrainDelay (cf_Lifecycle l)) ls c\<rparr>"

definition newest_kv :: "config list \<Rightarrow> config \<Rightarrow> kv_config" where
  "newest_kv ls c =
     \<lparr>kc_Name = newest [] (\<lambda>l. kc_Name (cf_KV l)) ls c,
      kc_Profiles = newest None (\<lambda>l. kc_Profiles (cf_KV l)) ls c,
      kc_Prefix = newest [] (\<lambda>l. kc_Prefix (cf_KV l)) ls c,
      kc_DefaultContext = newest [] (\<lambda>l. kc_DefaultContext (cf_KV l)) ls c,
      kc_ProfileSeparator = newest [] (\<lambda>l. kc_ProfileSeparator (cf_KV l)) ls c,
      kc_Format = newest [] (\<lambda>l. kc_Format (cf_KV l)) ls c,
      kc_DataKey = newest [] (\<lambda>l. kc_DataKey (cf_KV l)) ls c,
      kc_ErrorUnused = newest False (\<lambda>l. kc_ErrorUnused (cf_KV l)) ls c\<rparr>"

lemma foldl_project:
  assumes "\<And>c s. f (overlay_config c s) = g (f c) (f s)"
  shows "f (foldl overlay_config c ls) = foldl g (f c) (map f ls)"
  by (induction ls arbitrary: c) (simp_all add: assms)

lemma field_newest:
  "(\<And>c s. f (overlay_config c s) = set_field z (f c) (f s)) \<Longrightarrow> f (foldl overlay_config c ls) = newest z f ls c"
  unfolding newest_def using foldl_project [of f "set_field z" c ls] by (simp add: foldl_set_field)

lemma slice_newest:
  "(\<And>c s. f (overlay_config c s) = set_slice (f c) (f s)) \<Longrightarrow> f (foldl overlay_config c ls) = newest None f ls c"
  unfolding newest_def using foldl_project [of f set_slice c ls] by (simp add: foldl_set_slice)

lemma map_newest:
  "(\<And>c s. f (overlay_config c s) = merge_map (f c) (f s)) \<Longrightarrow>
     fmlookup (f (foldl overlay_config c ls)) k = newest_key f k ls c"
  unfolding newest_key_def using foldl_project [of f merge_map c ls] by (simp add: foldl_merge_map comp_def)

lemmas overlay_defs =
  overlay_config_def overlay_consul_def overlay_tls_def overlay_service_def overlay_health_def
  overlay_retry_def overlay_lifecycle_def overlay_kv_def

lemma fold_tls: "cc_TLS (cf_Consul (foldl overlay_config c ls)) = newest_tls ls c"
  unfolding newest_tls_def
  by (rule tls_config.equality; (simp only: tls_config.select_convs)?;
      ((rule refl) | (rule field_newest slice_newest, simp add: overlay_defs) | simp))

lemma fold_consul: "cf_Consul (foldl overlay_config c ls) = newest_consul ls c"
  unfolding newest_consul_def
  by (rule consul_config.equality; (simp only: consul_config.select_convs)?;
      ((rule refl fold_tls) | (rule field_newest slice_newest, simp add: overlay_defs) | simp))

lemma fold_service: "cf_Service (foldl overlay_config c ls) = newest_service (sv_Meta (cf_Service (foldl overlay_config c ls))) (sv_TaggedAddresses (cf_Service (foldl overlay_config c ls))) ls c"
  unfolding newest_service_def
  by (rule service_config.equality; (simp only: service_config.select_convs)?;
      ((rule refl) | (rule field_newest slice_newest, simp add: overlay_defs) | simp))

lemma fold_health: "cf_Health (foldl overlay_config c ls) = newest_health (hc_Header (cf_Health (foldl overlay_config c ls))) ls c"
  unfolding newest_health_def
  by (rule health_config.equality; (simp only: health_config.select_convs)?;
      ((rule refl) | (rule field_newest slice_newest, simp add: overlay_defs) | simp))

lemma fold_retry: "cf_Retry (foldl overlay_config c ls) = newest_retry ls c"
  unfolding newest_retry_def
  by (rule retry_config.equality; (simp only: retry_config.select_convs)?;
      ((rule refl) | (rule field_newest slice_newest, simp add: overlay_defs) | simp))

lemma fold_lifecycle: "cf_Lifecycle (foldl overlay_config c ls) = newest_lifecycle ls c"
  unfolding newest_lifecycle_def
  by (rule lifecycle_config.equality; (simp only: lifecycle_config.select_convs)?;
      ((rule refl) | (rule field_newest slice_newest, simp add: overlay_defs) | simp))

lemma fold_kv: "cf_KV (foldl overlay_config c ls) = newest_kv ls c"
  unfolding newest_kv_def
  by (rule kv_config.equality; (simp only: kv_config.select_convs)?;
      ((rule refl) | (rule field_newest slice_newest, simp add: overlay_defs) | simp))

lemmas fold_newest = fold_consul fold_service fold_health fold_retry fold_lifecycle fold_kv

text \<open>
  C37. Layers of configuration: every field of every section ends with the value of the last layer that
  sets it, an optional one with the last that is present, and the maps (metadata, tagged addresses,
  headers) key by key with the last layer that has the key; what no layer sets stays. Hence adjacent layers can be
  merged before they are applied, a layer that sets nothing has no effect, and giving a layer
  twice is giving it once.
\<close>

theorem config_layers:
  "(let r = foldl overlay_config c ls; s = cf_Service r; h = cf_Health r
    in r = \<lparr>cf_Consul = newest_consul ls c,
            cf_Service = newest_service (sv_Meta s) (sv_TaggedAddresses s) ls c,
            cf_Health = newest_health (hc_Header h) ls c, cf_Retry = newest_retry ls c,
            cf_Lifecycle = newest_lifecycle ls c, cf_KV = newest_kv ls c\<rparr> \<and>
       fmlookup (sv_Meta s) k = newest_key (\<lambda>l. sv_Meta (cf_Service l)) k ls c \<and>
       fmlookup (sv_TaggedAddresses s) k = newest_key (\<lambda>l. sv_TaggedAddresses (cf_Service l)) k ls c \<and>
       fmlookup (hc_Header h) k = newest_key (\<lambda>l. hc_Header (cf_Health l)) k ls c) \<and>
   foldl overlay_config c (ls @ ms) =
     overlay_config c (overlay_config (foldl overlay_config no_config ls) (foldl overlay_config no_config ms)) \<and>
   foldl overlay_config c (ls @ no_config # ms) = foldl overlay_config c (ls @ ms) \<and>
   foldl overlay_config c (ls @ [l, l]) = foldl overlay_config c (ls @ [l])"
proof -
  let ?r = "foldl overlay_config c ls"
  have all: "?r = \<lparr>cf_Consul = newest_consul ls c,
      cf_Service = newest_service (sv_Meta (cf_Service ?r)) (sv_TaggedAddresses (cf_Service ?r)) ls c,
      cf_Health = newest_health (hc_Header (cf_Health ?r)) ls c, cf_Retry = newest_retry ls c,
      cf_Lifecycle = newest_lifecycle ls c, cf_KV = newest_kv ls c\<rparr>"
    by (rule config.equality; (simp only: config.select_convs)?; ((rule fold_newest) | simp))
  have maps: "fmlookup (sv_Meta (cf_Service ?r)) k = newest_key (\<lambda>l. sv_Meta (cf_Service l)) k ls c"
    "fmlookup (sv_TaggedAddresses (cf_Service ?r)) k = newest_key (\<lambda>l. sv_TaggedAddresses (cf_Service l)) k ls c"
    "fmlookup (hc_Header (cf_Health ?r)) k = newest_key (\<lambda>l. hc_Header (cf_Health l)) k ls c"
    by (rule map_newest; simp add: overlay_defs)+
  have merge: "foldl overlay_config c (ls @ ms) =
      overlay_config c (overlay_config (foldl overlay_config no_config ls) (foldl overlay_config no_config ms))"
    using config_layer.foldl_over [of c "ls @ ms"] config_layer.stack_append [of ls ms]
    by (simp only: config_layer.stack_def)
  have skip: "foldl overlay_config c (ls @ no_config # ms) = foldl overlay_config c (ls @ ms)"
    unfolding config_layer.foldl_over [of c] config_layer.stack_skip ..
  have twice: "foldl overlay_config c (ls @ [l, l]) = foldl overlay_config c (ls @ [l])"
    unfolding config_layer.foldl_over [of c] config_layer.stack_repeat ..
  show ?thesis unfolding Let_def using all maps merge skip twice by (intro conjI)
qed

end
