(* ===== verification/Validate.thy ===== *)
theory Validate
  imports Config Backoff
begin

text \<open>
  config.go: \<open>apply_defaults\<close> and \<open>validate\<close>. A problem is a field and a reason, as in \<open>ConfigError\<close>;
  \<open>validate\<close> collects them in the order of the code. Go visits the keys of the metadata in no fixed
  order, here they are visited in the order of the keys. Whether \<open>url.Parse\<close> accepts a host is the
  argument \<open>host_ok\<close>. \<open>config_rules\<close> is the specification: each field with the rule it has to meet.
\<close>

definition DefaultConsulAddress :: string where "DefaultConsulAddress = ''127.0.0.1:8500''"
definition DefaultDialTimeout :: duration where "DefaultDialTimeout = 5 * second"
definition DefaultRequestTimeout :: duration where "DefaultRequestTimeout = 10 * second"
definition DefaultWaitTime :: duration where "DefaultWaitTime = 5 * minute"
definition MaxWaitTime :: duration where "MaxWaitTime = 10 * minute"
definition DefaultHealthPath :: string where "DefaultHealthPath = ''/health''"
definition DefaultLivePath :: string where "DefaultLivePath = ''/health/live''"
definition DefaultReadyPath :: string where "DefaultReadyPath = ''/health/ready''"
definition DefaultCheckInterval :: duration where "DefaultCheckInterval = 10 * second"
definition DefaultTimeoutOfCheck :: duration where "DefaultTimeoutOfCheck = 5 * second"
definition DefaultCheckTTL :: duration where "DefaultCheckTTL = 30 * second"
definition DefaultDeregisterCriticalAfter :: duration where "DefaultDeregisterCriticalAfter = minute"
definition MinDeregisterCriticalAfter :: duration where "MinDeregisterCriticalAfter = minute"
definition DefaultRetryInitialDelay :: duration where "DefaultRetryInitialDelay = 500 * millisecond"
definition DefaultRetryMaxDelay :: duration where "DefaultRetryMaxDelay = 30 * second"
definition DefaultRetryMultiplier :: f64 where "DefaultRetryMultiplier = Fin 2"
definition DefaultStartTimeout :: duration where "DefaultStartTimeout = 30 * second"
definition DefaultShutdownTimeout :: duration where "DefaultShutdownTimeout = 10 * second"

lemmas default_defs =
  DefaultConsulAddress_def DefaultDialTimeout_def DefaultRequestTimeout_def DefaultWaitTime_def
  MaxWaitTime_def DefaultHealthPath_def DefaultLivePath_def DefaultReadyPath_def
  DefaultCheckInterval_def DefaultTimeoutOfCheck_def DefaultCheckTTL_def
  DefaultDeregisterCriticalAfter_def MinDeregisterCriticalAfter_def DefaultRetryInitialDelay_def
  DefaultRetryMaxDelay_def DefaultRetryMultiplier_def DefaultStartTimeout_def
  DefaultShutdownTimeout_def

definition IDHostnamePort :: string where "IDHostnamePort = ''hostname-port''"
definition IDRandom :: string where "IDRandom = ''random''"

definition CheckAuto :: string where "CheckAuto = ''auto''"
definition CheckHTTP :: string where "CheckHTTP = ''http''"
definition CheckTCP :: string where "CheckTCP = ''tcp''"
definition CheckTTL :: string where "CheckTTL = ''ttl''"
definition CheckGRPC :: string where "CheckGRPC = ''grpc''"
definition CheckNone :: string where "CheckNone = ''none''"

lemmas check_type_defs =
  CheckAuto_def CheckHTTP_def CheckTCP_def CheckTTL_def CheckGRPC_def CheckNone_def

subsection \<open>Defaults\<close>

definition or_default :: "'a \<Rightarrow> 'a \<Rightarrow> 'a \<Rightarrow> 'a" where
  "or_default zero v d = (if v = zero then d else v)"

fun cmp_first :: "string list \<Rightarrow> string" where
  "cmp_first [] = []"
| "cmp_first (v # vs) = (if v \<noteq> [] then v else cmp_first vs)"

definition default_consul :: "consul_config \<Rightarrow> consul_config" where
  "default_consul c =
     c\<lparr>cc_Address := or_default [] (cc_Address c) DefaultConsulAddress,
       cc_DialTimeout := or_default 0 (cc_DialTimeout c) DefaultDialTimeout,
       cc_RequestTimeout := or_default 0 (cc_RequestTimeout c) DefaultRequestTimeout,
       cc_WaitTime := or_default 0 (cc_WaitTime c) DefaultWaitTime\<rparr>"

definition default_service :: "service_config \<Rightarrow> service_config" where
  "default_service c = c\<lparr>sv_IDStrategy := or_default [] (sv_IDStrategy c) IDHostnamePort\<rparr>"

definition default_health :: "health_config \<Rightarrow> health_config" where
  "default_health h0 =
     (let h1 = (if hc_Enabled h0 \<and> hc_Endpoints h0 = no_endpoints
                then h0\<lparr>hc_Endpoints := \<lparr>he_Health = DefaultHealthPath, he_Live = DefaultLivePath,
                                         he_Ready = DefaultReadyPath\<rparr>\<rparr> else h0);
          h2 = h1\<lparr>hc_Check := or_default [] (hc_Check h1) CheckAuto\<rparr>;
          h3 = (if hc_CheckPath h2 = [] \<and> hc_Enabled h2
                then h2\<lparr>hc_CheckPath := cmp_first [he_Ready (hc_Endpoints h2), he_Health (hc_Endpoints h2)]\<rparr>
                else h2);
          h4 = (if hc_Check h3 = CheckAuto
                then h3\<lparr>hc_Check := (if hc_CheckPath h3 \<noteq> [] then CheckHTTP else CheckTTL)\<rparr> else h3);
          h5 = h4\<lparr>hc_Interval := or_default 0 (hc_Interval h4) DefaultCheckInterval\<rparr>;
          h6 = h5\<lparr>hc_Timeout := or_default 0 (hc_Timeout h5) (min DefaultTimeoutOfCheck (hc_Interval h5))\<rparr>
      in h6\<lparr>hc_TTL := or_default 0 (hc_TTL h6) DefaultCheckTTL,
            hc_Deregister := or_default 0 (hc_Deregister h6) DefaultDeregisterCriticalAfter\<rparr>)"

definition default_retry :: "retry_config \<Rightarrow> retry_config" where
  "default_retry r =
     r\<lparr>rt_InitialDelay := or_default 0 (rt_InitialDelay r) DefaultRetryInitialDelay,
       rt_MaxDelay := or_default 0 (rt_MaxDelay r) DefaultRetryMaxDelay,
       rt_Multiplier := or_default (Fin 0) (rt_Multiplier r) DefaultRetryMultiplier\<rparr>"

definition default_lifecycle :: "lifecycle_config \<Rightarrow> lifecycle_config" where
  "default_lifecycle l =
     l\<lparr>lc_AutoRegister := or_default None (lc_AutoRegister l) (Some True),
       lc_DeregisterOnShutdown := or_default None (lc_DeregisterOnShutdown l) (Some True),
       lc_StartTimeout := or_default 0 (lc_StartTimeout l) DefaultStartTimeout,
       lc_ShutdownTimeout := or_default 0 (lc_ShutdownTimeout l) DefaultShutdownTimeout\<rparr>"

definition apply_defaults :: "config \<Rightarrow> config" where
  "apply_defaults c =
     c\<lparr>cf_Consul := default_consul (cf_Consul c), cf_Service := default_service (cf_Service c),
       cf_Health := default_health (cf_Health c), cf_Retry := default_retry (cf_Retry c),
       cf_Lifecycle := default_lifecycle (cf_Lifecycle c)\<rparr>"

subsection \<open>Validation\<close>

definition squote :: string where
  "squote = [CHR 0x27]"

type_synonym problems = "(string \<times> string) list"

definition problem :: "bool \<Rightarrow> string \<Rightarrow> string \<Rightarrow> problems" where
  "problem bad field reason = (if bad then [(field, reason)] else [])"

text \<open>\<open>strings.ToValidUTF8\<close>: a run of invalid bytes becomes one replacement.\<close>

function to_valid_utf8 :: "bool \<Rightarrow> string \<Rightarrow> string \<Rightarrow> string" where
  "to_valid_utf8 inrun rep s =
     (if s = [] then []
      else (let (r, w) = decode_rune s
            in if r = rune_error \<and> w = 1
               then (if inrun then [] else rep) @ to_valid_utf8 True rep (drop w s)
               else take w s @ to_valid_utf8 False rep (drop w s)))"
  by pat_completeness auto
termination
proof (relation "measure (\<lambda>(_, _, s). length s)")
  show "wf (measure (\<lambda>(_, _, s). length s))" by simp
next
  fix inrun and rep s :: string and x r w
  assume "s \<noteq> []" "x = decode_rune s" "(r, w) = x"
  then have "w = snd (decode_rune s)" by (metis snd_conv)
  with \<open>s \<noteq> []\<close> decode_rune_width [of s]
  show "((True, rep, drop w s), inrun, rep, s) \<in> measure (\<lambda>(_, _, s). length s)"
    "((False, rep, drop w s), inrun, rep, s) \<in> measure (\<lambda>(_, _, s). length s)" by simp_all
qed

declare to_valid_utf8.simps [simp del]

definition validate_consul_address :: "(string \<Rightarrow> bool) \<Rightarrow> string \<Rightarrow> string" where
  "validate_consul_address host_ok addr =
     (let (a, b, found) = cut addr ''://'';
          scheme = (if found then a else []);
          rest = (if found then b else addr);
          host = (case index_byte rest (CHR ''/'') of Some i \<Rightarrow> take i rest | None \<Rightarrow> rest)
      in if scheme = ''unix'' then (if rest = [] then ''unix socket path is empty'' else [])
         else if scheme \<notin> {[], ''http'', ''https''}
         then ''unsupported scheme '' @ to_valid_utf8 False ''?'' scheme
         else if host = [] then ''host is empty''
         else if \<not> host_ok host then ''invalid host''
         else [])"

definition validate_consul :: "(string \<Rightarrow> bool) \<Rightarrow> consul_config \<Rightarrow> problems" where
  "validate_consul host_ok c =
     (let err = validate_consul_address host_ok (cc_Address c) in problem (err \<noteq> []) ''Consul.Address'' err) @
     problem (cc_Scheme c \<notin> {[], ''http'', ''https''}) ''Consul.Scheme'' ''must be \"http\" or \"https\"'' @
     problem (cc_DialTimeout c < 0) ''Consul.DialTimeout'' ''must not be negative'' @
     problem (cc_RequestTimeout c < 0) ''Consul.RequestTimeout'' ''must not be negative'' @
     problem (cc_WaitTime c < 0 \<or> MaxWaitTime < cc_WaitTime c) ''Consul.WaitTime''
       ''must be between 0 and 10m (Consul's maximum)'' @
     problem ((tl_CertFile (cc_TLS c) = []) \<noteq> (tl_KeyFile (cc_TLS c) = [])) ''Consul.TLS''
       ''CertFile and KeyFile must be set together'' @
     problem ((tl_CertPEM (cc_TLS c) \<in> {None, Some []}) \<noteq> (tl_KeyPEM (cc_TLS c) \<in> {None, Some []}))
       ''Consul.TLS'' ''CertPEM and KeyPEM must be set together'' @
     problem (cc_HTTPAuth c \<noteq> [] \<and> CHR '':'' \<notin> set (cc_HTTPAuth c)) ''Consul.HTTPAuth''
       ''must have the form \"user:password\"''"

text \<open>The loop over the ports: the names seen so far and the number of defaults.\<close>

fun validate_ports_loop :: "string list \<Rightarrow> int \<Rightarrow> service_port list \<Rightarrow> problems" where
  "validate_ports_loop names defaults [] =
     problem (defaults \<noteq> 1) ''Service.Ports'' ''exactly one port must be marked Default''"
| "validate_ports_loop names defaults (p # ps) =
     (if sp_Name p = [] \<or> sp_Name p \<in> set names
      then [(''Service.Ports'', ''every port needs a unique, non-empty name'')]
      else problem (sp_Port p < 1 \<or> 65535 < sp_Port p) ''Service.Ports''
             (''port '' @ sp_Name p @ '' must be between 1 and 65535'') @
           validate_ports_loop (sp_Name p # names) (if sp_Default p then defaults + 1 else defaults) ps)"

definition slice_list :: "'a list option \<Rightarrow> 'a list" where
  "slice_list s = (case s of None \<Rightarrow> [] | Some xs \<Rightarrow> xs)"

definition validate_ports :: "service_port list option \<Rightarrow> problems" where
  "validate_ports ports =
     (if slice_list ports = [] then [] else validate_ports_loop [] 0 (slice_list ports))"

definition meta_rune :: "nat \<Rightarrow> bool" where
  "meta_rune r \<longleftrightarrow> 97 \<le> r \<and> r \<le> 122 \<or> 65 \<le> r \<and> r \<le> 90 \<or> 48 \<le> r \<and> r \<le> 57 \<or> r = 95 \<or> r = 45"

definition validate_pair :: "string \<Rightarrow> string \<Rightarrow> problems" where
  "validate_pair k v =
     (if k = [] \<or> 128 < length k then [(''Service.Meta'', ''keys must have 1 to 128 characters'')]
      else if has_prefix k ''consul-''
      then [(''Service.Meta'', ''key '' @ k @ '' uses the prefix \"consul-\", reserved by Consul'')]
      else if list_ex (\<lambda>r. \<not> meta_rune r) (runes k)
      then [(''Service.Meta'', ''key '' @ k @ '' may only contain A-Z, a-z, 0-9, '_' and '-'' @ squote)]
      else []) @
     problem (512 < length v) ''Service.Meta'' (''value of '' @ k @ '' exceeds 512 characters'')"

definition validate_meta :: "(string, string) fmap \<Rightarrow> problems" where
  "validate_meta m =
     problem (56 < fcard (fmdom m)) ''Service.Meta''
       ''at most 56 pairs (Consul allows 64; ConsulX reserves 8 for automatic metadata)'' @
     concat (map (\<lambda>k. validate_pair k (case fmlookup m k of Some v \<Rightarrow> v | None \<Rightarrow> []))
       (sorted_list_of_fset (fmdom m)))"

definition name_chars :: string where
  "name_chars = [CHR ''/'', CHR '' '', CHR 0x09, CHR 0x0D, CHR 0x0A]"

definition validate_service :: "bool \<Rightarrow> service_config \<Rightarrow> problems" where
  "validate_service auto s =
     problem (auto \<and> sv_Name s = []) ''Service.Name''
       ''required when auto-registration is enabled; disable it with WithAutoRegister(false) for discovery-only clients'' @
     problem (sv_Name s \<noteq> [] \<and> contains_any (sv_Name s) name_chars) ''Service.Name''
       ''must not contain '/' or whitespace'' @
     problem (sv_ID s \<noteq> [] \<and> contains_any (sv_ID s) name_chars) ''Service.ID''
       ''must not contain '/' or whitespace'' @
     problem (sv_IDStrategy s \<noteq> IDHostnamePort \<and> sv_IDStrategy s \<noteq> IDRandom) ''Service.IDStrategy''
       ''must be \"hostname-port\" or \"random\"'' @
     problem (sv_Port s < 0 \<or> 65535 < sv_Port s) ''Service.Port'' ''must be between 0 and 65535'' @
     problem (sv_Scheme s \<notin> {[], ''http'', ''https''}) ''Service.Scheme'' ''must be \"http\" or \"https\"'' @
     validate_ports (sv_Ports s) @
     problem (slice_list (sv_Ports s) \<noteq> [] \<and> sv_Port s \<noteq> 0) ''Service.Ports''
       ''Port and Ports are mutually exclusive in Consul; mark the main port as Default instead'' @
     validate_meta (sv_Meta s) @
     (case sv_Weights s of None \<Rightarrow> []
      | Some w \<Rightarrow> problem (sw_Passing w < 1 \<or> sw_Warning w < 0) ''Service.Weights''
                   ''Passing must be >= 1 and Warning >= 0'')"

fun validate_endpoints_loop :: "string list \<Rightarrow> (string \<times> string) list \<Rightarrow> problems" where
  "validate_endpoints_loop seen [] = []"
| "validate_endpoints_loop seen ((field, path) # ps) =
     (if path = [] then validate_endpoints_loop seen ps
      else problem (\<not> has_prefix path ''/'') field (''must start with '/'' @ squote) @
           problem (path \<in> set seen) field ''duplicates another health endpoint'' @
           validate_endpoints_loop (path # seen) ps)"

definition validate_endpoints :: "health_config \<Rightarrow> problems" where
  "validate_endpoints h =
     validate_endpoints_loop []
       [(''Health.Endpoints.Health'', he_Health (hc_Endpoints h)),
        (''Health.Endpoints.Live'', he_Live (hc_Endpoints h)),
        (''Health.Endpoints.Ready'', he_Ready (hc_Endpoints h))]"

definition validate_health :: "health_config \<Rightarrow> problems" where
  "validate_health h =
     problem (hc_Check h \<notin> {CheckHTTP, CheckTCP, CheckTTL, CheckGRPC, CheckNone}) ''Health.Check''
       ''must be one of auto, http, tcp, ttl, grpc, none'' @
     problem (hc_Check h = CheckHTTP \<and> hc_CheckPath h = []) ''Health.CheckPath''
       ''required for HTTP checks when health endpoints are not enabled'' @
     problem (hc_CheckPath h \<noteq> [] \<and> \<not> has_prefix (hc_CheckPath h) ''/'') ''Health.CheckPath''
       (''must start with '/'' @ squote) @
     validate_endpoints h @
     problem (hc_DegradedStatusCode h \<noteq> 0 \<and> (hc_DegradedStatusCode h < 200 \<or> 599 < hc_DegradedStatusCode h))
       ''Health.DegradedStatusCode'' ''must be an HTTP status code between 200 and 599'' @
     problem (hc_Interval h \<le> 0) ''Health.Interval'' ''must be positive'' @
     problem (hc_Timeout h \<le> 0 \<or> hc_Interval h < hc_Timeout h) ''Health.Timeout''
       ''must be positive and not exceed Interval'' @
     problem (hc_TTL h < second) ''Health.TTL'' ''must be at least 1s'' @
     problem (0 < hc_Deregister h \<and> hc_Deregister h < MinDeregisterCriticalAfter)
       ''Health.DeregisterCriticalServiceAfter''
       ''must be at least 1m (Consul's minimum), or negative to disable'' @
     problem (hc_SuccessBeforePassing h < 0 \<or> hc_FailuresBeforeWarning h < 0 \<or> hc_FailuresBeforeCritical h < 0)
       ''Health'' ''flap damping counters must not be negative''"

definition validate_retry :: "retry_config \<Rightarrow> problems" where
  "validate_retry r =
     problem (rt_InitialDelay r < 0 \<or> rt_MaxDelay r < rt_InitialDelay r) ''Retry''
       ''InitialDelay must not be negative and MaxDelay must be >= InitialDelay'' @
     problem (fless (rt_Multiplier r) (Fin 1)) ''Retry.Multiplier'' ''must be >= 1'' @
     problem (rt_MaxAttempts r < 0 \<or> rt_MaxElapsed r < 0) ''Retry''
       ''MaxAttempts and MaxElapsed must not be negative''"

definition validate_kv :: "kv_config \<Rightarrow> problems" where
  "validate_kv k =
     problem (kc_Format k \<notin> {[], ''keyvalue'', ''yaml'', ''json''}) ''KV.Format''
       ''must be \"keyvalue\", \"yaml\" or \"json\"''"

definition validate_lifecycle :: "lifecycle_config \<Rightarrow> problems" where
  "validate_lifecycle l =
     problem (lc_StartTimeout l < 0 \<or> lc_ShutdownTimeout l < 0) ''Lifecycle'' ''timeouts must not be negative''"

text \<open>\<open>*c.Lifecycle.AutoRegister\<close>; the pointer is set by the defaults.\<close>

definition auto_register :: "lifecycle_config \<Rightarrow> bool" where
  "auto_register l = (lc_AutoRegister l = Some True)"

definition config_problems :: "(string \<Rightarrow> bool) \<Rightarrow> config \<Rightarrow> problems" where
  "config_problems host_ok c =
     validate_consul host_ok (cf_Consul c) @
     validate_service (auto_register (cf_Lifecycle c)) (cf_Service c) @
     validate_health (cf_Health c) @ validate_retry (cf_Retry c) @ validate_kv (cf_KV c) @
     validate_lifecycle (cf_Lifecycle c)"

definition validate :: "(string \<Rightarrow> bool) \<Rightarrow> config \<Rightarrow> goerr option" where
  "validate host_ok c = err_or_nil (config_problems host_ok c)"

subsection \<open>Defaults fill gaps\<close>

lemma or_default_idem [simp]: "or_default z (or_default z v d) d = or_default z v d"
  by (simp add: or_default_def)

lemma set_or_default [simp]: "set_field z (or_default z v d) v = or_default z v d"
  by (simp add: set_field_def or_default_def)

lemma slice_or_default [simp]: "set_slice (or_default None v d) v = or_default None v d"
  by (cases v) (simp_all add: set_slice_def or_default_def)

lemma default_check_type: "hc_Check (default_health h) \<notin> {[], CheckAuto}"
  by (auto simp: default_health_def Let_def or_default_def check_type_defs)

text \<open>The fields of the defaulted health section.\<close>

definition final_endpoints :: "health_config \<Rightarrow> health_endpoints" where
  "final_endpoints h =
     (if hc_Enabled h \<and> hc_Endpoints h = no_endpoints
      then \<lparr>he_Health = DefaultHealthPath, he_Live = DefaultLivePath, he_Ready = DefaultReadyPath\<rparr>
      else hc_Endpoints h)"

definition final_path :: "health_config \<Rightarrow> string" where
  "final_path h =
     (if hc_CheckPath h = [] \<and> hc_Enabled h
      then cmp_first [he_Ready (final_endpoints h), he_Health (final_endpoints h)] else hc_CheckPath h)"

definition final_check :: "health_config \<Rightarrow> string" where
  "final_check h =
     (if or_default [] (hc_Check h) CheckAuto = CheckAuto
      then (if final_path h \<noteq> [] then CheckHTTP else CheckTTL) else or_default [] (hc_Check h) CheckAuto)"

lemma default_health_fields:
  "default_health h =
     h\<lparr>hc_Endpoints := final_endpoints h, hc_Check := final_check h, hc_CheckPath := final_path h,
       hc_Interval := or_default 0 (hc_Interval h) DefaultCheckInterval,
       hc_Timeout := or_default 0 (hc_Timeout h)
         (min DefaultTimeoutOfCheck (or_default 0 (hc_Interval h) DefaultCheckInterval)),
       hc_TTL := or_default 0 (hc_TTL h) DefaultCheckTTL,
       hc_Deregister := or_default 0 (hc_Deregister h) DefaultDeregisterCriticalAfter\<rparr>"
  by (cases h) (simp add: default_health_def final_endpoints_def final_path_def final_check_def Let_def)

lemma final_check_kept: "final_check h \<notin> {[], CheckAuto}"
  by (auto simp: final_check_def or_default_def check_type_defs)

lemma default_health_idem: "default_health (default_health h) = default_health h"
proof -
  have e: "final_endpoints (default_health h) = final_endpoints h"
    by (auto simp: default_health_fields final_endpoints_def)
  have p: "final_path (default_health h) = final_path h"
    unfolding final_path_def e by (auto simp: default_health_fields final_path_def)
  have k: "hc_Check (default_health h) = final_check h" by (simp add: default_health_fields)
  have "final_check (default_health h) = final_check h"
    unfolding final_check_def [of "default_health h"] k or_default_def using final_check_kept [of h] by simp
  then show ?thesis
    by (simp add: default_health_fields [of "default_health h"] e p) (simp add: default_health_fields)
qed

lemma default_health_keeps:
  "hc_Check h \<noteq> CheckAuto \<Longrightarrow> overlay_health (default_health h) h = default_health h"
  by (cases h)
    (auto simp: default_health_fields overlay_health_def final_endpoints_def final_path_def final_check_def
      set_field_def or_default_def)

text \<open>
  The defaults only fill gaps: applying them twice is applying them once, and no value a layer
  set is overridden, so laying the configuration again over its defaulted form changes nothing (the
  check type auto, which the defaults resolve, aside). What they leave is never without a check type.
\<close>

theorem defaults_fill_gaps:
  "apply_defaults (apply_defaults c) = apply_defaults c \<and>
   overlay_config (apply_defaults c)
     (c\<lparr>cf_Health := (cf_Health c)\<lparr>hc_Check := (if hc_Check (cf_Health c) = CheckAuto then [] else hc_Check (cf_Health c))\<rparr>\<rparr>) =
     apply_defaults c \<and>
   hc_Check (cf_Health (apply_defaults c)) \<notin> {[], CheckAuto}"
proof -
  let ?h = "cf_Health c"
  let ?h' = "?h\<lparr>hc_Check := (if hc_Check ?h = CheckAuto then [] else hc_Check ?h)\<rparr>"
  have idem: "apply_defaults (apply_defaults c) = apply_defaults c"
    by (cases c) (simp add: apply_defaults_def default_consul_def default_service_def default_retry_def
        default_lifecycle_def default_health_idem)
  have same: "default_health ?h' = default_health ?h"
    by (cases ?h) (simp add: default_health_fields final_check_def final_path_def final_endpoints_def
        or_default_def check_type_defs)
  have "overlay_health (default_health ?h) ?h' = default_health ?h"
    using default_health_keeps [of ?h'] unfolding same by (simp add: check_type_defs)
  then have keep: "overlay_config (apply_defaults c) (c\<lparr>cf_Health := ?h'\<rparr>) = apply_defaults c"
    by (cases c) (simp add: apply_defaults_def overlay_config_def default_consul_def overlay_consul_def
        default_service_def overlay_service_def default_retry_def overlay_retry_def
        default_lifecycle_def overlay_lifecycle_def)
  show ?thesis using idem keep default_check_type by (simp add: apply_defaults_def)
qed

subsection \<open>What validation accepts\<close>

definition valid_ports :: "service_port list \<Rightarrow> bool" where
  "valid_ports ps \<longleftrightarrow>
     ps = [] \<or>
     list_all (\<lambda>p. sp_Name p \<noteq> [] \<and> 1 \<le> sp_Port p \<and> sp_Port p \<le> 65535) ps \<and>
     distinct (map sp_Name ps) \<and> length (filter sp_Default ps) = 1"

definition valid_key :: "string \<Rightarrow> bool" where
  "valid_key k \<longleftrightarrow>
     k \<noteq> [] \<and> length k \<le> 128 \<and> \<not> has_prefix k ''consul-'' \<and> list_all meta_rune (runes k)"

definition valid_meta :: "(string, string) fmap \<Rightarrow> bool" where
  "valid_meta m \<longleftrightarrow> fcard (fmdom m) \<le> 56 \<and> fmpred (\<lambda>k v. valid_key k \<and> length v \<le> 512) m"

definition valid_paths :: "health_endpoints \<Rightarrow> bool" where
  "valid_paths e \<longleftrightarrow>
     (let paths = filter (\<lambda>p. p \<noteq> []) [he_Health e, he_Live e, he_Ready e]
      in list_all (\<lambda>p. has_prefix p ''/'') paths \<and> distinct paths)"

text \<open>
  An address: a socket with a path, or a scheme that may be missing, a host that \<open>url.Parse\<close> takes
  and a path. The empty scheme of \<open>://host\<close> counts as missing.
\<close>

definition consul_address :: "(string \<Rightarrow> bool) \<Rightarrow> string \<Rightarrow> bool" where
  "consul_address host_ok addr \<longleftrightarrow>
     (\<exists>path. path \<noteq> [] \<and> addr = ''unix://'' @ path) \<or>
     (\<exists>scheme host path. addr = scheme @ host @ path \<and>
        (scheme \<in> {''://'', ''http://'', ''https://''} \<or> scheme = [] \<and> (\<nexists>a b. addr = a @ ''://'' @ b)) \<and>
        host \<noteq> [] \<and> CHR ''/'' \<notin> set host \<and> (path = [] \<or> hd path = CHR ''/'') \<and> host_ok host)"

definition valid_consul :: "(string \<Rightarrow> bool) \<Rightarrow> consul_config \<Rightarrow> bool" where
  "valid_consul host_ok c \<longleftrightarrow>
     consul_address host_ok (cc_Address c) \<and> cc_Scheme c \<in> {[], ''http'', ''https''} \<and>
     0 \<le> cc_DialTimeout c \<and> 0 \<le> cc_RequestTimeout c \<and> 0 \<le> cc_WaitTime c \<and>
     cc_WaitTime c \<le> 10 * minute \<and>
     (tl_CertFile (cc_TLS c) = [] \<longleftrightarrow> tl_KeyFile (cc_TLS c) = []) \<and>
     (slice_list (tl_CertPEM (cc_TLS c)) = [] \<longleftrightarrow> slice_list (tl_KeyPEM (cc_TLS c)) = []) \<and>
     (cc_HTTPAuth c = [] \<or> CHR '':'' \<in> set (cc_HTTPAuth c))"

definition valid_service :: "bool \<Rightarrow> service_config \<Rightarrow> bool" where
  "valid_service auto s \<longleftrightarrow>
     (auto \<longrightarrow> sv_Name s \<noteq> []) \<and> \<not> contains_any (sv_Name s) name_chars \<and>
     \<not> contains_any (sv_ID s) name_chars \<and> sv_IDStrategy s \<in> {IDHostnamePort, IDRandom} \<and>
     0 \<le> sv_Port s \<and> sv_Port s \<le> 65535 \<and> sv_Scheme s \<in> {[], ''http'', ''https''} \<and>
     valid_ports (slice_list (sv_Ports s)) \<and> (slice_list (sv_Ports s) = [] \<or> sv_Port s = 0) \<and>
     valid_meta (sv_Meta s) \<and>
     (case sv_Weights s of None \<Rightarrow> True | Some w \<Rightarrow> 1 \<le> sw_Passing w \<and> 0 \<le> sw_Warning w)"

definition valid_health :: "health_config \<Rightarrow> bool" where
  "valid_health h \<longleftrightarrow>
     hc_Check h \<in> {CheckHTTP, CheckTCP, CheckTTL, CheckGRPC, CheckNone} \<and>
     (hc_Check h = CheckHTTP \<longrightarrow> hc_CheckPath h \<noteq> []) \<and>
     (hc_CheckPath h = [] \<or> has_prefix (hc_CheckPath h) ''/'') \<and> valid_paths (hc_Endpoints h) \<and>
     (hc_DegradedStatusCode h = 0 \<or> 200 \<le> hc_DegradedStatusCode h \<and> hc_DegradedStatusCode h \<le> 599) \<and>
     0 < hc_Timeout h \<and> hc_Timeout h \<le> hc_Interval h \<and> second \<le> hc_TTL h \<and>
     (hc_Deregister h \<le> 0 \<or> minute \<le> hc_Deregister h) \<and> 0 \<le> hc_SuccessBeforePassing h \<and>
     0 \<le> hc_FailuresBeforeWarning h \<and> 0 \<le> hc_FailuresBeforeCritical h"

definition valid_retry :: "retry_config \<Rightarrow> bool" where
  "valid_retry r \<longleftrightarrow>
     0 \<le> rt_InitialDelay r \<and> rt_InitialDelay r \<le> rt_MaxDelay r \<and> \<not> fless (rt_Multiplier r) (Fin 1) \<and>
     0 \<le> rt_MaxAttempts r \<and> 0 \<le> rt_MaxElapsed r"

definition valid_config :: "(string \<Rightarrow> bool) \<Rightarrow> config \<Rightarrow> bool" where
  "valid_config host_ok c \<longleftrightarrow>
     valid_consul host_ok (cf_Consul c) \<and>
     valid_service (auto_register (cf_Lifecycle c)) (cf_Service c) \<and> valid_health (cf_Health c) \<and>
     valid_retry (cf_Retry c) \<and> kc_Format (cf_KV c) \<in> {[], ''keyvalue'', ''yaml'', ''json''} \<and>
     0 \<le> lc_StartTimeout (cf_Lifecycle c) \<and> 0 \<le> lc_ShutdownTimeout (cf_Lifecycle c)"

lemma problem_Nil [simp]: "problem b f r = [] \<longleftrightarrow> \<not> b"
  by (simp add: problem_def)

lemma ports_loop_Nil:
  "validate_ports_loop names d ps = [] \<longleftrightarrow>
     list_all (\<lambda>p. sp_Name p \<noteq> [] \<and> 1 \<le> sp_Port p \<and> sp_Port p \<le> 65535) ps \<and>
     distinct (map sp_Name ps) \<and> set (map sp_Name ps) \<inter> set names = {} \<and>
     d + int (length (filter sp_Default ps)) = 1"
  by (induction names d ps rule: validate_ports_loop.induct) (auto simp: not_less)

lemma validate_ports_Nil: "validate_ports ps = [] \<longleftrightarrow> valid_ports (slice_list ps)"
  by (auto simp: validate_ports_def valid_ports_def ports_loop_Nil)

lemma validate_pair_Nil: "validate_pair k v = [] \<longleftrightarrow> valid_key k \<and> length v \<le> 512"
  by (auto simp: validate_pair_def valid_key_def list_all_iff list_ex_iff not_less)

lemma validate_meta_Nil: "validate_meta m = [] \<longleftrightarrow> valid_meta m"
proof -
  have s: "set (sorted_list_of_fset (fmdom m)) = fset (fmdom m)" by (simp add: sorted_list_of_fset.rep_eq)
  have "(\<forall>k\<in>fset (fmdom m). validate_pair k (case fmlookup m k of Some v \<Rightarrow> v | None \<Rightarrow> []) = []) \<longleftrightarrow>
      fmpred (\<lambda>k v. valid_key k \<and> length v \<le> 512) m"
    (is "?l \<longleftrightarrow> ?r")
  proof
    assume l: ?l
    show ?r unfolding fmpred_iff
    proof (intro allI impI)
      fix k v assume k: "fmlookup m k = Some v"
      then have "k \<in> fset (fmdom m)" by (rule fmdomI)
      with l have "validate_pair k (case fmlookup m k of Some v \<Rightarrow> v | None \<Rightarrow> []) = []" by blast
      then show "valid_key k \<and> length v \<le> 512" by (simp add: k validate_pair_Nil)
    qed
  next
    assume r: ?r
    show ?l
    proof
      fix k assume "k \<in> fset (fmdom m)"
      then obtain v where "fmlookup m k = Some v" by (auto simp: fmlookup_dom_iff)
      with r show "validate_pair k (case fmlookup m k of Some v \<Rightarrow> v | None \<Rightarrow> []) = []"
        by (simp add: fmpred_iff validate_pair_Nil)
    qed
  qed
  then show ?thesis by (simp add: validate_meta_def valid_meta_def s not_less)
qed

lemma endpoints_loop_Nil:
  "validate_endpoints_loop seen ps = [] \<longleftrightarrow>
     (let paths = filter (\<lambda>p. p \<noteq> []) (map snd ps)
      in list_all (\<lambda>p. has_prefix p ''/'') paths \<and> distinct paths \<and> set paths \<inter> set seen = {})"
  by (induction seen ps rule: validate_endpoints_loop.induct) (auto simp: Let_def)

lemma validate_endpoints_Nil: "validate_endpoints h = [] \<longleftrightarrow> valid_paths (hc_Endpoints h)"
  unfolding validate_endpoints_def valid_paths_def endpoints_loop_Nil
  by (simp only: list.map snd_conv list.set Int_empty_right simp_thms Let_def)

text \<open>What precedes the path.\<close>

lemma host_part:
  "(case index_byte rest (CHR ''/'') of Some i \<Rightarrow> take i rest | None \<Rightarrow> rest) = host \<longleftrightarrow>
     CHR ''/'' \<notin> set host \<and> (\<exists>path. rest = host @ path \<and> (path = [] \<or> hd path = CHR ''/''))"
proof (cases "index_byte rest (CHR ''/'')")
  case None
  then have "CHR ''/'' \<notin> set rest" by (simp add: index_byte_None)
  moreover have "path = []" if "CHR ''/'' \<notin> set rest" "rest = h @ path" "path = [] \<or> hd path = CHR ''/''" for h path
    using that by (cases path) auto
  ultimately show ?thesis using None by auto
next
  case (Some i)
  note k = index_byte_Some [OF this]
  have split: "rest = take i rest @ drop i rest" "hd (drop i rest) = CHR ''/''" using k by (simp_all add: hd_drop_conv_nth)
  have only: "take i rest = h" if "CHR ''/'' \<notin> set h" "rest = h @ path" "path = [] \<or> hd path = CHR ''/''" for h path
    using that Some index_byte_append [of "CHR ''/''" h] by (cases path) (auto simp: index_byte_None [symmetric])
  show ?thesis
  proof
    assume "(case index_byte rest (CHR ''/'') of Some i \<Rightarrow> take i rest | None \<Rightarrow> rest) = host"
    then show "CHR ''/'' \<notin> set host \<and> (\<exists>path. rest = host @ path \<and> (path = [] \<or> hd path = CHR ''/''))"
      using Some k split by auto
  next
    assume "CHR ''/'' \<notin> set host \<and> (\<exists>path. rest = host @ path \<and> (path = [] \<or> hd path = CHR ''/''))"
    then show "(case index_byte rest (CHR ''/'') of Some i \<Rightarrow> take i rest | None \<Rightarrow> rest) = host"
      using Some only [of host] by fastforce
  qed
qed

lemma cut_scheme:
  "cut (''unix://'' @ r) ''://'' = (''unix'', r, True)" "cut (''http://'' @ r) ''://'' = (''http'', r, True)"
  "cut (''https://'' @ r) ''://'' = (''https'', r, True)" "cut (''://'' @ r) ''://'' = ([], r, True)"
  by simp_all

lemma address_found:
  assumes c: "cut addr ''://'' = (a, b, True)"
    and h: "h = (case index_byte b (CHR ''/'') of Some i \<Rightarrow> take i b | None \<Rightarrow> b)"
  shows "validate_consul_address host_ok addr = [] \<longleftrightarrow>
    a = ''unix'' \<and> b \<noteq> [] \<or> a \<in> {[], ''http'', ''https''} \<and> h \<noteq> [] \<and> host_ok h"
proof -
  consider "a = ''unix''" | "a \<in> {[], ''http'', ''https''}" | "a \<notin> {''unix'', [], ''http'', ''https''}" by blast
  then show ?thesis
  proof cases
    case 1
    then show ?thesis by (simp add: validate_consul_address_def c)
  next
    case 2
    then have "a \<noteq> ''unix''" by auto
    then show ?thesis using 2 unfolding validate_consul_address_def c Let_def prod.case if_True h [symmetric] by simp
  next
    case 3
    then show ?thesis by (simp add: validate_consul_address_def c)
  qed
qed

lemma validate_consul_address_Nil: "validate_consul_address host_ok addr = [] \<longleftrightarrow> consul_address host_ok addr"
proof -
  obtain a b found where c: "cut addr ''://'' = (a, b, found)" by (metis prod.collapse)
  let ?host = "\<lambda>rest. case index_byte rest (CHR ''/'') of Some i \<Rightarrow> take i rest | None \<Rightarrow> rest"
  have host: "?host rest \<noteq> [] \<and> host_ok (?host rest) \<longleftrightarrow>
      (\<exists>host path. rest = host @ path \<and> host \<noteq> [] \<and> CHR ''/'' \<notin> set host \<and> (path = [] \<or> hd path = CHR ''/'') \<and> host_ok host)"
    for rest
  proof
    assume a: "?host rest \<noteq> [] \<and> host_ok (?host rest)"
    define h where "h = ?host rest"
    obtain p where "CHR ''/'' \<notin> set h" "rest = h @ p" "p = [] \<or> hd p = CHR ''/''"
      using host_part [of rest h] unfolding h_def by blast
    then show "\<exists>host path. rest = host @ path \<and> host \<noteq> [] \<and> CHR ''/'' \<notin> set host \<and>
        (path = [] \<or> hd path = CHR ''/'') \<and> host_ok host" using a unfolding h_def [symmetric] by blast
  next
    assume "\<exists>host path. rest = host @ path \<and> host \<noteq> [] \<and> CHR ''/'' \<notin> set host \<and> (path = [] \<or> hd path = CHR ''/'') \<and> host_ok host"
    then obtain h p where h: "rest = h @ p" "h \<noteq> []" "CHR ''/'' \<notin> set h" "p = [] \<or> hd p = CHR ''/''" "host_ok h" by auto
    have "?host rest = h" unfolding host_part using h by simp
    with h show "?host rest \<noteq> [] \<and> host_ok (?host rest)" by simp
  qed
  show ?thesis
  proof (cases found)
    case True
    have c: "cut addr ''://'' = (a, b, True)" using c True by simp
    note addr = cut_found [OF c]
    have v: "validate_consul_address host_ok addr = [] \<longleftrightarrow>
        a = ''unix'' \<and> b \<noteq> [] \<or> a \<in> {[], ''http'', ''https''} \<and> ?host b \<noteq> [] \<and> host_ok (?host b)"
      by (rule address_found [OF c refl])
    show ?thesis
    proof
      assume "validate_consul_address host_ok addr = []"
      then consider "a = ''unix''" "b \<noteq> []"
        | h p where "a \<in> {[], ''http'', ''https''}" "b = h @ p" "h \<noteq> []" "CHR ''/'' \<notin> set h" "p = [] \<or> hd p = CHR ''/''" "host_ok h"
        unfolding v host by (elim disjE exE conjE) blast+
      then show "consul_address host_ok addr"
      proof cases
        case 1
        then show ?thesis by (simp add: consul_address_def addr)
      next
        case 2
        then have "addr = (a @ ''://'') @ h @ p" "a @ ''://'' \<in> {''://'', ''http://'', ''https://''}" using addr by auto
        then show ?thesis unfolding consul_address_def using 2(3-6) by (intro disjI2 exI [of _ "a @ ''://''"] exI [of _ h] exI [of _ p]) simp
      qed
    next
      assume "consul_address host_ok addr"
      then consider p where "p \<noteq> []" "addr = ''unix://'' @ p"
        | z h p where "addr = z @ h @ p" "z \<in> {''://'', ''http://'', ''https://''}"
            "h \<noteq> []" "CHR ''/'' \<notin> set h" "p = [] \<or> hd p = CHR ''/''" "host_ok h"
        unfolding consul_address_def using addr by blast
      then show "validate_consul_address host_ok addr = []"
      proof cases
        case 1
        then show ?thesis using c cut_scheme(1) [of p] unfolding v by simp
      next
        case 2
        then have "b = h @ p" "a \<in> {[], ''http'', ''https''}"
          using c cut_scheme(2-4) [of "h @ p"] by auto
        with 2 show ?thesis unfolding v host by blast
      qed
    qed
  next
    case False
    have c: "cut addr ''://'' = (a, b, False)" using c False by simp
    note none = cut_absent [OF c]
    have "validate_consul_address host_ok addr = [] \<longleftrightarrow> ?host addr \<noteq> [] \<and> host_ok (?host addr)"
      by (simp add: validate_consul_address_def c Let_def)
    moreover have "consul_address host_ok addr \<longleftrightarrow>
        (\<exists>h p. addr = h @ p \<and> h \<noteq> [] \<and> CHR ''/'' \<notin> set h \<and> (p = [] \<or> hd p = CHR ''/'') \<and> host_ok h)"
      (is "_ \<longleftrightarrow> ?r")
    proof
      assume "consul_address host_ok addr"
      then consider p where "addr = ''unix'' @ ''://'' @ p"
        | z h p where "addr = z @ h @ p" "z \<in> {''://'', ''http://'', ''https://''} \<or> z = []"
            "h \<noteq> []" "CHR ''/'' \<notin> set h" "p = [] \<or> hd p = CHR ''/''" "host_ok h"
        unfolding consul_address_def by (elim disjE exE conjE) (simp, blast+)
      then show ?r
      proof cases
        case 1
        then show ?thesis using none by blast
      next
        case 2
        have "z \<noteq> ''://''" "z \<noteq> ''http://''" "z \<noteq> ''https://''"
          using 2(1) none [of "[]" "h @ p"] none [of "''http''" "h @ p"] none [of "''https''" "h @ p"] by auto
        then have "addr = h @ p" using 2(1,2) by simp
        then show ?thesis using 2(3-6) by blast
      qed
    next
      assume ?r
      then show "consul_address host_ok addr" unfolding consul_address_def using none by (metis append_Nil)
    qed
    ultimately show ?thesis unfolding host by simp
  qed
qed

lemma slice_list_empty: "x \<in> {None, Some []} \<longleftrightarrow> slice_list x = []"
  by (cases x) (simp_all add: slice_list_def)

lemma validate_consul_Nil: "validate_consul host_ok c = [] \<longleftrightarrow> valid_consul host_ok c"
  unfolding validate_consul_def valid_consul_def slice_list_empty Let_def
  by (simp add: validate_consul_address_Nil MaxWaitTime_def not_less del: insert_iff)

lemma contains_any_Nil [simp]: "\<not> contains_any [] cs"
  by (simp add: contains_any_def)

lemma validate_service_Nil: "validate_service auto s = [] \<longleftrightarrow> valid_service auto s"
  by (auto simp: validate_service_def valid_service_def validate_ports_Nil validate_meta_Nil not_less
      split: option.splits)

lemma validate_health_Nil: "validate_health h = [] \<longleftrightarrow> valid_health h"
  by (auto simp: validate_health_def valid_health_def validate_endpoints_Nil MinDeregisterCriticalAfter_def
      not_less)

lemma validate_retry_Nil: "validate_retry r = [] \<longleftrightarrow> valid_retry r"
  by (auto simp: validate_retry_def valid_retry_def not_less)

lemma config_problems_Nil: "config_problems host_ok c = [] \<longleftrightarrow> valid_config host_ok c"
  by (auto simp: config_problems_def valid_config_def validate_consul_Nil validate_service_Nil
      validate_health_Nil validate_retry_Nil validate_kv_def validate_lifecycle_def not_less)

lemma validate_None: "validate host_ok c = None \<longleftrightarrow> valid_config host_ok c"
  by (simp add: validate_def err_or_nil_def config_problems_Nil)

lemma validate_Some: "validate host_ok c = Some e \<Longrightarrow> errors_is e ErrInvalidConfiguration"
proof -
  assume "validate host_ok c = Some e"
  then have p: "config_problems host_ok c \<noteq> []" and e: "e = ConfigErrors (config_problems host_ok c)"
    by (auto simp: validate_def err_or_nil_def split: if_splits)
  show ?thesis unfolding e using p by (rule config_errors_is_invalid)
qed

subsection \<open>What validation reports\<close>

text \<open>The fields, each with the rule it has to meet.\<close>

type_synonym rules = "(string \<times> bool) list"

definition consul_rules :: "(string \<Rightarrow> bool) \<Rightarrow> consul_config \<Rightarrow> rules" where
  "consul_rules host_ok c =
     [(''Consul.Address'', consul_address host_ok (cc_Address c)),
      (''Consul.Scheme'', cc_Scheme c \<in> {[], ''http'', ''https''}),
      (''Consul.DialTimeout'', 0 \<le> cc_DialTimeout c),
      (''Consul.RequestTimeout'', 0 \<le> cc_RequestTimeout c),
      (''Consul.WaitTime'', 0 \<le> cc_WaitTime c \<and> cc_WaitTime c \<le> 10 * minute),
      (''Consul.TLS'', (tl_CertFile (cc_TLS c) = [] \<longleftrightarrow> tl_KeyFile (cc_TLS c) = []) \<and>
         (slice_list (tl_CertPEM (cc_TLS c)) = [] \<longleftrightarrow> slice_list (tl_KeyPEM (cc_TLS c)) = [])),
      (''Consul.HTTPAuth'', cc_HTTPAuth c = [] \<or> CHR '':'' \<in> set (cc_HTTPAuth c))]"

definition service_rules :: "bool \<Rightarrow> service_config \<Rightarrow> rules" where
  "service_rules auto s =
     [(''Service.Name'', (auto \<longrightarrow> sv_Name s \<noteq> []) \<and> \<not> contains_any (sv_Name s) name_chars),
      (''Service.ID'', \<not> contains_any (sv_ID s) name_chars),
      (''Service.IDStrategy'', sv_IDStrategy s \<in> {IDHostnamePort, IDRandom}),
      (''Service.Port'', 0 \<le> sv_Port s \<and> sv_Port s \<le> 65535),
      (''Service.Scheme'', sv_Scheme s \<in> {[], ''http'', ''https''}),
      (''Service.Ports'', valid_ports (slice_list (sv_Ports s)) \<and> (slice_list (sv_Ports s) = [] \<or> sv_Port s = 0)),
      (''Service.Meta'', valid_meta (sv_Meta s)),
      (''Service.Weights'', case sv_Weights s of None \<Rightarrow> True | Some w \<Rightarrow> 1 \<le> sw_Passing w \<and> 0 \<le> sw_Warning w)]"

definition health_rules :: "health_config \<Rightarrow> rules" where
  "health_rules h =
     (let a = he_Health (hc_Endpoints h); b = he_Live (hc_Endpoints h); r = he_Ready (hc_Endpoints h)
      in [(''Health.Check'', hc_Check h \<in> {CheckHTTP, CheckTCP, CheckTTL, CheckGRPC, CheckNone}),
          (''Health.CheckPath'', (hc_Check h = CheckHTTP \<longrightarrow> hc_CheckPath h \<noteq> []) \<and>
             (hc_CheckPath h = [] \<or> has_prefix (hc_CheckPath h) ''/'')),
          (''Health.Endpoints.Health'', a = [] \<or> has_prefix a ''/''),
          (''Health.Endpoints.Live'', b = [] \<or> has_prefix b ''/'' \<and> b \<noteq> a),
          (''Health.Endpoints.Ready'', r = [] \<or> has_prefix r ''/'' \<and> r \<noteq> a \<and> r \<noteq> b),
          (''Health.DegradedStatusCode'',
             hc_DegradedStatusCode h = 0 \<or> 200 \<le> hc_DegradedStatusCode h \<and> hc_DegradedStatusCode h \<le> 599),
          (''Health.Interval'', 0 < hc_Interval h),
          (''Health.Timeout'', 0 < hc_Timeout h \<and> hc_Timeout h \<le> hc_Interval h),
          (''Health.TTL'', second \<le> hc_TTL h),
          (''Health.DeregisterCriticalServiceAfter'', hc_Deregister h \<le> 0 \<or> minute \<le> hc_Deregister h),
          (''Health'', 0 \<le> hc_SuccessBeforePassing h \<and> 0 \<le> hc_FailuresBeforeWarning h \<and>
             0 \<le> hc_FailuresBeforeCritical h)])"

definition other_rules :: "config \<Rightarrow> rules" where
  "other_rules c =
     [(''Retry'', 0 \<le> rt_InitialDelay (cf_Retry c) \<and> rt_InitialDelay (cf_Retry c) \<le> rt_MaxDelay (cf_Retry c) \<and>
         0 \<le> rt_MaxAttempts (cf_Retry c) \<and> 0 \<le> rt_MaxElapsed (cf_Retry c)),
      (''Retry.Multiplier'', \<not> fless (rt_Multiplier (cf_Retry c)) (Fin 1)),
      (''KV.Format'', kc_Format (cf_KV c) \<in> {[], ''keyvalue'', ''yaml'', ''json''}),
      (''Lifecycle'', 0 \<le> lc_StartTimeout (cf_Lifecycle c) \<and> 0 \<le> lc_ShutdownTimeout (cf_Lifecycle c))]"

definition config_rules :: "(string \<Rightarrow> bool) \<Rightarrow> config \<Rightarrow> rules" where
  "config_rules host_ok c =
     consul_rules host_ok (cf_Consul c) @ service_rules (auto_register (cf_Lifecycle c)) (cf_Service c) @
     health_rules (cf_Health c) @ other_rules c"

definition broken :: "rules \<Rightarrow> string set" where
  "broken rs = fst ` set (filter (\<lambda>r. \<not> snd r) rs)"

lemma broken_simps [simp]:
  "broken [] = {}" "broken ((f, ok) # rs) = (if ok then {} else {f}) \<union> broken rs"
  "broken (rs @ rs') = broken rs \<union> broken rs'"
  by (auto simp: broken_def)

definition reported :: "problems \<Rightarrow> string set" where
  "reported ps = fst ` set ps"

lemma reported_simps [simp]:
  "reported [] = {}" "reported ((f, r) # ps) = insert f (reported ps)" "reported (ps @ qs) = reported ps \<union> reported qs"
  "reported (problem b f r) = (if b then {f} else {})"
  by (auto simp: reported_def problem_def)

lemma reported_only: "reported ps \<subseteq> {f} \<Longrightarrow> reported ps = (if ps = [] then {} else {f})"
  by (cases ps) (auto simp: reported_def)

lemma reported_ports: "reported (validate_ports ps) = (if valid_ports (slice_list ps) then {} else {''Service.Ports''})"
proof -
  have "reported (validate_ports_loop n d qs) \<subseteq> {''Service.Ports''}" for n d qs
    by (induction n d qs rule: validate_ports_loop.induct) auto
  then have "reported (validate_ports ps) \<subseteq> {''Service.Ports''}" by (simp add: validate_ports_def)
  from reported_only [OF this] show ?thesis by (simp add: validate_ports_Nil)
qed

lemma reported_meta: "reported (validate_meta m) = (if valid_meta m then {} else {''Service.Meta''})"
proof -
  have "reported (validate_pair k v) \<subseteq> {''Service.Meta''}" for k v by (simp add: validate_pair_def)
  then have "reported (concat (map (\<lambda>k. validate_pair k (f k)) ks)) \<subseteq> {''Service.Meta''}" for f ks
    by (induction ks) auto
  then have "reported (validate_meta m) \<subseteq> {''Service.Meta''}" by (simp add: validate_meta_def)
  from reported_only [OF this] show ?thesis by (simp add: validate_meta_Nil)
qed

text \<open>One rule after the other, a field with two problems as one rule.\<close>

lemma report_rule:
  "(bad \<longleftrightarrow> \<not> ok) \<Longrightarrow> reported ps = broken rs \<Longrightarrow> reported (problem bad f r @ ps) = broken ((f, ok) # rs)"
  "(bad \<or> bad' \<longleftrightarrow> \<not> ok) \<Longrightarrow> reported ps = broken rs \<Longrightarrow>
     reported (problem bad f r @ problem bad' f r' @ ps) = broken ((f, ok) # rs)"
  "reported qs = (if ok then {} else {f}) \<Longrightarrow> reported ps = broken rs \<Longrightarrow> reported (qs @ ps) = broken ((f, ok) # rs)"
  "reported qs = (if ok' then {} else {f}) \<Longrightarrow> (bad \<or> \<not> ok' \<longleftrightarrow> \<not> ok) \<Longrightarrow> reported ps = broken rs \<Longrightarrow>
     reported (qs @ problem bad f r @ ps) = broken ((f, ok) # rs)"
  "(bad \<longleftrightarrow> \<not> ok) \<Longrightarrow> reported (problem bad f r) = broken [(f, ok)]"
  by auto

lemma reported_consul: "reported (validate_consul host_ok c) = broken (consul_rules host_ok c)"
  unfolding validate_consul_def consul_rules_def Let_def validate_consul_address_Nil slice_list_empty
  by (intro report_rule(1) [of _ _ _ _ "''Consul.Address''"] report_rule(1) [of _ _ _ _ "''Consul.Scheme''"]
      report_rule(1) [of _ _ _ _ "''Consul.DialTimeout''"] report_rule(1) [of _ _ _ _ "''Consul.RequestTimeout''"]
      report_rule(1) [of _ _ _ _ "''Consul.WaitTime''"] report_rule(2) report_rule(5))
    (simp_all add: MaxWaitTime_def not_less not_le disj_commute del: insert_iff)

lemma contains_name: "s \<noteq> [] \<and> contains_any s name_chars \<longleftrightarrow> contains_any s name_chars"
  by auto

lemma reported_weights:
  "reported (case w of None \<Rightarrow> [] | Some w \<Rightarrow> problem (sw_Passing w < 1 \<or> sw_Warning w < 0) f r) =
     broken [(f, case w of None \<Rightarrow> True | Some w \<Rightarrow> 1 \<le> sw_Passing w \<and> 0 \<le> sw_Warning w)]"
  by (cases w) auto

lemma reported_service: "reported (validate_service auto s) = broken (service_rules auto s)"
  unfolding validate_service_def service_rules_def contains_name
  by (intro report_rule(2) report_rule(1) [of _ _ _ _ "''Service.ID''"] report_rule(1) [of _ _ _ _ "''Service.IDStrategy''"]
      report_rule(1) [of _ _ _ _ "''Service.Port''"] report_rule(1) [of _ _ _ _ "''Service.Scheme''"]
      report_rule(4) [OF reported_ports] report_rule(3) [OF reported_meta] reported_weights)
    (auto simp: not_le)

lemma reported_endpoints:
  "reported (validate_endpoints h @ ps) =
     broken [(''Health.Endpoints.Health'', he_Health (hc_Endpoints h) = [] \<or> has_prefix (he_Health (hc_Endpoints h)) ''/''),
      (''Health.Endpoints.Live'', he_Live (hc_Endpoints h) = [] \<or>
         has_prefix (he_Live (hc_Endpoints h)) ''/'' \<and> he_Live (hc_Endpoints h) \<noteq> he_Health (hc_Endpoints h)),
      (''Health.Endpoints.Ready'', he_Ready (hc_Endpoints h) = [] \<or>
         has_prefix (he_Ready (hc_Endpoints h)) ''/'' \<and> he_Ready (hc_Endpoints h) \<noteq> he_Health (hc_Endpoints h) \<and>
         he_Ready (hc_Endpoints h) \<noteq> he_Live (hc_Endpoints h))] \<union> reported ps"
  by (cases "he_Health (hc_Endpoints h) = []"; cases "he_Live (hc_Endpoints h) = []"; cases "he_Ready (hc_Endpoints h) = []")
    (simp_all add: validate_endpoints_def)

lemma broken_Cons3: "broken (a # b # c # rs) = broken [a, b, c] \<union> broken rs"
  by (cases a; cases b; cases c) auto

lemma reported_health: "reported (validate_health h) = broken (health_rules h)"
proof -
  let ?a = "he_Health (hc_Endpoints h)" and ?b = "he_Live (hc_Endpoints h)" and ?r = "he_Ready (hc_Endpoints h)"
  have "reported (validate_endpoints h @ ps) =
      broken ((''Health.Endpoints.Health'', ?a = [] \<or> has_prefix ?a ''/'') #
       (''Health.Endpoints.Live'', ?b = [] \<or> has_prefix ?b ''/'' \<and> ?b \<noteq> ?a) #
       (''Health.Endpoints.Ready'', ?r = [] \<or> has_prefix ?r ''/'' \<and> ?r \<noteq> ?a \<and> ?r \<noteq> ?b) # rs)"
    if "reported ps = broken rs" for ps rs
    unfolding broken_Cons3 [of _ _ _ rs] reported_endpoints that ..
  note endpoints = this
  show ?thesis
    unfolding validate_health_def health_rules_def Let_def
    by (intro report_rule(2) [of _ _ _ _ _ "''Health.CheckPath''"] report_rule(1) [of _ _ _ _ "''Health.Check''"] endpoints
        report_rule(1) [of _ _ _ _ "''Health.DegradedStatusCode''"] report_rule(1) [of _ _ _ _ "''Health.Interval''"]
        report_rule(1) [of _ _ _ _ "''Health.Timeout''"] report_rule(1) [of _ _ _ _ "''Health.TTL''"]
        report_rule(1) [of _ _ _ _ "''Health.DeregisterCriticalServiceAfter''"] report_rule(5))
      (auto simp: not_le not_less MinDeregisterCriticalAfter_def simp del: insert_iff)
qed

lemma reported_other:
  "reported (validate_retry (cf_Retry c) @ validate_kv (cf_KV c) @ validate_lifecycle (cf_Lifecycle c)) = broken (other_rules c)"
  by (auto simp: validate_retry_def validate_kv_def validate_lifecycle_def other_rules_def not_le simp del: insert_iff)

lemma reported_config: "reported (config_problems host_ok c) = broken (config_rules host_ok c)"
  using reported_other [of c]
  by (simp only: config_problems_def config_rules_def reported_simps(3) broken_simps(3) reported_consul reported_service
      reported_health)

lemma valid_unbroken: "valid_config host_ok c \<longleftrightarrow> broken (config_rules host_ok c) = {}"
  unfolding reported_config [symmetric] config_problems_Nil [symmetric] by (simp add: reported_def)

lemma validate_parts:
  "validate host_ok c = Some e \<Longrightarrow> broken (config_rules host_ok c) \<noteq> {} \<and>
     (\<exists>ps. e = ConfigErrors ps \<and> reported ps = broken (config_rules host_ok c))"
  unfolding reported_config [symmetric] by (auto simp: validate_def err_or_nil_def reported_def split: if_splits)

text \<open>Not every problem, though: the ports are checked up to the first without a name of its own.\<close>

lemma ports_stop_early:
  "validate_ports (Some (\<lparr>sp_Name = [], sp_Port = 0, sp_Default = False\<rparr> # ps)) =
     [(''Service.Ports'', ''every port needs a unique, non-empty name'')]"
  by (simp add: validate_ports_def slice_list_def)

text \<open>
  C19. Validation accepts exactly the configurations that meet every rule: addresses and schemes,
  timeouts, key pairs, names, a port or named ports with unique names and exactly one default, Consul's
  limits on metadata, health endpoints and check settings, and the retry bounds. Otherwise it returns
  one error, which matches \<open>ErrInvalidConfiguration\<close> and names every field that breaks its rule and no other
  field, whatever other fields break theirs.
\<close>

theorem validate_exact:
  "case validate host_ok c of
     None \<Rightarrow> valid_config host_ok c \<and> broken (config_rules host_ok c) = {}
   | Some e \<Rightarrow> \<not> valid_config host_ok c \<and> errors_is e ErrInvalidConfiguration \<and>
       (\<exists>ps. e = ConfigErrors ps \<and> ps \<noteq> [] \<and> reported ps = broken (config_rules host_ok c))"
  using config_errors_is_invalid [of "config_problems host_ok c"] config_problems_Nil [of host_ok c]
    reported_config [of host_ok c]
  by (auto simp: validate_def err_or_nil_def split: option.splits)

end
