(* ===== verification/GoNet.thy ===== *)
theory GoNet
  imports GoStrings
begin

text \<open>
  The parts of Go's \<open>net\<close> and \<open>net/netip\<close> packages the address code calls: \<open>net.SplitHostPort\<close>,
  \<open>netip.ParseAddr\<close>, \<open>netip.ParsePrefix\<close>, \<open>Addr.String\<close> and the classification of addresses. An
  address is its 4 or 16 bytes; an IPv6 address has a zone. Case mapping outside ASCII is the
  parameter \<open>ulow\<close>, as in \<open>GoStrings\<close>.
\<close>

subsection \<open>Case mapping\<close>

definition encode_rune :: "nat \<Rightarrow> string" where
  "encode_rune r =
     map char_of
       (if r < 128 then [r]
        else if r < 2048 then [192 + r div 64, 128 + r mod 64]
        else if r < 65536 then [224 + r div 4096, 128 + r div 64 mod 64, 128 + r mod 64]
        else [240 + r div 262144, 128 + r div 4096 mod 64, 128 + r div 64 mod 64, 128 + r mod 64])"

definition to_lower :: "(nat \<Rightarrow> nat) \<Rightarrow> string \<Rightarrow> string" where
  "to_lower ulow s = concat (map (\<lambda>r. encode_rune (to_lower_rune ulow r)) (runes s))"

subsection \<open>Host and port\<close>

definition last_index_byte :: "string \<Rightarrow> char \<Rightarrow> nat option" where
  "last_index_byte s d =
     (case index_byte (rev s) d of None \<Rightarrow> None | Some i \<Rightarrow> Some (length s - 1 - i))"

definition split_host_port :: "string \<Rightarrow> (string, string \<times> string) outcome" where
  "split_host_port hp =
     (case last_index_byte hp (CHR '':'') of
        None \<Rightarrow> Inl ''missing port in address''
      | Some i \<Rightarrow>
        let (r :: (string, string \<times> string \<times> string) outcome) =
          (if hd hp = CHR ''['' then
             (case index_byte hp (CHR '']'') of
                None \<Rightarrow> Inl (''missing ']' in address'')
              | Some e \<Rightarrow>
                if e + 1 = length hp then Inl ''missing port in address''
                else if e + 1 = i then Inr (take (e - 1) (drop 1 hp), drop 1 hp, drop (e + 1) hp)
                else if hp ! (e + 1) = CHR '':'' then Inl ''too many colons in address''
                else Inl ''missing port in address'')
           else if CHR '':'' \<in> set (take i hp) then Inl ''too many colons in address''
           else Inr (take i hp, hp, hp))
        in bind_outcome r (\<lambda>(host, j, k).
             if CHR ''['' \<in> set j then Inl (''unexpected '[' in address'')
             else if CHR '']'' \<in> set k then Inl (''unexpected ']' in address'')
             else Inr (host, drop (i + 1) hp)))"

subsection \<open>Addresses\<close>

datatype ipaddr = V4 "nat list" | V6 "nat list" string

definition parse_octet :: "string \<Rightarrow> nat option" where
  "parse_octet f =
     (if f \<noteq> [] \<and> list_all is_digit f \<and> (hd f = CHR ''0'' \<longrightarrow> length f = 1) \<and> digits_val f \<le> 255
      then Some (digits_val f) else None)"

definition parse_octets :: "string \<Rightarrow> nat list option" where
  "parse_octets s =
     (case map parse_octet (split_on (CHR ''.'') s) of
        [Some a, Some b, Some c, Some d] \<Rightarrow> Some [a, b, c, d]
      | _ \<Rightarrow> None)"

definition parse_ipv4 :: "string \<Rightarrow> ipaddr option" where
  "parse_ipv4 s = map_option V4 (parse_octets s)"

definition hex_value :: "char \<Rightarrow> nat option" where
  "hex_value c =
     (let b = byte c
      in if 48 \<le> b \<and> b \<le> 57 then Some (b - 48)
         else if 97 \<le> b \<and> b \<le> 102 then Some (b - 87)
         else if 65 \<le> b \<and> b \<le> 70 then Some (b - 55)
         else None)"

definition is_hex :: "char \<Rightarrow> bool" where
  "is_hex c = (hex_value c \<noteq> None)"

definition hex_val :: "string \<Rightarrow> nat" where
  "hex_val s = foldl (\<lambda>v c. 16 * v + the (hex_value c)) 0 s"

text \<open>
  The loop of \<open>parseIPv6\<close>: the bytes so far, the position of the ellipsis, and the rest of the text.
  At most eight groups fit, so eight rounds are enough; the last of them leaves the loop as \<open>i < 16\<close>
  does in the code.
\<close>

fun ipv6_groups :: "nat \<Rightarrow> nat list \<Rightarrow> nat option \<Rightarrow> string \<Rightarrow> (nat list \<times> nat option \<times> string) option" where
  "ipv6_groups 0 ip ellipsis s = Some (ip, ellipsis, s)"
| "ipv6_groups (Suc n) ip ellipsis s =
     (let h = takeWhile is_hex s; rest = drop (length h) s
      in if h = [] \<or> 4 < length h then None
         else if rest \<noteq> [] \<and> hd rest = CHR ''.'' then
           (if ellipsis = None \<and> length ip \<noteq> 12 \<or> 16 < length ip + 4 then None
            else (case parse_octets s of None \<Rightarrow> None | Some q \<Rightarrow> Some (ip @ q, ellipsis, [])))
         else
           (let ip' = ip @ [hex_val h div 256, hex_val h mod 256]
            in if rest = [] then Some (ip', ellipsis, [])
               else if hd rest \<noteq> CHR '':'' \<or> length rest = 1 then None
               else if hd (tl rest) = CHR '':'' then
                 (if ellipsis \<noteq> None then None
                  else if length rest = 2 then Some (ip', Some (length ip'), [])
                  else ipv6_groups n ip' (Some (length ip')) (drop 2 rest))
               else ipv6_groups n ip' ellipsis (tl rest)))"

definition parse_ipv6 :: "string \<Rightarrow> ipaddr option" where
  "parse_ipv6 text =
     (let (s, zone, zoned) = cut text ''%'';
          lead = has_prefix s ''::'';
          s' = (if lead then drop 2 s else s);
          start = (if lead then Some 0 else None)
      in if zoned \<and> zone = [] then None
         else if lead \<and> s' = [] then Some (V6 (replicate 16 0) zone)
         else
           (case ipv6_groups 8 [] start s' of
              None \<Rightarrow> None
            | Some (ip, ellipsis, rest) \<Rightarrow>
              if rest \<noteq> [] then None
              else (case ellipsis of
                      None \<Rightarrow> if length ip < 16 then None else Some (V6 ip zone)
                    | Some e \<Rightarrow>
                      if length ip < 16
                      then Some (V6 (take e ip @ replicate (16 - length ip) 0 @ drop e ip) zone)
                      else None)))"

definition parse_addr :: "string \<Rightarrow> ipaddr option" where
  "parse_addr s =
     (case List.find (\<lambda>c. c \<in> {CHR ''.'', CHR '':'', CHR ''%''}) s of
        None \<Rightarrow> None
      | Some c \<Rightarrow>
        if c = CHR ''.'' then parse_ipv4 s else if c = CHR '':'' then parse_ipv6 s else None)"

subsection \<open>Classification\<close>

definition is_v6 :: "ipaddr \<Rightarrow> bool" where
  "is_v6 a = (case a of V4 _ \<Rightarrow> False | V6 _ _ \<Rightarrow> True)"

definition is_4in6 :: "ipaddr \<Rightarrow> bool" where
  "is_4in6 a = (case a of V4 _ \<Rightarrow> False | V6 b z \<Rightarrow> take 12 b = replicate 10 0 @ [255, 255])"

definition unmap :: "ipaddr \<Rightarrow> ipaddr" where
  "unmap a = (case a of V4 b \<Rightarrow> V4 b | V6 b z \<Rightarrow> if is_4in6 a then V4 (drop 12 b) else V6 b z)"

definition is_unspecified :: "ipaddr \<Rightarrow> bool" where
  "is_unspecified a \<longleftrightarrow> a = V4 [0, 0, 0, 0] \<or> a = V6 (replicate 16 0) []"

definition is_loopback :: "ipaddr \<Rightarrow> bool" where
  "is_loopback a = (case unmap a of V4 b \<Rightarrow> hd b = 127 | V6 b z \<Rightarrow> b = replicate 15 0 @ [1])"

definition is_multicast :: "ipaddr \<Rightarrow> bool" where
  "is_multicast a = (case unmap a of V4 b \<Rightarrow> hd b div 16 = 14 | V6 b z \<Rightarrow> hd b = 255)"

definition is_link_local_unicast :: "ipaddr \<Rightarrow> bool" where
  "is_link_local_unicast a =
     (case unmap a of V4 b \<Rightarrow> b ! 0 = 169 \<and> b ! 1 = 254 | V6 b z \<Rightarrow> b ! 0 = 254 \<and> b ! 1 div 64 = 2)"

definition is_private :: "ipaddr \<Rightarrow> bool" where
  "is_private a =
     (case unmap a of
        V4 b \<Rightarrow> b ! 0 = 10 \<or> b ! 0 = 172 \<and> b ! 1 div 16 = 1 \<or> b ! 0 = 192 \<and> b ! 1 = 168
      | V6 b z \<Rightarrow> b ! 0 div 2 = 126)"

subsection \<open>Printing\<close>

definition octets_string :: "nat list \<Rightarrow> string" where
  "octets_string b = join_with ''.'' (map utoa b)"

fun hex_string :: "nat \<Rightarrow> string" where
  "hex_string n =
     (let d = (\<lambda>k. if k < 10 then char_of (48 + k) else char_of (87 + k :: nat))
      in if n < 16 then [d n] else hex_string (n div 16) @ [d (n mod 16)])"

declare hex_string.simps [simp del]

fun group_pairs :: "nat list \<Rightarrow> nat list" where
  "group_pairs (a # b # r) = (256 * a + b) # group_pairs r"
| "group_pairs _ = []"

definition zero_run :: "nat list \<Rightarrow> nat \<Rightarrow> nat" where
  "zero_run gs i = length (takeWhile (\<lambda>g. g = 0) (drop i gs))"

text \<open>The longest run of at least two zero groups, the first one of that length.\<close>

definition zero_span :: "nat list \<Rightarrow> nat \<times> nat" where
  "zero_span gs =
     foldl (\<lambda>(s, l) i. if 2 \<le> zero_run gs i \<and> l < zero_run gs i then (i, zero_run gs i) else (s, l))
       (length gs, 0) [0..<length gs]"

definition groups_string :: "nat list \<Rightarrow> string" where
  "groups_string gs =
     (let (s, l) = zero_span gs; part = (\<lambda>g. join_with '':'' (map hex_string g))
      in if l = 0 then part gs else part (take s gs) @ ''::'' @ part (drop (s + l) gs))"

definition addr_string :: "ipaddr \<Rightarrow> string" where
  "addr_string a =
     (case a of
        V4 b \<Rightarrow> octets_string b
      | V6 b z \<Rightarrow>
        (if is_4in6 a then ''::ffff:'' @ octets_string (drop 12 b) else groups_string (group_pairs b)) @
        (if z = [] then [] else CHR ''%'' # z))"

subsection \<open>Prefixes\<close>

definition parse_prefix :: "string \<Rightarrow> (ipaddr \<times> int) option" where
  "parse_prefix s =
     (case last_index_byte s (CHR ''/'') of
        None \<Rightarrow> None
      | Some i \<Rightarrow>
        (case parse_addr (take i s) of
           None \<Rightarrow> None
         | Some a \<Rightarrow>
           let bits = drop (i + 1) s
           in if (case a of V4 _ \<Rightarrow> False | V6 _ z \<Rightarrow> z \<noteq> []) then None
              else if 1 < length bits \<and> \<not> (49 \<le> byte (hd bits) \<and> byte (hd bits) \<le> 57) then None
              else (case atoi bits of
                      None \<Rightarrow> None
                    | Some n \<Rightarrow>
                      if n < 0 \<or> (if is_v6 a then 128 else 32) < n then None else Some (a, n))))"

definition prefix_from :: "ipaddr \<Rightarrow> int \<Rightarrow> ipaddr \<times> int" where
  "prefix_from a bits =
     (case a of
        V4 b \<Rightarrow> (V4 b, if bits < 0 \<or> 32 < bits then -1 else bits)
      | V6 b z \<Rightarrow> (V6 b [], if bits < 0 \<or> 128 < bits then -1 else bits))"

end
