(* ===== verification/Netaddr.thy ===== *)
theory Netaddr
  imports GoNet Errors
begin

text \<open>
  internal/netaddr: listen addresses, the classification of host texts and the choice of an interface
  address. What the system answers (\<open>net.LookupPort\<close>, \<open>net.Interfaces\<close>, the local end of a UDP
  socket) is an argument.
\<close>

subsection \<open>Listen addresses\<close>

definition parse_listen_address ::
    "(string \<Rightarrow> int res) \<Rightarrow> string \<Rightarrow> (string \<times> int) res" where
  "parse_listen_address lookup_port addr0 =
     (let addr = (if addr0 = [] then '':http'' else addr0)
      in case split_host_port addr of
           Inl m \<Rightarrow> Inl (Opaque m)
         | Inr (host, p) \<Rightarrow>
           if p = [] then Inl (Opaque (''netaddr: missing port in '' @ addr))
           else bind_outcome (case atoi p of Some n \<Rightarrow> Inr n | None \<Rightarrow> lookup_port p) (\<lambda>port.
             if port < 0 \<or> 65535 < port then Inl (Opaque (''netaddr: port out of range in '' @ addr))
             else Inr (host, port)))"

subsection \<open>Classes of hosts\<close>

definition is_wildcard :: "string \<Rightarrow> bool" where
  "is_wildcard host \<longleftrightarrow>
     host = [] \<or> (case parse_addr (trim host ''[]'') of None \<Rightarrow> False | Some a \<Rightarrow> is_unspecified a)"

definition is_loopback_host :: "(nat \<Rightarrow> nat) \<Rightarrow> string \<Rightarrow> bool" where
  "is_loopback_host ulow host \<longleftrightarrow>
     (let h = to_lower ulow (trim_suffix host ''.'')
      in h = ''localhost'' \<or> has_suffix h ''.localhost'' \<or>
         (case parse_addr (trim h ''[]'') of None \<Rightarrow> False | Some a \<Rightarrow> is_loopback a))"

definition is_ipv6_host :: "string \<Rightarrow> bool" where
  "is_ipv6_host host =
     (case parse_addr (trim host ''[]'') of None \<Rightarrow> False | Some a \<Rightarrow> is_v6 a \<and> \<not> is_4in6 a)"

subsection \<open>Routes and interfaces\<close>

text \<open>\<open>RouteIP\<close>: the bytes of the local address of the UDP socket, or the error of the dialer.\<close>

definition addr_from_slice :: "nat list \<Rightarrow> ipaddr option" where
  "addr_from_slice b =
     (if length b = 4 then Some (V4 b) else if length b = 16 then Some (V6 b []) else None)"

definition route_ip :: "nat list option res \<Rightarrow> ipaddr res" where
  "route_ip dial =
     bind_outcome dial (\<lambda>local.
       case local of
         None \<Rightarrow> Inl ErrNoAddress
       | Some b \<Rightarrow>
         (case addr_from_slice b of None \<Rightarrow> Inl ErrNoAddress | Some a \<Rightarrow> Inr (unmap a)))"

record interface =
  if_Name :: string
  if_Up :: bool
  if_Loop :: bool
  if_Addrs :: "(ipaddr \<times> int) list"

text \<open>An interface as the system describes it: its flags, and its addresses as texts or an error.\<close>

record sys_interface =
  si_Name :: string
  si_Up :: bool
  si_Loop :: bool
  si_Addrs :: "string list res"

definition read_interface :: "sys_interface \<Rightarrow> string list \<Rightarrow> interface" where
  "read_interface i texts =
     \<lparr>if_Name = si_Name i, if_Up = si_Up i, if_Loop = si_Loop i,
      if_Addrs = map (\<lambda>(a, bits). prefix_from (unmap a) bits) (List.map_filter parse_prefix texts)\<rparr>"

definition interfaces :: "sys_interface list res \<Rightarrow> interface list res" where
  "interfaces sys =
     bind_outcome sys (\<lambda>ifs. Inr (List.map_filter
       (\<lambda>i. case si_Addrs i of Inl e \<Rightarrow> None | Inr texts \<Rightarrow> Some (read_interface i texts)) ifs))"

record ifilter =
  fl_Name :: string
  fl_IPv6 :: bool
  fl_Public :: bool

definition virtual_prefixes :: "string list" where
  "virtual_prefixes =
     [''docker'', ''br-'', ''veth'', ''virbr'', ''vmnet'', ''vboxnet'', ''cni'', ''flannel'',
      ''cali'', ''weave'', ''kube-'', ''lxc'', ''lxd'', ''podman'', ''tailscale'', ''zt'',
      ''vethernet'', ''utun'', ''awdl'', ''llw'']"

definition is_virtual :: "(nat \<Rightarrow> nat) \<Rightarrow> string \<Rightarrow> bool" where
  "is_virtual ulow name = list_ex (has_prefix (to_lower ulow name)) virtual_prefixes"

definition skip_interface :: "(nat \<Rightarrow> nat) \<Rightarrow> ifilter \<Rightarrow> interface \<Rightarrow> bool" where
  "skip_interface ulow f i \<longleftrightarrow>
     \<not> if_Up i \<or> if_Loop i \<or>
     (if fl_Name f \<noteq> [] then if_Name i \<noteq> fl_Name f else is_virtual ulow (if_Name i))"

definition skip_address :: "ifilter \<Rightarrow> ipaddr \<Rightarrow> bool" where
  "skip_address f a \<longleftrightarrow>
     is_v6 a \<noteq> fl_IPv6 f \<or> is_loopback a \<or> is_unspecified a \<or> is_link_local_unicast a \<or> is_multicast a"

fun select_addr :: "ifilter \<Rightarrow> (ipaddr \<times> int) list \<Rightarrow> ipaddr option" where
  "select_addr f [] = None"
| "select_addr f ((a, bits) # ps) =
     (if skip_address f a then select_addr f ps
      else if is_private a = (\<not> fl_Public f) then Some a
      else select_addr f ps)"

fun select :: "(nat \<Rightarrow> nat) \<Rightarrow> ifilter \<Rightarrow> interface list \<Rightarrow> ipaddr res" where
  "select ulow f [] = Inl ErrNoAddress"
| "select ulow f (i # is) =
     (if skip_interface ulow f i then select ulow f is
      else (case select_addr f (if_Addrs i) of Some a \<Rightarrow> Inr a | None \<Rightarrow> select ulow f is))"

subsection \<open>Which address is chosen\<close>

text \<open>An address of an interface that the filter admits.\<close>

definition suitable :: "ifilter \<Rightarrow> ipaddr \<Rightarrow> bool" where
  "suitable f a \<longleftrightarrow> \<not> skip_address f a \<and> is_private a = (\<not> fl_Public f)"

definition admitted :: "(nat \<Rightarrow> nat) \<Rightarrow> ifilter \<Rightarrow> interface list \<Rightarrow> ipaddr list" where
  "admitted ulow f ifs =
     concat (map (\<lambda>i. filter (suitable f) (map fst (if_Addrs i))) (filter (\<lambda>i. \<not> skip_interface ulow f i) ifs))"

lemma select_addr_filter:
  "select_addr f ps = (case filter (suitable f) (map fst ps) of [] \<Rightarrow> None | a # _ \<Rightarrow> Some a)"
  by (induction f ps rule: select_addr.induct) (auto simp: suitable_def)

lemma select_admitted:
  "select ulow f ifs = (case admitted ulow f ifs of [] \<Rightarrow> Inl ErrNoAddress | a # _ \<Rightarrow> Inr a)"
proof (induction ulow f ifs rule: select.induct)
  case (2 ulow f i "is")
  then show ?case
    by (cases "skip_interface ulow f i"; cases "filter (suitable f) (map fst (if_Addrs i))")
      (simp_all add: select_addr_filter admitted_def)
qed (simp add: admitted_def)

lemma admitted_set:
  "a \<in> set (admitted ulow f ifs) \<longleftrightarrow>
     (\<exists>i\<in>set ifs. \<not> skip_interface ulow f i \<and> a \<in> fst ` set (if_Addrs i) \<and> suitable f a)"
  by (auto simp: admitted_def image_iff)

lemma select_Inr: "select ulow f ifs = Inr a \<Longrightarrow> a \<in> set (admitted ulow f ifs)"
  by (auto simp: select_admitted split: list.splits)

end
