(* ===== verification/Endpoint.thy ===== *)
theory Endpoint
  imports Netaddr Validate Instance Query
begin

text \<open>
  resolver.go, endpoint.go, \<open>consulScheme\<close> of apiclient.go and \<open>detectScheme\<close> of http.go: where other
  hosts reach this instance. What the operating system and the name service answer is a \<open>system\<close>;
  \<open>ctx k\<close> is \<open>ctx.Err()\<close> after the resolver number \<open>k\<close>. The text of an error is \<open>sy_text\<close>; what \<open>debug.ReadBuildInfo\<close> returns is \<open>sy_build\<close>, modules as
  paths with versions.
\<close>

record build_info =
  bi_Main :: "string \<times> string"
  bi_Deps :: "(string \<times> string) list"

record system =
  sy_getenv :: "string \<Rightarrow> string"
  sy_hostname :: "string res"
  sy_lookup_host :: "string \<Rightarrow> string list res"
  sy_lookup_port :: "string \<Rightarrow> int res"
  sy_dial :: "string \<Rightarrow> nat list option res"
  sy_interfaces :: "sys_interface list res"
  sy_lower :: "nat \<Rightarrow> nat"
  sy_printable :: "nat \<Rightarrow> bool"
  sy_text :: "goerr \<Rightarrow> string"
  sy_go_version :: string
  sy_build :: "build_info option"

type_synonym ctx_errs = "nat \<Rightarrow> goerr option"

subsection \<open>Resolvers\<close>

type_synonym resolver = "system \<Rightarrow> string res"

definition not_found :: "string \<Rightarrow> goerr list \<Rightarrow> goerr" where
  "not_found msg causes = Errorf msg (ErrAddressNotFound # causes)"

definition static_address :: "string \<Rightarrow> resolver" where
  "static_address addr sy = (if addr = [] then Inl ErrAddressNotFound else Inr addr)"

definition env_address :: "string \<Rightarrow> resolver" where
  "env_address name sy =
     (let v = trim_space (sy_getenv sy name)
      in if v \<noteq> [] then Inr v
         else Inl (not_found (''environment variable '' @ name @ '' is empty'') []))"

definition route_address :: "string \<Rightarrow> resolver" where
  "route_address target sy =
     (case route_ip (sy_dial sy target) of
        Inl e \<Rightarrow> Inl (not_found (''no route to '' @ target) [e])
      | Inr a \<Rightarrow> Inr (addr_string a))"

definition interface_address :: "ifilter \<Rightarrow> resolver" where
  "interface_address f sy =
     (case interfaces (sy_interfaces sy) of
        Inl e \<Rightarrow> Inl (not_found ''list interfaces'' [e])
      | Inr ifs \<Rightarrow>
        (case select (sy_lower sy) f ifs of
           Inl _ \<Rightarrow> Inl (not_found ''no interface address matches'' [])
         | Inr a \<Rightarrow> Inr (addr_string a)))"

definition hostname_address :: resolver where
  "hostname_address sy =
     (case sy_hostname sy of
        Inl e \<Rightarrow> Inl (not_found [] [e])
      | Inr host \<Rightarrow>
        (case sy_lookup_host sy host of
           Inl e \<Rightarrow> Inl (not_found (''resolve host name '' @ host) [e])
         | Inr addrs \<Rightarrow>
           (case List.find (\<lambda>a. \<not> is_loopback_host (sy_lower sy) a \<and> \<not> is_wildcard a) addrs of
              Some a \<Rightarrow> Inr a
            | None \<Rightarrow> Inl (not_found (''host name '' @ host @ '' resolves only to loopback'') []))))"

definition check_service_address :: "system \<Rightarrow> string \<Rightarrow> bool \<Rightarrow> goerr option" where
  "check_service_address sy addr allow_loopback =
     (if is_wildcard addr
      then Some (not_found (quote (sy_printable sy) addr @ '' is a wildcard address'') [])
      else if \<not> allow_loopback \<and> is_loopback_host (sy_lower sy) addr
      then Some (not_found (quote (sy_printable sy) addr @
        '' is a loopback address (set AllowLoopback if every consumer runs on this host)'') [])
      else if contains_any addr [CHR '' '', CHR ''/'', CHR 0x09, CHR 0x0D, CHR 0x0A]
      then Some (not_found (quote (sy_printable sy) addr @ '' is not a host'') [])
      else None)"

text \<open>\<open>addr, err := r.Resolve(ctx)\<close> followed by the check of the address.\<close>

definition try_resolver :: "system \<Rightarrow> bool \<Rightarrow> resolver \<Rightarrow> string res" where
  "try_resolver sy allow_loopback r =
     bind_outcome (r sy) (\<lambda>addr.
       case check_service_address sy addr allow_loopback of Some e \<Rightarrow> Inl e | None \<Rightarrow> Inr addr)"

fun first_loop :: "system \<Rightarrow> ctx_errs \<Rightarrow> goerr list \<Rightarrow> nat \<Rightarrow> resolver list \<Rightarrow> string res" where
  "first_loop sy ctx errs k [] = Inl (Joined (ErrAddressNotFound # errs))"
| "first_loop sy ctx errs k (r # rs) =
     (case try_resolver sy False r of
        Inr addr \<Rightarrow> Inr addr
      | Inl e \<Rightarrow>
        (case ctx k of Some c \<Rightarrow> Inl c | None \<Rightarrow> first_loop sy ctx (errs @ [e]) (Suc k) rs))"

definition first_address :: "ctx_errs \<Rightarrow> resolver list \<Rightarrow> resolver" where
  "first_address ctx rs sy = first_loop sy ctx [] 0 rs"

subsection \<open>The client's view of itself\<close>

datatype listener = TCPListener int | OtherListener

record http_server =
  hs_Addr :: string
  hs_TLS :: bool

record client_base =
  cl_cfg :: config
  cl_scheme :: string
  cl_server :: "http_server option"
  cl_listener :: "listener option"
  cl_resolver :: "resolver option"

definition consul_scheme :: "consul_config \<Rightarrow> string" where
  "consul_scheme cc =
     (if has_prefix (cc_Address cc) ''https://'' \<or> tl_Enabled (cc_TLS cc) then ''https''
      else if cc_Scheme cc \<noteq> [] then cc_Scheme cc
      else ''http'')"

definition detect_scheme :: "config \<Rightarrow> http_server option \<Rightarrow> string" where
  "detect_scheme cfg server =
     (if sv_Scheme (cf_Service cfg) \<noteq> [] then sv_Scheme (cf_Service cfg)
      else if (case server of None \<Rightarrow> False | Some h \<Rightarrow> hs_TLS h) then ''https''
      else ''http'')"

text \<open>\<open>consulTarget\<close>: the route is detected towards the agent; there is none for a unix socket.\<close>

definition consul_target :: "consul_config \<Rightarrow> string" where
  "consul_target cc =
     (let (a, b, found) = cut (cc_Address cc) ''://'';
          rest = (if found then b else cc_Address cc);
          scheme = (if found then a else consul_scheme cc)
      in if scheme = ''unix'' then []
         else
           (let host = (case index_byte rest (CHR ''/'') of Some i \<Rightarrow> take i rest | None \<Rightarrow> rest)
            in case split_host_port host of
                 Inr _ \<Rightarrow> host
               | Inl _ \<Rightarrow>
                 join_host_port (trim host ''[]'')
                   (if scheme = ''https'' \<or> consul_scheme cc = ''https'' then ''8501'' else ''8500'')))"

definition server_host :: "system \<Rightarrow> 'a client_base_scheme \<Rightarrow> string" where
  "server_host sy c =
     (case cl_server c of
        None \<Rightarrow> []
      | Some h \<Rightarrow>
        (case parse_listen_address (sy_lookup_port sy) (hs_Addr h) of
           Inl _ \<Rightarrow> []
         | Inr (host, port) \<Rightarrow> if is_wildcard host then [] else trim host ''[]''))"

definition listener_port :: "listener option \<Rightarrow> int" where
  "listener_port l = (case l of Some (TCPListener p) \<Rightarrow> p | _ \<Rightarrow> 0)"

definition server_port :: "system \<Rightarrow> http_server option \<Rightarrow> (int \<times> string) res" where
  "server_port sy server =
     (case server of
        None \<Rightarrow> Inl (ConfigError ''Service.Port'' ''unknown; pass WithServer, WithListener or WithServicePort'')
      | Some h \<Rightarrow>
        (case parse_listen_address (sy_lookup_port sy) (hs_Addr h) of
           Inl e \<Rightarrow> Inl (ConfigError ''Server.Addr'' (sy_text sy e))
         | Inr (_, port) \<Rightarrow>
           if port \<noteq> 0 then Inr (port, ''server'')
           else Inl (ConfigError ''Service.Port''
             ''the server listens on port 0; pass WithListener or WithServicePort'')))"

definition resolve_port :: "system \<Rightarrow> 'a client_base_scheme \<Rightarrow> (int \<times> string) res" where
  "resolve_port sy c =
     (let s = cf_Service (cl_cfg c)
      in if sv_Port s \<noteq> 0 then Inr (sv_Port s, ''config'')
         else (case List.find sp_Default (slice_list (sv_Ports s)) of
                 Some p \<Rightarrow> Inr (sp_Port p, ''ports'')
               | None \<Rightarrow>
                 if listener_port (cl_listener c) \<noteq> 0
                 then Inr (listener_port (cl_listener c), ''listener'')
                 else server_port sy (cl_server c)))"

record endpoint_info =
  ep_Address :: string
  ep_AddressSource :: string
  ep_Port :: int
  ep_PortSource :: string
  ep_Scheme :: string

text \<open>The sources of the address with their names, in order.\<close>

definition address_chain :: "system \<Rightarrow> 'a client_base_scheme \<Rightarrow> (string \<times> resolver) list" where
  "address_chain sy c =
     (let s = cf_Service (cl_cfg c); host = server_host sy c; target = consul_target (cf_Consul (cl_cfg c))
      in case cl_resolver c of
           Some r \<Rightarrow> [(''resolver'', r)]
         | None \<Rightarrow>
           (if sv_AddressEnv s \<noteq> [] then [(''env '' @ sv_AddressEnv s, env_address (sv_AddressEnv s))] else []) @
           (if host \<noteq> [] then [(''server'', static_address host)] else []) @
           (if target \<noteq> [] then [(''route'', route_address target)] else []) @
           [(''interface'', interface_address \<lparr>fl_Name = [], fl_IPv6 = sv_PreferIPv6 s, fl_Public = False\<rparr>)])"

fun walk_chain ::
    "system \<Rightarrow> ctx_errs \<Rightarrow> bool \<Rightarrow> goerr list \<Rightarrow> nat \<Rightarrow> (string \<times> resolver) list \<Rightarrow> (string \<times> string) res" where
  "walk_chain sy ctx allow errs k [] =
     Inl (ConfigError ''Service.Address''
       (''cannot determine the service address; set WithServiceAddress: '' @ sy_text sy (Joined errs)))"
| "walk_chain sy ctx allow errs k ((name, r) # rs) =
     (case try_resolver sy allow r of
        Inr addr \<Rightarrow> Inr (addr, name)
      | Inl e \<Rightarrow>
        (case ctx k of
           Some c \<Rightarrow> Inl c
         | None \<Rightarrow> walk_chain sy ctx allow (errs @ [Errorf name [e]]) (Suc k) rs))"

definition resolve_endpoint :: "system \<Rightarrow> ctx_errs \<Rightarrow> 'a client_base_scheme \<Rightarrow> endpoint_info res" where
  "resolve_endpoint sy ctx c =
     bind_outcome (resolve_port sy c) (\<lambda>(port, port_source).
       let s = cf_Service (cl_cfg c);
           ep = (\<lambda>addr source. \<lparr>ep_Address = addr, ep_AddressSource = source, ep_Port = port,
                   ep_PortSource = port_source, ep_Scheme = cl_scheme c\<rparr>)
       in if sv_Address s \<noteq> [] then
            (case check_service_address sy (sv_Address s) (sv_AllowLoopback s) of
               Some e \<Rightarrow> Inl (ConfigError ''Service.Address'' (sy_text sy e))
             | None \<Rightarrow> Inr (ep (sv_Address s) ''config''))
          else bind_outcome (walk_chain sy ctx (sv_AllowLoopback s) [] 0 (address_chain sy c))
                 (\<lambda>(addr, source). Inr (ep addr source)))"

lemma resolve_endpoint_cong:
  assumes "cl_cfg c' = cl_cfg c" "cl_scheme c' = cl_scheme c" "cl_server c' = cl_server c"
    "cl_listener c' = cl_listener c" "cl_resolver c' = cl_resolver c"
  shows "resolve_endpoint sy ctx c' = resolve_endpoint sy ctx c"
  unfolding resolve_endpoint_def resolve_port_def address_chain_def server_host_def assms ..

subsection \<open>What is registered\<close>

definition usable_host :: "system \<Rightarrow> bool \<Rightarrow> string \<Rightarrow> bool" where
  "usable_host sy allow_loopback addr \<longleftrightarrow>
     \<not> is_wildcard addr \<and> (allow_loopback \<or> \<not> is_loopback_host (sy_lower sy) addr) \<and>
     \<not> contains_any addr [CHR '' '', CHR ''/'', CHR 0x09, CHR 0x0D, CHR 0x0A]"

lemma check_usable: "check_service_address sy addr allow = None \<longleftrightarrow> usable_host sy allow addr"
  by (simp add: check_service_address_def usable_host_def)

lemma try_resolver_Inr:
  "try_resolver sy allow r = Inr addr \<longleftrightarrow> r sy = Inr addr \<and> usable_host sy allow addr"
  by (auto simp: try_resolver_def bind_outcome_Inr check_usable [symmetric] split: option.splits)

lemma try_resolver_Inl:
  "try_resolver sy allow r = Inl e \<Longrightarrow> r sy = Inr addr \<Longrightarrow> \<not> usable_host sy allow addr"
  by (auto simp: try_resolver_def check_usable [symmetric] split: option.splits)

text \<open>Both searches return the first source whose answer is usable.\<close>

definition first_usable :: "system \<Rightarrow> bool \<Rightarrow> resolver list \<Rightarrow> nat \<Rightarrow> string \<Rightarrow> bool" where
  "first_usable sy allow rs k addr \<longleftrightarrow>
     k < length rs \<and> (rs ! k) sy = Inr addr \<and> usable_host sy allow addr \<and>
     (\<forall>j<k. \<forall>a. (rs ! j) sy = Inr a \<longrightarrow> \<not> usable_host sy allow a)"

lemma first_usable_here:
  "r sy = Inr addr \<Longrightarrow> usable_host sy allow addr \<Longrightarrow> first_usable sy allow (r # rs) 0 addr"
  by (simp add: first_usable_def)

lemma first_usable_later:
  "try_resolver sy allow r = Inl e \<Longrightarrow> first_usable sy allow rs k addr \<Longrightarrow>
     first_usable sy allow (r # rs) (Suc k) addr"
  by (auto simp: first_usable_def nth_Cons' gr0_conv_Suc dest: try_resolver_Inl)

lemma walk_chain_first:
  "walk_chain sy ctx allow errs k chain = Inr (addr, name) \<Longrightarrow>
     \<exists>j<length chain. fst (chain ! j) = name \<and> first_usable sy allow (map snd chain) j addr"
proof (induction sy ctx allow errs k chain rule: walk_chain.induct)
  case (2 sy ctx allow errs k n r rs)
  show ?case
  proof (cases "try_resolver sy allow r")
    case (Inr a)
    with 2 have "a = addr" "n = name" by simp_all
    with Inr show ?thesis
      by (intro exI [of _ 0]) (simp add: try_resolver_Inr first_usable_here)
  next
    case (Inl e)
    with 2 obtain j where "j < length rs" "fst (rs ! j) = name" "first_usable sy allow (map snd rs) j addr"
      by (auto split: option.splits)
    with Inl show ?thesis by (intro exI [of _ "Suc j"]) (simp add: first_usable_later)
  qed
qed simp

lemma first_loop_first:
  "first_loop sy ctx errs k rs = Inr addr \<Longrightarrow> \<exists>j. first_usable sy False rs j addr"
proof (induction sy ctx errs k rs rule: first_loop.induct)
  case (2 sy ctx errs k r rs)
  show ?case
  proof (cases "try_resolver sy False r")
    case (Inr a)
    with 2 show ?thesis
      by (intro exI [of _ 0]) (simp add: try_resolver_Inr first_usable_here)
  next
    case (Inl e)
    with 2 obtain j where "first_usable sy False rs j addr" by (auto split: option.splits)
    with Inl show ?thesis by (blast intro: first_usable_later)
  qed
qed simp

lemma parse_listen_port:
  "parse_listen_address lp a = Inr (host, port) \<Longrightarrow> 0 \<le> port \<and> port \<le> 65535"
  by (auto simp: parse_listen_address_def Let_def bind_outcome_Inr not_less split: sum.splits if_splits)

lemma server_port_range: "server_port sy h = Inr (port, src) \<Longrightarrow> 1 \<le> port \<and> port \<le> 65535"
  by (force simp: server_port_def split: option.splits sum.splits if_splits dest: parse_listen_port)

lemma valid_ports_member:
  "valid_ports ps \<Longrightarrow> p \<in> set ps \<Longrightarrow> 1 \<le> sp_Port p \<and> sp_Port p \<le> 65535"
  by (auto simp: valid_ports_def list_all_iff)

lemma find_member: "List.find P xs = Some x \<Longrightarrow> x \<in> set xs"
  by (auto simp: find_Some_iff)

lemma resolve_port_range:
  assumes r: "resolve_port sy c = Inr (port, src)"
    and v: "valid_service auto (cf_Service (cl_cfg c))"
    and l: "0 \<le> listener_port (cl_listener c)" "listener_port (cl_listener c) \<le> 65535"
  shows "1 \<le> port \<and> port \<le> 65535"
proof -
  let ?s = "cf_Service (cl_cfg c)"
  consider "sv_Port ?s \<noteq> 0" "port = sv_Port ?s"
    | p where "p \<in> set (slice_list (sv_Ports ?s))" "port = sp_Port p"
    | "listener_port (cl_listener c) \<noteq> 0" "port = listener_port (cl_listener c)"
    | "server_port sy (cl_server c) = Inr (port, src)"
    using r by (auto simp: resolve_port_def Let_def split: if_splits option.splits dest: find_member)
  then show ?thesis
  proof cases
    case 1 with v show ?thesis by (auto simp: valid_service_def)
  next
    case 2 with v show ?thesis using valid_ports_member by (auto simp: valid_service_def)
  next
    case 3 with l show ?thesis by simp
  next
    case 4 then show ?thesis by (rule server_port_range)
  qed
qed

text \<open>
  C17. The endpoint that is registered: its port is a usable port number, its address is never a
  wildcard, never a loopback address unless that is allowed, and has no space or slash. It is the
  configured address, or the answer of the first source of the chain whose answer is usable.
\<close>

theorem endpoint_usable:
  assumes "resolve_endpoint sy ctx c = Inr ep"
    and "valid_service auto (cf_Service (cl_cfg c))"
    and "0 \<le> listener_port (cl_listener c)" "listener_port (cl_listener c) \<le> 65535"
  shows "usable_host sy (sv_AllowLoopback (cf_Service (cl_cfg c))) (ep_Address ep) \<and>
    1 \<le> ep_Port ep \<and> ep_Port ep \<le> 65535 \<and>
    (if sv_Address (cf_Service (cl_cfg c)) \<noteq> [] then ep_Address ep = sv_Address (cf_Service (cl_cfg c))
     else \<exists>k<length (address_chain sy c). fst (address_chain sy c ! k) = ep_AddressSource ep \<and>
       first_usable sy (sv_AllowLoopback (cf_Service (cl_cfg c))) (map snd (address_chain sy c)) k (ep_Address ep))"
proof -
  let ?s = "cf_Service (cl_cfg c)" and ?ch = "address_chain sy c"
  obtain port psrc where p: "resolve_port sy c = Inr (port, psrc)" "ep_Port ep = port"
    using assms(1) by (auto simp: resolve_endpoint_def bind_outcome_Inr Let_def split: if_splits option.splits)
  note range = resolve_port_range [OF p(1) assms(2-4)]
  show ?thesis
  proof (cases "sv_Address ?s = []")
    case False
    with assms(1) p have "ep_Address ep = sv_Address ?s" "usable_host sy (sv_AllowLoopback ?s) (sv_Address ?s)"
      by (cases ep; auto simp: resolve_endpoint_def check_usable [symmetric] Let_def split: option.splits)+
    with False range p show ?thesis by simp
  next
    case True
    with assms(1) p have w: "walk_chain sy ctx (sv_AllowLoopback ?s) [] 0 ?ch = Inr (ep_Address ep, ep_AddressSource ep)"
      by (cases ep; auto simp: resolve_endpoint_def bind_outcome_Inr)
    from walk_chain_first [OF this] obtain k where k: "k < length ?ch" "fst (?ch ! k) = ep_AddressSource ep"
      "first_usable sy (sv_AllowLoopback ?s) (map snd ?ch) k (ep_Address ep)" by blast
    then have "usable_host sy (sv_AllowLoopback ?s) (ep_Address ep)" by (simp add: first_usable_def)
    with True range p k show ?thesis by auto
  qed
qed

definition sample_system :: system where
  "sample_system =
     \<lparr>sy_getenv = (\<lambda>_. []), sy_hostname = Inr ''web-1'', sy_lookup_host = (\<lambda>_. Inr [''10.0.0.7'']),
      sy_lookup_port = (\<lambda>_. Inr 80), sy_dial = (\<lambda>_. Inl (Opaque ''unreachable'')),
      sy_interfaces = Inr [\<lparr>si_Name = ''lo'', si_Up = True, si_Loop = True, si_Addrs = Inr [''127.0.0.1/8'']\<rparr>,
                           \<lparr>si_Name = ''eth0'', si_Up = True, si_Loop = False, si_Addrs = Inr [''10.0.0.7/24'']\<rparr>],
      sy_lower = (\<lambda>r. r), sy_printable = (\<lambda>_. True), sy_text = (\<lambda>_. ''error''),
      sy_go_version = ''go1.26.7'', sy_build = None\<rparr>"

definition sample_client_base :: client_base where
  "sample_client_base =
     \<lparr>cl_cfg = apply_defaults (no_config\<lparr>cf_Service := no_service\<lparr>sv_Name := ''orders'', sv_AddressEnv := ''POD_IP''\<rparr>,
        cf_Health := no_health\<lparr>hc_Check := CheckNone\<rparr>\<rparr>),
      cl_scheme = ''http'', cl_server = Some \<lparr>hs_Addr = ''10.0.0.7:8080'', hs_TLS = False\<rparr>,
      cl_listener = None, cl_resolver = None\<rparr>"

lemma sample_listen: "parse_listen_address lp ''10.0.0.7:8080'' = Inr (''10.0.0.7'', 8080)"
proof -
  have "atoi ''8080'' = Some 8080"
    by (simp add: atoi_def parse_int_def parse_digits_def is_digit_def digits_val_def)
  moreover have "split_host_port ''10.0.0.7:8080'' = Inr (''10.0.0.7'', ''8080'')" by code_simp
  ultimately show ?thesis by (simp add: parse_listen_address_def)
qed

lemma sample_parts:
  "resolve_port sample_system sample_client_base = Inr (8080, ''server'')"
  "server_host sample_system sample_client_base = ''10.0.0.7''"
  by (simp add: resolve_port_def sample_client_base_def apply_defaults_def no_config_def default_service_def
      no_service_def slice_list_def listener_port_def server_port_def sample_listen)
    (simp add: server_host_def sample_client_base_def sample_listen, code_simp)

lemma sample_tries:
  "try_resolver sample_system False (env_address ''POD_IP'') =
     Inl (not_found ''environment variable POD_IP is empty'' [])"
  "try_resolver sample_system False (static_address ''10.0.0.7'') = Inr ''10.0.0.7''"
  by code_simp+

lemma sample_service:
  "cf_Service (cl_cfg sample_client_base) =
     no_service\<lparr>sv_Name := ''orders'', sv_AddressEnv := ''POD_IP'', sv_IDStrategy := IDHostnamePort\<rparr>"
  by (simp add: sample_client_base_def apply_defaults_def no_config_def default_service_def no_service_def
      or_default_def)

lemma sample_endpoint:
  "resolve_endpoint sample_system (\<lambda>_. None) sample_client_base =
     Inr \<lparr>ep_Address = ''10.0.0.7'', ep_AddressSource = ''server'', ep_Port = 8080, ep_PortSource = ''server'',
          ep_Scheme = ''http''\<rparr>"
proof -
  have "cl_resolver sample_client_base = None" "cl_scheme sample_client_base = ''http''"
    by (simp_all add: sample_client_base_def)
  then show ?thesis
    by (simp add: resolve_endpoint_def sample_parts sample_service no_service_def address_chain_def
        sample_tries Let_def)
qed

theorem endpoint_usable_witness:
  "usable_host sample_system False ''10.0.0.7'' \<and>
   (\<exists>k<length (address_chain sample_system sample_client_base).
      fst (address_chain sample_system sample_client_base ! k) = ''server'' \<and>
      first_usable sample_system False (map snd (address_chain sample_system sample_client_base)) k ''10.0.0.7'')"
proof -
  have v: "valid_service True (cf_Service (cl_cfg sample_client_base))"
    by (simp add: sample_service no_service_def valid_service_def valid_ports_def valid_meta_def
        slice_list_def contains_any_def name_chars_def fcard.rep_eq)
  have "listener_port (cl_listener sample_client_base) = 0"
    by (simp add: sample_client_base_def listener_port_def)
  with endpoint_usable [OF sample_endpoint v] show ?thesis
    by (simp add: sample_service no_service_def)
qed

end
