(* ===== verification/GoTime.thy ===== *)
theory GoTime
  imports GoStrings GoFloat
begin

text \<open>
  \<open>time.Duration.String\<close>, the text of a duration such as \<open>1m30s\<close>, \<open>1.5s\<close> or \<open>300ms\<close>, and
  \<open>time.ParseDuration\<close>, which reads one; \<open>None\<close> is its error.
\<close>

subsection \<open>Printing\<close>

text \<open>\<open>fmtFrac\<close>: the fraction of \<open>v\<close> over ten to the \<open>prec\<close>, without trailing zeros.\<close>

fun frac_digits :: "nat \<Rightarrow> nat \<Rightarrow> string" where
  "frac_digits 0 v = []"
| "frac_digits (Suc p) v = frac_digits p (v div 10) @ [digit (v mod 10)]"

definition fmt_frac :: "nat \<Rightarrow> nat \<Rightarrow> string" where
  "fmt_frac prec v =
     (let ds = trim_right (frac_digits prec v) ''0'' in if ds = [] then [] else CHR ''.'' # ds)"

definition fmt_scaled :: "nat \<Rightarrow> nat \<Rightarrow> string" where
  "fmt_scaled prec v = utoa (v div 10 ^ prec) @ fmt_frac prec v"

definition micro :: string where
  "micro = [char_of (194 :: nat), char_of (181 :: nat)]"

definition duration_string :: "duration \<Rightarrow> string" where
  "duration_string d =
     (let u = nat \<bar>d\<bar>;
          body =
            (if u = 0 then ''0s''
             else if u < 1000 then utoa u @ ''ns''
             else if u < 1000000 then fmt_scaled 3 u @ micro @ ''s''
             else if u < 1000000000 then fmt_scaled 6 u @ ''ms''
             else
               (let secs = u div 1000000000; mins = secs div 60; hours = mins div 60
                in (if 0 < hours then utoa hours @ ''h'' else []) @
                   (if 0 < mins then utoa (mins mod 60) @ ''m'' else []) @
                   utoa (secs mod 60) @ fmt_frac 9 (u mod 1000000000) @ ''s''))
      in if d < 0 then CHR ''-'' # body else body)"

subsection \<open>Parsing\<close>

text \<open>\<open>leadingFraction\<close>: the digits as a number, their scale, and whether more digits are ignored.\<close>

definition frac_step :: "nat \<times> f64 \<times> bool \<Rightarrow> char \<Rightarrow> nat \<times> f64 \<times> bool" where
  "frac_step st c =
     (let (x, scale, overflow) = st; y = 10 * x + (byte c - 48)
      in if overflow then st
         else if 922337203685477580 < x \<or> 9223372036854775808 < y then (x, scale, True)
         else (y, fmul scale (Fin 10), False))"

definition unit_of :: "string \<Rightarrow> nat option" where
  "unit_of =
     map_of [(''ns'', 1), (''us'', 1000), (micro @ ''s'', 1000),
             ([char_of (206 :: nat), char_of (188 :: nat)] @ ''s'', 1000), (''ms'', 1000000),
             (''s'', 1000000000), (''m'', 60000000000), (''h'', 3600000000000)]"

definition f64_to_nat :: "f64 \<Rightarrow> nat" where
  "f64_to_nat x = (case x of Fin a \<Rightarrow> nat (ftrunc a) | _ \<Rightarrow> 0)"

text \<open>One number with its unit: its nanoseconds and the rest of the text.\<close>

definition duration_term :: "string \<Rightarrow> (nat \<times> string) option" where
  "duration_term s =
     (let whole = takeWhile is_digit s; s1 = drop (length whole) s;
          dotted = (s1 \<noteq> [] \<and> hd s1 = CHR ''.'');
          part = (if dotted then takeWhile is_digit (tl s1) else []);
          s2 = (if dotted then drop (length part) (tl s1) else s1);
          (f, scale, _) = foldl frac_step (0, Fin 1, False) part;
          u = takeWhile (\<lambda>c. c \<noteq> CHR ''.'' \<and> \<not> is_digit c) s2;
          v = digits_val whole
      in if whole = [] \<and> part = [] \<or> 9223372036854775808 < v \<or> u = [] then None
         else (case unit_of u of
                 None \<Rightarrow> None
               | Some unit \<Rightarrow>
                 if 9223372036854775808 div unit < v then None
                 else (let w = v * unit + (if 0 < f
                                 then f64_to_nat (fmul (f64_of_int (int f)) (fdiv (f64_of_int (int unit)) scale))
                                 else 0)
                       in if 9223372036854775808 < w then None else Some (w, drop (length u) s2))))"

lemma duration_term_shorter:
  assumes "duration_term s = Some (w, t)"
  shows "length t < length s"
proof -
  define whole where "whole = takeWhile is_digit s"
  define s1 where "s1 = drop (length whole) s"
  define part where "part = (if s1 \<noteq> [] \<and> hd s1 = CHR ''.'' then takeWhile is_digit (tl s1) else [])"
  define s2 where "s2 = (if s1 \<noteq> [] \<and> hd s1 = CHR ''.'' then drop (length part) (tl s1) else s1)"
  define u where "u = takeWhile (\<lambda>c. c \<noteq> CHR ''.'' \<and> \<not> is_digit c) s2"
  have t: "t = drop (length u) s2" "u \<noteq> []"
    using assms unfolding duration_term_def Let_def whole_def [symmetric] s1_def [symmetric] part_def [symmetric]
      s2_def [symmetric] u_def [symmetric]
    by (auto split: if_splits option.splits prod.splits)
  have "length s2 \<le> length s" by (auto simp: s2_def s1_def)
  moreover have "length u \<le> length s2" "0 < length u" using t by (simp_all add: u_def length_takeWhile_le)
  ultimately show ?thesis unfolding t(1) length_drop by linarith
qed

text \<open>The sum of the terms; the code adds modulo two to the power of 64.\<close>

function duration_terms :: "nat \<Rightarrow> string \<Rightarrow> nat option" where
  "duration_terms d s =
     (if s = [] then Some d
      else (case duration_term s of
              None \<Rightarrow> None
            | Some (w, t) \<Rightarrow>
              let d' = (d + w) mod 18446744073709551616
              in if 9223372036854775808 < d' then None else duration_terms d' t))"
  by pat_completeness auto
termination
  by (relation "measure (\<lambda>(d, s). length s)") (auto dest: duration_term_shorter)

declare duration_terms.simps [simp del]

definition parse_duration :: "string \<Rightarrow> duration option" where
  "parse_duration text =
     (let neg = (text \<noteq> [] \<and> hd text = CHR ''-'');
          s = (if text \<noteq> [] \<and> (hd text = CHR ''-'' \<or> hd text = CHR ''+'') then tl text else text)
      in if s = ''0'' then Some 0
         else if s = [] then None
         else (case duration_terms 0 s of
                 None \<Rightarrow> None
               | Some d \<Rightarrow>
                 if neg then Some (wrap64 (- int d))
                 else if 9223372036854775807 < d then None
                 else Some (int d)))"

lemma parse_duration_range: "parse_duration s = Some d \<Longrightarrow> in64 d"
  by (auto simp: parse_duration_def Let_def in64_def split: option.splits if_splits)
    (use wrap64_range in \<open>auto simp: in64_def\<close>)

end
