(* ===== verification/Client.thy ===== *)
theory Client
  imports Endpoint Compat ServiceID Health GoTime
begin

text \<open>
  client.go and observability.go, with the state types of lifecycle.go and registration.go: the
  \<open>client\<close>, the metrics it emits, the detection of the agent and the feature gate. The requests the
  client sends to Consul are logged in \<open>cl_requests\<close> with the time that bounds each, and its
  measurements in \<open>cl_metrics\<close>; what Consul answers is an argument. The definition of a service and of
  its check are the structs of the official client, restricted to the fields the module sets.
\<close>

subsection \<open>Measurements\<close>

definition MetricRegisterTotal :: string where "MetricRegisterTotal = ''consulx_register_total''"
definition MetricRegisterErrorsTotal :: string where "MetricRegisterErrorsTotal = ''consulx_register_errors_total''"
definition MetricDeregisterTotal :: string where "MetricDeregisterTotal = ''consulx_deregister_total''"
definition MetricDeregisterErrorsTotal :: string where "MetricDeregisterErrorsTotal = ''consulx_deregister_errors_total''"
definition MetricDiscoveryRequestsTotal :: string where "MetricDiscoveryRequestsTotal = ''consulx_discovery_requests_total''"
definition MetricDiscoveryErrorsTotal :: string where "MetricDiscoveryErrorsTotal = ''consulx_discovery_errors_total''"
definition MetricConsulRequestsTotal :: string where "MetricConsulRequestsTotal = ''consulx_consul_requests_total''"
definition MetricConsulRequestErrorsTotal :: string where "MetricConsulRequestErrorsTotal = ''consulx_consul_request_errors_total''"
definition MetricConsulRequestDuration :: string where "MetricConsulRequestDuration = ''consulx_consul_request_duration_seconds''"
definition MetricReconnectTotal :: string where "MetricReconnectTotal = ''consulx_reconnect_total''"
definition MetricHealthStatus :: string where "MetricHealthStatus = ''consulx_health_status''"
definition MetricRuntimeState :: string where "MetricRuntimeState = ''consulx_runtime_state''"
definition MetricConfigReloadTotal :: string where "MetricConfigReloadTotal = ''consulx_config_reload_total''"
definition MetricConfigReloadErrorsTotal :: string where "MetricConfigReloadErrorsTotal = ''consulx_config_reload_errors_total''"
definition MetricErrorsDroppedTotal :: string where "MetricErrorsDroppedTotal = ''consulx_errors_dropped_total''"

type_synonym labels = "(string \<times> string) list"

datatype metric =
    IncCounter string labels
  | SetGauge string f64 labels
  | ObserveDuration string duration labels

definition labelsRegister :: labels where "labelsRegister = [(''operation'', ''register'')]"
definition labelsDeregister :: labels where "labelsDeregister = [(''operation'', ''deregister'')]"

definition operation_labels :: "string \<Rightarrow> labels" where
  "operation_labels op = [(''operation'', op)]"

subsection \<open>State\<close>

datatype lstate = StateIdle | StateStarting | StateRunning | StateDegraded | StateStopping | StateStopped

definition state_code :: "lstate \<Rightarrow> int" where
  "state_code s =
     (case s of StateIdle \<Rightarrow> 0 | StateStarting \<Rightarrow> 1 | StateRunning \<Rightarrow> 2 | StateDegraded \<Rightarrow> 3
      | StateStopping \<Rightarrow> 4 | StateStopped \<Rightarrow> 5)"

definition state_names :: "string list" where
  "state_names = [''idle'', ''starting'', ''running'', ''degraded'', ''stopping'', ''stopped'']"

definition state_string :: "int \<Rightarrow> string" where
  "state_string s = (if 0 \<le> s \<and> s < int (length state_names) then state_names ! nat s else ''unknown'')"

record registration =
  rgn_ServiceID :: string
  rgn_ServiceName :: string
  rgn_Address :: string
  rgn_Port :: int
  rgn_Scheme :: string
  rgn_CheckID :: string
  rgn_CheckType :: string
  rgn_Registered :: bool

definition no_registration :: registration where
  "no_registration = \<lparr>rgn_ServiceID = [], rgn_ServiceName = [], rgn_Address = [], rgn_Port = 0,
     rgn_Scheme = [], rgn_CheckID = [], rgn_CheckType = [], rgn_Registered = False\<rparr>"

record agent_check =
  ac_CheckID :: string
  ac_Name :: string
  ac_SuccessBeforePassing :: int
  ac_FailuresBeforeWarning :: int
  ac_FailuresBeforeCritical :: int
  ac_DeregisterAfter :: string
  ac_HTTP :: string
  ac_Method :: string
  ac_Header :: "(string, string list) fmap"
  ac_Body :: string
  ac_TLSServerName :: string
  ac_TLSSkipVerify :: bool
  ac_TCP :: string
  ac_TCPUseTLS :: bool
  ac_GRPC :: string
  ac_GRPCUseTLS :: bool
  ac_TTL :: string
  ac_Status :: string
  ac_Interval :: string
  ac_Timeout :: string

record agent_service =
  as_ID :: string
  as_Name :: string
  as_Tags :: "string list option"
  as_Address :: string
  as_Port :: int
  as_Ports :: "service_port list"
  as_Meta :: "(string, string) fmap"
  as_EnableTagOverride :: bool
  as_Namespace :: string
  as_Partition :: string
  as_Weights :: "service_weights option"
  as_TaggedAddresses :: "(string, tagged_addr) fmap"
  as_Check :: "agent_check option"
  as_AI :: bool

datatype consul_request =
    AgentSelf
  | ServiceRegister agent_service
  | ServiceDeregister string
  | ServiceWatch string string duration
  | EnableMaintenanceReq string string
  | DisableMaintenanceReq string
  | UpdateTTL string string string

record client = client_base +
  cl_health :: registry
  cl_hook :: "(agent_service \<Rightarrow> agent_service) option"
  cl_agent :: "agent_info option"
  cl_generated :: "string option"
  cl_reg :: registration
  cl_state :: lstate
  cl_cancelled :: bool
  cl_bg_cancelled :: bool
  cl_done :: bool
  cl_errs :: "goerr list"
  cl_errs_closed :: bool
  cl_wakeup :: bool
  cl_balancers :: "nat list"
  cl_requests :: "(consul_request \<times> duration option) list"
  cl_metrics :: "metric list"

definition emit :: "metric \<Rightarrow> client \<Rightarrow> client" where
  "emit m c = c\<lparr>cl_metrics := cl_metrics c @ [m]\<rparr>"

definition send :: "consul_request \<Rightarrow> duration option \<Rightarrow> client \<Rightarrow> client" where
  "send q bound c = c\<lparr>cl_requests := cl_requests c @ [(q, bound)]\<rparr>"

text \<open>\<open>requestContext\<close>: the timeout it adds, if any.\<close>

definition request_bound :: "client \<Rightarrow> duration option" where
  "request_bound c =
     (let d = cc_RequestTimeout (cf_Consul (cl_cfg c)) in if 0 < d then Some d else None)"

subsection \<open>The configuration as reported\<close>

text \<open>\<open>append([]T(nil), xs...)\<close> is nil for an empty slice.\<close>

definition copy_slice :: "'a list option \<Rightarrow> 'a list option" where
  "copy_slice s = (if slice_list s = [] then None else s)"

definition effective_config :: "client \<Rightarrow> config" where
  "effective_config c =
     (let cfg = cl_cfg c; cc = cf_Consul cfg; sv = cf_Service cfg; h = cf_Health cfg
      in cfg\<lparr>cf_Consul := cc\<lparr>cc_TLS := (cc_TLS cc)\<lparr>tl_CAPEM := None, tl_CertPEM := None, tl_KeyPEM := None\<rparr>\<rparr>,
             cf_Service := sv\<lparr>sv_Tags := copy_slice (sv_Tags sv), sv_Meta := merge_map fmempty (sv_Meta sv),
                              sv_TaggedAddresses := merge_map fmempty (sv_TaggedAddresses sv),
                              sv_Ports := copy_slice (sv_Ports sv)\<rparr>,
             cf_Health := h\<lparr>hc_Header := merge_map fmempty (hc_Header h)\<rparr>\<rparr>)"

subsection \<open>The agent\<close>

definition malformed_version :: goerr where
  "malformed_version = Opaque ''compat: malformed version''"

text \<open>\<open>self\<close> is the answer of \<open>GET /v1/agent/self\<close>: version, datacenter and node name.\<close>

definition detect_agent :: "(string \<times> string \<times> string) res \<Rightarrow> client \<Rightarrow> agent_info res \<times> client" where
  "detect_agent self c0 =
     (let c = send AgentSelf (request_bound c0) c0
      in case detect self malformed_version of
           Inl e \<Rightarrow> (Inl (Errorf [] [ErrConsulUnavailable, e]), c)
         | Inr info \<Rightarrow> (Inr info, c\<lparr>cl_agent := Some info\<rparr>))"

record agent_description =
  ad_Version :: string
  ad_Enterprise :: bool
  ad_Datacenter :: string
  ad_NodeName :: string

definition describe_agent :: "(string \<times> string \<times> string) res \<Rightarrow> client \<Rightarrow> agent_description res \<times> client" where
  "describe_agent self c =
     (let (r, c') = detect_agent self c
      in (bind_outcome r (\<lambda>i. Inr \<lparr>ad_Version = v_Raw (ai_Version i), ad_Enterprise = v_Enterprise (ai_Version i),
            ad_Datacenter = ai_Datacenter i, ad_NodeName = ai_NodeName i\<rparr>), c'))"

definition agent_version :: "client \<Rightarrow> version" where
  "agent_version c = (case cl_agent c of None \<Rightarrow> Unknown | Some i \<Rightarrow> ai_Version i)"

definition require_feature :: "client \<Rightarrow> int \<Rightarrow> goerr option" where
  "require_feature c f =
     (let v = agent_version c
      in if supports v f then None
         else Some (UnsupportedFeatureError (feature_name f) (feature_requirement f) (version_string v)))"

subsection \<open>Facts\<close>

lemma detect_agent_frame [simp]:
  "cl_cfg (snd (detect_agent self c)) = cl_cfg c" "cl_reg (snd (detect_agent self c)) = cl_reg c"
  "cl_state (snd (detect_agent self c)) = cl_state c"
  by (simp_all add: detect_agent_def send_def Let_def split: sum.splits)

lemma require_feature_is:
  "require_feature c f = Some e \<Longrightarrow> errors_is e ErrUnsupportedFeature"
  by (auto simp: require_feature_def Let_def split: if_splits)

end
