(* ===== verification/Registration.thy ===== *)
theory Registration
  imports Client
begin

text \<open>
  registration.go: the definition of the service and of its check, registration, deregistration and
  maintenance, and the classification of errors. What one registration observes (the answers of
  Consul, the context after each resolver, random bytes, the results of the health checkers) is an
  \<open>answers\<close>. A nil error is \<open>None\<close>.
\<close>

record answers =
  an_self :: "(string \<times> string \<times> string) res"
  an_ctx :: ctx_errs
  an_random :: "8 word list"
  an_order :: "string list"
  an_published :: "nat \<Rightarrow> result option"
  an_register :: "goerr option"
  an_elapsed :: duration

subsection \<open>Errors\<close>

definition op_error :: "goerr option \<Rightarrow> goerr \<Rightarrow> goerr" where
  "op_error op err =
     (case as_status err of
        Some code \<Rightarrow>
          (case op of
             None \<Rightarrow> Errorf (''consulx: consul returned '' @ itoa code) [err]
           | Some opr \<Rightarrow> Errorf [] [opr, err])
      | None \<Rightarrow>
        if errors_is err ErrConsulUnavailable
        then (case op of None \<Rightarrow> err | Some opr \<Rightarrow> Errorf [] [opr, err])
        else (case op of
                None \<Rightarrow> Errorf [] [ErrConsulUnavailable, err]
              | Some opr \<Rightarrow> Errorf [] [opr, ErrConsulUnavailable, err]))"

definition is_status :: "goerr \<Rightarrow> int \<Rightarrow> bool" where
  "is_status err code = (as_status err = Some code)"

definition is_permanent :: "goerr \<Rightarrow> bool" where
  "is_permanent err =
     (if errors_is err ErrInvalidConfiguration \<or> errors_is err ErrUnsupportedFeature then True
      else (case as_status err of
              None \<Rightarrow> False
            | Some code \<Rightarrow> 400 \<le> code \<and> code < 500 \<and> code \<noteq> 408 \<and> code \<noteq> 429))"

definition ttl_status :: "hstatus \<Rightarrow> string" where
  "ttl_status s =
     (if s = StatusUp then ''passing'' else if s = StatusDegraded then ''warning'' else ''critical'')"

subsection \<open>Build information\<close>

definition consulx_path :: string where
  "consulx_path = ''github.com/jhonsferg/consulx''"

definition library_version :: "build_info option \<Rightarrow> string" where
  "library_version info =
     (case info of
        None \<Rightarrow> ''unknown''
      | Some b \<Rightarrow>
        if fst (bi_Main b) = consulx_path then trim_prefix (snd (bi_Main b)) ''v''
        else (case List.find (\<lambda>(p, v). p = consulx_path) (bi_Deps b) of
                Some (p, v) \<Rightarrow> trim_prefix v ''v''
              | None \<Rightarrow> ''unknown''))"

subsection \<open>The definition of the service\<close>

text \<open>
  \<open>serviceID\<close>: an ID is generated once. The generators of \<open>ServiceID\<close> fail only for a suffix longer
  than the limit, which neither a port nor a UUID is.
\<close>

definition generate_id :: "system \<Rightarrow> 8 word list \<Rightarrow> service_config \<Rightarrow> int \<Rightarrow> string" where
  "generate_id sy rnd s port =
     (let sid = (if sv_IDStrategy s = IDRandom then random_id (sy_lower sy) rnd (sv_Name s)
                else hostname_port (sy_lower sy) rnd (sv_Name s)
                       (case sy_hostname sy of Inr h \<Rightarrow> h | Inl _ \<Rightarrow> []) port)
      in case sid of Some t \<Rightarrow> t | None \<Rightarrow> [])"

definition service_id :: "system \<Rightarrow> 8 word list \<Rightarrow> int \<Rightarrow> client \<Rightarrow> string \<times> client" where
  "service_id sy rnd port c =
     (let s = cf_Service (cl_cfg c)
      in if sv_ID s \<noteq> [] then (sv_ID s, c)
         else (case cl_generated c of
                 Some sid \<Rightarrow> (sid, c)
               | None \<Rightarrow> let sid = generate_id sy rnd s port in (sid, c\<lparr>cl_generated := Some sid\<rparr>)))"

definition check_id :: "string \<Rightarrow> string" where
  "check_id sid = ''service:'' @ sid"

definition put_nonempty :: "string \<Rightarrow> string \<Rightarrow> (string, string) fmap \<Rightarrow> (string, string) fmap" where
  "put_nonempty k v m = (if v \<noteq> [] then fmupd k v m else m)"

definition build_meta :: "system \<Rightarrow> endpoint_info \<Rightarrow> service_config \<Rightarrow> (string, string) fmap" where
  "build_meta sy ep s =
     (let m0 = fmupd ''secure'' (format_bool (ep_Scheme ep = ''https'')) fmempty;
          m1 = (if sv_DisableAutoMeta s then m0
                else (let m = fmupd ''consulx_version'' (library_version (sy_build sy))
                                (fmupd ''go_version'' (sy_go_version sy) (fmupd ''language'' ''go'' m0))
                      in case sy_hostname sy of Inr h \<Rightarrow> fmupd ''hostname'' h m | Inl _ \<Rightarrow> m));
          m2 = put_nonempty ''zone'' (sv_Zone s)
                 (put_nonempty ''environment'' (sv_Environment s) (put_nonempty ''version'' (sv_Version s) m1))
      in m2 ++\<^sub>f sv_Meta s)"

definition new_check :: "config \<Rightarrow> string \<Rightarrow> agent_check" where
  "new_check cfg sid =
     (let h = cf_Health cfg
      in \<lparr>ac_CheckID = check_id sid, ac_Name = sv_Name (cf_Service cfg) @ '' '' @ hc_Check h @ '' check'',
          ac_SuccessBeforePassing = hc_SuccessBeforePassing h,
          ac_FailuresBeforeWarning = hc_FailuresBeforeWarning h,
          ac_FailuresBeforeCritical = hc_FailuresBeforeCritical h,
          ac_DeregisterAfter = (if 0 < hc_Deregister h then duration_string (hc_Deregister h) else []),
          ac_HTTP = [], ac_Method = [], ac_Header = fmempty, ac_Body = [], ac_TLSServerName = [],
          ac_TLSSkipVerify = False, ac_TCP = [], ac_TCPUseTLS = False, ac_GRPC = [], ac_GRPCUseTLS = False,
          ac_TTL = [], ac_Status = [], ac_Interval = [], ac_Timeout = []\<rparr>)"

text \<open>\<open>readiness\<close> is the status \<open>c.health.Ready\<close> reports.\<close>

definition build_check :: "config \<Rightarrow> hstatus \<Rightarrow> string \<Rightarrow> endpoint_info \<Rightarrow> agent_check option" where
  "build_check cfg readiness sid ep =
     (let h = cf_Health cfg;
          chk = new_check cfg sid;
          host_port = join_host_port (ep_Address ep) (itoa (ep_Port ep));
          timed = (\<lambda>k. k\<lparr>ac_Interval := duration_string (hc_Interval h),
                          ac_Timeout := duration_string (hc_Timeout h)\<rparr>)
      in if hc_Check h = CheckNone then None
         else if hc_Check h = CheckHTTP then
           Some (timed (chk\<lparr>ac_HTTP := ep_Scheme ep @ ''://'' @ host_port @ hc_CheckPath h,
             ac_Method := hc_Method h, ac_Header := hc_Header h, ac_Body := hc_Body h,
             ac_TLSServerName := hc_TLSServerName h, ac_TLSSkipVerify := hc_TLSSkipVerify h\<rparr>))
         else if hc_Check h = CheckTCP then
           Some (timed (chk\<lparr>ac_TCP := host_port, ac_TCPUseTLS := hc_UseTLS h,
             ac_TLSServerName := hc_TLSServerName h, ac_TLSSkipVerify := hc_TLSSkipVerify h\<rparr>))
         else if hc_Check h = CheckGRPC then
           Some (timed (chk\<lparr>ac_GRPC := (if hc_GRPCService h \<noteq> [] then host_port @ ''/'' @ hc_GRPCService h
                                         else host_port),
             ac_GRPCUseTLS := hc_UseTLS h,
             ac_TLSServerName := hc_TLSServerName h, ac_TLSSkipVerify := hc_TLSSkipVerify h\<rparr>))
         else if hc_Check h = CheckTTL then
           Some (chk\<lparr>ac_TTL := duration_string (hc_TTL h), ac_Status := ttl_status readiness\<rparr>)
         else Some (timed chk))"

definition readiness_of :: "answers \<Rightarrow> client \<Rightarrow> hstatus" where
  "readiness_of an c = rp_Status (ready (an_order an) (an_published an) (cl_health c))"

definition service_definition :: "system \<Rightarrow> hstatus \<Rightarrow> config \<Rightarrow> string \<Rightarrow> endpoint_info \<Rightarrow> agent_service" where
  "service_definition sy readiness cfg sid ep =
     (let s = cf_Service cfg; ports = slice_list (sv_Ports s)
      in \<lparr>as_ID = sid, as_Name = sv_Name s, as_Tags = sv_Tags s, as_Address = ep_Address ep,
          as_Port = (if ports \<noteq> [] then 0 else ep_Port ep), as_Ports = ports,
          as_Meta = build_meta sy ep s, as_EnableTagOverride = sv_EnableTagOverride s,
          as_Namespace = sv_Namespace s, as_Partition = sv_Partition s, as_Weights = sv_Weights s,
          as_TaggedAddresses = sv_TaggedAddresses s, as_Check = build_check cfg readiness sid ep,
          as_AI = False\<rparr>)"

definition need :: "client \<Rightarrow> bool \<Rightarrow> int \<Rightarrow> goerr option" where
  "need c cond f = (if cond then require_feature c f else None)"

definition uses_ipv6 :: "agent_service \<Rightarrow> bool" where
  "uses_ipv6 r \<longleftrightarrow>
     is_ipv6_host (as_Address r) \<or>
     (\<exists>k\<in>fset (fmdom (as_TaggedAddresses r)).
        case fmlookup (as_TaggedAddresses r) k of None \<Rightarrow> False | Some ta \<Rightarrow> is_ipv6_host (tg_Address ta))"

definition check_features :: "client \<Rightarrow> agent_service \<Rightarrow> goerr option" where
  "check_features c r =
     (let cc = cf_Consul (cl_cfg c)
      in errors_join
           [need c (as_Ports r \<noteq> []) MultiPort,
            need c (uses_ipv6 r) IPv6Address,
            need c (as_Namespace r \<noteq> [] \<or> cc_Namespace cc \<noteq> []) Namespaces,
            need c (as_Partition r \<noteq> [] \<or> cc_Partition cc \<noteq> []) Partitions,
            need c (as_AI r) AIService])"

definition build_registration ::
    "system \<Rightarrow> answers \<Rightarrow> endpoint_info \<Rightarrow> client \<Rightarrow> agent_service res \<times> client" where
  "build_registration sy an ep c0 =
     (let (sid, c) = service_id sy (an_random an) (ep_Port ep) c0;
          def0 = service_definition sy (readiness_of an c) (cl_cfg c) sid ep;
          reg = (case cl_hook c of None \<Rightarrow> def0 | Some h \<Rightarrow> h def0)
      in (case check_features c reg of Some e \<Rightarrow> Inl e | None \<Rightarrow> Inr reg, c))"

subsection \<open>Registering\<close>

definition registered_as :: "config \<Rightarrow> agent_service \<Rightarrow> endpoint_info \<Rightarrow> registration" where
  "registered_as cfg r ep =
     \<lparr>rgn_ServiceID = as_ID r, rgn_ServiceName = as_Name r, rgn_Address = ep_Address ep,
      rgn_Port = ep_Port ep, rgn_Scheme = ep_Scheme ep,
      rgn_CheckID = (case as_Check r of None \<Rightarrow> [] | Some k \<Rightarrow> ac_CheckID k),
      rgn_CheckType = hc_Check (cf_Health cfg), rgn_Registered = True\<rparr>"

text \<open>The request with its measurements, and what follows its answer.\<close>

definition submit :: "answers \<Rightarrow> endpoint_info \<Rightarrow> agent_service \<Rightarrow> client \<Rightarrow> goerr option \<times> client" where
  "submit an ep r c0 =
     (let c = emit (ObserveDuration MetricConsulRequestDuration (an_elapsed an) labelsRegister)
                (send (ServiceRegister r) (request_bound c0)
                  (emit (IncCounter MetricConsulRequestsTotal labelsRegister) c0))
      in case an_register an of
           Some e \<Rightarrow>
             (Some (op_error (Some ErrRegistrationFailed) e),
              emit (IncCounter MetricConsulRequestErrorsTotal labelsRegister)
                (emit (IncCounter MetricRegisterErrorsTotal []) c))
         | None \<Rightarrow>
             (None, (emit (IncCounter MetricRegisterTotal []) c)\<lparr>cl_reg := registered_as (cl_cfg c) r ep\<rparr>))"

definition define_and_submit :: "system \<Rightarrow> answers \<Rightarrow> client \<Rightarrow> goerr option \<times> client" where
  "define_and_submit sy an c =
     (case resolve_endpoint sy (an_ctx an) c of
        Inl e \<Rightarrow> (Some e, c)
      | Inr ep \<Rightarrow>
        (case build_registration sy an ep c of
           (Inl e, c') \<Rightarrow> (Some e, c')
         | (Inr r, c') \<Rightarrow> submit an ep r c'))"

text \<open>A token that may not read the agent (403) relaxes the feature gate instead of failing.\<close>

definition register :: "system \<Rightarrow> answers \<Rightarrow> client \<Rightarrow> goerr option \<times> client" where
  "register sy an c0 =
     (let (info, c) = detect_agent (an_self an) c0
      in case info of
           Inl e \<Rightarrow>
             if \<not> is_status e 403 then (Some (op_error (Some ErrRegistrationFailed) e), c)
             else define_and_submit sy an c
         | Inr _ \<Rightarrow> define_and_submit sy an c)"

definition mark_lost :: "client \<Rightarrow> client" where
  "mark_lost c = c\<lparr>cl_reg := (cl_reg c)\<lparr>rgn_Registered := False\<rparr>\<rparr>"

text \<open>\<open>deregister\<close> under a context with the bound \<open>b\<close>; \<open>answer\<close> is the answer of the agent.\<close>

definition deregister :: "duration option \<Rightarrow> goerr option \<Rightarrow> client \<Rightarrow> goerr option \<times> client" where
  "deregister b answer c0 =
     (let sid = rgn_ServiceID (cl_reg c0)
      in if sid = [] then (None, c0)
         else
           (let c = send (ServiceDeregister sid) b (emit (IncCounter MetricConsulRequestsTotal labelsDeregister) c0);
                failed = (case answer of None \<Rightarrow> None | Some e \<Rightarrow> if is_status e 404 then None else Some e)
            in case failed of
                 Some e \<Rightarrow>
                   (Some (op_error (Some ErrDeregistrationFailed) e),
                    emit (IncCounter MetricConsulRequestErrorsTotal labelsDeregister)
                      (emit (IncCounter MetricDeregisterErrorsTotal []) c))
               | None \<Rightarrow> (None, emit (IncCounter MetricDeregisterTotal []) (mark_lost c))))"

definition deregister_call :: "goerr option \<Rightarrow> client \<Rightarrow> goerr option \<times> client" where
  "deregister_call answer c =
     (if rgn_ServiceID (cl_reg c) = [] then (Some ErrNotRegistered, c)
      else deregister (request_bound c) answer c)"

definition maintenance :: "(string \<Rightarrow> consul_request) \<Rightarrow> goerr option \<Rightarrow> client \<Rightarrow> goerr option \<times> client" where
  "maintenance rq answer c =
     (let sid = rgn_ServiceID (cl_reg c)
      in if sid = [] then (Some ErrNotRegistered, c)
         else (map_option (op_error None) answer, send (rq sid) (request_bound c) c))"

definition enable_maintenance :: "string \<Rightarrow> goerr option \<Rightarrow> client \<Rightarrow> goerr option \<times> client" where
  "enable_maintenance reason = maintenance (\<lambda>sid. EnableMaintenanceReq sid reason)"

definition disable_maintenance :: "goerr option \<Rightarrow> client \<Rightarrow> goerr option \<times> client" where
  "disable_maintenance = maintenance DisableMaintenanceReq"

subsection \<open>Facts on errors\<close>

definition op_kind :: "goerr option \<Rightarrow> bool" where
  "op_kind op \<longleftrightarrow> op \<in> {None, Some ErrRegistrationFailed, Some ErrDeregistrationFailed}"

lemma op_kindE:
  assumes "op_kind op"
  obtains "op = None" | "op = Some ErrRegistrationFailed" | "op = Some ErrDeregistrationFailed"
  using assms by (auto simp: op_kind_def)

lemma op_error_keeps: "errors_is err t \<Longrightarrow> errors_is (op_error op err) t"
  by (auto simp: op_error_def split: option.splits)

lemma op_error_op: "errors_is (op_error (Some opr) err) opr"
  by (auto simp: op_error_def split: option.splits)

lemma op_error_unavailable: "as_status err = None \<Longrightarrow> errors_is (op_error op err) ErrConsulUnavailable"
  by (auto simp: op_error_def split: option.splits)

lemma as_status_Errorf: "as_status (Errorf m es) = first_some (map as_status es)"
  by (simp add: as_status_def comp_def)

lemma as_status_sentinels [simp]:
  "as_status ErrRegistrationFailed = None" "as_status ErrDeregistrationFailed = None"
  "as_status ErrConsulUnavailable = None"
  by (simp_all add: as_status_def)

lemma op_error_status:
  assumes "op_kind op"
  shows "as_status (op_error op err) = as_status err"
  using assms by (cases "as_status err")
    (auto simp: op_kind_def op_error_def as_status_Errorf orelse_def split: option.splits)

lemma op_error_config:
  assumes "op_kind op" "t = ErrInvalidConfiguration \<or> t = ErrUnsupportedFeature"
  shows "errors_is (op_error op err) t \<longleftrightarrow> errors_is err t"
  using assms by (auto simp: op_kind_def op_error_def split: option.splits)

text \<open>
  Wrapping an error of Consul never hides it: it still matches whatever it matched, an error that
  carries no HTTP status also matches \<open>ErrConsulUnavailable\<close>, the status it carries stays readable, and
  whether it is permanent does not change. Permanent are exactly invalid configurations, unsupported
  features and client errors other than 408 and 429.
\<close>

theorem op_error_chain:
  assumes "op_kind op"
  shows "(errors_is err t \<longrightarrow> errors_is (op_error op err) t) \<and>
    (as_status err = None \<longrightarrow> errors_is (op_error op err) ErrConsulUnavailable) \<and>
    as_status (op_error op err) = as_status err \<and>
    is_permanent (op_error op err) = is_permanent err \<and>
    (is_permanent err \<longleftrightarrow>
       errors_is err ErrInvalidConfiguration \<or> errors_is err ErrUnsupportedFeature \<or>
       (\<exists>code. as_status err = Some code \<and> code \<in> {400..499} - {408, 429}))"
proof -
  have "is_permanent (op_error op err) = is_permanent err"
    by (simp add: is_permanent_def op_error_status [OF assms] op_error_config [OF assms])
  moreover have "is_permanent err \<longleftrightarrow>
      errors_is err ErrInvalidConfiguration \<or> errors_is err ErrUnsupportedFeature \<or>
      (\<exists>code. as_status err = Some code \<and> code \<in> {400..499} - {408, 429})"
    by (auto simp: is_permanent_def split: option.splits)
  ultimately show ?thesis
    using op_error_keeps op_error_unavailable op_error_status [OF assms] by blast
qed

theorem op_error_chain_witness:
  "is_permanent (op_error (Some ErrRegistrationFailed) (StatusError 403 ''denied'')) \<and>
   \<not> is_permanent (op_error None (StatusError 429 [])) \<and>
   errors_is (op_error None CtxDeadlineExceeded) ErrConsulUnavailable"
proof -
  have k: "op_kind (Some ErrRegistrationFailed)" "op_kind None" by (simp_all add: op_kind_def)
  have s: "as_status (StatusError 403 ''denied'') = Some 403" "as_status (StatusError 429 []) = Some 429"
    "as_status CtxDeadlineExceeded = None"
    by (simp_all add: as_status_def)
  show ?thesis
    using op_error_chain [OF k(1), of "StatusError 403 ''denied''"] op_error_chain [OF k(2), of "StatusError 429 []"]
      op_error_chain [OF k(2), of CtxDeadlineExceeded] s by auto
qed

subsection \<open>Facts on registration\<close>

lemma service_id_frame:
  "service_id sy rnd port c = (sid, c') \<Longrightarrow> c' = c\<lparr>cl_generated := cl_generated c'\<rparr>"
  by (auto simp: service_id_def Let_def split: if_splits option.splits)

lemma service_id_stable:
  "service_id sy rnd port c = (sid, c') \<Longrightarrow> cl_generated c'' = cl_generated c' \<Longrightarrow> cl_cfg c'' = cl_cfg c \<Longrightarrow>
     service_id sy' rnd' port' c'' = (sid, c'')"
  by (auto simp: service_id_def Let_def split: if_splits option.splits)

lemma build_registration_frame:
  "build_registration sy an ep c = (res, c') \<Longrightarrow> c' = c\<lparr>cl_generated := cl_generated c'\<rparr>"
  unfolding build_registration_def Let_def by (auto split: prod.splits dest: service_id_frame)

lemma build_registration_Inr:
  assumes "build_registration sy an ep c = (Inr r, c')" "cl_hook c = None"
  shows "\<exists>sid. service_id sy (an_random an) (ep_Port ep) c = (sid, c') \<and>
    r = service_definition sy (readiness_of an c') (cl_cfg c) sid ep"
proof -
  obtain sid c1 where s: "service_id sy (an_random an) (ep_Port ep) c = (sid, c1)" by fastforce
  obtain g where "c1 = c\<lparr>cl_generated := g\<rparr>" using service_id_frame [OF s] by blast
  with s assms show ?thesis
    by (auto simp: build_registration_def Let_def split: option.splits)
qed

lemma resolve_endpoint_Inl:
  "resolve_endpoint sy ctx c = Inl e \<Longrightarrow> errors_is e ErrInvalidConfiguration \<or> (\<exists>k. ctx k = Some e)"
proof -
  have port: "resolve_port sy c = Inl e \<Longrightarrow> errors_is e ErrInvalidConfiguration"
    by (auto simp: resolve_port_def server_port_def Let_def split: if_splits option.splits sum.splits)
  have walk: "walk_chain sy ctx allow errs k chain = Inl e \<Longrightarrow>
      errors_is e ErrInvalidConfiguration \<or> (\<exists>k. ctx k = Some e)" for allow errs k chain
    by (induction sy ctx allow errs k chain rule: walk_chain.induct)
      (auto split: sum.splits option.splits)
  assume "resolve_endpoint sy ctx c = Inl e"
  then show ?thesis
    using port walk
    by (auto simp: resolve_endpoint_def bind_outcome_def Let_def split: sum.splits if_splits option.splits)
qed

lemma check_features_Some:
  assumes "check_features c r = Some e"
  shows "errors_is e ErrUnsupportedFeature"
proof -
  let ?es = "[need c (as_Ports r \<noteq> []) MultiPort, need c (uses_ipv6 r) IPv6Address,
    need c (as_Namespace r \<noteq> [] \<or> cc_Namespace (cf_Consul (cl_cfg c)) \<noteq> []) Namespaces,
    need c (as_Partition r \<noteq> [] \<or> cc_Partition (cf_Consul (cl_cfg c)) \<noteq> []) Partitions,
    need c (as_AI r) AIService]"
  have j: "errors_join ?es = Some e" using assms by (simp only: check_features_def Let_def)
  then have "\<exists>x\<in>set ?es. x \<noteq> None" using errors_join_None [of ?es] by (metis option.distinct(1))
  then obtain f cond x where "Some x \<in> set ?es" "need c cond f = Some x" by fastforce
  moreover from this have "errors_is x ErrUnsupportedFeature"
    by (auto simp: need_def require_feature_is split: if_splits)
  ultimately show ?thesis using errors_join_is [of x ?es] j by (metis option.inject)
qed

definition admissible :: "version \<Rightarrow> config \<Rightarrow> agent_service \<Rightarrow> bool" where
  "admissible v cfg r \<longleftrightarrow>
     (as_Ports r \<noteq> [] \<longrightarrow> supports v MultiPort) \<and> (uses_ipv6 r \<longrightarrow> supports v IPv6Address) \<and>
     (as_Namespace r \<noteq> [] \<or> cc_Namespace (cf_Consul cfg) \<noteq> [] \<longrightarrow> supports v Namespaces) \<and>
     (as_Partition r \<noteq> [] \<or> cc_Partition (cf_Consul cfg) \<noteq> [] \<longrightarrow> supports v Partitions) \<and>
     (as_AI r \<longrightarrow> supports v AIService)"

lemma check_features_None:
  "check_features c r = None \<longleftrightarrow> admissible (agent_version c) (cl_cfg c) r"
  by (auto simp: check_features_def admissible_def errors_join_None need_def require_feature_def Let_def)

text \<open>Nothing was sent, or exactly the definition, whose answer decides.\<close>

definition refused :: "answers \<Rightarrow> client \<Rightarrow> goerr option \<Rightarrow> client \<Rightarrow> bool" where
  "refused an c err c' \<longleftrightarrow>
     cl_reg c' = cl_reg c \<and> cl_requests c' = cl_requests c \<and>
     (\<exists>e. err = Some e \<and> (errors_is e ErrInvalidConfiguration \<or> errors_is e ErrUnsupportedFeature \<or>
       (\<exists>k. an_ctx an k = Some e)))"

definition submitted :: "system \<Rightarrow> answers \<Rightarrow> client \<Rightarrow> goerr option \<Rightarrow> client \<Rightarrow> bool" where
  "submitted sy an c err c' \<longleftrightarrow>
     (\<exists>ep r. resolve_endpoint sy (an_ctx an) c = Inr ep \<and> admissible (agent_version c) (cl_cfg c) r \<and>
        cl_requests c' = cl_requests c @ [(ServiceRegister r, request_bound c)] \<and>
        err = map_option (op_error (Some ErrRegistrationFailed)) (an_register an) \<and>
        cl_reg c' = (if err = None then registered_as (cl_cfg c) r ep else cl_reg c))"

lemma agent_version_update [simp]: "agent_version (c\<lparr>cl_generated := g\<rparr>) = agent_version c"
  by (simp add: agent_version_def)

lemma submit_fields:
  "fst (submit an ep r c) = map_option (op_error (Some ErrRegistrationFailed)) (an_register an)"
  "cl_requests (snd (submit an ep r c)) = cl_requests c @ [(ServiceRegister r, request_bound c)]"
  "cl_reg (snd (submit an ep r c)) =
     (if an_register an = None then registered_as (cl_cfg c) r ep else cl_reg c)"
  by (simp_all add: submit_def Let_def emit_def send_def split: option.splits)

lemma define_and_submit_outcome:
  assumes d: "define_and_submit sy an c = (err, c')"
  shows "refused an c err c' \<or> submitted sy an c err c'"
proof (cases "resolve_endpoint sy (an_ctx an) c")
  case (Inl e)
  with d resolve_endpoint_Inl [OF Inl] show ?thesis by (auto simp: define_and_submit_def refused_def)
next
  case (Inr ep)
  obtain res c1 where b: "build_registration sy an ep c = (res, c1)" by fastforce
  from build_registration_frame [OF b] obtain g where g: "c1 = c\<lparr>cl_generated := g\<rparr>" by blast
  show ?thesis
  proof (cases res)
    case (Inl e)
    with b have "\<exists>r. check_features c1 r = Some e"
      by (auto simp: build_registration_def Let_def split: prod.splits option.splits)
    then have "errors_is e ErrUnsupportedFeature" using check_features_Some by blast
    moreover from d Inr b Inl have "err = Some e" "c' = c1" by (auto simp: define_and_submit_def)
    ultimately show ?thesis by (simp add: refused_def g)
  next
    case i: (Inr r)
    with b have "check_features c1 r = None"
      by (auto simp: build_registration_def Let_def split: prod.splits option.splits)
    then have a: "admissible (agent_version c) (cl_cfg c) r" by (simp add: check_features_None g)
    from d Inr b i have "(err, c') = submit an ep r c1" by (simp add: define_and_submit_def)
    then have "err = fst (submit an ep r c1)" "c' = snd (submit an ep r c1)" by (metis fst_conv, metis snd_conv)
    with a Inr have "submitted sy an c err c'"
      by (auto simp: submitted_def submit_fields g request_bound_def Let_def)
    then show ?thesis ..
  qed
qed

lemma detect_agent_shape:
  obtains a where "snd (detect_agent self c) =
    c\<lparr>cl_requests := cl_requests c @ [(AgentSelf, request_bound c)], cl_agent := a\<rparr>"
proof (cases "detect self malformed_version")
  case (Inl e)
  then show ?thesis by (intro that [of "cl_agent c"]) (simp add: detect_agent_def send_def)
next
  case (Inr i)
  then show ?thesis by (intro that [of "Some i"]) (simp add: detect_agent_def send_def)
qed

text \<open>
  C2. One attempt to register. The agent is asked for its version first. Then either nothing is sent
  and the error is an invalid configuration, an unsupported feature, the end of the context, or the
  failed detection as \<open>ErrRegistrationFailed\<close>; or exactly one definition is sent, which uses no
  feature the agent is known not to support. The registration is recorded as the agent accepted it,
  and only then: on every error the record is what it was.
\<close>

theorem register_outcome:
  assumes "register sy an c = (err, c')"
  defines "asked \<equiv> cl_requests c @ [(AgentSelf, request_bound c)]"
  shows "(cl_requests c' = asked \<and> cl_reg c' = cl_reg c \<and>
      (\<exists>e. err = Some e \<and> (errors_is e ErrRegistrationFailed \<or> errors_is e ErrInvalidConfiguration \<or>
         errors_is e ErrUnsupportedFeature \<or> (\<exists>k. an_ctx an k = Some e)))) \<or>
    (\<exists>ep r. resolve_endpoint sy (an_ctx an) c = Inr ep \<and>
      (case an_self an of Inl _ \<Rightarrow> True | Inr (v, _) \<Rightarrow>
         \<exists>ver. parse_version v = Some ver \<and> admissible ver (cl_cfg c) r) \<and>
      cl_requests c' = asked @ [(ServiceRegister r, request_bound c)] \<and>
      err = map_option (op_error (Some ErrRegistrationFailed)) (an_register an) \<and>
      cl_reg c' = (if err = None then registered_as (cl_cfg c) r ep else cl_reg c))"
proof -
  define c1 where "c1 = snd (detect_agent (an_self an) c)"
  obtain a where c1: "c1 = c\<lparr>cl_requests := asked, cl_agent := a\<rparr>"
    unfolding c1_def asked_def by (rule detect_agent_shape [of "an_self an" c])
  then have f: "cl_cfg c1 = cl_cfg c" "cl_reg c1 = cl_reg c" "cl_requests c1 = asked" by simp_all
  have f': "resolve_endpoint sy ctx c1 = resolve_endpoint sy ctx c" for ctx
    unfolding c1 by (rule resolve_endpoint_cong) simp_all
  have b: "request_bound c1 = request_bound c" by (simp add: request_bound_def f)
  show ?thesis
  proof (cases "\<exists>e. fst (detect_agent (an_self an) c) = Inl e \<and> \<not> is_status e 403")
    case True
    with assms(1) have "\<exists>e. err = Some (op_error (Some ErrRegistrationFailed) e)" "c' = c1"
      by (auto simp: register_def c1_def split: prod.splits)
    with f op_error_op show ?thesis by auto
  next
    case False
    with assms(1) have "define_and_submit sy an c1 = (err, c')"
      by (auto simp: register_def c1_def split: prod.splits sum.splits if_splits)
    then consider "refused an c1 err c'" | "submitted sy an c1 err c'" using define_and_submit_outcome by blast
    then show ?thesis
    proof cases
      case 1
      with f show ?thesis by (auto simp: refused_def)
    next
      case 2
      then obtain ep r where s: "resolve_endpoint sy (an_ctx an) c = Inr ep"
        "admissible (agent_version c1) (cl_cfg c) r"
        "cl_requests c' = asked @ [(ServiceRegister r, request_bound c)]"
        "err = map_option (op_error (Some ErrRegistrationFailed)) (an_register an)"
        "cl_reg c' = (if err = None then registered_as (cl_cfg c) r ep else cl_reg c)"
        using f f' b by (auto simp: submitted_def)
      have "case an_self an of Inl _ \<Rightarrow> True | Inr (v, _) \<Rightarrow>
          \<exists>ver. parse_version v = Some ver \<and> admissible ver (cl_cfg c) r"
        using s(2) False
        by (auto simp: c1_def detect_agent_def detect_def agent_version_def is_status_def as_status_def
            malformed_version_def Let_def split: sum.splits option.splits)
      with s show ?thesis by blast
    qed
  qed
qed

definition sample_client :: client where
  "sample_client =
     \<lparr>cl_cfg = cl_cfg sample_client_base,
      cl_scheme = ''http'', cl_server = cl_server sample_client_base, cl_listener = None, cl_resolver = None,
      cl_health = new_registry 0, cl_hook = None, cl_agent = None, cl_generated = Some ''orders-1'',
      cl_reg = no_registration, cl_state = StateIdle, cl_cancelled = False, cl_bg_cancelled = False,
      cl_done = False, cl_errs = [], cl_errs_closed = False, cl_wakeup = False, cl_balancers = [],
      cl_requests = [], cl_metrics = []\<rparr>"

definition sample_answers :: answers where
  "sample_answers =
     \<lparr>an_self = Inl (StatusError 403 []), an_ctx = (\<lambda>_. None), an_random = replicate 16 0, an_order = [],
      an_published = (\<lambda>_. None), an_register = None, an_elapsed = 5\<rparr>"

definition sample_like :: "client \<Rightarrow> bool" where
  "sample_like c \<longleftrightarrow>
     cl_cfg c = cl_cfg sample_client \<and> cl_scheme c = ''http'' \<and> cl_server c = cl_server sample_client_base \<and>
     cl_listener c = None \<and> cl_resolver c = None \<and> cl_hook c = None \<and> cl_generated c = Some ''orders-1''"

lemma sample_like_client: "sample_like sample_client"
  by (simp add: sample_like_def sample_client_def)

lemma sample_like_endpoint:
  "sample_like c \<Longrightarrow> resolve_endpoint sample_system (\<lambda>_. None) c =
     resolve_endpoint sample_system (\<lambda>_. None) sample_client_base"
  by (rule resolve_endpoint_cong) (simp_all add: sample_like_def sample_client_def sample_client_base_def)

lemma sample_build:
  assumes "cl_cfg c = cl_cfg sample_client" "cl_hook c = None" "cl_generated c = Some ''orders-1''"
    and "ep_Address ep = ''10.0.0.7''"
  shows "build_registration sample_system sample_answers ep c =
    (Inr (service_definition sample_system (readiness_of sample_answers c) (cl_cfg c) ''orders-1'' ep), c)"
proof -
  have cfg: "sv_ID (cf_Service (cl_cfg c)) = []" "slice_list (sv_Ports (cf_Service (cl_cfg c))) = []"
    "sv_Namespace (cf_Service (cl_cfg c)) = []" "sv_Partition (cf_Service (cl_cfg c)) = []"
    "sv_TaggedAddresses (cf_Service (cl_cfg c)) = fmempty"
    by (simp_all add: assms(1) sample_client_def sample_service no_service_def slice_list_def)
  have cc: "cc_Namespace (cf_Consul (cl_cfg c)) = []" "cc_Partition (cf_Consul (cl_cfg c)) = []"
    by (simp_all add: assms(1) sample_client_def sample_client_base_def apply_defaults_def default_consul_def
        no_config_def no_consul_def)
  have ip: "\<not> is_ipv6_host ''10.0.0.7''" by code_simp
  show ?thesis
    by (simp add: build_registration_def service_id_def cfg cc assms(2-4) service_definition_def
        check_features_def need_def uses_ipv6_def ip errors_join_def List.map_filter_simps Let_def)
qed

lemma sample_register:
  assumes "sample_like c"
  shows "\<exists>c'. register sample_system sample_answers c = (None, c') \<and> rgn_Registered (cl_reg c')"
proof -
  let ?c = "send AgentSelf (request_bound c) c"
  have "is_status (Errorf [] [ErrConsulUnavailable, StatusError 403 []]) 403"
    by (simp add: is_status_def as_status_def)
  then have r: "register sample_system sample_answers c = define_and_submit sample_system sample_answers ?c"
    by (simp add: register_def detect_agent_def detect_def sample_answers_def Let_def)
  have like: "sample_like ?c" using assms by (simp add: sample_like_def send_def)
  then obtain ep where ep: "resolve_endpoint sample_system (\<lambda>_. None) ?c = Inr ep" "ep_Address ep = ''10.0.0.7''"
    by (simp add: sample_like_endpoint sample_endpoint)
  have "cl_cfg ?c = cl_cfg sample_client" "cl_hook ?c = None" "cl_generated ?c = Some ''orders-1''"
    using like by (simp_all add: sample_like_def)
  note b = sample_build [OF this ep(2)]
  have a: "an_ctx sample_answers = (\<lambda>_. None)" "an_register sample_answers = None"
    by (simp_all add: sample_answers_def)
  obtain d where d: "define_and_submit sample_system sample_answers ?c = submit sample_answers ep d ?c"
    by (simp add: define_and_submit_def a ep b)
  have "fst (submit sample_answers ep d ?c) = None" "rgn_Registered (cl_reg (snd (submit sample_answers ep d ?c)))"
    by (simp_all add: submit_fields a registered_as_def)
  then show ?thesis unfolding r d by (metis prod.collapse)
qed

theorem register_outcome_witness:
  "\<exists>r. cl_requests (snd (register sample_system sample_answers sample_client)) =
     [(AgentSelf, Some (10 * second)), (ServiceRegister r, Some (10 * second))]"
proof -
  obtain c' where r: "register sample_system sample_answers sample_client = (None, c')"
    using sample_register [OF sample_like_client] by blast
  have b: "request_bound sample_client = Some (10 * second)" "cl_requests sample_client = []"
    by (simp_all add: request_bound_def sample_client_def sample_client_base_def apply_defaults_def
        default_consul_def no_config_def no_consul_def or_default_def default_defs duration_defs)
  from register_outcome [OF r] show ?thesis by (auto simp: r b)
qed

subsection \<open>The definition that is sent\<close>

definition auto_keys :: "string list" where
  "auto_keys =
     [''secure'', ''language'', ''go_version'', ''consulx_version'', ''hostname'', ''version'',
      ''environment'', ''zone'']"

lemma build_meta_keys: "fset (fmdom (build_meta sy ep s)) \<subseteq> set auto_keys \<union> fset (fmdom (sv_Meta s))"
  by (auto simp: build_meta_def auto_keys_def put_nonempty_def Let_def split: if_splits sum.splits)

lemma build_meta_count:
  assumes "fcard (fmdom (sv_Meta s)) \<le> 56"
  shows "fcard (fmdom (build_meta sy ep s)) \<le> 64"
proof -
  have "card (fset (fmdom (build_meta sy ep s))) \<le> card (set auto_keys \<union> fset (fmdom (sv_Meta s)))"
    by (rule card_mono [OF _ build_meta_keys]) simp
  also have "\<dots> \<le> card (set auto_keys) + card (fset (fmdom (sv_Meta s)))" by (rule card_Un_le)
  also have "\<dots> \<le> 8 + 56" using assms card_length [of auto_keys]
    by (intro add_mono) (simp_all add: fcard.rep_eq auto_keys_def)
  finally show ?thesis by (simp add: fcard.rep_eq)
qed

lemma auto_keys_valid: "list_all valid_key auto_keys"
  unfolding auto_keys_def by code_simp

lemma build_meta_valid:
  assumes "valid_meta (sv_Meta s)" "fmlookup (build_meta sy ep s) k = Some v"
  shows "valid_key k"
proof -
  have "k \<in> fset (fmdom (build_meta sy ep s))" using assms(2) by (rule fmdomI)
  then consider "k \<in> set auto_keys" | "k \<in> fset (fmdom (sv_Meta s))" using build_meta_keys by blast
  then show ?thesis
  proof cases
    case 1 with auto_keys_valid show ?thesis by (simp add: list_all_iff)
  next
    case 2 with assms(1) show ?thesis by (auto simp: valid_meta_def fmpred_iff fmlookup_dom_iff)
  qed
qed

lemma build_meta_user: "fmlookup (sv_Meta s) k = Some v \<Longrightarrow> fmlookup (build_meta sy ep s) k = Some v"
  by (simp add: build_meta_def Let_def fmdomI)

text \<open>The automatic keys whose values come from the configuration, the host or the build.\<close>

definition unchecked_keys :: "string list" where
  "unchecked_keys = [''version'', ''environment'', ''zone'', ''hostname'', ''go_version'', ''consulx_version'']"

lemma build_meta_short:
  assumes "valid_meta (sv_Meta s)" "fmlookup (build_meta sy ep s) k = Some v"
  shows "k \<in> set unchecked_keys \<or> length v \<le> 512"
proof (cases "k |\<in>| fmdom (sv_Meta s)")
  case True
  then have "fmlookup (sv_Meta s) k = Some v" using assms(2) by (simp add: build_meta_def Let_def)
  then show ?thesis using assms(1) by (auto simp: valid_meta_def fmpred_iff)
next
  case False
  show ?thesis
  proof (cases "k \<in> set unchecked_keys")
    case other: False
    have put: "fmlookup (put_nonempty x w m) i = (if x = i \<and> w \<noteq> [] then Some w else fmlookup m i)" for x w m i
      by (simp add: put_nonempty_def)
    have "fmlookup (build_meta sy ep s) k \<in> {None, Some ''go'', Some ''true'', Some ''false''}"
      using other False
      by (cases "sy_hostname sy"; cases "k = ''secure''"; cases "k = ''language''")
        (auto simp: build_meta_def unchecked_keys_def put format_bool_def Let_def)
    then show ?thesis using assms(2) by auto
  qed simp
qed

lemma build_meta_version:
  "sv_Version s \<noteq> [] \<Longrightarrow> fmlookup (sv_Meta s) ''version'' = None \<Longrightarrow>
     fmlookup (build_meta sy ep s) ''version'' = Some (sv_Version s)"
  by (simp add: build_meta_def put_nonempty_def fmlookup_dom_iff Let_def)

lemma build_check_id: "build_check cfg st sid ep = Some k \<Longrightarrow> ac_CheckID k = check_id sid"
  by (auto simp: build_check_def new_check_def Let_def split: if_splits)

lemma build_check_None: "build_check cfg st sid ep = None \<longleftrightarrow> hc_Check (cf_Health cfg) = CheckNone"
  by (simp add: build_check_def Let_def)

lemma service_definition_fields:
  "as_ID (service_definition sy st cfg sid ep) = sid"
  "as_Meta (service_definition sy st cfg sid ep) = build_meta sy ep (cf_Service cfg)"
  "as_Check (service_definition sy st cfg sid ep) = build_check cfg st sid ep"
  "as_Ports (service_definition sy st cfg sid ep) = slice_list (sv_Ports (cf_Service cfg))"
  "as_Port (service_definition sy st cfg sid ep) =
     (if slice_list (sv_Ports (cf_Service cfg)) \<noteq> [] then 0 else ep_Port ep)"
  by (simp_all add: service_definition_def Let_def)

text \<open>
  C23. What is sent to the agent, for a validated configuration without a hook: at most the 64 pairs of
  metadata Consul allows, all with keys it allows, and every pair of the user as the user gave it; the values
  are within its limit too, except those of the version, the environment, the zone, the host name and the two
  versions of the build, which no validation looks at and which are sent whatever their length. Either
  one port or named ports with one default; a check addressed by the ID of the service, unless there
  is none; the configured ID, and in every later registration of the same client the same ID.
\<close>

theorem definition_sent:
  assumes "build_registration sy an ep c = (Inr r, c')" "cl_hook c = None"
    and "valid_service auto (cf_Service (cl_cfg c))"
  shows "fcard (fmdom (as_Meta r)) \<le> 64 \<and>
    (\<forall>k v. fmlookup (as_Meta r) k = Some v \<longrightarrow> valid_key k \<and> (k \<in> set unchecked_keys \<or> length v \<le> 512)) \<and>
    (\<forall>k v. fmlookup (sv_Meta (cf_Service (cl_cfg c))) k = Some v \<longrightarrow> fmlookup (as_Meta r) k = Some v \<and> length v \<le> 512) \<and>
    (sv_Version (cf_Service (cl_cfg c)) \<noteq> [] \<and> fmlookup (sv_Meta (cf_Service (cl_cfg c))) ''version'' = None \<longrightarrow>
       fmlookup (as_Meta r) ''version'' = Some (sv_Version (cf_Service (cl_cfg c)))) \<and>
    (if as_Ports r = [] then as_Port r = ep_Port ep else as_Port r = 0 \<and> valid_ports (as_Ports r)) \<and>
    (case as_Check r of None \<Rightarrow> hc_Check (cf_Health (cl_cfg c)) = CheckNone
                      | Some k \<Rightarrow> ac_CheckID k = ''service:'' @ as_ID r) \<and>
    (sv_ID (cf_Service (cl_cfg c)) \<noteq> [] \<longrightarrow> as_ID r = sv_ID (cf_Service (cl_cfg c))) \<and>
    (\<forall>sy' an' ep' r' c''. build_registration sy' an' ep' c' = (Inr r', c'') \<longrightarrow> as_ID r' = as_ID r)"
proof -
  let ?s = "cf_Service (cl_cfg c)"
  obtain sid where s: "service_id sy (an_random an) (ep_Port ep) c = (sid, c')"
    and r: "r = service_definition sy (readiness_of an c') (cl_cfg c) sid ep"
    using build_registration_Inr [OF assms(1,2)] by blast
  obtain g where c': "c' = c\<lparr>cl_generated := g\<rparr>" using service_id_frame [OF s] by blast
  have again: "as_ID r' = sid" if "build_registration sy' an' ep' c' = (Inr r', c'')" for sy' an' ep' r' c''
  proof -
    have "cl_hook c' = None" by (simp add: c' assms(2))
    from build_registration_Inr [OF that this] obtain sid' where
      "service_id sy' (an_random an') (ep_Port ep') c' = (sid', c'')"
      "r' = service_definition sy' (readiness_of an' c'') (cl_cfg c') sid' ep'" by blast
    moreover have "service_id sy' (an_random an') (ep_Port ep') c' = (sid, c')"
      by (rule service_id_stable [OF s]) (simp_all add: c')
    ultimately show ?thesis by (simp add: service_definition_fields)
  qed
  have v: "valid_meta (sv_Meta ?s)" "valid_ports (slice_list (sv_Ports ?s))"
    using assms(3) by (simp_all add: valid_service_def)
  then have "fcard (fmdom (sv_Meta ?s)) \<le> 56" by (simp add: valid_meta_def)
  moreover have "sid = sv_ID ?s" if "sv_ID ?s \<noteq> []" using s that by (auto simp: service_id_def)
  moreover have "valid_key k \<and> (k \<in> set unchecked_keys \<or> length w \<le> 512)"
    if "fmlookup (build_meta sy ep ?s) k = Some w" for k w
    using build_meta_valid [OF v(1) that] build_meta_short [OF v(1) that] by blast
  moreover have "length w \<le> 512" if "fmlookup (sv_Meta ?s) k = Some w" for k w
    using v(1) that by (auto simp: valid_meta_def fmpred_iff)
  ultimately show ?thesis
    using v again
    by (auto simp: r service_definition_fields build_meta_count build_meta_user build_meta_version check_id_def
        build_check_None build_check_id split: option.splits)
qed

theorem definition_sent_witness:
  "as_ID (service_definition sample_system (readiness_of sample_answers sample_client) (cl_cfg sample_client)
     ''orders-1'' \<lparr>ep_Address = ''10.0.0.7'', ep_AddressSource = ''server'', ep_Port = 8080,
       ep_PortSource = ''server'', ep_Scheme = ''http''\<rparr>) = ''orders-1'' \<and>
   fcard (fmdom (as_Meta (service_definition sample_system (readiness_of sample_answers sample_client)
     (cl_cfg sample_client) ''orders-1'' \<lparr>ep_Address = ''10.0.0.7'', ep_AddressSource = ''server'', ep_Port = 8080,
       ep_PortSource = ''server'', ep_Scheme = ''http''\<rparr>))) \<le> 64"
proof -
  let ?ep = "\<lparr>ep_Address = ''10.0.0.7'', ep_AddressSource = ''server'', ep_Port = 8080,
       ep_PortSource = ''server'', ep_Scheme = ''http''\<rparr>"
  have h: "cl_hook sample_client = None" "cl_generated sample_client = Some ''orders-1''"
    by (simp_all add: sample_client_def)
  have b: "build_registration sample_system sample_answers ?ep sample_client =
      (Inr (service_definition sample_system (readiness_of sample_answers sample_client) (cl_cfg sample_client)
         ''orders-1'' ?ep), sample_client)"
    by (rule sample_build) (simp_all add: h)
  have v: "valid_service True (cf_Service (cl_cfg sample_client))"
    by (simp add: sample_client_def sample_service no_service_def valid_service_def valid_ports_def valid_meta_def
        slice_list_def contains_any_def name_chars_def fcard.rep_eq)
  from definition_sent [OF b h(1) v] show ?thesis by (simp add: service_definition_fields)
qed

end
