(* ===== verification/Reliability.thy ===== *)
theory Reliability
  imports Registration Backoff Blocking
begin

text \<open>
  reliability.go and the state of lifecycle.go: transitions, asynchronous errors, registration with
  retry, and the two runtime tasks. A task is a program counter and a step function: \<open>registrar\<close> and
  \<open>heart\<close> take what the task observes next (an answer of Consul, a timer, the end of its context) and
  return the next counter and the client, or \<open>None\<close> where that cannot be observed. A load of the state
  and the store after it are separate steps, as in the code. The retry policy is \<open>nd\<close>; its first
  argument is the random draw.
\<close>

subsection \<open>States and asynchronous errors\<close>

definition errors_buffer :: nat where
  "errors_buffer = 32"

definition set_state :: "lstate \<Rightarrow> client \<Rightarrow> client" where
  "set_state s c =
     (let c' = c\<lparr>cl_state := s\<rparr>
      in if cl_state c \<noteq> s then emit (SetGauge MetricRuntimeState (f64_of_int (state_code s)) []) c' else c')"

definition report_error :: "goerr \<Rightarrow> client \<Rightarrow> client" where
  "report_error e c =
     (if cl_errs_closed c then c
      else if length (cl_errs c) < errors_buffer then c\<lparr>cl_errs := cl_errs c @ [e]\<rparr>
      else emit (IncCounter MetricErrorsDroppedTotal []) c)"

definition receive_error :: "client \<Rightarrow> (goerr \<times> client) option" where
  "receive_error c = (case cl_errs c of [] \<Rightarrow> None | e # es \<Rightarrow> Some (e, c\<lparr>cl_errs := es\<rparr>))"

text \<open>The states from which \<open>setDegraded\<close> and \<open>setRunning\<close> move.\<close>

definition may_move :: "lstate \<Rightarrow> lstate \<Rightarrow> bool" where
  "may_move target s =
     (if target = StateDegraded then s = StateRunning \<or> s = StateStarting
      else s = StateDegraded \<or> s = StateStarting)"

definition set_degraded :: "client \<Rightarrow> client" where
  "set_degraded c = (if may_move StateDegraded (cl_state c) then set_state StateDegraded c else c)"

definition set_running :: "client \<Rightarrow> client" where
  "set_running c = (if may_move StateRunning (cl_state c) then set_state StateRunning c else c)"

subsection \<open>Registration with retry\<close>

text \<open>What one iteration of \<open>backoff.Retry\<close> observes.\<close>

record attempt =
  at_answers :: answers
  at_ctx :: "goerr option"
  at_since :: duration
  at_draw :: nat
  at_race :: "goerr option"

definition attempt_error :: "bool \<Rightarrow> goerr option \<Rightarrow> goerr option" where
  "attempt_error startup err =
     (case err of None \<Rightarrow> None
      | Some e \<Rightarrow> if startup \<and> is_permanent e then Permanent (Some e) else Some e)"

definition gives_up :: "duration \<Rightarrow> duration \<Rightarrow> duration \<times> bool \<Rightarrow> bool" where
  "gives_up max_elapsed since choice \<longleftrightarrow>
     \<not> snd choice \<or> 0 < max_elapsed \<and> max_elapsed < wrap64 (since + fst choice)"

text \<open>
  \<open>registerWithRetry\<close> over the iterations it makes; \<open>None\<close> is a run that has not returned after them.
\<close>

fun register_with_retry ::
    "(nat \<Rightarrow> int \<Rightarrow> duration \<times> bool) \<Rightarrow> system \<Rightarrow> bool \<Rightarrow> int \<Rightarrow> attempt list \<Rightarrow> client \<Rightarrow>
     (goerr option \<times> client) option" where
  "register_with_retry nd sy startup n [] c = None"
| "register_with_retry nd sy startup n (a # as) c0 =
     (let (res, c) = register sy (at_answers a) c0
      in case attempt_error startup res of
           None \<Rightarrow> Some (None, c)
         | Some e \<Rightarrow>
           (case as_permanent e of
              Some inner \<Rightarrow> Some (Some inner, c)
            | None \<Rightarrow>
              (case at_ctx a of
                 Some ce \<Rightarrow> Some (Some (retry_aborted e ce), c)
               | None \<Rightarrow>
                 if gives_up (rt_MaxElapsed (cf_Retry (cl_cfg c))) (at_since a) (nd (at_draw a) n)
                 then Some (Some e, c)
                 else
                   (let c' = (if startup then c else set_degraded c)
                    in case sleep (at_ctx a) (at_race a) (fst (nd (at_draw a) n)) of
                         Some we \<Rightarrow> Some (Some (retry_aborted e we), c')
                       | None \<Rightarrow> register_with_retry nd sy startup (n + 1) as c'))))"

subsection \<open>The registrar\<close>

datatype reg_pc =
    RegTop int
  | RegAttempt int
  | RegWait int duration
  | RegGotten
  | RegEnter int
  | RegWatch int string string
  | RegWatching int string string
  | RegHealthy string string
  | RegPause string string
  | RegReport int goerr
  | RegSleep int duration
  | RegLoad lstate reg_pc
  | RegStore lstate reg_pc
  | RegDone

datatype reg_event =
    Internal
  | Attempted answers duration nat
  | Watched "string res"
  | Chosen nat
  | TimerFired
  | CtxDone

definition watch_timeout :: "config \<Rightarrow> duration" where
  "watch_timeout cfg = request_timeout (cc_WaitTime (cf_Consul cfg)) (cc_RequestTimeout (cf_Consul cfg))"

text \<open>
  The outcome of one attempt of the background registration: on success the loop of \<open>runRegistrar\<close>
  goes on, otherwise \<open>Retry\<close> returns (\<open>registration abandoned\<close>) or waits after \<open>setDegraded\<close>.
\<close>

definition after_attempt ::
    "(nat \<Rightarrow> int \<Rightarrow> duration \<times> bool) \<Rightarrow> int \<Rightarrow> duration \<Rightarrow> nat \<Rightarrow> goerr option \<Rightarrow> client \<Rightarrow> reg_pc \<times> client" where
  "after_attempt nd n since draw err c =
     (case err of
        None \<Rightarrow> (RegGotten, c)
      | Some e \<Rightarrow>
        (case as_permanent e of
           Some inner \<Rightarrow> (RegDone, if cl_cancelled c then c else report_error inner c)
         | None \<Rightarrow>
           if cl_cancelled c then (RegDone, c)
           else if gives_up (rt_MaxElapsed (cf_Retry (cl_cfg c))) since (nd draw n)
           then (RegDone, report_error e c)
           else (RegLoad StateDegraded (RegWait n (fst (nd draw n))), c)))"

text \<open>The outcome of one blocking query on the service.\<close>

definition after_watch :: "int \<Rightarrow> string \<Rightarrow> string res \<Rightarrow> client \<Rightarrow> reg_pc \<times> client" where
  "after_watch f sid answer c =
     (case answer of
        Inr hash \<Rightarrow> (RegHealthy sid hash, c)
      | Inl e \<Rightarrow>
        if cl_cancelled c then (RegDone, c)
        else if is_status e 404 then (RegLoad StateDegraded (RegTop f), mark_lost c)
        else (RegLoad StateDegraded (RegReport (f + 1) e), c))"

fun registrar ::
    "(nat \<Rightarrow> int \<Rightarrow> duration \<times> bool) \<Rightarrow> system \<Rightarrow> reg_event \<Rightarrow> reg_pc \<Rightarrow> client \<Rightarrow> (reg_pc \<times> client) option" where
  "registrar nd sy e (RegTop f) c =
     (case e of
        Internal \<Rightarrow>
          Some (if cl_cancelled c then RegDone
                else if \<not> rgn_Registered (cl_reg c) then RegAttempt 1 else RegEnter f, c)
      | _ \<Rightarrow> None)"
| "registrar nd sy e (RegAttempt n) c =
     (case e of
        Attempted an since draw \<Rightarrow> let (err, c') = register sy an c in Some (after_attempt nd n since draw err c')
      | _ \<Rightarrow> None)"
| "registrar nd sy e (RegWait n d) c =
     (case e of
        TimerFired \<Rightarrow> if d \<le> 0 \<and> cl_cancelled c then None else Some (RegAttempt (n + 1), c)
      | CtxDone \<Rightarrow> if cl_cancelled c then Some (RegDone, c) else None
      | _ \<Rightarrow> None)"
| "registrar nd sy e RegGotten c =
     (case e of
        Internal \<Rightarrow>
          Some (RegLoad StateRunning (RegEnter 0),
                if cl_state c = StateDegraded then emit (IncCounter MetricReconnectTotal []) c else c)
      | _ \<Rightarrow> None)"
| "registrar nd sy e (RegEnter f) c =
     (case e of Internal \<Rightarrow> Some (RegWatch f (rgn_ServiceID (cl_reg c)) [], c) | _ \<Rightarrow> None)"
| "registrar nd sy e (RegWatch f sid hash) c =
     (case e of
        Internal \<Rightarrow>
          Some (if cl_cancelled c then (RegDone, c)
                else (RegWatching f sid hash,
                      send (ServiceWatch sid hash (cc_WaitTime (cf_Consul (cl_cfg c))))
                        (Some (watch_timeout (cl_cfg c))) c))
      | _ \<Rightarrow> None)"
| "registrar nd sy e (RegWatching f sid hash) c =
     (case e of Watched answer \<Rightarrow> Some (after_watch f sid answer c) | _ \<Rightarrow> None)"
| "registrar nd sy e (RegHealthy sid hash) c =
     (case e of
        Internal \<Rightarrow>
          Some (if cl_state c = StateDegraded
                then (RegLoad StateRunning (RegPause sid hash), emit (IncCounter MetricReconnectTotal []) c)
                else (RegPause sid hash, c))
      | _ \<Rightarrow> None)"
| "registrar nd sy e (RegPause sid hash) c =
     (case e of
        TimerFired \<Rightarrow> Some (RegWatch 0 sid hash, c)
      | CtxDone \<Rightarrow> if cl_cancelled c then Some (RegDone, c) else None
      | _ \<Rightarrow> None)"
| "registrar nd sy e (RegReport f cause) c =
     (case e of
        Chosen draw \<Rightarrow>
          Some (RegSleep f (if snd (nd draw f) then fst (nd draw f) else rt_MaxDelay (cf_Retry (cl_cfg c))),
                if f = 1 then report_error (op_error None cause) c else c)
      | _ \<Rightarrow> None)"
| "registrar nd sy e (RegSleep f d) c =
     (case e of
        TimerFired \<Rightarrow> Some (RegTop f, c)
      | CtxDone \<Rightarrow> if cl_cancelled c then Some (RegTop f, c) else None
      | _ \<Rightarrow> None)"
| "registrar nd sy e (RegLoad target k) c =
     (case e of Internal \<Rightarrow> Some (if may_move target (cl_state c) then RegStore target k else k, c) | _ \<Rightarrow> None)"
| "registrar nd sy e (RegStore target k) c =
     (case e of Internal \<Rightarrow> Some (k, set_state target c) | _ \<Rightarrow> None)"
| "registrar nd sy e RegDone c = None"

subsection \<open>The heartbeat\<close>

definition health_gauge :: "hstatus \<Rightarrow> f64" where
  "health_gauge s = (if s = StatusUp then Fin 1 else if s = StatusDegraded then Fin (1 / 2) else Fin 0)"

definition notify_health_changed :: "client \<Rightarrow> client" where
  "notify_health_changed c = c\<lparr>cl_wakeup := True\<rparr>"

text \<open>One TTL update; what the agent answers is only logged.\<close>

definition heartbeat :: "string list \<Rightarrow> (nat \<Rightarrow> result option) \<Rightarrow> client \<Rightarrow> client" where
  "heartbeat order published c =
     (let cur = cl_reg c
      in if \<not> rgn_Registered cur \<or> rgn_CheckID cur = [] then c
         else
           (let st = rp_Status (ready order published (cl_health c))
            in send (UpdateTTL (rgn_CheckID cur) (''ConsulX heartbeat: '' @ st) (ttl_status st)) (request_bound c)
                 (emit (SetGauge MetricHealthStatus (health_gauge st) []) c)))"

definition heartbeat_interval :: "config \<Rightarrow> duration" where
  "heartbeat_interval cfg = go_div (hc_TTL (cf_Health cfg)) 3"

datatype hb_pc = HbSelect | HbBeat | HbDone

datatype hb_event = HbCtx | HbTick | HbWake | HbSend "string list" "nat \<Rightarrow> result option"

fun heart :: "hb_event \<Rightarrow> hb_pc \<Rightarrow> client \<Rightarrow> (hb_pc \<times> client) option" where
  "heart e HbSelect c =
     (case e of
        HbCtx \<Rightarrow> if cl_cancelled c then Some (HbDone, c) else None
      | HbTick \<Rightarrow> Some (HbBeat, c)
      | HbWake \<Rightarrow> if cl_wakeup c then Some (HbBeat, c\<lparr>cl_wakeup := False\<rparr>) else None
      | HbSend _ _ \<Rightarrow> None)"
| "heart e HbBeat c =
     (case e of HbSend order published \<Rightarrow> Some (HbSelect, heartbeat order published c) | _ \<Rightarrow> None)"
| "heart e HbDone c = None"

end
