(* ===== verification/Lifecycle.thy ===== *)
theory Lifecycle
  imports Reliability
begin

text \<open>
  lifecycle.go: Start, Stop and the runtime tasks, interleaved. The mutex \<open>opMu\<close> admits one Start or
  Stop at a time: \<open>rt_op\<close> is where it is. The registrar and the heartbeat step in between, and so do the
  application's reads of the error channel and its health changes. Loads and stores of the state are
  separate steps. \<open>rt_returns\<close> logs what each call of Start and Stop returned. The other public calls
  (Register, Deregister, maintenance; the theory Registration) do not interleave here: they are for clients
  that do not register by themselves.
\<close>

datatype op_pc =
    OpNone
  | StartLoad
  | StartStore
  | StopDraining
  | StopCancel
  | StopWait
  | StopShutdown
  | StopDrain
  | StopFinish "goerr option"

datatype op_name = Start | Stop

record runtime =
  rt_client :: client
  rt_op :: op_pc
  rt_reg :: "reg_pc option"
  rt_hb :: "hb_pc option"
  rt_returns :: "(op_name \<times> goerr option) list"

subsection \<open>Start\<close>

text \<open>What \<open>start\<close> observes: the resolvers' contexts, the first attempt, or the attempts of a fail-fast start.\<close>

record start_env =
  se_ctx :: ctx_errs
  se_first :: answers
  se_attempts :: "attempt list"

text \<open>
  \<open>start\<close>: its error, the client, and whether the tasks are launched. \<open>None\<close> is a fail-fast start that
  has not returned after the given attempts.
\<close>

definition start ::
    "(nat \<Rightarrow> int \<Rightarrow> duration \<times> bool) \<Rightarrow> system \<Rightarrow> start_env \<Rightarrow> client \<Rightarrow> (goerr option \<times> client \<times> bool) option" where
  "start nd sy env c =
     (if \<not> auto_register (cf_Lifecycle (cl_cfg c)) then Some (None, c, False)
      else (case resolve_endpoint sy (se_ctx env) c of
              Inl e \<Rightarrow> Some (Some e, c, False)
            | Inr _ \<Rightarrow>
              if lc_FailFast (cf_Lifecycle (cl_cfg c))
              then (case register_with_retry nd sy True 1 (se_attempts env) c of
                      None \<Rightarrow> None
                    | Some (Some e, c') \<Rightarrow> Some (Some e, c', False)
                    | Some (None, c') \<Rightarrow> Some (None, c', True))
              else (case register sy (se_first env) c of
                      (None, c') \<Rightarrow> Some (None, c', True)
                    | (Some e, c') \<Rightarrow>
                        if errors_is e ErrInvalidConfiguration \<or> errors_is e ErrUnsupportedFeature
                        then Some (Some e, c', False)
                        else Some (None, set_degraded c', True))))"

definition close_services :: "client \<Rightarrow> client" where
  "close_services c = c\<lparr>cl_bg_cancelled := True, cl_balancers := []\<rparr>"

text \<open>\<open>finish\<close>; closing a channel twice panics.\<close>

definition finish :: "client \<Rightarrow> client option" where
  "finish c =
     (if cl_errs_closed c \<or> cl_done c then None
      else Some ((set_state StateStopped (close_services c))\<lparr>cl_errs_closed := True, cl_done := True\<rparr>))"

definition launch :: "client \<Rightarrow> runtime \<Rightarrow> runtime" where
  "launch c r =
     (let ttl = (hc_Check (cf_Health (cl_cfg c)) = CheckTTL)
      in r\<lparr>rt_client := (if ttl then c\<lparr>cl_health := on_push 0 (cl_health c)\<rparr> else c),
           rt_reg := Some (RegTop 0), rt_hb := (if ttl then Some HbSelect else None)\<rparr>)"

definition returns :: "op_name \<Rightarrow> goerr option \<Rightarrow> runtime \<Rightarrow> runtime" where
  "returns f err r = r\<lparr>rt_op := OpNone, rt_returns := rt_returns r @ [(f, err)]\<rparr>"

definition call_start ::
    "(nat \<Rightarrow> int \<Rightarrow> duration \<times> bool) \<Rightarrow> system \<Rightarrow> start_env \<Rightarrow> runtime \<Rightarrow> runtime option" where
  "call_start nd sy env r =
     (let c = rt_client r
      in if cl_state c = StateStopping \<or> cl_state c = StateStopped
         then Some (returns Start (Some ErrAlreadyStopped) r)
         else if cl_state c \<noteq> StateIdle then Some (returns Start (Some ErrAlreadyStarted) r)
         else (case start nd sy env (set_state StateStarting c) of
                 None \<Rightarrow> None
               | Some (Some e, c', _) \<Rightarrow>
                   (case finish (c'\<lparr>cl_cancelled := True\<rparr>) of
                      None \<Rightarrow> None
                    | Some c'' \<Rightarrow> Some (returns Start (Some e) (r\<lparr>rt_client := c''\<rparr>)))
               | Some (None, c', tasks) \<Rightarrow>
                   Some ((if tasks then launch c' r else r\<lparr>rt_client := c'\<rparr>)\<lparr>rt_op := StartLoad\<rparr>)))"

subsection \<open>Stop\<close>

definition reg_ended :: "runtime \<Rightarrow> bool" where
  "reg_ended r \<longleftrightarrow> rt_reg r = None \<or> rt_reg r = Some RegDone"

definition hb_ended :: "runtime \<Rightarrow> bool" where
  "hb_ended r \<longleftrightarrow> rt_hb r = None \<or> rt_hb r = Some HbDone"

definition call_stop :: "runtime \<Rightarrow> runtime" where
  "call_stop r =
     (let c = rt_client r
      in if cl_state c = StateIdle then returns Stop (Some ErrNotStarted) r
         else if cl_state c = StateStopped then returns Stop None r
         else r\<lparr>rt_client := set_state StateStopping c, rt_op := StopDraining\<rparr>)"

text \<open>\<open>shutdown\<close> under a context with the bound \<open>b\<close>; the drain follows only a deregistration.\<close>

definition shutdown :: "duration option \<Rightarrow> goerr option \<Rightarrow> runtime \<Rightarrow> runtime" where
  "shutdown b answer r =
     (let c = rt_client r
      in if lc_DeregisterOnShutdown (cf_Lifecycle (cl_cfg c)) \<noteq> Some True \<or> rgn_ServiceID (cl_reg c) = []
         then r\<lparr>rt_op := StopFinish None\<rparr>
         else (case deregister b answer c of
                 (Some e, c') \<Rightarrow> r\<lparr>rt_client := c', rt_op := StopFinish (Some e)\<rparr>
               | (None, c') \<Rightarrow>
                   r\<lparr>rt_client := c',
                     rt_op := (if 0 < lc_DrainDelay (cf_Lifecycle (cl_cfg c)) then StopDrain else StopFinish None)\<rparr>))"

subsection \<open>Steps\<close>

datatype event =
    CallStart start_env
  | CallStop
  | OpStep
  | Shutdown "duration option" "goerr option"
  | TaskReg reg_event
  | TaskHb hb_event
  | Receive
  | Push

definition op_step :: "runtime \<Rightarrow> runtime option" where
  "op_step r =
     (let c = rt_client r
      in case rt_op r of
           StartLoad \<Rightarrow>
             Some (if cl_state c = StateStarting then r\<lparr>rt_op := StartStore\<rparr> else returns Start None r)
         | StartStore \<Rightarrow> Some (returns Start None (r\<lparr>rt_client := set_state StateRunning c\<rparr>))
         | StopDraining \<Rightarrow>
             Some (r\<lparr>rt_client := c\<lparr>cl_health := set_draining True (cl_health c)\<rparr>, rt_op := StopCancel\<rparr>)
         | StopCancel \<Rightarrow> Some (r\<lparr>rt_client := c\<lparr>cl_cancelled := True\<rparr>, rt_op := StopWait\<rparr>)
         | StopWait \<Rightarrow> if reg_ended r \<and> hb_ended r then Some (r\<lparr>rt_op := StopShutdown\<rparr>) else None
         | StopDrain \<Rightarrow> Some (r\<lparr>rt_op := StopFinish None\<rparr>)
         | StopFinish err \<Rightarrow>
             (case finish c of None \<Rightarrow> None | Some c' \<Rightarrow> Some (returns Stop err (r\<lparr>rt_client := c'\<rparr>)))
         | _ \<Rightarrow> None)"

definition runtime_step ::
    "(nat \<Rightarrow> int \<Rightarrow> duration \<times> bool) \<Rightarrow> system \<Rightarrow> event \<Rightarrow> runtime \<Rightarrow> runtime option" where
  "runtime_step nd sy ev r =
     (let c = rt_client r
      in case ev of
           CallStart env \<Rightarrow> if rt_op r = OpNone then call_start nd sy env r else None
         | CallStop \<Rightarrow> if rt_op r = OpNone then Some (call_stop r) else None
         | OpStep \<Rightarrow> op_step r
         | Shutdown b answer \<Rightarrow> if rt_op r = StopShutdown then Some (shutdown b answer r) else None
         | TaskReg e \<Rightarrow>
             (case rt_reg r of
                None \<Rightarrow> None
              | Some pc \<Rightarrow>
                map_option (\<lambda>(pc', c'). r\<lparr>rt_client := c', rt_reg := Some pc'\<rparr>) (registrar nd sy e pc c))
         | TaskHb e \<Rightarrow>
             (case rt_hb r of
                None \<Rightarrow> None
              | Some pc \<Rightarrow> map_option (\<lambda>(pc', c'). r\<lparr>rt_client := c', rt_hb := Some pc'\<rparr>) (heart e pc c))
         | Receive \<Rightarrow> map_option (\<lambda>(e, c'). r\<lparr>rt_client := c'\<rparr>) (receive_error c)
         | Push \<Rightarrow> Some (r\<lparr>rt_client := notify_health_changed c\<rparr>))"

text \<open>
  \<open>Run\<close>: a failed Start is returned; then the context ends, and the result is that of a Stop bounded by
  the shutdown timeout, or Done is closed first (Stop was called elsewhere).
\<close>

definition run_returns :: "goerr option \<Rightarrow> bool \<Rightarrow> goerr option \<Rightarrow> goerr option" where
  "run_returns started done_first stopped =
     (case started of Some e \<Rightarrow> Some e | None \<Rightarrow> if done_first then None else stopped)"

definition run_stop_bound :: "client \<Rightarrow> duration" where
  "run_stop_bound c = lc_ShutdownTimeout (cf_Lifecycle (cl_cfg c))"

definition fresh :: "client \<Rightarrow> bool" where
  "fresh c \<longleftrightarrow> cl_state c = StateIdle \<and> \<not> cl_cancelled c \<and> \<not> cl_done c \<and> \<not> cl_errs_closed c \<and> cl_errs c = []"

definition initial :: "client \<Rightarrow> runtime" where
  "initial c = \<lparr>rt_client = c, rt_op = OpNone, rt_reg = None, rt_hb = None, rt_returns = []\<rparr>"

inductive reachable ::
    "(nat \<Rightarrow> int \<Rightarrow> duration \<times> bool) \<Rightarrow> system \<Rightarrow> runtime \<Rightarrow> bool" for nd sy where
  reach_init: "fresh c \<Longrightarrow> reachable nd sy (initial c)"
| reach_step: "reachable nd sy r \<Longrightarrow> runtime_step nd sy ev r = Some r' \<Longrightarrow> reachable nd sy r'"

subsection \<open>What the operations leave alone\<close>

definition same_life :: "client \<Rightarrow> client \<Rightarrow> bool" where
  "same_life c c' \<longleftrightarrow>
     cl_state c' = cl_state c \<and> cl_cancelled c' = cl_cancelled c \<and> cl_done c' = cl_done c \<and>
     cl_errs_closed c' = cl_errs_closed c \<and> cl_cfg c' = cl_cfg c"

named_theorems life "operations that leave the lifecycle alone"

lemma same_life_refl [life]: "same_life c c"
  by (simp add: same_life_def)

lemma same_life_trans: "same_life a b \<Longrightarrow> same_life b c \<Longrightarrow> same_life a c"
  by (simp add: same_life_def)

lemma same_life_emit [life]: "same_life c (emit m c)" and same_life_send [life]: "same_life c (send q b c)"
  by (simp_all add: same_life_def emit_def send_def)

lemma same_life_detect [life]: "same_life c (snd (detect_agent self c))"
  by (simp add: same_life_def detect_agent_def send_def Let_def split: sum.splits)

lemma same_life_build:
  assumes "build_registration sy an ep c = (res, c')"
  shows "same_life c c'"
proof -
  obtain g where "c' = c\<lparr>cl_generated := g\<rparr>" using build_registration_frame [OF assms] by blast
  then show ?thesis by (simp add: same_life_def)
qed

lemma same_life_submit [life]: "same_life c (snd (submit an ep r c))"
  by (simp add: same_life_def submit_def emit_def send_def Let_def split: option.splits)

lemma same_life_define: "define_and_submit sy an c = (err, c') \<Longrightarrow> same_life c c'"
proof -
  assume d: "define_and_submit sy an c = (err, c')"
  show ?thesis
  proof (cases "resolve_endpoint sy (an_ctx an) c")
    case (Inl e)
    with d show ?thesis by (simp add: define_and_submit_def life)
  next
    case (Inr ep)
    obtain res c1 where b: "build_registration sy an ep c = (res, c1)" by fastforce
    note one = same_life_build [OF b]
    show ?thesis
    proof (cases res)
      case (Inl e)
      with d Inr b one show ?thesis by (simp add: define_and_submit_def)
    next
      case i: (Inr r)
      with d Inr b have "c' = snd (submit an ep r c1)" by (simp add: define_and_submit_def)
      with one same_life_submit show ?thesis by (metis same_life_trans)
    qed
  qed
qed

lemma same_life_register: "register sy an c = (err, c') \<Longrightarrow> same_life c c'"
proof -
  assume r: "register sy an c = (err, c')"
  let ?c1 = "snd (detect_agent (an_self an) c)"
  have "c' = ?c1 \<or> define_and_submit sy an ?c1 = (err, c')"
    using r by (auto simp: register_def split: prod.splits sum.splits if_splits)
  then show ?thesis using same_life_detect same_life_define by (metis same_life_trans)
qed

lemma same_life_mark_lost [life]: "same_life c (mark_lost c)"
  by (simp add: same_life_def mark_lost_def)

lemma same_life_deregister: "deregister b answer c = (err, c') \<Longrightarrow> same_life c c'"
  by (auto simp: same_life_def deregister_def emit_def send_def mark_lost_def Let_def
      split: if_splits option.splits)

lemma same_life_report [life]: "same_life c (report_error e c)"
  by (simp add: same_life_def report_error_def emit_def)

lemma same_life_receive: "receive_error c = Some (e, c') \<Longrightarrow> same_life c c'"
  by (auto simp: same_life_def receive_error_def split: list.splits)

lemma same_life_heart: "heart e pc c = Some (pc', c') \<Longrightarrow> same_life c c'"
  by (cases pc; cases e)
    (auto simp: same_life_def heartbeat_def emit_def send_def Let_def split: if_splits)

lemma same_life_notify [life]: "same_life c (notify_health_changed c)"
  by (simp add: same_life_def notify_health_changed_def)

text \<open>Storing a state changes nothing else.\<close>

lemma set_state_fields [simp]:
  "cl_state (set_state s c) = s" "cl_cancelled (set_state s c) = cl_cancelled c"
  "cl_done (set_state s c) = cl_done c" "cl_errs_closed (set_state s c) = cl_errs_closed c"
  "cl_cfg (set_state s c) = cl_cfg c" "cl_requests (set_state s c) = cl_requests c"
  "cl_reg (set_state s c) = cl_reg c"
  by (simp_all add: set_state_def emit_def Let_def)

lemma set_degraded_fields:
  "cl_state (set_degraded c) = (if may_move StateDegraded (cl_state c) then StateDegraded else cl_state c)"
  "cl_cancelled (set_degraded c) = cl_cancelled c" "cl_done (set_degraded c) = cl_done c"
  "cl_errs_closed (set_degraded c) = cl_errs_closed c"
  by (simp_all add: set_degraded_def)

lemma retry_same_life:
  "register_with_retry nd sy True n as c = Some (res, c') \<Longrightarrow> same_life c c'"
proof (induction nd sy "True" n as c rule: register_with_retry.induct)
  case (2 nd sy n a as c0)
  obtain err c1 where r: "register sy (at_answers a) c0 = (err, c1)" by fastforce
  note one = same_life_register [OF r]
  have "same_life c1 c'"
    using 2(2) 2(1) [OF r [symmetric] refl] unfolding register_with_retry.simps r Let_def
    by (auto simp: life split: option.splits if_splits)
  with one show ?case by (rule same_life_trans)
qed simp

subsection \<open>The registrar\<close>

fun simple_pc :: "reg_pc \<Rightarrow> bool" where
  "simple_pc (RegLoad t k) = False"
| "simple_pc (RegStore t k) = False"
| "simple_pc _ = True"

fun reg_ok :: "reg_pc \<Rightarrow> bool" where
  "reg_ok (RegLoad t k) = (t \<in> {StateRunning, StateDegraded} \<and> simple_pc k)"
| "reg_ok (RegStore t k) = (t \<in> {StateRunning, StateDegraded} \<and> simple_pc k)"
| "reg_ok _ = True"

lemma simple_reg_ok: "simple_pc k \<Longrightarrow> reg_ok k"
  by (cases k) simp_all

lemma after_attempt_ok: "after_attempt nd n since draw err c = (pc', c') \<Longrightarrow> reg_ok pc'"
  by (auto simp: after_attempt_def split: option.splits if_splits)

lemma after_watch_ok: "after_watch f sid answer c = (pc', c') \<Longrightarrow> reg_ok pc'"
  by (auto simp: after_watch_def split: sum.splits if_splits)

lemma registrar_ok: "registrar nd sy e pc c = Some (pc', c') \<Longrightarrow> reg_ok pc \<Longrightarrow> reg_ok pc'"
  by (cases pc) (auto split: reg_event.splits if_splits prod.splits intro: simple_reg_ok after_attempt_ok after_watch_ok)

lemma after_attempt_life: "after_attempt nd n since draw err c = (pc', c') \<Longrightarrow> same_life c c'"
  by (auto simp: after_attempt_def life split: option.splits if_splits)

lemma after_watch_life: "after_watch f sid answer c = (pc', c') \<Longrightarrow> same_life c c'"
  by (auto simp: after_watch_def life split: sum.splits if_splits)

text \<open>Only a store of the registrar changes the state.\<close>

lemma registrar_life:
  assumes "registrar nd sy e pc c = Some (pc', c')"
  shows "same_life c c' \<or> (\<exists>t k. pc = RegStore t k \<and> pc' = k \<and> c' = set_state t c)"
proof (cases pc)
  case (RegAttempt n)
  with assms obtain an since draw err c1 where "register sy an c = (err, c1)"
    "after_attempt nd n since draw err c1 = (pc', c')"
    by (auto split: reg_event.splits prod.splits)
  then show ?thesis using same_life_register after_attempt_life same_life_trans by blast
qed (use assms in \<open>auto simp: life split: reg_event.splits if_splits intro: after_watch_life\<close>)

subsection \<open>The invariant\<close>

definition allowed_states :: "op_pc \<Rightarrow> lstate set" where
  "allowed_states pc =
     (if pc = OpNone then {StateIdle, StateRunning, StateDegraded, StateStopped}
      else if pc = StartLoad \<or> pc = StartStore then {StateStarting, StateRunning, StateDegraded}
      else {StateStopping, StateRunning, StateDegraded})"

fun past_wait :: "op_pc \<Rightarrow> bool" where
  "past_wait StopShutdown = True"
| "past_wait StopDrain = True"
| "past_wait (StopFinish e) = True"
| "past_wait _ = False"

definition life_ok :: "runtime \<Rightarrow> bool" where
  "life_ok r \<longleftrightarrow>
     (let c = rt_client r; stopped = (cl_state c = StateStopped)
      in cl_state c \<in> allowed_states (rt_op r) \<and> (cl_done c \<longleftrightarrow> stopped) \<and> (cl_errs_closed c \<longleftrightarrow> stopped) \<and>
         (cl_cancelled c \<longleftrightarrow> rt_op r = StopWait \<or> past_wait (rt_op r) \<or> stopped) \<and>
         (cl_state c = StateIdle \<longrightarrow> rt_reg r = None \<and> rt_hb r = None) \<and>
         (past_wait (rt_op r) \<or> stopped \<longrightarrow> reg_ended r \<and> hb_ended r) \<and>
         (\<forall>pc. rt_reg r = Some pc \<longrightarrow> reg_ok pc))"

lemma life_ok_initial: "fresh c \<Longrightarrow> life_ok (initial c)"
  by (auto simp: life_ok_def initial_def fresh_def allowed_states_def Let_def reg_ended_def hb_ended_def)

lemma life_ok_same:
  assumes "life_ok r" "same_life (rt_client r) c'"
  shows "life_ok (r\<lparr>rt_client := c'\<rparr>)"
  using assms by (simp add: life_ok_def same_life_def Let_def reg_ended_def hb_ended_def)

lemma life_ok_reg:
  assumes "life_ok r" "rt_reg r = Some pc" "registrar nd sy e pc (rt_client r) = Some (pc', c')"
  shows "life_ok (r\<lparr>rt_client := c', rt_reg := Some pc'\<rparr>)"
proof -
  let ?c = "rt_client r"
  have k: "reg_ok pc" using assms(1,2) by (auto simp: life_ok_def Let_def)
  have alive: "pc \<noteq> RegDone" using assms(3) by auto
  then have run: "\<not> past_wait (rt_op r)" "cl_state ?c \<noteq> StateStopped" "cl_state ?c \<noteq> StateIdle"
    using assms(1,2) by (auto simp: life_ok_def Let_def reg_ended_def)
  note ok = registrar_ok [OF assms(3) k]
  from registrar_life [OF assms(3)] show ?thesis
  proof
    assume "same_life ?c c'"
    with assms(1) run ok show ?thesis
      by (auto simp: life_ok_def same_life_def Let_def)
  next
    assume "\<exists>t k. pc = RegStore t k \<and> pc' = k \<and> c' = set_state t ?c"
    then obtain t k' where "pc = RegStore t k'" "c' = set_state t ?c" by blast
    moreover from this k have "t \<in> {StateRunning, StateDegraded}" by simp
    ultimately have "t \<in> {StateRunning, StateDegraded}" "c' = set_state t ?c" by simp_all
    with assms(1) run ok show ?thesis
      by (auto simp: life_ok_def allowed_states_def Let_def)
  qed
qed

lemma life_ok_hb:
  assumes "life_ok r" "rt_hb r = Some pc" "heart e pc (rt_client r) = Some (pc', c')"
  shows "life_ok (r\<lparr>rt_client := c', rt_hb := Some pc'\<rparr>)"
proof -
  have "pc \<noteq> HbDone" using assms(3) by auto
  then have "\<not> past_wait (rt_op r)" "cl_state (rt_client r) \<noteq> StateStopped"
    using assms(1,2) by (auto simp: life_ok_def Let_def hb_ended_def)
  with assms same_life_heart [OF assms(3)] show ?thesis
    by (auto simp: life_ok_def same_life_def Let_def reg_ended_def)
qed

lemma finish_Some:
  "finish c = Some c' \<longleftrightarrow> \<not> cl_errs_closed c \<and> \<not> cl_done c \<and>
     c' = (set_state StateStopped (close_services c))\<lparr>cl_errs_closed := True, cl_done := True\<rparr>"
  by (auto simp: finish_def)

lemma finish_fields:
  assumes "finish c = Some c'"
  shows "cl_state c' = StateStopped" "cl_done c'" "cl_errs_closed c'" "cl_cancelled c' = cl_cancelled c"
    "cl_requests c' = cl_requests c" "cl_reg c' = cl_reg c"
  using assms by (simp_all add: finish_Some close_services_def)

lemma life_ok_finish:
  assumes "life_ok r" "finish c = Some c'" "cl_cancelled c" "reg_ended r" "hb_ended r"
    and "\<forall>pc. rt_reg r = Some pc \<longrightarrow> reg_ok pc"
  shows "life_ok (returns f e (r\<lparr>rt_client := c'\<rparr>))"
  using assms by (simp add: life_ok_def returns_def allowed_states_def finish_fields reg_ended_def hb_ended_def)

lemma start_life:
  assumes "start nd sy env c = Some (err, c', tasks)"
  shows "cl_cancelled c' = cl_cancelled c" "cl_done c' = cl_done c" "cl_errs_closed c' = cl_errs_closed c"
    "cl_state c = StateStarting \<Longrightarrow> cl_state c' \<in> {StateStarting, StateDegraded}"
proof -
  consider "same_life c c'" | c1 where "same_life c c1" "c' = set_degraded c1"
    using assms unfolding start_def
    by (auto simp: life split: if_splits sum.splits option.splits prod.splits
        dest: retry_same_life same_life_register)
  then show "cl_cancelled c' = cl_cancelled c" "cl_done c' = cl_done c" "cl_errs_closed c' = cl_errs_closed c"
    "cl_state c = StateStarting \<Longrightarrow> cl_state c' \<in> {StateStarting, StateDegraded}"
    by (cases, simp_all add: same_life_def set_degraded_fields may_move_def)+
qed

lemma launch_fields:
  "rt_op (launch c r) = rt_op r" "rt_reg (launch c r) = Some (RegTop 0)"
  "rt_hb (launch c r) \<in> {None, Some HbSelect}"
  "same_life c (rt_client (launch c r))"
  by (simp_all add: launch_def Let_def same_life_def)

lemma life_ok_call_start:
  assumes "life_ok r" "rt_op r = OpNone" "call_start nd sy env r = Some r'"
  shows "life_ok r'"
proof (cases "cl_state (rt_client r) = StateIdle")
  case False
  with assms show ?thesis
    by (auto simp: call_start_def Let_def returns_def life_ok_def reg_ended_def hb_ended_def split: if_splits)
next
  case True
  let ?c = "set_state StateStarting (rt_client r)"
  from assms(1) True have z: "\<not> cl_cancelled (rt_client r)" "\<not> cl_done (rt_client r)"
    "\<not> cl_errs_closed (rt_client r)" "rt_reg r = None" "rt_hb r = None"
    by (auto simp: life_ok_def Let_def assms(2))
  obtain err c' tasks where s: "start nd sy env ?c = Some (err, c', tasks)"
    using assms(3) True by (auto simp: call_start_def Let_def split: option.splits)
  note f = start_life [OF s]
  show ?thesis
  proof (cases err)
    case (Some e)
    with assms(3) True s obtain c'' where "finish (c'\<lparr>cl_cancelled := True\<rparr>) = Some c''"
      "r' = returns Start (Some e) (r\<lparr>rt_client := c''\<rparr>)"
      by (auto simp: call_start_def Let_def split: option.splits)
    moreover have "reg_ended r" "hb_ended r" using z by (simp_all add: reg_ended_def hb_ended_def)
    ultimately show ?thesis using life_ok_finish [OF assms(1)] z by simp
  next
    case None
    with assms(3) True s have r': "r' = (if tasks then launch c' r else r\<lparr>rt_client := c'\<rparr>)\<lparr>rt_op := StartLoad\<rparr>"
      by (auto simp: call_start_def Let_def split: option.splits)
    have c': "cl_state c' \<in> {StateStarting, StateDegraded}" "\<not> cl_cancelled c'" "\<not> cl_done c'" "\<not> cl_errs_closed c'"
      using f z by auto
    have "same_life c' (rt_client r')"
      unfolding r' using launch_fields(4) [of c' r] by (simp add: same_life_def)
    moreover have "rt_op r' = StartLoad" "\<forall>pc. rt_reg r' = Some pc \<longrightarrow> reg_ok pc"
      unfolding r' using z by (auto simp: launch_fields)
    ultimately show ?thesis using c'
      by (auto simp: life_ok_def same_life_def allowed_states_def Let_def)
  qed
qed

lemma life_ok_call_stop: "life_ok r \<Longrightarrow> rt_op r = OpNone \<Longrightarrow> life_ok (call_stop r)"
  by (auto simp: call_stop_def returns_def life_ok_def allowed_states_def Let_def reg_ended_def hb_ended_def)

lemma life_ok_shutdown:
  assumes "life_ok r" "rt_op r = StopShutdown"
  shows "life_ok (shutdown b answer r)"
proof -
  obtain err c' where d: "deregister b answer (rt_client r) = (err, c')" by fastforce
  from same_life_deregister [OF d] assms show ?thesis
    by (auto simp: shutdown_def d life_ok_def same_life_def allowed_states_def Let_def reg_ended_def hb_ended_def
        split: option.splits)
qed

lemma life_ok_move:
  assumes "life_ok r" "cl_state (rt_client r) \<in> allowed_states op"
    and "cl_cancelled (rt_client r) \<longleftrightarrow> op = StopWait \<or> past_wait op \<or> cl_state (rt_client r) = StateStopped"
    and "past_wait op \<Longrightarrow> reg_ended r \<and> hb_ended r"
  shows "life_ok (r\<lparr>rt_op := op\<rparr>)"
  using assms by (simp add: life_ok_def Let_def reg_ended_def hb_ended_def)

lemma life_ok_returns: "life_ok (returns f e r) \<longleftrightarrow> life_ok (r\<lparr>rt_op := OpNone\<rparr>)"
  by (simp add: life_ok_def returns_def reg_ended_def hb_ended_def)

lemma life_okD:
  assumes "life_ok r"
  shows "cl_state (rt_client r) \<in> allowed_states (rt_op r)"
    and "cl_cancelled (rt_client r) \<longleftrightarrow>
      rt_op r = StopWait \<or> past_wait (rt_op r) \<or> cl_state (rt_client r) = StateStopped"
    and "past_wait (rt_op r) \<or> cl_state (rt_client r) = StateStopped \<Longrightarrow> reg_ended r \<and> hb_ended r"
    and "rt_reg r = Some pc \<Longrightarrow> reg_ok pc"
    and "cl_state (rt_client r) = StateIdle \<Longrightarrow> rt_reg r = None \<and> rt_hb r = None"
    and "cl_done (rt_client r) \<longleftrightarrow> cl_state (rt_client r) = StateStopped"
    and "cl_errs_closed (rt_client r) \<longleftrightarrow> cl_state (rt_client r) = StateStopped"
  using assms by (auto simp: life_ok_def Let_def)

lemma life_ok_op_step:
  assumes "life_ok r" "op_step r = Some r'"
  shows "life_ok r'"
proof -
  note k = life_okD [OF assms(1)] and move = life_ok_move [OF assms(1)]
  show ?thesis
  proof (cases "rt_op r")
    case StartLoad
    with k(1,2) have s: "cl_state (rt_client r) \<in> {StateStarting, StateRunning, StateDegraded}"
      "\<not> cl_cancelled (rt_client r)"
      by (auto simp: allowed_states_def)
    then have "life_ok (r\<lparr>rt_op := StartStore\<rparr>)" by (intro move) (auto simp: allowed_states_def)
    moreover from s have "cl_state (rt_client r) \<noteq> StateStarting \<Longrightarrow> life_ok (r\<lparr>rt_op := OpNone\<rparr>)"
      by (intro move) (auto simp: allowed_states_def)
    ultimately show ?thesis
      using assms(2) StartLoad by (auto simp: op_step_def life_ok_returns split: if_splits)
  next
    case StartStore
    with k(1,2) have s: "cl_state (rt_client r) \<in> {StateStarting, StateRunning, StateDegraded}"
      "\<not> cl_cancelled (rt_client r)"
      by (auto simp: allowed_states_def)
    with k(6,7) have "\<not> cl_done (rt_client r)" "\<not> cl_errs_closed (rt_client r)" by auto
    with s k(4) assms(2) StartStore show ?thesis
      by (auto simp: op_step_def life_ok_returns) (simp_all add: life_ok_def allowed_states_def)
  next
    case StopDraining
    let ?c = "(rt_client r)\<lparr>cl_health := set_draining True (cl_health (rt_client r))\<rparr>"
    have "same_life (rt_client r) ?c" by (simp add: same_life_def)
    note one = life_ok_same [OF assms(1) this]
    from k(1,2) StopDraining have "life_ok ((r\<lparr>rt_client := ?c\<rparr>)\<lparr>rt_op := StopCancel\<rparr>)"
      by (intro life_ok_move [OF one]) (auto simp: allowed_states_def)
    with assms(2) StopDraining show ?thesis by (auto simp: op_step_def Let_def)
  next
    case StopCancel
    with k(1) have s: "cl_state (rt_client r) \<in> {StateStopping, StateRunning, StateDegraded}"
      by (auto simp: allowed_states_def)
    with k(6,7) have "\<not> cl_done (rt_client r)" "\<not> cl_errs_closed (rt_client r)" by auto
    with s k(4) StopCancel assms(2) show ?thesis
      by (auto simp: op_step_def life_ok_def allowed_states_def Let_def)
  next
    case StopWait
    with k(1,2) have "cl_state (rt_client r) \<in> allowed_states StopShutdown" "cl_cancelled (rt_client r)"
      by (auto simp: allowed_states_def)
    with assms(2) StopWait show ?thesis
      by (auto simp: op_step_def split: if_splits intro!: move)
  next
    case StopDrain
    with k(1,2,3) have "cl_state (rt_client r) \<in> allowed_states (StopFinish None)" "cl_cancelled (rt_client r)"
      "reg_ended r" "hb_ended r"
      by (auto simp: allowed_states_def)
    with assms(2) StopDrain show ?thesis by (auto simp: op_step_def intro!: move)
  next
    case (StopFinish e)
    with assms obtain c' where f: "finish (rt_client r) = Some c'" "r' = returns Stop e (r\<lparr>rt_client := c'\<rparr>)"
      by (auto simp: op_step_def Let_def split: option.splits)
    from k StopFinish have "cl_cancelled (rt_client r)" "reg_ended r" "hb_ended r"
      "\<forall>pc. rt_reg r = Some pc \<longrightarrow> reg_ok pc"
      by simp_all
    with f life_ok_finish [OF assms(1)] show ?thesis by simp
  qed (use assms(2) in \<open>simp_all add: op_step_def\<close>)
qed

lemma life_ok_step:
  assumes "life_ok r" "runtime_step nd sy ev r = Some r'"
  shows "life_ok r'"
proof (cases ev)
  case (CallStart env)
  with assms show ?thesis by (auto simp: runtime_step_def Let_def split: if_splits intro: life_ok_call_start)
next
  case CallStop
  with assms show ?thesis by (auto simp: runtime_step_def Let_def split: if_splits intro: life_ok_call_stop)
next
  case OpStep
  with assms show ?thesis by (auto simp: runtime_step_def Let_def intro: life_ok_op_step)
next
  case (Shutdown b answer)
  with assms show ?thesis by (auto simp: runtime_step_def Let_def split: if_splits intro: life_ok_shutdown)
next
  case (TaskReg e)
  with assms show ?thesis by (auto simp: runtime_step_def Let_def split: option.splits intro: life_ok_reg)
next
  case (TaskHb e)
  with assms show ?thesis by (auto simp: runtime_step_def Let_def split: option.splits intro: life_ok_hb)
next
  case Receive
  with assms show ?thesis
    by (auto simp: runtime_step_def Let_def intro: life_ok_same same_life_receive)
next
  case Push
  with assms show ?thesis by (auto simp: runtime_step_def Let_def intro: life_ok_same same_life_notify)
qed

lemma life_ok_reachable: "reachable nd sy r \<Longrightarrow> life_ok r"
  by (induction rule: reachable.induct) (auto intro: life_ok_initial life_ok_step)

subsection \<open>Safety\<close>

lemma stopped_op: "life_ok r \<Longrightarrow> cl_state (rt_client r) = StateStopped \<Longrightarrow> rt_op r = OpNone"
  using life_okD(1) [of r] by (auto simp: allowed_states_def split: if_splits)

lemma ended_no_step:
  "reg_ended r \<Longrightarrow> runtime_step nd sy (TaskReg e) r = None"
  "hb_ended r \<Longrightarrow> runtime_step nd sy (TaskHb x) r = None"
  by (auto simp: reg_ended_def hb_ended_def runtime_step_def Let_def)

lemma call_start_refused:
  "rt_op r = OpNone \<Longrightarrow> cl_state (rt_client r) \<in> {StateStopping, StateStopped} \<Longrightarrow>
     runtime_step nd sy (CallStart env) r = Some (returns Start (Some ErrAlreadyStopped) r)"
  "rt_op r = OpNone \<Longrightarrow> cl_state (rt_client r) \<in> {StateStarting, StateRunning, StateDegraded} \<Longrightarrow>
     runtime_step nd sy (CallStart env) r = Some (returns Start (Some ErrAlreadyStarted) r)"
  by (auto simp: runtime_step_def call_start_def Let_def)

lemma call_stop_refused:
  "rt_op r = OpNone \<Longrightarrow> cl_state (rt_client r) = StateIdle \<Longrightarrow>
     runtime_step nd sy CallStop r = Some (returns Stop (Some ErrNotStarted) r)"
  "rt_op r = OpNone \<Longrightarrow> cl_state (rt_client r) = StateStopped \<Longrightarrow>
     runtime_step nd sy CallStop r = Some (returns Stop None r)"
  by (simp_all add: runtime_step_def call_stop_def)

lemma stopped_step:
  assumes "life_ok r" "cl_state (rt_client r) = StateStopped" "runtime_step nd sy ev r = Some r'"
  shows "cl_state (rt_client r') = StateStopped \<and> cl_requests (rt_client r') = cl_requests (rt_client r) \<and>
    rt_reg r' = rt_reg r \<and> rt_hb r' = rt_hb r"
proof -
  have op: "rt_op r = OpNone" using stopped_op assms(1,2) by blast
  have e: "reg_ended r" "hb_ended r" using life_okD(3) [OF assms(1)] assms(2) by auto
  show ?thesis
  proof (cases ev)
    case (CallStart env)
    with assms call_start_refused(1) [OF op] show ?thesis by (auto simp: returns_def)
  next
    case CallStop
    with assms call_stop_refused(2) [OF op] show ?thesis by (auto simp: returns_def)
  next
    case (TaskReg x) with assms(3) ended_no_step(1) [OF e(1)] show ?thesis by simp
  next
    case (TaskHb x) with assms(3) ended_no_step(2) [OF e(2)] show ?thesis by simp
  qed (use assms op in \<open>auto simp: runtime_step_def op_step_def receive_error_def notify_health_changed_def
        Let_def split: list.splits\<close>)
qed

lemma finish_enabled:
  assumes "life_ok r" "rt_op r = StopFinish e"
  shows "\<exists>r'. runtime_step nd sy OpStep r = Some r' \<and> cl_done (rt_client r')"
proof -
  have "cl_state (rt_client r) \<noteq> StateStopped" using stopped_op assms by fastforce
  then have "finish (rt_client r) \<noteq> None" using life_okD(6,7) [OF assms(1)] by (simp add: finish_def)
  then obtain c' where f: "finish (rt_client r) = Some c'" by blast
  then have "cl_done c'" by (rule finish_fields)
  with f assms(2) show ?thesis by (simp add: runtime_step_def op_step_def returns_def)
qed


text \<open>
  C27. What Start and Stop answer to a call out of turn, without changing anything: Start is
  \<open>ErrAlreadyStarted\<close> on a started client and \<open>ErrAlreadyStopped\<close> on a stopped one; Stop is
  \<open>ErrNotStarted\<close> on an idle client and nil on a stopped one. A Start that fails ends in the state
  stopped with no task running.
\<close>

theorem start_stop_contract:
  assumes "reachable nd sy r" "rt_op r = OpNone"
  shows "(\<forall>env. cl_state (rt_client r) = StateStopped \<longrightarrow>
      runtime_step nd sy (CallStart env) r = Some (returns Start (Some ErrAlreadyStopped) r)) \<and>
    (\<forall>env. cl_state (rt_client r) \<in> {StateRunning, StateDegraded} \<longrightarrow>
      runtime_step nd sy (CallStart env) r = Some (returns Start (Some ErrAlreadyStarted) r)) \<and>
    (cl_state (rt_client r) = StateIdle \<longrightarrow>
      runtime_step nd sy CallStop r = Some (returns Stop (Some ErrNotStarted) r)) \<and>
    (cl_state (rt_client r) = StateStopped \<longrightarrow>
      runtime_step nd sy CallStop r = Some (returns Stop None r)) \<and>
    (\<forall>env r' e. cl_state (rt_client r) = StateIdle \<longrightarrow> runtime_step nd sy (CallStart env) r = Some r' \<longrightarrow>
      rt_returns r' = rt_returns r @ [(Start, Some e)] \<longrightarrow>
      cl_state (rt_client r') = StateStopped \<and> cl_done (rt_client r') \<and> rt_reg r' = None \<and> rt_hb r' = None)"
proof -
  have l: "life_ok r" using life_ok_reachable assms by blast
  have failed: "cl_state (rt_client r') = StateStopped \<and> cl_done (rt_client r') \<and> rt_reg r' = None \<and> rt_hb r' = None"
    if idle: "cl_state (rt_client r) = StateIdle" and step: "runtime_step nd sy (CallStart env) r = Some r'"
      and ret: "rt_returns r' = rt_returns r @ [(Start, Some e)]" for env r' e
  proof -
    have cs: "call_start nd sy env r = Some r'" using step assms(2) by (simp add: runtime_step_def)
    obtain err c' tasks where s: "start nd sy env (set_state StateStarting (rt_client r)) = Some (err, c', tasks)"
      using cs idle by (auto simp: call_start_def Let_def split: option.splits)
    have "err \<noteq> None"
    proof
      assume "err = None"
      with cs idle s have "rt_returns r' = rt_returns r"
        by (auto simp: call_start_def launch_def Let_def split: if_splits)
      with ret show False by simp
    qed
    with cs idle s obtain c'' x where "finish (c'\<lparr>cl_cancelled := True\<rparr>) = Some c''"
      "r' = returns Start (Some x) (r\<lparr>rt_client := c''\<rparr>)"
      by (auto simp: call_start_def Let_def split: option.splits)
    with life_okD(5) [OF l idle] show ?thesis by (simp add: returns_def finish_fields)
  qed
  show ?thesis
    using call_start_refused [OF assms(2)] call_stop_refused [OF assms(2)] failed by auto
qed

subsection \<open>Stop ends\<close>

fun run ::
    "(nat \<Rightarrow> int \<Rightarrow> duration \<times> bool) \<Rightarrow> system \<Rightarrow> event list \<Rightarrow> runtime \<Rightarrow> runtime option" where
  "run nd sy [] r = Some r"
| "run nd sy (e # es) r = (case runtime_step nd sy e r of None \<Rightarrow> None | Some r' \<Rightarrow> run nd sy es r')"

lemma run_append:
  "run nd sy (es @ fs) r = (case run nd sy es r of None \<Rightarrow> None | Some r' \<Rightarrow> run nd sy fs r')"
  by (induction nd sy es r rule: run.induct) (auto split: option.splits)

lemma run_reachable: "run nd sy es r = Some r' \<Longrightarrow> reachable nd sy r \<Longrightarrow> reachable nd sy r'"
  by (induction nd sy es r rule: run.induct) (auto split: option.splits intro: reach_step)

text \<open>How many more steps the registrar takes at most once its context has ended.\<close>

fun weight :: "reg_pc \<Rightarrow> nat" where
  "weight RegDone = 0"
| "weight (RegTop f) = 1"
| "weight (RegWatch f sid hash) = 1"
| "weight (RegEnter f) = 2"
| "weight (RegPause sid hash) = 2"
| "weight (RegSleep f d) = 2"
| "weight (RegReport f e) = 3"
| "weight RegGotten = 5"
| "weight (RegHealthy sid hash) = 5"
| "weight (RegWatching f sid hash) = 6"
| "weight (RegAttempt n) = 6"
| "weight (RegWait n d) = 7"
| "weight (RegLoad t k) = weight k + 2"
| "weight (RegStore t k) = weight k + 1"

lemma weight_le: "reg_ok pc \<Longrightarrow> weight pc \<le> 9"
proof -
  have "simple_pc k \<Longrightarrow> weight k \<le> 7" for k by (cases k) simp_all
  then show "reg_ok pc \<Longrightarrow> weight pc \<le> 9" by (cases pc) fastforce+
qed

lemma cancelled_attempt:
  "cl_cancelled c \<Longrightarrow> weight (fst (after_attempt nd n since draw err c)) \<le> 5"
  by (simp add: after_attempt_def split: option.splits)

lemma cancelled_watch: "cl_cancelled c \<Longrightarrow> weight (fst (after_watch f sid answer c)) \<le> 5"
  by (simp add: after_watch_def split: sum.splits)

lemma registrar_weight:
  assumes "registrar nd sy e pc c = Some (pc', c')" "cl_cancelled c"
  shows "weight pc' < weight pc"
proof (cases pc)
  case (RegAttempt n)
  with assms(1) obtain an since draw err c1 where r: "register sy an c = (err, c1)"
    "after_attempt nd n since draw err c1 = (pc', c')"
    by (auto split: reg_event.splits prod.splits)
  with assms(2) same_life_register [OF r(1)] have "cl_cancelled c1" by (simp add: same_life_def)
  from cancelled_attempt [OF this, of nd n since draw err] r(2) RegAttempt show ?thesis by simp
next
  case (RegWatching f sid hash)
  with assms(1) obtain answer where "after_watch f sid answer c = (pc', c')"
    by (auto split: reg_event.splits)
  with cancelled_watch [OF assms(2), of f sid answer] RegWatching show ?thesis by simp
qed (use assms in \<open>auto split: reg_event.splits if_splits\<close>)

lemma pair_exists: "\<exists>x. f = Some x \<Longrightarrow> \<exists>a b. f = Some (a, b)"
  by auto

lemma registrar_progress:
  assumes "cl_cancelled c" "pc \<noteq> RegDone"
  shows "\<exists>e pc' c'. registrar nd sy e pc c = Some (pc', c')"
proof -
  define ev where "ev = (case pc of RegAttempt n \<Rightarrow> Attempted undefined 0 0 | RegWait n d \<Rightarrow> CtxDone
    | RegWatching f sid hash \<Rightarrow> Watched (Inr []) | RegPause sid hash \<Rightarrow> CtxDone | RegReport f e \<Rightarrow> Chosen 0
    | RegSleep f d \<Rightarrow> CtxDone | _ \<Rightarrow> Internal)"
  have "\<exists>x. registrar nd sy ev pc c = Some x"
    using assms by (cases pc) (simp_all add: ev_def split: prod.splits)
  then show ?thesis using pair_exists by blast
qed

lemma reg_step:
  assumes "rt_reg r = Some pc" "registrar nd sy e pc (rt_client r) = Some (pc', c')"
  shows "runtime_step nd sy (TaskReg e) r = Some (r\<lparr>rt_client := c', rt_reg := Some pc'\<rparr>)"
  using assms by (simp add: runtime_step_def)

lemma registrar_cancelled:
  assumes "registrar nd sy e pc c = Some (pc', c')" "cl_cancelled c"
  shows "cl_cancelled c'"
  using registrar_life [OF assms(1)] assms(2) by (auto simp: same_life_def)

lemma registrar_ends:
  assumes "rt_reg r = Some pc" "cl_cancelled (rt_client r)"
  shows "\<exists>es r'. length es \<le> weight pc \<and> run nd sy es r = Some r' \<and> rt_reg r' = Some RegDone \<and>
    rt_op r' = rt_op r \<and> rt_hb r' = rt_hb r \<and> cl_cancelled (rt_client r')"
  using assms
proof (induction "weight pc" arbitrary: r pc rule: less_induct)
  case less
  show ?case
  proof (cases "pc = RegDone")
    case True
    with less(2,3) show ?thesis by (intro exI [of _ "[]"] exI [of _ r]) simp
  next
    case False
    obtain e pc' c' where s: "registrar nd sy e pc (rt_client r) = Some (pc', c')"
      using registrar_progress less(3) False by blast
    let ?r = "r\<lparr>rt_client := c', rt_reg := Some pc'\<rparr>"
    note w = registrar_weight [OF s less(3)]
    have "cl_cancelled (rt_client ?r)" using registrar_cancelled [OF s less(3)] by simp
    from less(1) [OF w _ this] obtain es r' where "length es \<le> weight pc'" "run nd sy es ?r = Some r'"
      "rt_reg r' = Some RegDone" "rt_op r' = rt_op r" "rt_hb r' = rt_hb r" "cl_cancelled (rt_client r')"
      by auto
    with w reg_step [OF less(2) s] show ?thesis
      by (intro exI [of _ "TaskReg e # es"] exI [of _ r']) simp
  qed
qed

lemma heart_ends:
  assumes "rt_hb r = Some pc" "cl_cancelled (rt_client r)"
  shows "\<exists>es r'. length es \<le> 2 \<and> run nd sy es r = Some r' \<and> rt_hb r' = Some HbDone \<and>
    rt_op r' = rt_op r \<and> rt_reg r' = rt_reg r"
proof (cases pc)
  case HbSelect
  with assms show ?thesis by (intro exI [of _ "[TaskHb HbCtx]"]) (simp add: runtime_step_def)
next
  case HbBeat
  have "cl_cancelled (heartbeat [] (\<lambda>_. None) (rt_client r))"
    using assms(2) by (simp add: heartbeat_def send_def emit_def Let_def)
  with HbBeat assms show ?thesis
    by (intro exI [of _ "[TaskHb (HbSend [] (\<lambda>_. None)), TaskHb HbCtx]"]) (simp add: runtime_step_def)
next
  case HbDone
  with assms show ?thesis by (intro exI [of _ "[]"]) simp
qed

lemma tasks_end:
  assumes "reachable nd sy r" "rt_op r = StopWait"
  shows "\<exists>es r'. length es \<le> 11 \<and> run nd sy es r = Some r' \<and> rt_op r' = StopWait \<and> reg_ended r' \<and> hb_ended r'"
proof -
  have l: "life_ok r" using life_ok_reachable assms(1) by blast
  with assms(2) have c: "cl_cancelled (rt_client r)" using life_okD(2) by simp
  obtain es r1 where 1: "length es \<le> 9" "run nd sy es r = Some r1" "reg_ended r1" "rt_op r1 = StopWait"
    "cl_cancelled (rt_client r1)"
  proof (cases "rt_reg r")
    case None
    with that [of "[]" r] assms(2) c show ?thesis by (simp add: reg_ended_def)
  next
    case (Some pc)
    from registrar_ends [OF this c] obtain es r' where "length es \<le> weight pc" "run nd sy es r = Some r'"
      "rt_reg r' = Some RegDone" "rt_op r' = rt_op r" "cl_cancelled (rt_client r')" by blast
    moreover have "weight pc \<le> 9" using weight_le life_okD(4) [OF l Some] by blast
    ultimately show ?thesis using that [of es r'] assms(2) by (simp add: reg_ended_def)
  qed
  show ?thesis
  proof (cases "rt_hb r1")
    case None
    with 1 show ?thesis by (intro exI [of _ es] exI [of _ r1]) (simp add: hb_ended_def)
  next
    case (Some pc)
    from heart_ends [OF this 1(5)] obtain fs r' where f: "length fs \<le> 2" "run nd sy fs r1 = Some r'"
      "rt_hb r' = Some HbDone" "rt_op r' = rt_op r1" "rt_reg r' = rt_reg r1" by blast
    with 1 show ?thesis
      by (intro exI [of _ "es @ fs"] exI [of _ r']) (simp add: run_append hb_ended_def reg_ended_def)
  qed
qed

definition left_steps :: "runtime \<Rightarrow> nat" where
  "left_steps r = (case rt_reg r of None \<Rightarrow> 0 | Some pc \<Rightarrow> weight pc)"

fun is_reg :: "event \<Rightarrow> bool" where
  "is_reg (TaskReg e) = True"
| "is_reg _ = False"

lemma shutdown_fields:
  "rt_reg (shutdown b answer r) = rt_reg r" "same_life (rt_client r) (rt_client (shutdown b answer r))"
proof -
  obtain err c' where d: "deregister b answer (rt_client r) = (err, c')" by fastforce
  from same_life_deregister [OF d] show "rt_reg (shutdown b answer r) = rt_reg r"
    "same_life (rt_client r) (rt_client (shutdown b answer r))"
    by (simp_all add: shutdown_def d life Let_def split: option.splits)
qed

lemma cancelled_step:
  assumes "life_ok r" "cl_cancelled (rt_client r)" "runtime_step nd sy ev r = Some r'"
  shows "cl_cancelled (rt_client r') \<and>
    (if is_reg ev then left_steps r' < left_steps r else left_steps r' = left_steps r)"
proof -
  let ?c = "rt_client r"
  have s: "cl_state ?c \<noteq> StateIdle" and op: "rt_op r = OpNone \<longrightarrow> cl_state ?c = StateStopped"
    using life_okD(1,2) [OF assms(1)] assms(2) by (auto simp: allowed_states_def split: if_splits)
  have same: "cl_cancelled (rt_client r') \<and> left_steps r' = left_steps r" if "runtime_step nd sy ev r = Some r'" "\<not> is_reg ev"
  proof (cases ev)
    case (CallStart env)
    with that(1) have o: "rt_op r = OpNone" by (simp add: runtime_step_def split: if_splits)
    with op call_start_refused(1) [OF o, of nd sy env] that(1) CallStart have "r' = returns Start (Some ErrAlreadyStopped) r"
      by simp
    with assms(2) show ?thesis by (simp add: returns_def left_steps_def)
  next
    case CallStop
    with that(1) have o: "rt_op r = OpNone" by (simp add: runtime_step_def split: if_splits)
    with op call_stop_refused(2) [OF o, of nd sy] that(1) CallStop have "r' = returns Stop None r" by simp
    with assms(2) show ?thesis by (simp add: returns_def left_steps_def)
  next
    case OpStep
    with that assms(2) show ?thesis
      by (cases "rt_op r") (auto simp: runtime_step_def op_step_def returns_def left_steps_def Let_def finish_fields
          split: if_splits option.splits)
  next
    case (Shutdown b answer)
    with that have "r' = shutdown b answer r" by (simp add: runtime_step_def split: if_splits)
    with shutdown_fields [where b = b and answer = answer and r = r] assms(2) show ?thesis by (simp add: left_steps_def same_life_def)
  next
    case (TaskHb e)
    with that assms(2) show ?thesis
      by (auto simp: runtime_step_def Let_def left_steps_def same_life_def split: option.splits dest!: same_life_heart)
  next
    case Receive
    with that assms(2) show ?thesis
      by (auto simp: runtime_step_def Let_def left_steps_def same_life_def dest!: same_life_receive)
  next
    case Push
    with that assms(2) show ?thesis
      by (auto simp: runtime_step_def left_steps_def notify_health_changed_def)
  qed (use that in simp)
  show ?thesis
  proof (cases "is_reg ev")
    case False
    with same assms(3) show ?thesis by simp
  next
    case True
    then obtain e where "ev = TaskReg e" by (cases ev) auto
    with assms(3) obtain pc pc' c' where "rt_reg r = Some pc" and g: "registrar nd sy e pc ?c = Some (pc', c')"
      "r' = r\<lparr>rt_client := c', rt_reg := Some pc'\<rparr>"
      by (auto simp: runtime_step_def Let_def split: option.splits)
    with registrar_weight [OF g(1) assms(2)] registrar_cancelled [OF g(1) assms(2)] True
    show ?thesis by (simp add: left_steps_def)
  qed
qed

lemma registrar_bounded:
  "run nd sy es r = Some r' \<Longrightarrow> life_ok r \<Longrightarrow> cl_cancelled (rt_client r) \<Longrightarrow>
     length (filter is_reg es) + left_steps r' \<le> left_steps r"
proof (induction nd sy es r rule: run.induct)
  case (2 nd sy e es r)
  then obtain r1 where s: "runtime_step nd sy e r = Some r1" "run nd sy es r1 = Some r'"
    by (auto split: option.splits)
  note c = cancelled_step [OF 2(3,4) s(1)]
  from 2(1) [OF s] life_ok_step [OF 2(3) s(1)] c
  have "length (filter is_reg es) + left_steps r' \<le> left_steps r1" by blast
  with c show ?case by (cases "is_reg e") simp_all
qed simp

text \<open>
  C14. Stop ends. Once it waits for the tasks, the registrar takes at most nine more steps, however the
  steps of everyone else interleave and whatever Consul answers; and from every state the wait can be
  left: within fifteen steps both tasks end, the service is deregistered and the client is stopped, with
  Done closed.
\<close>

theorem stop_completes:
  assumes "reachable nd sy r" "rt_op r = StopWait"
  shows "(\<forall>es r'. run nd sy es r = Some r' \<longrightarrow> length (filter is_reg es) \<le> 9) \<and>
    (\<exists>es r'. length es \<le> 15 \<and> run nd sy es r = Some r' \<and> rt_op r' = OpNone \<and>
       cl_state (rt_client r') = StateStopped \<and> cl_done (rt_client r'))"
proof -
  have l: "life_ok r" using life_ok_reachable assms(1) by blast
  with assms(2) have c: "cl_cancelled (rt_client r)" using life_okD(2) by simp
  have "left_steps r \<le> 9" using life_okD(4) [OF l] weight_le by (simp add: left_steps_def split: option.splits)
  with registrar_bounded l c have bound: "length (filter is_reg es) \<le> 9" if "run nd sy es r = Some r'" for es r'
    using that by fastforce
  obtain es r1 where e: "length es \<le> 11" "run nd sy es r = Some r1" "rt_op r1 = StopWait" "reg_ended r1" "hb_ended r1"
    using tasks_end [OF assms] by blast
  let ?r2 = "r1\<lparr>rt_op := StopShutdown\<rparr>"
  have 2: "runtime_step nd sy OpStep r1 = Some ?r2" using e by (simp add: runtime_step_def op_step_def)
  have l2: "life_ok ?r2"
    using life_ok_step [OF _ 2] life_ok_reachable [OF run_reachable [OF e(2) assms(1)]] by blast
  let ?r3 = "shutdown None None ?r2"
  have 3: "runtime_step nd sy (Shutdown None None) ?r2 = Some ?r3" by (simp add: runtime_step_def)
  have l3: "life_ok ?r3" by (rule life_ok_step [OF l2 3])
  have "\<exists>fs r4. length fs \<le> 2 \<and> run nd sy fs ?r3 = Some r4 \<and> cl_done (rt_client r4) \<and> rt_op r4 = OpNone"
  proof -
    have fin: "\<exists>r4. run nd sy [OpStep] q = Some r4 \<and> cl_done (rt_client r4) \<and> rt_op r4 = OpNone"
      if "life_ok q" "rt_op q = StopFinish x" for q x
      using finish_enabled [OF that, of nd sy] that(2)
      by (auto simp: runtime_step_def op_step_def returns_def Let_def split: option.splits)
    have "rt_op ?r3 = StopDrain \<or> (\<exists>x. rt_op ?r3 = StopFinish x)"
      by (auto simp: shutdown_def Let_def split: option.splits prod.splits)
    then show ?thesis
    proof
      assume d: "rt_op ?r3 = StopDrain"
      let ?r3' = "?r3\<lparr>rt_op := StopFinish None\<rparr>"
      have s: "runtime_step nd sy OpStep ?r3 = Some ?r3'" using d by (simp add: runtime_step_def op_step_def)
      from fin [OF life_ok_step [OF l3 s]] obtain r4 where "run nd sy [OpStep] ?r3' = Some r4"
        "cl_done (rt_client r4)" "rt_op r4 = OpNone" by auto
      with s show ?thesis by (intro exI [of _ "[OpStep, OpStep]"] exI [of _ r4]) simp
    next
      assume "\<exists>x. rt_op ?r3 = StopFinish x"
      then obtain x where "rt_op ?r3 = StopFinish x" ..
      from fin [OF l3 this] obtain r4 where "run nd sy [OpStep] ?r3 = Some r4" "cl_done (rt_client r4)"
        "rt_op r4 = OpNone" by blast
      then show ?thesis by (intro exI [of _ "[OpStep]"] exI [of _ r4]) simp
    qed
  qed
  then obtain fs r4 where f: "length fs \<le> 2" "run nd sy fs ?r3 = Some r4" "cl_done (rt_client r4)" "rt_op r4 = OpNone"
    by blast
  have all: "run nd sy (es @ [OpStep, Shutdown None None] @ fs) r = Some r4"
    using e f 2 3 by (simp add: run_append)
  have "cl_state (rt_client r4) = StateStopped"
    using life_okD(6) life_ok_reachable [OF run_reachable [OF all assms(1)]] f(3) by blast
  with all e(1) f bound show ?thesis
    by (intro conjI exI [of _ "es @ [OpStep, Shutdown None None] @ fs"] exI [of _ r4]) auto
qed

subsection \<open>A run\<close>

definition sample_start :: start_env where
  "sample_start = \<lparr>se_ctx = (\<lambda>_. None), se_first = sample_answers, se_attempts = []\<rparr>"

lemma sample_reachable: "reachable nd sample_system (initial sample_client)"
  by (rule reach_init) (simp add: fresh_def sample_client_def)

lemma sample_settings:
  "auto_register (cf_Lifecycle (cl_cfg sample_client))" "\<not> lc_FailFast (cf_Lifecycle (cl_cfg sample_client))"
  "hc_Check (cf_Health (cl_cfg sample_client)) = CheckNone"
  by (simp_all add: sample_client_def sample_client_base_def apply_defaults_def no_config_def default_lifecycle_def
      no_lifecycle_def or_default_def auto_register_def default_health_def no_health_def no_endpoints_def
      check_type_defs Let_def)

lemma sample_started:
  "\<exists>c'. start nd sample_system sample_start (set_state StateStarting sample_client) = Some (None, c', True) \<and>
     rgn_Registered (cl_reg c') \<and> cl_state c' = StateStarting \<and> \<not> cl_cancelled c' \<and> \<not> cl_done c' \<and>
     cl_cfg c' = cl_cfg sample_client"
proof -
  let ?c = "set_state StateStarting sample_client"
  have like: "sample_like ?c"
    using sample_like_client by (simp add: sample_like_def set_state_def emit_def Let_def)
  obtain c' where r: "register sample_system sample_answers ?c = (None, c')" "rgn_Registered (cl_reg c')"
    using sample_register [OF like] by blast
  have "start nd sample_system sample_start ?c = Some (None, c', True)"
    by (simp add: start_def sample_settings sample_start_def sample_like_endpoint [OF like] sample_endpoint r)
  moreover have "cl_state sample_client = StateIdle" "\<not> cl_cancelled sample_client" "\<not> cl_done sample_client"
    by (simp_all add: sample_client_def)
  ultimately show ?thesis
    using r(2) same_life_register [OF r(1)] by (auto simp: same_life_def)
qed

definition sample_events :: "event list" where
  "sample_events =
     [CallStart sample_start, OpStep, OpStep, TaskReg Internal, TaskReg Internal, TaskReg Internal,
      TaskReg (Watched (Inl (Opaque ''refused''))), TaskReg Internal, CallStop, TaskReg Internal]"

lemma sample_run:
  "\<exists>r. run nd sample_system sample_events (initial sample_client) = Some r \<and> rt_op r = StopDraining \<and>
     cl_state (rt_client r) = StateDegraded"
proof -
  obtain c' where c': "start nd sample_system sample_start (set_state StateStarting sample_client) = Some (None, c', True)"
    "rgn_Registered (cl_reg c')" "cl_state c' = StateStarting" "\<not> cl_cancelled c'" "cl_cfg c' = cl_cfg sample_client"
    using sample_started by blast
  have idle: "cl_state sample_client = StateIdle" by (simp add: sample_client_def)
  have st: "\<not> is_status (Opaque ''refused'') 404" by (simp add: is_status_def as_status_def)
  have check: "CheckNone \<noteq> CheckTTL" by (simp add: check_type_defs)
  have cs: "call_start nd sample_system sample_start (initial sample_client) =
      Some ((launch c' (initial sample_client))\<lparr>rt_op := StartLoad\<rparr>)"
    by (simp add: call_start_def initial_def idle c')
  have l: "launch c' (initial sample_client) =
      \<lparr>rt_client = c', rt_op = OpNone, rt_reg = Some (RegTop 0), rt_hb = None, rt_returns = []\<rparr>"
    by (simp add: launch_def initial_def c' sample_settings check)
  have one: "runtime_step nd sample_system (CallStart sample_start) (initial sample_client) =
      Some \<lparr>rt_client = c', rt_op = StartLoad, rt_reg = Some (RegTop 0), rt_hb = None, rt_returns = []\<rparr>"
    using cs by (simp add: runtime_step_def l) (simp add: initial_def)
  show ?thesis
    unfolding sample_events_def run.simps(2) [of _ _ "CallStart sample_start"] one option.case
    by (simp add: runtime_step_def op_step_def returns_def c' after_watch_def st may_move_def call_stop_def send_def)
qed

text \<open>
  The load of the state and the store after it are two steps: a Stop that comes between them is
  overwritten, and the state reads degraded while the client is stopping.
\<close>

lemma stopping_reads_degraded:
  "\<exists>r. reachable nd sample_system r \<and> rt_op r = StopDraining \<and> cl_state (rt_client r) = StateDegraded"
  using sample_run run_reachable [OF _ sample_reachable] by blast

lemma sample_waiting: "\<exists>r. reachable nd sample_system r \<and> rt_op r = StopWait"
proof -
  obtain r where r: "reachable nd sample_system r" "rt_op r = StopDraining"
    using stopping_reads_degraded by blast
  obtain r1 where 1: "runtime_step nd sample_system OpStep r = Some r1" "rt_op r1 = StopCancel"
    using r(2) by (simp add: runtime_step_def op_step_def Let_def)
  obtain r2 where "runtime_step nd sample_system OpStep r1 = Some r2" "rt_op r2 = StopWait"
    using 1(2) by (simp add: runtime_step_def op_step_def Let_def)
  with r(1) 1 show ?thesis by (blast intro: reach_step)
qed


theorem stop_completes_witness:
  "\<exists>r es r'. reachable (\<lambda>_ _. (0, True)) sample_system r \<and> rt_op r = StopWait \<and>
     run (\<lambda>_ _. (0, True)) sample_system es r = Some r' \<and> cl_done (rt_client r')"
  using sample_waiting stop_completes by blast

theorem start_stop_contract_witness:
  "runtime_step (\<lambda>_ _. (0, True)) sample_system CallStop (initial sample_client) =
     Some (returns Stop (Some ErrNotStarted) (initial sample_client))"
proof -
  have "rt_op (initial sample_client) = OpNone" "cl_state (rt_client (initial sample_client)) = StateIdle"
    by (simp_all add: initial_def sample_client_def)
  with start_stop_contract [OF sample_reachable] show ?thesis by blast
qed

end
