(* ===== verification/Tree.thy ===== *)
theory Tree
  imports Errors GoFloat Prelude "HOL-Library.Finite_Map" "HOL-Library.Sublist"
begin

text \<open>
  kvconfig/kvconfig.go: configuration trees, the folders a loader reads and how their trees are
  decoded and merged. A Go map from strings is a finite map, so its order plays no part; the scalars are
  those the decoders produce. Decoding a JSON or YAML document is the argument \<open>parse_doc\<close>.
\<close>

subsection \<open>Trees\<close>

datatype scalar_value =
    SText string
  | SBool bool
  | SInt int
  | SUint nat
  | SFloat f64
  | SNull
  | SOther nat

datatype tree =
    Leaf scalar_value
  | Items "tree list"
  | Node "(string, tree) fmap"

type_synonym object = "(string, tree) fmap"

text \<open>The value at a path of keys.\<close>

fun tree_at :: "string list \<Rightarrow> tree \<Rightarrow> tree option" where
  "tree_at [] t = Some t"
| "tree_at (k # ks) (Node m) = Option.bind (fmlookup m k) (tree_at ks)"
| "tree_at (k # ks) _ = None"

definition as_object :: "tree option \<Rightarrow> object option" where
  "as_object t = (case t of Some (Node m) \<Rightarrow> Some m | _ \<Rightarrow> None)"

subsection \<open>Merging\<close>

text \<open>
  \<open>merge\<close>: what a value becomes on top of the one it replaces, if any; and the map of such effects
  applied to a destination.
\<close>

definition merge_into :: "object \<Rightarrow> (string, tree option \<Rightarrow> tree) fmap \<Rightarrow> object" where
  "merge_into dst fs = dst ++\<^sub>f fmmap_keys (\<lambda>k f. f (fmlookup dst k)) fs"

primrec merge_value :: "tree \<Rightarrow> tree option \<Rightarrow> tree" where
  "merge_value (Leaf s) = (\<lambda>d. Leaf s)"
| "merge_value (Items xs) = (\<lambda>d. Items xs)"
| "merge_value (Node m) =
     (\<lambda>d. Node (merge_into (case as_object d of Some dm \<Rightarrow> dm | None \<Rightarrow> fmempty) (fmmap merge_value m)))"

definition merge_tree :: "object \<Rightarrow> object \<Rightarrow> object" where
  "merge_tree dst src = merge_into dst (fmmap merge_value src)"

text \<open>\<open>normalizeTree\<close> copies a tree.\<close>

primrec normalize_value :: "tree \<Rightarrow> tree" where
  "normalize_value (Leaf s) = Leaf s"
| "normalize_value (Items xs) = Items (map normalize_value xs)"
| "normalize_value (Node m) = Node (fmmap normalize_value m)"

definition normalize_tree :: "object \<Rightarrow> object" where
  "normalize_tree m = fmmap normalize_value m"

subsection \<open>The loader's configuration\<close>

datatype kv_format = FormatKeyValue | FormatYAML | FormatJSON

record loader =
  ld_Name :: string
  ld_Profiles :: "string list"
  ld_Prefix :: string
  ld_DefaultContext :: string
  ld_ProfileSeparator :: string
  ld_Format :: kv_format
  ld_DataKey :: string
  ld_ErrorUnused :: bool
  ld_RequestTimeout :: duration
  ld_WaitTime :: duration
  ld_MinInterval :: duration
  ld_Retry :: "(int \<Rightarrow> duration \<times> bool) option"

definition fixed_delay :: "duration \<Rightarrow> int \<Rightarrow> duration \<times> bool" where
  "fixed_delay d _ = (d, True)"

definition new_loader :: "loader \<Rightarrow> loader" where
  "new_loader c =
     c\<lparr>ld_Prefix := trim (if ld_Prefix c = [] then ''config'' else ld_Prefix c) ''/'',
       ld_DefaultContext := (if ld_DefaultContext c = [] then ''application'' else ld_DefaultContext c),
       ld_ProfileSeparator := (if ld_ProfileSeparator c = [] then '','' else ld_ProfileSeparator c),
       ld_DataKey := (if ld_DataKey c = [] then ''data'' else ld_DataKey c),
       ld_WaitTime := (if ld_WaitTime c \<le> 0 then 5 * minute else ld_WaitTime c),
       ld_MinInterval := (if ld_MinInterval c \<le> 0 then second else ld_MinInterval c),
       ld_Retry := (case ld_Retry c of None \<Rightarrow> Some (fixed_delay (5 * second)) | r \<Rightarrow> r)\<rparr>"

definition contexts :: "loader \<Rightarrow> string list" where
  "contexts c =
     (let names = ld_DefaultContext c #
            (if ld_Name c \<noteq> [] \<and> ld_Name c \<noteq> ld_DefaultContext c then [ld_Name c] else [])
      in concat (map (\<lambda>n. (ld_Prefix c @ ''/'' @ n @ ''/'') #
            map (\<lambda>p. ld_Prefix c @ ''/'' @ n @ ld_ProfileSeparator c @ p @ ''/'') (ld_Profiles c)) names))"

subsection \<open>Decoding one folder\<close>

type_synonym kv_pairs = "(string \<times> string) list"

definition conflict :: "string \<Rightarrow> goerr" where
  "conflict key = Errorf (''consulx: config key '' @ key @ '' is both a value and a folder'') []"

text \<open>The walk to the parent of a leaf and the assignment; \<open>None\<close> is a conflict.\<close>

fun insert_path :: "string list \<Rightarrow> string \<Rightarrow> object \<Rightarrow> object option" where
  "insert_path [] v m = Some m"
| "insert_path [leaf] v m =
     (if as_object (fmlookup m leaf) \<noteq> None then None else Some (fmupd leaf (Leaf (SText v)) m))"
| "insert_path (part # q # parts) v m =
     (case fmlookup m part of
        Some (Node n) \<Rightarrow> map_option (\<lambda>n'. fmupd part (Node n') m) (insert_path (q # parts) v n)
      | Some _ \<Rightarrow> None
      | None \<Rightarrow> map_option (\<lambda>n'. fmupd part (Node n') m) (insert_path (q # parts) v fmempty))"

definition folder_marker :: "string \<Rightarrow> bool" where
  "folder_marker rel \<longleftrightarrow> rel = [] \<or> has_suffix rel ''/''"

fun decode_pairs :: "string \<Rightarrow> kv_pairs \<Rightarrow> object \<Rightarrow> object res" where
  "decode_pairs folder [] m = Inr m"
| "decode_pairs folder ((key, v) # ps) m =
     (let rel = trim_prefix key folder
      in if folder_marker rel then decode_pairs folder ps m
         else (case insert_path (split_on (CHR ''/'') rel) v m of
                 None \<Rightarrow> Inl (conflict key)
               | Some m' \<Rightarrow> decode_pairs folder ps m'))"

text \<open>The document of a folder; a document that is null is an empty object.\<close>

definition decode ::
    "(kv_format \<Rightarrow> string \<Rightarrow> object option res) \<Rightarrow> loader \<Rightarrow> string \<Rightarrow> kv_pairs \<Rightarrow> object res" where
  "decode parse_doc c folder ps =
     (if ld_Format c \<noteq> FormatKeyValue
      then (case List.find (\<lambda>(key, _). trim_prefix key folder = ld_DataKey c) ps of
              None \<Rightarrow> Inr fmempty
            | Some (key, v) \<Rightarrow>
              (case parse_doc (ld_Format c) v of
                 Inl e \<Rightarrow> Inl (Errorf (''consulx: decode '' @ key @ '': '') [e])
               | Inr None \<Rightarrow> Inr (normalize_tree fmempty)
               | Inr (Some doc) \<Rightarrow> Inr (normalize_tree doc)))
      else decode_pairs folder ps fmempty)"

subsection \<open>Loading\<close>

text \<open>The answers of Consul, one per folder: the pairs and the index, or the error.\<close>

type_synonym kv_answer = "(goerr, kv_pairs \<times> 64 word) outcome"

fun load_loop ::
    "(kv_format \<Rightarrow> string \<Rightarrow> object option res) \<Rightarrow> loader \<Rightarrow> (string \<Rightarrow> kv_answer) \<Rightarrow>
     string list \<Rightarrow> object \<Rightarrow> 64 word \<Rightarrow> (object \<times> 64 word) res" where
  "load_loop parse_doc c answers [] merged i = Inr (merged, i)"
| "load_loop parse_doc c answers (folder # ps) merged i =
     (case answers folder of
        Inl e \<Rightarrow> Inl (Errorf (''consulx: read config '' @ folder @ '': '') [e])
      | Inr (pairs, idx) \<Rightarrow>
        bind_outcome (decode parse_doc c folder pairs) (\<lambda>layer.
          load_loop parse_doc c answers ps (merge_tree merged layer) (max i idx)))"

definition load ::
    "(kv_format \<Rightarrow> string \<Rightarrow> object option res) \<Rightarrow> loader \<Rightarrow> (string \<Rightarrow> kv_answer) \<Rightarrow>
     (object \<times> 64 word) res" where
  "load parse_doc c answers = load_loop parse_doc c answers (contexts c) fmempty 0"

text \<open>\<open>subtree\<close>.\<close>

fun descend :: "object \<Rightarrow> string list \<Rightarrow> object" where
  "descend m [] = m"
| "descend m (part # parts) =
     (case as_object (fmlookup m part) of None \<Rightarrow> fmempty | Some n \<Rightarrow> descend n parts)"

definition subtree :: "object \<Rightarrow> string \<Rightarrow> object" where
  "subtree m path =
     (let p = trim path ''/'' in if p = [] then m else descend m (split_on (CHR ''/'') p))"


subsection \<open>Merging, path by path\<close>

lemma merge_into_lookup:
  "fmlookup (merge_into dst fs) k =
     (case fmlookup fs k of None \<Rightarrow> fmlookup dst k | Some f \<Rightarrow> Some (f (fmlookup dst k)))"
  by (simp add: merge_into_def fmlookup_dom_iff fmlookup_of_list split: option.splits)

lemma merge_tree_lookup:
  "fmlookup (merge_tree dst src) k =
     (case fmlookup src k of None \<Rightarrow> fmlookup dst k | Some v \<Rightarrow> Some (merge_value v (fmlookup dst k)))"
  by (simp add: merge_tree_def merge_into_lookup split: option.splits)

lemma merge_value_Node:
  "merge_value (Node m) d = Node (merge_tree (case as_object d of Some dm \<Rightarrow> dm | None \<Rightarrow> fmempty) m)"
  by (simp add: merge_tree_def)

lemma merge_value_flat: "as_object (Some v) = None \<Longrightarrow> merge_value v d = v"
  by (cases v) (simp_all add: as_object_def)

lemma normalize_value_id [simp]: "normalize_value t = t"
proof (induction t)
  case (Node m)
  have "fmmap normalize_value m = m"
  proof (rule fmap_ext)
    fix k show "fmlookup (fmmap normalize_value m) k = fmlookup m k"
      using Node by (cases "fmlookup m k") (simp_all add: fmran'I)
  qed
  then show ?case by simp
qed (simp_all add: map_idI)

lemma normalize_tree_id [simp]: "normalize_tree m = m"
  by (rule fmap_ext) (simp add: normalize_tree_def map_option_case split: option.splits)

lemma merge_value_empty: "as_object d = None \<Longrightarrow> merge_value t d = t"
proof (induction t arbitrary: d)
  case (Node m)
  have "merge_tree fmempty m = m"
  proof (rule fmap_ext)
    fix k show "fmlookup (merge_tree fmempty m) k = fmlookup m k"
      using Node.IH [of _ None]
      by (auto simp: merge_tree_lookup as_object_def fmran'I split: option.splits)
  qed
  with Node.prems show ?case by (simp only: merge_value_Node option.case)
qed simp_all

lemma merge_empty_left [simp]: "merge_tree fmempty m = m"
  by (rule fmap_ext) (simp add: merge_tree_lookup merge_value_empty as_object_def split: option.splits)

lemma merge_empty_right [simp]: "merge_tree m fmempty = m"
  by (rule fmap_ext) (simp add: merge_tree_lookup)

lemma bind_tree_at_Nil [simp]: "Option.bind t (tree_at []) = t"
  by (cases t) simp_all

text \<open>A value that is not an object, on the way to a path.\<close>

fun blocked :: "string list \<Rightarrow> object \<Rightarrow> bool" where
  "blocked [] m = False"
| "blocked [k] m = False"
| "blocked (k # q # ks) m =
     (case fmlookup m k of None \<Rightarrow> False | Some (Node n) \<Rightarrow> blocked (q # ks) n | Some _ \<Rightarrow> True)"

lemma tree_at_merge:
  "ks \<noteq> [] \<Longrightarrow> tree_at ks (Node (merge_tree d s)) =
     (case tree_at ks (Node s) of
        Some v \<Rightarrow> Some (merge_value v (tree_at ks (Node d)))
      | None \<Rightarrow> if blocked ks s then None else tree_at ks (Node d))"
proof (induction ks s arbitrary: d rule: blocked.induct)
  case (2 k m)
  show ?case by (simp add: merge_tree_lookup split: option.splits)
next
  case (3 k q ks m)
  show ?case
  proof (cases "fmlookup m k")
    case None
    then show ?thesis by (simp add: merge_tree_lookup)
  next
    case (Some v)
    show ?thesis
    proof (cases v)
      case (Node n)
      then have "tree_at (k # q # ks) (Node (merge_tree d m)) =
          tree_at (q # ks) (Node (merge_tree (case as_object (fmlookup d k) of Some dm \<Rightarrow> dm | None \<Rightarrow> fmempty) n))"
        using Some by (simp add: merge_tree_lookup merge_value_Node del: merge_value.simps)
      note l = this
      have r: "tree_at (q # ks) (Node (case as_object (fmlookup d k) of Some dm \<Rightarrow> dm | None \<Rightarrow> fmempty)) =
          tree_at (k # q # ks) (Node d)"
        by (simp add: as_object_def split: option.splits tree.splits)
      show ?thesis unfolding l "3.IH" [OF Some Node list.distinct(2)] r using Some Node by simp
    qed (simp_all add: merge_tree_lookup Some)
  qed
qed simp


text \<open>The setting at a path, and a layer that says nothing about it.\<close>

definition setting_at :: "string list \<Rightarrow> object \<Rightarrow> tree option" where
  "setting_at p m = (case tree_at p (Node m) of Some (Node n) \<Rightarrow> None | t \<Rightarrow> t)"

definition silent :: "string list \<Rightarrow> object \<Rightarrow> bool" where
  "silent p m \<longleftrightarrow> tree_at p (Node m) = None \<and> \<not> blocked p m"

lemma setting_at_merge:
  assumes "p \<noteq> []"
  shows "setting_at p (merge_tree d s) = (if silent p s then setting_at p d else setting_at p s)"
proof (cases "tree_at p (Node s)")
  case None
  then show ?thesis using assms by (auto simp: setting_at_def silent_def tree_at_merge)
next
  case (Some v)
  then show ?thesis
    using assms by (cases v) (simp_all add: setting_at_def silent_def tree_at_merge)
qed

definition last_word :: "string list \<Rightarrow> object list \<Rightarrow> tree option" where
  "last_word p ls = (case List.find (\<lambda>l. \<not> silent p l) (rev ls) of None \<Rightarrow> None | Some l \<Rightarrow> setting_at p l)"

lemma setting_at_empty: "p \<noteq> [] \<Longrightarrow> setting_at p fmempty = None"
  by (cases p) (simp_all add: setting_at_def)

lemma last_word_snoc:
  "last_word p (ls @ [l]) = (if silent p l then last_word p ls else setting_at p l)"
  by (simp add: last_word_def)

lemma merged_setting: "p \<noteq> [] \<Longrightarrow> setting_at p (foldl merge_tree fmempty ls) = last_word p ls"
  by (induction ls rule: rev_induct) (simp_all add: setting_at_merge setting_at_empty last_word_snoc last_word_def)

subsection \<open>Decoding keys\<close>

lemma insert_path_Some:
  assumes "insert_path p v m = Some m'" "p \<noteq> []" "q \<noteq> []"
  shows "p = q \<Longrightarrow> tree_at q (Node m') = Some (Leaf (SText v))"
    and "strict_prefix p q \<Longrightarrow> tree_at q (Node m') = None"
    and "strict_prefix q p \<Longrightarrow> \<exists>n. tree_at q (Node m') = Some (Node n)"
    and "\<not> prefix p q \<Longrightarrow> \<not> prefix q p \<Longrightarrow> tree_at q (Node m') = tree_at q (Node m)"
proof -
  have "(p = q \<longrightarrow> tree_at q (Node m') = Some (Leaf (SText v))) \<and>
    (strict_prefix p q \<longrightarrow> tree_at q (Node m') = None) \<and>
    (strict_prefix q p \<longrightarrow> (\<exists>n. tree_at q (Node m') = Some (Node n))) \<and>
    (\<not> prefix p q \<and> \<not> prefix q p \<longrightarrow> tree_at q (Node m') = tree_at q (Node m))"
    using assms
  proof (induction p v m arbitrary: m' q rule: insert_path.induct)
    case (2 leaf v m)
    then obtain k ks where q: "q = k # ks" by (cases q) auto
    have "m' = fmupd leaf (Leaf (SText v)) m" using 2 by (simp split: if_splits)
    then show ?case by (cases ks) (auto simp: q strict_prefix_def)
  next
    case (3 part r parts v m)
    then obtain k ks where q: "q = k # ks" by (cases q) auto
    define n where "n = (case fmlookup m part of Some (Node n) \<Rightarrow> n | _ \<Rightarrow> fmempty)"
    obtain n' where n': "insert_path (r # parts) v n = Some n'" "m' = fmupd part (Node n') m"
      using 3(3) by (auto simp: n_def split: option.splits tree.splits)
    have IH: "ks \<noteq> [] \<Longrightarrow> (r # parts = ks \<longrightarrow> tree_at ks (Node n') = Some (Leaf (SText v))) \<and>
      (strict_prefix (r # parts) ks \<longrightarrow> tree_at ks (Node n') = None) \<and>
      (strict_prefix ks (r # parts) \<longrightarrow> (\<exists>n. tree_at ks (Node n') = Some (Node n))) \<and>
      (\<not> prefix (r # parts) ks \<and> \<not> prefix ks (r # parts) \<longrightarrow> tree_at ks (Node n') = tree_at ks (Node n))"
      using 3(1,2,3) n'(1) by (cases "fmlookup m part") (auto simp: n_def split: tree.splits)
    have old: "tree_at (part # ks) (Node m) = tree_at ks (Node n)" if "ks \<noteq> []"
      using that 3(3) by (cases "fmlookup m part"; cases ks) (auto simp: n_def split: tree.splits)
    show ?case
    proof (cases "k = part \<and> ks \<noteq> []")
      case True
      then show ?thesis using IH old by (simp add: q n'(2))
    next
      case False
      then show ?thesis by (auto simp: q n'(2) strict_prefix_def)
    qed
  qed simp
  then show "p = q \<Longrightarrow> tree_at q (Node m') = Some (Leaf (SText v))"
    and "strict_prefix p q \<Longrightarrow> tree_at q (Node m') = None"
    and "strict_prefix q p \<Longrightarrow> \<exists>n. tree_at q (Node m') = Some (Node n)"
    and "\<not> prefix p q \<Longrightarrow> \<not> prefix q p \<Longrightarrow> tree_at q (Node m') = tree_at q (Node m)"
    by blast+
qed


lemma tree_at_below_leaf:
  assumes "strict_prefix p q" "tree_at p t = Some v" "as_object (Some v) = None"
  shows "tree_at q t = None"
  using assms
proof (induction p t arbitrary: q rule: tree_at.induct)
  case (1 t)
  then obtain k ks where "q = k # ks" by (cases q) auto
  with 1 show ?case by (cases t) (auto simp: as_object_def)
next
  case (2 k ks m)
  then obtain ls where q: "q = k # ls" "strict_prefix ks ls" by (cases q) (auto simp: strict_prefix_def)
  obtain n where "fmlookup m k = Some n" "tree_at ks n = Some v" using 2(3) by (cases "fmlookup m k") auto
  with 2(1) [OF this(1) q(2)] 2(4) q show ?case by simp
qed simp_all

lemma insert_path_None:
  "p \<noteq> [] \<Longrightarrow> insert_path p v m = None \<Longrightarrow>
     \<exists>q t. q \<noteq> [] \<and> tree_at q (Node m) = Some t \<and>
       (strict_prefix q p \<and> as_object (Some t) = None \<or> q = p \<and> as_object (Some t) \<noteq> None)"
proof (induction p v m rule: insert_path.induct)
  case (2 leaf v m)
  then have "\<exists>n. fmlookup m leaf = Some (Node n)"
    by (cases "fmlookup m leaf") (auto simp: as_object_def split: if_splits tree.splits)
  then show ?case by (intro exI [of _ "[leaf]"]) (auto simp: as_object_def)
next
  case (3 part r parts v m)
  show ?case
  proof (cases "fmlookup m part")
    case (Some x)
    show ?thesis
    proof (cases x)
      case (Node n)
      then obtain q t where "q \<noteq> []" "tree_at q (Node n) = Some t"
        "strict_prefix q (r # parts) \<and> as_object (Some t) = None \<or> q = r # parts \<and> as_object (Some t) \<noteq> None"
        using 3 Some by auto
      then show ?thesis using Some Node
        by (intro exI [of _ "part # q"] exI [of _ t]) (auto simp: strict_prefix_def)
    qed (use Some in \<open>auto intro!: exI [of _ "[part]"] simp: as_object_def strict_prefix_def\<close>)
  next
    case None
    then obtain q t where q: "q \<noteq> []" "tree_at q (Node fmempty) = Some t" using 3 by auto
    then show ?thesis by (cases q) simp_all
  qed
qed simp

text \<open>The entries of a folder: paths with their texts, folder markers left out.\<close>

definition kv_entries :: "string \<Rightarrow> kv_pairs \<Rightarrow> (string list \<times> string) list" where
  "kv_entries folder ps =
     map (\<lambda>(key, v). (split_on (CHR ''/'') (trim_prefix key folder), v))
       (filter (\<lambda>(key, _). \<not> folder_marker (trim_prefix key folder)) ps)"

definition key_conflict :: "(string list \<times> string) list \<Rightarrow> bool" where
  "key_conflict es \<longleftrightarrow> (\<exists>(p, _)\<in>set es. \<exists>(q, _)\<in>set es. strict_prefix p q)"

text \<open>A tree holds exactly the entries: texts at their paths, the newest first, and folders above them.\<close>

definition represents :: "object \<Rightarrow> (string list \<times> string) list \<Rightarrow> bool" where
  "represents m es \<longleftrightarrow>
     (\<forall>p t. p \<noteq> [] \<and> tree_at p (Node m) = Some t \<longrightarrow>
        (\<exists>v. t = Leaf (SText v) \<and> map_of es p = Some v) \<or>
        (\<exists>n. t = Node n) \<and> (\<exists>q\<in>fst ` set es. strict_prefix p q)) \<and>
     (\<forall>p v. map_of es p = Some v \<longrightarrow> tree_at p (Node m) = Some (Leaf (SText v)))"

lemma represents_Nil: "represents fmempty []"
proof -
  have none: "tree_at p (Node fmempty) = (if p = [] then Some (Node fmempty) else None)" for p
    by (cases p) simp_all
  show ?thesis by (auto simp: represents_def none)
qed

lemma represents_conflict_free:
  assumes "represents m es" shows "\<not> key_conflict es"
proof
  assume "key_conflict es"
  then obtain p v q w where pq: "(p, v) \<in> set es" "(q, w) \<in> set es" "strict_prefix p q"
    by (auto simp: key_conflict_def)
  obtain v' where "map_of es p = Some v'" using pq(1) by (metis weak_map_of_SomeI)
  moreover obtain w' where "map_of es q = Some w'" using pq(2) by (metis weak_map_of_SomeI)
  ultimately show False
    using tree_at_below_leaf [OF pq(3), of "Node m"] assms by (auto simp: represents_def as_object_def)
qed

lemma tree_at_append: "tree_at (p @ q) t = Option.bind (tree_at p t) (tree_at q)"
proof (induction p t rule: tree_at.induct)
  case (2 k ks m)
  then show ?case by (cases "fmlookup m k") simp_all
qed simp_all

lemma insert_path_way:
  assumes "insert_path p v m = Some m'" "p \<noteq> []"
  shows "q \<noteq> [] \<Longrightarrow> strict_prefix q p \<Longrightarrow> tree_at q (Node m) = Some t \<Longrightarrow> \<exists>n. t = Node n"
    and "tree_at p (Node m) = Some t \<Longrightarrow> as_object (Some t) = None"
proof -
  have "(q \<noteq> [] \<and> strict_prefix q p \<and> tree_at q (Node m) = Some t \<longrightarrow> (\<exists>n. t = Node n)) \<and>
    (tree_at p (Node m) = Some t \<longrightarrow> as_object (Some t) = None)"
    using assms
  proof (induction p v m arbitrary: m' q rule: insert_path.induct)
    case (2 leaf v m)
    then show ?case by (cases "fmlookup m leaf"; cases q) (auto simp: strict_prefix_def split: if_splits)
  next
    case (3 part r parts v m)
    show ?case
    proof (cases "fmlookup m part")
      case None
      then show ?thesis by (cases q) (auto simp: strict_prefix_def)
    next
      case (Some x)
      then obtain n n' where x: "x = Node n" "insert_path (r # parts) v n = Some n'"
        using 3(3) by (cases x) auto
      show ?thesis
      proof (cases q)
        case (Cons k ks)
        then show ?thesis using 3(2) [OF Some x(1) x(2), of ks] Some x(1) by (cases ks) auto
      qed (use 3(2) [OF Some x(1) x(2)] Some x(1) in auto)
    qed
  qed simp
  then show "q \<noteq> [] \<Longrightarrow> strict_prefix q p \<Longrightarrow> tree_at q (Node m) = Some t \<Longrightarrow> \<exists>n. t = Node n"
    and "tree_at p (Node m) = Some t \<Longrightarrow> as_object (Some t) = None" by blast+
qed

lemma represents_insert:
  assumes rep: "represents m es" and p: "p \<noteq> []" and ins: "insert_path p v m = Some m'"
  shows "represents m' ((p, v) # es)"
proof -
  note at = insert_path_Some [OF ins p]
  have leaf: "tree_at q (Node m') = Some (Leaf (SText w))" if w: "map_of es q = Some w" "q \<noteq> p" for q w
  proof -
    have old: "tree_at q (Node m) = Some (Leaf (SText w))" using rep w(1) by (simp add: represents_def)
    then have q: "q \<noteq> []" by (cases q) simp_all
    have "\<not> strict_prefix q p" using insert_path_way(1) [OF ins p q _ old] by blast
    moreover have "\<not> strict_prefix p q"
    proof
      assume "strict_prefix p q"
      then obtain r where r: "q = p @ r" "r \<noteq> []" by (auto simp: strict_prefix_def prefix_def)
      then obtain x where "tree_at p (Node m) = Some x" "tree_at r x = Some (Leaf (SText w))"
        using old by (auto simp: tree_at_append bind_eq_Some_conv)
      then show False
        using insert_path_way(2) [OF ins p, of x] r(2) by (cases r; cases x) (auto simp: as_object_def)
    qed
    ultimately show ?thesis using at(4) [OF q] old w(2) by (auto simp: strict_prefix_def)
  qed
  have "(\<exists>w. t = Leaf (SText w) \<and> map_of ((p, v) # es) q = Some w) \<or>
      (\<exists>n. t = Node n) \<and> (\<exists>r\<in>fst ` set ((p, v) # es). strict_prefix q r)"
    if q: "q \<noteq> []" "tree_at q (Node m') = Some t" for q t
  proof -
    consider "p = q" | "strict_prefix p q" | "strict_prefix q p" | "\<not> prefix p q" "\<not> prefix q p" "p \<noteq> q"
      by (auto simp: strict_prefix_def)
    then show ?thesis
    proof cases
      case 4
      then have "tree_at q (Node m) = Some t" using at(4) [OF q(1)] q(2) by simp
      then have "(\<exists>w. t = Leaf (SText w) \<and> map_of es q = Some w) \<or>
          (\<exists>n. t = Node n) \<and> (\<exists>r\<in>fst ` set es. strict_prefix q r)"
        using rep q(1) by (simp add: represents_def)
      then show ?thesis using 4(3) by auto
    qed (use at(1-3) [OF q(1)] q(2) in auto)
  qed
  moreover have "tree_at q (Node m') = Some (Leaf (SText w))" if "map_of ((p, v) # es) q = Some w" for q w
    using that leaf [of q w] at(1) [OF p] by (auto split: if_splits)
  ultimately show ?thesis unfolding represents_def by blast
qed

lemma key_conflict_mono: "key_conflict es \<Longrightarrow> set es \<subseteq> set fs \<Longrightarrow> key_conflict fs"
  by (fastforce simp: key_conflict_def)

lemma split_on_path: "split_on (CHR ''/'') rel \<noteq> []"
  by simp

lemma decode_pairs_represents:
  assumes "represents m es"
  shows "case decode_pairs folder ps m of
      Inr t \<Rightarrow> represents t (rev (kv_entries folder ps) @ es)
    | Inl e \<Rightarrow> key_conflict (rev (kv_entries folder ps) @ es)"
  using assms
proof (induction folder ps m arbitrary: es rule: decode_pairs.induct)
  case (2 folder key v ps m)
  define rel where "rel = trim_prefix key folder"
  show ?case
  proof (cases "folder_marker rel")
    case True
    have es: "kv_entries folder ((key, v) # ps) = kv_entries folder ps"
      using True by (simp add: kv_entries_def rel_def)
    show ?thesis
      unfolding es decode_pairs.simps Let_def rel_def [symmetric] using 2(1) [OF rel_def True 2(3)] True by simp
  next
    case False
    define p where "p = split_on (CHR ''/'') rel"
    have p: "p \<noteq> []" by (simp add: p_def)
    have es: "kv_entries folder ((key, v) # ps) = (p, v) # kv_entries folder ps"
      using False by (simp add: kv_entries_def rel_def p_def)
    show ?thesis
    proof (cases "insert_path p v m")
      case None
      obtain q t where qt: "q \<noteq> []" "tree_at q (Node m) = Some t"
        "strict_prefix q p \<and> as_object (Some t) = None \<or> q = p \<and> as_object (Some t) \<noteq> None"
        using insert_path_None [OF p None] by blast
      have "key_conflict ((p, v) # es)"
        using 2(3) qt
        by (cases t) (fastforce simp: represents_def key_conflict_def as_object_def dest: map_of_SomeD)+
      then have "key_conflict (rev (kv_entries folder ((key, v) # ps)) @ es)"
        by (rule key_conflict_mono) (auto simp: es)
      then show ?thesis using None False by (simp add: rel_def p_def Let_def)
    next
      case (Some m')
      then show ?thesis
        using 2(2) [OF rel_def False, unfolded p_def [symmetric], OF Some represents_insert [OF 2(3) p Some]]
          False
        unfolding es decode_pairs.simps Let_def rel_def [symmetric] p_def [symmetric] rev.simps append_assoc append.simps by simp
    qed
  qed
qed (simp_all add: kv_entries_def)


text \<open>
  C20. A folder of single keys: decoding fails exactly when some key is both a value and a folder, and
  otherwise the tree holds exactly the values of the folder: the value at a path is the last one given
  for that key, every other path holds a folder or nothing, whatever the order of the keys and wherever
  there are folder markers.
\<close>

theorem decode_keys_roundtrip:
  assumes "ld_Format c = FormatKeyValue"
  shows "case decode parse_doc c folder ps of
      Inl e \<Rightarrow> key_conflict (kv_entries folder ps)
    | Inr t \<Rightarrow> \<not> key_conflict (kv_entries folder ps) \<and>
        (\<forall>p v. tree_at p (Node t) = Some (Leaf (SText v)) \<longleftrightarrow>
               map_of (rev (kv_entries folder ps)) p = Some v) \<and>
        (\<forall>p x. setting_at p t = Some x \<longrightarrow> (\<exists>v. x = Leaf (SText v)))"
proof (cases "decode_pairs folder ps fmempty")
  case (Inl e)
  then have "key_conflict (rev (kv_entries folder ps))"
    using decode_pairs_represents [OF represents_Nil, of folder ps] by simp
  then show ?thesis using Inl assms by (simp add: decode_def key_conflict_def)
next
  case (Inr t)
  then have rep: "represents t (rev (kv_entries folder ps))"
    using decode_pairs_represents [OF represents_Nil, of folder ps] by simp
  have "p \<noteq> []" if "tree_at p (Node t) = Some (Leaf x)" for p x using that by (cases p) auto
  then have leaf: "tree_at p (Node t) = Some (Leaf (SText v)) \<longleftrightarrow> map_of (rev (kv_entries folder ps)) p = Some v" for p v
    using rep unfolding represents_def by blast
  have "\<exists>v. x = Leaf (SText v)" if x: "setting_at p t = Some x" for p x
  proof -
    have "p \<noteq> []" using x by (cases p) (simp_all add: setting_at_def)
    moreover have "tree_at p (Node t) = Some x" "\<forall>n. x \<noteq> Node n"
      using x by (auto simp: setting_at_def split: option.splits tree.splits)
    ultimately show ?thesis using rep unfolding represents_def by blast
  qed
  moreover have "\<not> key_conflict (kv_entries folder ps)"
    using represents_conflict_free [OF rep] by (simp add: key_conflict_def)
  ultimately show ?thesis using Inr assms leaf by (simp add: decode_def)
qed

definition sample_loader :: loader where
  "sample_loader =
     new_loader \<lparr>ld_Name = ''orders'', ld_Profiles = [''prod''], ld_Prefix = [], ld_DefaultContext = [],
       ld_ProfileSeparator = [], ld_Format = FormatKeyValue, ld_DataKey = [], ld_ErrorUnused = True,
       ld_RequestTimeout = 0, ld_WaitTime = 0, ld_MinInterval = 0, ld_Retry = None\<rparr>"

definition no_doc :: "kv_format \<Rightarrow> string \<Rightarrow> object option res" where
  "no_doc f s = Inr None"

theorem decode_keys_roundtrip_witness:
  "\<exists>t. decode no_doc sample_loader ''config/orders/''
      [(''config/orders/'', []), (''config/orders/db/host'', ''h1''), (''config/orders/db/port'', ''5432'')] = Inr t \<and>
    tree_at [''db'', ''port''] (Node t) = Some (Leaf (SText ''5432''))"
proof -
  let ?ps = "[(''config/orders/'', []), (''config/orders/db/host'', ''h1''), (''config/orders/db/port'', ''5432'')]"
  have f: "ld_Format sample_loader = FormatKeyValue" by (simp add: sample_loader_def new_loader_def)
  have e: "kv_entries ''config/orders/'' ?ps = [([''db'', ''host''], ''h1''), ([''db'', ''port''], ''5432'')]"
    by (simp add: kv_entries_def folder_marker_def trim_prefix_def has_suffix_def)
  have "\<not> key_conflict (kv_entries ''config/orders/'' ?ps)"
    unfolding e by (simp add: key_conflict_def strict_prefix_def)
  then show ?thesis
    using decode_keys_roundtrip [OF f, where parse_doc = no_doc and folder = "''config/orders/''" and ps = ?ps]
    by (cases "decode no_doc sample_loader ''config/orders/'' ?ps")
      (simp_all add: e del: tree_at.simps)
qed

subsection \<open>Precedence of the folders\<close>

definition layer_of ::
    "(kv_format \<Rightarrow> string \<Rightarrow> object option res) \<Rightarrow> loader \<Rightarrow> (string \<Rightarrow> kv_answer) \<Rightarrow> string \<Rightarrow>
     (object \<times> 64 word) res" where
  "layer_of parse_doc c answers folder =
     (case answers folder of
        Inl e \<Rightarrow> Inl (Errorf (''consulx: read config '' @ folder @ '': '') [e])
      | Inr (pairs, idx) \<Rightarrow> bind_outcome (decode parse_doc c folder pairs) (\<lambda>layer. Inr (layer, idx)))"

lemma load_loop_layers:
  "case load_loop parse_doc c answers folders merged i of
     Inl e \<Rightarrow> \<exists>folder\<in>set folders. layer_of parse_doc c answers folder = Inl e
   | Inr (tree, j) \<Rightarrow>
     \<exists>layers. map (layer_of parse_doc c answers) folders = map Inr layers \<and>
        tree = foldl merge_tree merged (map fst layers) \<and> j = foldl max i (map snd layers)"
proof (induction parse_doc c answers folders merged i rule: load_loop.induct)
  case (2 parse_doc c answers folder folders merged i)
  show ?case
  proof (cases "layer_of parse_doc c answers folder")
    case (Inl e)
    then have "load_loop parse_doc c answers (folder # folders) merged i = Inl e"
      by (auto simp: layer_of_def bind_outcome_def split: sum.splits prod.splits)
    then show ?thesis using Inl by simp
  next
    case (Inr l)
    obtain layer idx where l: "l = (layer, idx)" by fastforce
    then obtain pairs where a: "answers folder = Inr (pairs, idx)" "decode parse_doc c folder pairs = Inr layer"
      using Inr by (auto simp: layer_of_def bind_outcome_def split: sum.splits prod.splits)
    have step: "load_loop parse_doc c answers (folder # folders) merged i =
        load_loop parse_doc c answers folders (merge_tree merged layer) (max i idx)"
      by (simp add: a)
    show ?thesis
    proof (cases "load_loop parse_doc c answers folders (merge_tree merged layer) (max i idx)")
      case (Inl e)
      then show ?thesis unfolding step using 2 [OF a(1) refl, of layer] by auto
    next
      case fin: (Inr r)
      obtain tree j where r: "r = (tree, j)" by fastforce
      obtain layers where "map (layer_of parse_doc c answers) folders = map Inr layers"
        "tree = foldl merge_tree (merge_tree merged layer) (map fst layers)" "j = foldl max (max i idx) (map snd layers)"
        using 2 [OF a(1) refl, of layer] fin r by auto
      then have "map (layer_of parse_doc c answers) (folder # folders) = map Inr (l # layers) \<and>
          tree = foldl merge_tree merged (map fst (l # layers)) \<and> j = foldl max i (map snd (l # layers))"
        using Inr l by simp
      then show ?thesis unfolding step fin r sum.case prod.case by blast
    qed
  qed
qed simp

text \<open>
  C11. Loading reads the folders in the order of \<open>Contexts\<close>: it fails with the error of a folder that
  cannot be read or decoded, and otherwise the setting at every path is the one of the last folder that
  has a word on it (a value or a folder at the path, or a value above it), and the index returned is at
  least the index of every folder.
\<close>

theorem load_precedence:
  "case load parse_doc c answers of
     Inl e \<Rightarrow> \<exists>folder\<in>set (contexts c). layer_of parse_doc c answers folder = Inl e
   | Inr (tree, i) \<Rightarrow>
     \<exists>layers. map (layer_of parse_doc c answers) (contexts c) = map Inr layers \<and>
        (\<forall>p. p \<noteq> [] \<longrightarrow> setting_at p tree = last_word p (map fst layers)) \<and>
        (\<forall>(_, idx)\<in>set layers. idx \<le> i)"
proof -
  have mono: "j \<le> foldl max j xs \<and> (\<forall>x\<in>set xs. x \<le> foldl max j xs)" for j :: "64 word" and xs
    by (induction xs arbitrary: j) (auto, (metis max.bounded_iff)+)
  note out = load_loop_layers [where parse_doc = parse_doc and c = c and answers = answers and
      folders = "contexts c" and merged = fmempty and i = 0, folded load_def]
  show ?thesis
  proof (cases "load parse_doc c answers")
    case (Inr r)
    then obtain tree i layers where r: "r = (tree, i)"
      and layers: "map (layer_of parse_doc c answers) (contexts c) = map Inr layers"
      "tree = foldl merge_tree fmempty (map fst layers)" "i = foldl max 0 (map snd layers)"
      using out by (cases r) auto
    have "\<forall>(_, idx)\<in>set layers. idx \<le> i" using mono [of 0 "map snd layers"] layers(3) by auto
    then show ?thesis unfolding Inr r using layers(1,2) merged_setting by auto
  qed (use out in simp)
qed


definition sample_kv :: "string \<Rightarrow> kv_answer" where
  "sample_kv folder =
     (if folder = ''config/application/'' then Inr ([(''config/application/db/host'', ''h0'')], 7)
      else if folder = ''config/orders,prod/'' then Inr ([(''config/orders,prod/db/host'', ''h1'')], 9)
      else Inr ([], 3))"

theorem load_precedence_witness:
  "\<exists>tree. load no_doc sample_loader sample_kv = Inr (tree, 9) \<and>
     setting_at [''db'', ''host''] tree = Some (Leaf (SText ''h1''))"
proof -
  define db where "db v = fmupd ''db'' (Node (fmupd ''host'' (Leaf (SText v)) fmempty)) fmempty" for v
  have c: "contexts sample_loader = [''config/application/'', ''config/application,prod/'', ''config/orders/'', ''config/orders,prod/'']"
    by (simp add: contexts_def sample_loader_def new_loader_def trim_def trim_left_def trim_right_def)
  have f: "ld_Format sample_loader = FormatKeyValue" by (simp add: sample_loader_def new_loader_def)
  have l: "layer_of no_doc sample_loader sample_kv ''config/application/'' = Inr (db ''h0'', 7)"
    "layer_of no_doc sample_loader sample_kv ''config/application,prod/'' = Inr (fmempty, 3)"
    "layer_of no_doc sample_loader sample_kv ''config/orders/'' = Inr (fmempty, 3)"
    "layer_of no_doc sample_loader sample_kv ''config/orders,prod/'' = Inr (db ''h1'', 9)"
    by (simp_all add: layer_of_def sample_kv_def decode_def f trim_prefix_def folder_marker_def has_suffix_def
        as_object_def db_def)
  obtain tree i where load: "load no_doc sample_loader sample_kv = Inr (tree, i)"
    "i = 9"
    using load_loop_layers [where parse_doc = no_doc and c = sample_loader and answers = sample_kv and
        folders = "contexts sample_loader" and merged = fmempty and i = 0, folded load_def]
    by (auto simp: c l Cons_eq_map_conv split: sum.splits)
  obtain layers where layers: "map (layer_of no_doc sample_loader sample_kv) (contexts sample_loader) = map Inr layers"
    "setting_at [''db'', ''host''] tree = last_word [''db'', ''host''] (map fst layers)"
    using load_precedence [where parse_doc = no_doc and c = sample_loader and answers = sample_kv] load(1) by auto
  have "map fst layers = [db ''h0'', fmempty, fmempty, db ''h1'']"
    using layers(1) by (auto simp: c l Cons_eq_map_conv)
  then show ?thesis using load layers(2)
    by (simp add: last_word_def silent_def setting_at_def db_def)
qed

end
