(* ===== verification/Bind.thy ===== *)
theory Bind
  imports Tree GoTime
begin

text \<open>
  internal/bind/bind.go: binding a configuration tree to a Go value. What reflection shows of a type is
  the datatype \<open>gotype\<close>, a value of it a \<open>govalue\<close>; \<open>typed\<close> relates them. A result is the errors found
  and the new value, \<open>None\<close> is a panic. Go visits the keys of a map in no fixed order, here they are
  visited in the order of the keys. Lower case outside ASCII, \<open>UnmarshalText\<close> of a type, and the texts of
  floats are arguments. A type with \<open>UnmarshalText\<close> has no fields of its own here (so an embedded struct that
  has the method is looked up by its name, where the code flattens it), and a type does not contain itself: a recursive Go type is its unfolding to the depth of the tree.
\<close>

subsection \<open>Types and values\<close>

datatype kind = KString | KBool | KInt nat | KUint nat | KFloat nat | KDuration | KOther

record field_info =
  fi_Name :: string
  fi_Exported :: bool
  fi_Anonymous :: bool
  fi_Tags :: "(string \<times> string) list"

datatype gotype =
    TScalar string kind
  | TText string
  | TPtr gotype
  | TSlice gotype
  | TMap string bool gotype
  | TStruct string "(field_info \<times> gotype) list"
  | TAny

datatype govalue =
    VString string
  | VBool bool
  | VInt int
  | VUint nat
  | VFloat f64
  | VText string
  | VPtr "govalue option"
  | VSlice "govalue list option"
  | VMap "(string, govalue) fmap option"
  | VStruct "govalue list"
  | VAny "tree option"
  | VOpaque nat

primrec type_name :: "gotype \<Rightarrow> string" where
  "type_name (TScalar n k) = n"
| "type_name (TText n) = n"
| "type_name (TPtr t) = CHR ''*'' # type_name t"
| "type_name (TSlice t) = ''[]'' @ type_name t"
| "type_name (TMap kn ks t) = ''map['' @ kn @ '']'' @ type_name t"
| "type_name (TStruct n fs) = n"
| "type_name TAny = ''interface {}''"

definition zero_scalar :: "kind \<Rightarrow> govalue" where
  "zero_scalar k =
     (case k of KString \<Rightarrow> VString [] | KBool \<Rightarrow> VBool False | KInt b \<Rightarrow> VInt 0 | KUint b \<Rightarrow> VUint 0
      | KFloat b \<Rightarrow> VFloat (Fin 0) | KDuration \<Rightarrow> VInt 0 | KOther \<Rightarrow> VOpaque 0)"

primrec zero_value :: "gotype \<Rightarrow> govalue" where
  "zero_value (TScalar n k) = zero_scalar k"
| "zero_value (TText n) = VText []"
| "zero_value (TPtr t) = VPtr None"
| "zero_value (TSlice t) = VSlice None"
| "zero_value (TMap kn ks t) = VMap None"
| "zero_value (TStruct n fs) = VStruct (map snd (map (map_prod id zero_value) fs))"
| "zero_value TAny = VAny None"

definition typed_scalar :: "kind \<Rightarrow> govalue \<Rightarrow> bool" where
  "typed_scalar k v =
     (case (k, v) of
        (KString, VString s) \<Rightarrow> True
      | (KBool, VBool b) \<Rightarrow> True
      | (KInt b, VInt i) \<Rightarrow> - (2 ^ (b - 1)) \<le> i \<and> i < 2 ^ (b - 1)
      | (KUint b, VUint n) \<Rightarrow> n < 2 ^ b
      | (KFloat b, VFloat f) \<Rightarrow> True
      | (KDuration, VInt i) \<Rightarrow> in64 i
      | (KOther, VOpaque n) \<Rightarrow> True
      | _ \<Rightarrow> False)"

primrec typed :: "gotype \<Rightarrow> govalue \<Rightarrow> bool" where
  "typed (TScalar n k) = typed_scalar k"
| "typed (TText n) = (\<lambda>v. case v of VText s \<Rightarrow> True | _ \<Rightarrow> False)"
| "typed (TPtr t) = (\<lambda>v. case v of VPtr p \<Rightarrow> pred_option (typed t) p | _ \<Rightarrow> False)"
| "typed (TSlice t) = (\<lambda>v. case v of VSlice xs \<Rightarrow> pred_option (list_all (typed t)) xs | _ \<Rightarrow> False)"
| "typed (TMap kn ks t) =
     (\<lambda>v. case v of VMap m \<Rightarrow> pred_option (fmpred (\<lambda>_. typed t)) m | _ \<Rightarrow> False)"
| "typed (TStruct n fs) =
     (\<lambda>v. case v of VStruct vs \<Rightarrow> list_all2 (\<lambda>p x. snd p x) (map (map_prod id typed) fs) vs | _ \<Rightarrow> False)"
| "typed TAny = (\<lambda>v. case v of VAny t \<Rightarrow> t \<noteq> Some (Leaf SNull) | _ \<Rightarrow> False)"

primrec struct_kind :: "gotype \<Rightarrow> bool" where
  "struct_kind (TScalar n k) = False"
| "struct_kind (TText n) = False"
| "struct_kind (TPtr t) = False"
| "struct_kind (TSlice t) = False"
| "struct_kind (TMap kn ks t) = False"
| "struct_kind (TStruct n fs) = True"
| "struct_kind TAny = False"

fun indirect_type :: "gotype \<Rightarrow> gotype" where
  "indirect_type (TPtr t) = indirect_type t"
| "indirect_type t = t"

subsection \<open>Names and keys\<close>

record bind_env =
  be_Tag :: string
  be_ErrorUnused :: bool
  be_lower :: "nat \<Rightarrow> nat"
  be_unmarshal :: "string \<Rightarrow> string \<Rightarrow> goerr option \<times> string"
  be_parse_float :: "nat \<Rightarrow> string \<Rightarrow> f64 option"
  be_format_float :: "f64 \<Rightarrow> string"

record field_spec =
  fs_name :: string
  fs_required :: bool
  fs_skip :: bool

definition tag_of :: "field_info \<Rightarrow> string \<Rightarrow> string option" where
  "tag_of f k = map_of (fi_Tags f) k"

definition spec_of :: "bind_env \<Rightarrow> field_info \<Rightarrow> field_spec" where
  "spec_of env f =
     (case tag_of f (be_Tag env) of
        None \<Rightarrow> \<lparr>fs_name = fi_Name f, fs_required = False, fs_skip = False\<rparr>
      | Some tag \<Rightarrow>
        (let (name, rest, _) = cut tag '',''
         in if name = ''-'' then \<lparr>fs_name = [], fs_required = False, fs_skip = True\<rparr>
            else \<lparr>fs_name = (if name = [] then fi_Name f else name),
                  fs_required = list_ex (\<lambda>opt. trim_space opt = ''required'') (split_on (CHR '','') rest),
                  fs_skip = False\<rparr>))"

text \<open>\<open>sameKey\<close>, in place: the next rune that is not a separator, in lower case, and the rest.\<close>

function next_rune :: "(nat \<Rightarrow> nat) \<Rightarrow> string \<Rightarrow> (nat \<times> string) option" where
  "next_rune lower s =
     (if s = [] then None
      else (let (r, w) = decode_rune s
            in if r = 45 \<or> r = 95 \<or> r = 46 then next_rune lower (drop w s)
               else Some (to_lower_rune lower r, drop w s)))"
  by pat_completeness auto
termination
proof (relation "measure (\<lambda>(_, s). length s)")
  fix lower and s :: string and x r w
  assume "s \<noteq> []" "x = decode_rune s" "(r, w) = x"
  then show "((lower, drop w s), lower, s) \<in> measure (\<lambda>(_, s). length s)"
    using decode_rune_width [of s] by (metis case_prod_conv diff_less in_measure length_drop length_greater_0_conv snd_conv)
qed simp

declare next_rune.simps [simp del]

lemma next_rune_shorter: "next_rune lower s = Some (r, t) \<Longrightarrow> length t < length s"
proof (induction lower s rule: next_rune.induct)
  case (1 lower s)
  obtain r' w where d: "decode_rune s = (r', w)" by fastforce
  have s: "s \<noteq> []" using 1(2) by (auto simp: next_rune.simps)
  then have "length (drop w s) < length s" using decode_rune_width [of s] by (simp add: d)
  then show ?case using 1 s d by (subst (asm) (2) next_rune.simps) (fastforce split: if_splits)
qed

function same_key :: "(nat \<Rightarrow> nat) \<Rightarrow> string \<Rightarrow> string \<Rightarrow> bool" where
  "same_key lower a b =
     (case (next_rune lower a, next_rune lower b) of
        (None, None) \<Rightarrow> True
      | (Some (ra, a'), Some (rb, b')) \<Rightarrow> ra = rb \<and> same_key lower a' b'
      | _ \<Rightarrow> False)"
  by pat_completeness auto
termination
  by (relation "measure (\<lambda>(_, a, _). length a)") (auto dest!: next_rune_shorter [OF sym])

declare same_key.simps [simp del]

text \<open>The key a field is read from: the exact one, or the smallest that is the same up to spelling.\<close>

definition find_key :: "bind_env \<Rightarrow> object \<Rightarrow> string \<Rightarrow> (string \<times> tree) option" where
  "find_key env m name =
     (case fmlookup m name of
        Some v \<Rightarrow> Some (name, v)
      | None \<Rightarrow>
        (case List.find (\<lambda>k. same_key (be_lower env) k name) (sorted_list_of_fset (fmdom m)) of
           None \<Rightarrow> None
         | Some k \<Rightarrow> map_option (\<lambda>v. (k, v)) (fmlookup m k)))"

definition join_key :: "string \<Rightarrow> string \<Rightarrow> string" where
  "join_key path key = (if path = [] then key else path @ ''/'' @ key)"

definition field_matches :: "bind_env \<Rightarrow> string \<Rightarrow> field_info \<Rightarrow> bool" where
  "field_matches env key f =
     (let name = (case tag_of f (be_Tag env) of
                    None \<Rightarrow> fi_Name f
                  | Some tv \<Rightarrow> (let n = fst (cut tv '','') in if n = [] then fi_Name f else n))
      in name = key \<or> same_key (be_lower env) name key)"

primrec matches_any_field :: "gotype \<Rightarrow> bind_env \<Rightarrow> string \<Rightarrow> bool" where
  "matches_any_field (TScalar n k) = (\<lambda>env key. False)"
| "matches_any_field (TText n) = (\<lambda>env key. False)"
| "matches_any_field (TPtr t) = matches_any_field t"
| "matches_any_field (TSlice t) = (\<lambda>env key. False)"
| "matches_any_field (TMap kn ks t) = (\<lambda>env key. False)"
| "matches_any_field (TStruct n fs) =
     (\<lambda>env key. list_ex (\<lambda>(f, sub). fi_Anonymous f \<and> sub env key \<or> field_matches env key f)
        (map (map_prod id matches_any_field) fs))"
| "matches_any_field TAny = (\<lambda>env key. False)"

subsection \<open>Scalars\<close>

definition scalar :: "bind_env \<Rightarrow> tree \<Rightarrow> string option" where
  "scalar env raw =
     (case raw of
        Leaf (SText s) \<Rightarrow> Some s
      | Leaf (SBool b) \<Rightarrow> Some (format_bool b)
      | Leaf (SInt i) \<Rightarrow> Some (itoa i)
      | Leaf (SUint n) \<Rightarrow> Some (utoa n)
      | Leaf (SFloat r) \<Rightarrow>
          Some (case r of
                  Fin a \<Rightarrow> if a = of_int (ftrunc a) \<and> \<bar>a\<bar> < 1000000000000000 then itoa (ftrunc a)
                           else be_format_float env r
                | _ \<Rightarrow> be_format_float env r)
      | Leaf SNull \<Rightarrow> Some []
      | _ \<Rightarrow> None)"

definition set_scalar :: "bind_env \<Rightarrow> string \<Rightarrow> kind \<Rightarrow> string \<Rightarrow> govalue res" where
  "set_scalar env name k s0 =
     (let s = trim_space s0;
          parsed = (\<lambda>msg r. case r of None \<Rightarrow> Inl (Opaque msg) | Some v \<Rightarrow> Inr v)
      in case k of
           KDuration \<Rightarrow> parsed ''expected a duration such as \"10s\"'' (map_option VInt (parse_duration s))
         | KString \<Rightarrow> Inr (VString s)
         | KBool \<Rightarrow> parsed ''expected a boolean'' (map_option VBool (parse_bool s))
         | KInt bits \<Rightarrow> parsed (''expected an integer that fits '' @ name) (map_option VInt (parse_int bits s))
         | KUint bits \<Rightarrow>
             parsed (''expected a non-negative integer that fits '' @ name) (map_option VUint (parse_uint bits s))
         | KFloat bits \<Rightarrow> parsed ''expected a number'' (map_option VFloat (be_parse_float env bits s))
         | KOther \<Rightarrow> Inl (Opaque (''unsupported type '' @ name)))"

subsection \<open>Assignments\<close>

type_synonym bound = "(goerr list \<times> govalue) option"
type_synonym assigner = "string \<Rightarrow> tree \<Rightarrow> govalue \<Rightarrow> bound"
type_synonym section_binder = "string \<Rightarrow> object \<Rightarrow> govalue \<Rightarrow> bound"

definition bind_fail :: "string \<Rightarrow> string \<Rightarrow> string \<Rightarrow> govalue \<Rightarrow> bound" where
  "bind_fail key ty msg v = Some ([BindError key ty (Opaque msg)], v)"

definition assign_scalar :: "bind_env \<Rightarrow> string \<Rightarrow> kind \<Rightarrow> assigner" where
  "assign_scalar env name k key raw v =
     (case scalar env raw of
        None \<Rightarrow> bind_fail key name ''expected a scalar value'' v
      | Some s \<Rightarrow>
        (case set_scalar env name k s of Inl e \<Rightarrow> Some ([BindError key name e], v) | Inr x \<Rightarrow> Some ([], x)))"

definition assign_text :: "bind_env \<Rightarrow> string \<Rightarrow> assigner" where
  "assign_text env name key raw v =
     (case scalar env raw of
        None \<Rightarrow> bind_fail key name ''expected a scalar value'' v
      | Some s \<Rightarrow>
        (let (err, x) = be_unmarshal env name s
         in Some ((case err of None \<Rightarrow> [] | Some e \<Rightarrow> [BindError key name e]), VText x)))"

definition assign_ptr :: "gotype \<Rightarrow> assigner \<Rightarrow> assigner" where
  "assign_ptr t sub key raw v =
     (if raw = Leaf SNull then Some ([], VPtr None)
      else (case sub key raw (zero_value t) of
              None \<Rightarrow> None
            | Some (errs, x) \<Rightarrow> Some (errs, if errs = [] then VPtr (Some x) else v)))"

text \<open>Storing null in an empty interface panics: \<open>reflect.ValueOf(nil)\<close> is no value.\<close>

definition assign_any :: assigner where
  "assign_any key raw v = (if raw = Leaf SNull then None else Some ([], VAny (Some raw)))"

text \<open>The elements of a slice, numbered, and the entries of a map that were bound without an error.\<close>

fun assign_items :: "gotype \<Rightarrow> assigner \<Rightarrow> string \<Rightarrow> int \<Rightarrow> tree list \<Rightarrow> (goerr list \<times> govalue list) option" where
  "assign_items t sub key i [] = Some ([], [])"
| "assign_items t sub key i (item # items) =
     (case sub (key @ ''/'' @ itoa i) item (zero_value t) of
        None \<Rightarrow> None
      | Some (errs, x) \<Rightarrow>
        (case assign_items t sub key (i + 1) items of
           None \<Rightarrow> None
         | Some (errs', xs) \<Rightarrow> Some (errs @ errs', x # xs)))"

fun assign_entries :: "gotype \<Rightarrow> assigner \<Rightarrow> string \<Rightarrow> (string \<times> tree) list \<Rightarrow>
    (goerr list \<times> (string, govalue) fmap) option" where
  "assign_entries t sub key [] = Some ([], fmempty)"
| "assign_entries t sub key ((k, item) # rest) =
     (case sub (join_key key k) item (zero_value t) of
        None \<Rightarrow> None
      | Some (errs, x) \<Rightarrow>
        (case assign_entries t sub key rest of
           None \<Rightarrow> None
         | Some (errs', m) \<Rightarrow> Some (errs @ errs', if errs = [] then fmupd k x m else m)))"

definition entries_in_order :: "object \<Rightarrow> (string \<times> tree) list" where
  "entries_in_order m =
     List.map_filter (\<lambda>k. map_option (\<lambda>v. (k, v)) (fmlookup m k)) (sorted_list_of_fset (fmdom m))"

definition assign_map :: "string \<Rightarrow> bool \<Rightarrow> gotype \<Rightarrow> assigner \<Rightarrow> assigner" where
  "assign_map ty string_keys t sub key raw v =
     (case raw of
        Node m \<Rightarrow>
          if \<not> string_keys then bind_fail key ty ''only maps with string keys are supported'' v
          else (case assign_entries t sub key (entries_in_order m) of
                  None \<Rightarrow> None
                | Some (errs, out) \<Rightarrow> Some (errs, VMap (Some out)))
      | _ \<Rightarrow> bind_fail key ty ''expected an object'' v)"

text \<open>The items of a folder with numeric keys: each is looked up by its number as printed.\<close>

fun folder_indexes :: "string list \<Rightarrow> (string, int list) outcome" where
  "folder_indexes [] = Inr []"
| "folder_indexes (k # ks) =
     (case atoi k of
        None \<Rightarrow> Inl k
      | Some n \<Rightarrow> if n < 0 then Inl k else bind_outcome (folder_indexes ks) (\<lambda>ns. Inr (n # ns)))"

definition folder_items :: "object \<Rightarrow> int list \<Rightarrow> tree list" where
  "folder_items m idx = map (\<lambda>n. case fmlookup m (itoa n) of None \<Rightarrow> Leaf SNull | Some v \<Rightarrow> v) (sort idx)"

definition is_byte :: "gotype \<Rightarrow> bool" where
  "is_byte t = (case t of TScalar n k \<Rightarrow> k = KUint 8 | _ \<Rightarrow> False)"

definition comma_items :: "string \<Rightarrow> tree list" where
  "comma_items s =
     (if trim_space s = [] then []
      else map (\<lambda>part. Leaf (SText (trim_space part))) (split_on (CHR '','') s))"

definition assign_slice :: "bind_env \<Rightarrow> string \<Rightarrow> gotype \<Rightarrow> assigner \<Rightarrow> assigner" where
  "assign_slice env ty t sub key raw v =
     (let fill = (\<lambda>items. case assign_items t sub key 0 items of
            None \<Rightarrow> None | Some (errs, xs) \<Rightarrow> Some (errs, VSlice (Some xs)))
      in case raw of
           Items items \<Rightarrow> fill items
         | Node m \<Rightarrow>
             (case folder_indexes (sorted_list_of_fset (fmdom m)) of
                Inl k \<Rightarrow> bind_fail key ty (''list folder has non-numeric key '' @ k) v
              | Inr idx \<Rightarrow> fill (folder_items m idx))
         | _ \<Rightarrow>
             (case scalar env raw of
                None \<Rightarrow> bind_fail key ty ''expected a list'' v
              | Some s \<Rightarrow>
                if is_byte t then Some ([], VSlice (Some (map (\<lambda>c. VUint (byte c)) s)))
                else fill (comma_items s)))"


subsection \<open>Structs\<close>

record type_binder =
  bd_assign :: assigner
  bd_section :: section_binder

text \<open>One field: its errors, its value, and the key it used.\<close>

definition bind_field ::
    "bind_env \<Rightarrow> string \<Rightarrow> object \<Rightarrow> field_info \<Rightarrow> gotype \<Rightarrow> type_binder \<Rightarrow> govalue \<Rightarrow>
     (goerr list \<times> govalue \<times> string list) option" where
  "bind_field env path m f t b v =
     (let spec = spec_of env f; name = fs_name spec;
          using_keys = (\<lambda>ks r. case r of None \<Rightarrow> None | Some (errs, x) \<Rightarrow> Some (errs, x, ks))
      in if \<not> fi_Exported f \<or> fs_skip spec then Some ([], v, [])
         else if fi_Anonymous f \<and> tag_of f (be_Tag env) = None \<and> struct_kind (indirect_type t)
         then using_keys [] (bd_section b path m v)
         else (case find_key env m name of
                 Some (key, raw) \<Rightarrow> using_keys [key] (bd_assign b (join_key path key) raw v)
               | None \<Rightarrow>
                 (case tag_of f ''default'' of
                    Some text \<Rightarrow> using_keys [] (bd_assign b (join_key path name) (Leaf (SText text)) v)
                  | None \<Rightarrow>
                    if fs_required spec
                    then Some ([BindError (join_key path name) (type_name t) ErrRequired], v, [])
                    else if struct_kind t then using_keys [] (bd_section b (join_key path name) fmempty v)
                    else Some ([], v, []))))"

type_synonym bound_field = "(field_info \<times> gotype) \<times> type_binder"

fun bind_fields ::
    "bind_env \<Rightarrow> string \<Rightarrow> object \<Rightarrow> bound_field list \<Rightarrow> govalue list \<Rightarrow>
     (goerr list \<times> govalue list \<times> string list) option" where
  "bind_fields env path m (((f, t), b) # fs) (v # vs) =
     (case bind_field env path m f t b v of
        None \<Rightarrow> None
      | Some (errs, x, ks) \<Rightarrow>
        (case bind_fields env path m fs vs of
           None \<Rightarrow> None
         | Some (errs', xs, ks') \<Rightarrow> Some (errs @ errs', x # xs, ks @ ks')))"
| "bind_fields env path m fs vs = Some ([], vs, [])"

definition unknown_keys :: "bind_env \<Rightarrow> gotype \<Rightarrow> string \<Rightarrow> object \<Rightarrow> string list \<Rightarrow> goerr list" where
  "unknown_keys env t path m used =
     (if be_ErrorUnused env
      then map (\<lambda>k. BindError (join_key path k) (type_name t) (Opaque ''unknown key''))
             (filter (\<lambda>k. k \<notin> set used \<and> \<not> matches_any_field t env k) (sorted_list_of_fset (fmdom m)))
      else [])"

definition bind_struct :: "bind_env \<Rightarrow> gotype \<Rightarrow> bound_field list \<Rightarrow> section_binder" where
  "bind_struct env t fs path m v =
     (case v of
        VStruct vs \<Rightarrow>
          (case bind_fields env path m fs vs of
             None \<Rightarrow> None
           | Some (errs, xs, used) \<Rightarrow> Some (errs @ unknown_keys env t path m used, VStruct xs))
      | _ \<Rightarrow> Some ([], v))"

definition assign_struct :: "gotype \<Rightarrow> section_binder \<Rightarrow> assigner" where
  "assign_struct t sub key raw v =
     (case raw of Node m \<Rightarrow> sub key m v | _ \<Rightarrow> bind_fail key (type_name t) ''expected an object'' v)"

text \<open>\<open>allocate\<close> before the section of an embedded pointer is bound.\<close>

definition section_ptr :: "gotype \<Rightarrow> section_binder \<Rightarrow> section_binder" where
  "section_ptr t sub path m v =
     (case sub path m (case v of VPtr (Some x) \<Rightarrow> x | _ \<Rightarrow> zero_value t) of
        None \<Rightarrow> None
      | Some (errs, x) \<Rightarrow> Some (errs, VPtr (Some x)))"

definition no_section :: section_binder where
  "no_section path m v = Some ([], v)"

primrec binder_of :: "gotype \<Rightarrow> bind_env \<Rightarrow> type_binder" where
  "binder_of (TScalar n k) = (\<lambda>env. \<lparr>bd_assign = assign_scalar env n k, bd_section = no_section\<rparr>)"
| "binder_of (TText n) = (\<lambda>env. \<lparr>bd_assign = assign_text env n, bd_section = no_section\<rparr>)"
| "binder_of (TPtr t) =
     (\<lambda>env. \<lparr>bd_assign = assign_ptr t (bd_assign (binder_of t env)),
            bd_section = section_ptr t (bd_section (binder_of t env))\<rparr>)"
| "binder_of (TSlice t) =
     (\<lambda>env. \<lparr>bd_assign = assign_slice env (type_name (TSlice t)) t (bd_assign (binder_of t env)),
            bd_section = no_section\<rparr>)"
| "binder_of (TMap kn ks t) =
     (\<lambda>env. \<lparr>bd_assign = assign_map (type_name (TMap kn ks t)) ks t (bd_assign (binder_of t env)),
            bd_section = no_section\<rparr>)"
| "binder_of (TStruct n fs) =
     (\<lambda>env. let sub = bind_struct env (TStruct n fs)
                  (zip fs (map (\<lambda>x. snd x env) (map (map_prod id binder_of) fs)))
            in \<lparr>bd_assign = assign_struct (TStruct n fs) sub, bd_section = sub\<rparr>)"
| "binder_of TAny = (\<lambda>env. \<lparr>bd_assign = assign_any, bd_section = no_section\<rparr>)"

definition assign_value :: "bind_env \<Rightarrow> gotype \<Rightarrow> assigner" where
  "assign_value env t = bd_assign (binder_of t env)"

text \<open>\<open>Bind\<close>: the joined errors and the destination.\<close>

definition bind_tree :: "bind_env \<Rightarrow> object \<Rightarrow> gotype \<Rightarrow> govalue \<Rightarrow> (goerr option \<times> govalue) option" where
  "bind_tree env0 m ty dst =
     (let env = (if be_Tag env0 = [] then env0\<lparr>be_Tag := ''consul''\<rparr> else env0);
          refused = Some (Some (Errorf (''consulx: bind destination must be a non-nil pointer to a struct, got '' @
            type_name ty) []), dst)
      in case ty of
           TPtr t \<Rightarrow>
             (case dst of
                VPtr (Some x) \<Rightarrow>
                  if struct_kind t
                  then (case bd_section (binder_of t env) [] m x of
                          None \<Rightarrow> None
                        | Some (errs, x') \<Rightarrow> Some (errors_join (map Some errs), VPtr (Some x')))
                  else refused
              | _ \<Rightarrow> refused)
         | _ \<Rightarrow> refused)"


subsection \<open>Binding keeps types\<close>

lemma zero_typed [simp]: "typed t (zero_value t)"
proof (induction t)
  case (TScalar n k)
  show ?case by (cases k) (simp_all add: zero_scalar_def typed_scalar_def in64_def)
next
  case (TStruct n fs)
  then show ?case by (auto simp: list_all2_map1 list_all2_map2 list_all2_same)
qed simp_all

definition keeps_type :: "gotype \<Rightarrow> type_binder \<Rightarrow> bool" where
  "keeps_type t b \<longleftrightarrow>
     (\<forall>key raw v es x. typed t v \<longrightarrow> bd_assign b key raw v = Some (es, x) \<longrightarrow> typed t x) \<and>
     (\<forall>path m v es x. typed t v \<longrightarrow> bd_section b path m v = Some (es, x) \<longrightarrow> typed t x)"

lemma keeps_typeI:
  assumes "\<And>key raw v es x. typed t v \<Longrightarrow> bd_assign b key raw v = Some (es, x) \<Longrightarrow> typed t x"
    and "\<And>path m v es x. typed t v \<Longrightarrow> bd_section b path m v = Some (es, x) \<Longrightarrow> typed t x"
  shows "keeps_type t b"
  unfolding keeps_type_def using assms by blast

lemma keeps_assign: "keeps_type t b \<Longrightarrow> typed t v \<Longrightarrow> bd_assign b key raw v = Some (es, x) \<Longrightarrow> typed t x"
  and keeps_section: "keeps_type t b \<Longrightarrow> typed t v \<Longrightarrow> bd_section b path m v = Some (es, x) \<Longrightarrow> typed t x"
  unfolding keeps_type_def by blast+

lemma parse_uint_range: "parse_uint bits s = Some n \<Longrightarrow> n < 2 ^ bits"
  by (auto simp: parse_uint_def split: option.splits if_splits)

lemma parse_int_range:
  assumes "parse_int bits s = Some i" shows "- (2 ^ (bits - 1)) \<le> i \<and> i < 2 ^ (bits - 1)"
proof -
  obtain n where n: "i = - int n \<and> n \<le> 2 ^ (bits - 1) \<or> i = int n \<and> n < 2 ^ (bits - 1)"
    using assms by (auto simp: parse_int_def Let_def split: option.splits if_splits)
  have "n \<le> 2 ^ (bits - 1) \<Longrightarrow> int n \<le> int (2 ^ (bits - 1))"
    "n < 2 ^ (bits - 1) \<Longrightarrow> int n < int (2 ^ (bits - 1))"
    by (simp_all only: of_nat_le_iff of_nat_less_iff)
  moreover have "(0 :: int) < 2 ^ (bits - 1)" by simp
  ultimately show ?thesis using n unfolding of_nat_power of_nat_numeral by linarith
qed

lemma set_scalar_typed: "set_scalar env n k s = Inr x \<Longrightarrow> typed_scalar k x"
  by (cases k)
    (auto simp: set_scalar_def typed_scalar_def Let_def parse_uint_range parse_int_range
      dest: parse_int_range parse_duration_range split: option.splits)

lemma assign_items_typed:
  assumes "\<And>key raw es x. sub key raw (zero_value t) = Some (es, x) \<Longrightarrow> typed t x"
    and "assign_items t sub key i items = Some (es, xs)"
  shows "list_all (typed t) xs"
  using assms(2)
proof (induction items arbitrary: i es xs)
  case (Cons item items)
  then obtain es1 x es2 ys where s: "sub (key @ ''/'' @ itoa i) item (zero_value t) = Some (es1, x)"
    "assign_items t sub key (i + 1) items = Some (es2, ys)" "xs = x # ys"
    by (auto split: option.splits)
  show ?case using Cons.IH [OF s(2)] assms(1) [OF s(1)] by (simp add: s(3))
qed simp

lemma assign_entries_typed:
  assumes "\<And>key raw es x. sub key raw (zero_value t) = Some (es, x) \<Longrightarrow> typed t x"
    and "assign_entries t sub key items = Some (es, m)"
  shows "fmpred (\<lambda>_. typed t) m"
  using assms(2)
proof (induction items arbitrary: es m)
  case (Cons item items)
  obtain k raw where i: "item = (k, raw)" by fastforce
  then obtain es1 x es2 n where s: "sub (join_key key k) raw (zero_value t) = Some (es1, x)"
    "assign_entries t sub key items = Some (es2, n)" "m = (if es1 = [] then fmupd k x n else n)"
    using Cons.prems by (auto split: option.splits)
  show ?case using Cons.IH [OF s(2)] assms(1) [OF s(1)] by (auto simp: s(3) intro!: fmpred_upd)
qed simp

lemma bind_field_typed:
  assumes "bind_field env path m f t b v = Some (es, x, ks)" "keeps_type t b" "typed t v"
  shows "typed t x"
  using assms(1) keeps_assign [OF assms(2,3)] keeps_section [OF assms(2,3)] assms(3)
  by (auto simp: bind_field_def Let_def split: if_splits option.splits prod.splits)

lemma bind_fields_typed:
  assumes "bind_fields env path m fs vs = Some (es, xs, ks)" "\<forall>x\<in>set fs. keeps_type (snd (fst x)) (snd x)"
    and "list_all2 (\<lambda>x. typed (snd (fst x))) fs vs"
  shows "list_all2 (\<lambda>x. typed (snd (fst x))) fs xs"
  using assms
proof (induction env path m fs vs arbitrary: es xs ks rule: bind_fields.induct)
  case (1 env path m f t b fs v vs)
  then obtain es1 x ks1 es2 ys ks2 where
    s: "bind_field env path m f t b v = Some (es1, x, ks1)" "bind_fields env path m fs vs = Some (es2, ys, ks2)"
    "xs = x # ys"
    by (auto split: option.splits prod.splits)
  have "list_all2 (\<lambda>x. typed (snd (fst x))) fs ys" using 1(1) [OF s(1) refl refl s(2)] 1(3,4) by auto
  moreover have "typed t x" using bind_field_typed [OF s(1)] 1(3,4) by auto
  ultimately show ?case by (simp add: s(3))
qed auto

lemma typed_struct:
  "typed (TStruct n fs) v \<longleftrightarrow> (\<exists>vs. v = VStruct vs \<and> list_all2 (\<lambda>f. typed (snd f)) fs vs)"
  by (cases v) (simp_all add: list_all2_map1)

definition struct_fields :: "bind_env \<Rightarrow> (field_info \<times> gotype) list \<Rightarrow> bound_field list" where
  "struct_fields env fs = map (\<lambda>f. (f, binder_of (snd f) env)) fs"

lemma binder_of_struct:
  "binder_of (TStruct n fs) env =
     \<lparr>bd_assign = assign_struct (TStruct n fs) (bind_struct env (TStruct n fs) (struct_fields env fs)),
      bd_section = bind_struct env (TStruct n fs) (struct_fields env fs)\<rparr>"
proof -
  have "zip fs (map (\<lambda>x. snd x env) (map (map_prod id binder_of) fs)) = struct_fields env fs"
    by (induction fs) (simp_all add: struct_fields_def)
  then show ?thesis by (simp add: Let_def)
qed

lemma bind_struct_typed:
  assumes "bind_struct env t (struct_fields env fs) path m v = Some (es, x)" "typed (TStruct n fs) v"
    and "\<And>f. f \<in> set fs \<Longrightarrow> keeps_type (snd f) (binder_of (snd f) env)"
  shows "typed (TStruct n fs) x"
proof -
  obtain vs where v: "v = VStruct vs" "list_all2 (\<lambda>f. typed (snd f)) fs vs" using assms(2) by (auto simp only: typed_struct)
  obtain errs xs used where b: "bind_fields env path m (struct_fields env fs) vs = Some (errs, xs, used)" "x = VStruct xs"
    using assms(1) v(1) by (auto simp: bind_struct_def split: option.splits)
  have "list_all2 (\<lambda>x. typed (snd (fst x))) (struct_fields env fs) xs"
    by (rule bind_fields_typed [OF b(1)]) (use assms(3) v(2) in \<open>auto simp: struct_fields_def list_all2_map1\<close>)
  then show ?thesis using b(2) by (auto simp: typed_struct struct_fields_def list_all2_map1 simp del: typed.simps)
qed

lemma binder_of_keeps: "keeps_type t (binder_of t env)"
proof (induction t)
  case (TScalar n k)
  then show ?case
    by (intro keeps_typeI)
      (auto simp: assign_scalar_def bind_fail_def no_section_def split: option.splits sum.splits
        dest: set_scalar_typed)
next
  case (TText n)
  then show ?case
    by (intro keeps_typeI)
      (auto simp: assign_text_def bind_fail_def no_section_def Let_def split: option.splits prod.splits)
next
  case (TPtr t)
  have zero: "typed t (case v of VPtr (Some x) \<Rightarrow> x | _ \<Rightarrow> zero_value t)" if "typed (TPtr t) v" for v
    using that by (cases v) (auto split: option.splits)
  show ?case
  proof (rule keeps_typeI)
    fix path m v es x
    assume v: "typed (TPtr t) v" and b: "bd_section (binder_of (TPtr t) env) path m v = Some (es, x)"
    obtain y where "bd_section (binder_of t env) path m (case v of VPtr (Some x) \<Rightarrow> x | _ \<Rightarrow> zero_value t) = Some (es, y)"
      "x = VPtr (Some y)"
      using b by (auto simp: section_ptr_def split: option.splits)
    then show "typed (TPtr t) x" using keeps_section [OF TPtr zero [OF v]] by auto
  qed (auto simp: assign_ptr_def split: option.splits if_splits dest: keeps_assign [OF TPtr zero_typed])
next
  case (TSlice t)
  have items: "\<forall>x\<in>set xs. typed t x"
    if "assign_items t (bd_assign (binder_of t env)) key i its = Some (es, xs)" for key i its es xs
    using assign_items_typed [OF _ that] keeps_assign [OF TSlice zero_typed] by (simp add: list_all_iff)
  have bytes: "typed t (VUint (byte c))" if "is_byte t" for c
    using that by (auto simp: is_byte_def typed_scalar_def split: gotype.splits)
  show ?case
    by (intro keeps_typeI)
      (auto simp: assign_slice_def bind_fail_def no_section_def Let_def list_all_iff bytes
        split: option.splits tree.splits sum.splits if_splits dest: items)
next
  case (TMap kn ks t)
  have entries: "fmpred (\<lambda>_. typed t) m"
    if "assign_entries t (bd_assign (binder_of t env)) key its = Some (es, m)" for key its es m
    using assign_entries_typed [OF _ that] keeps_assign [OF TMap zero_typed] by blast
  show ?case
    by (intro keeps_typeI)
      (auto simp: assign_map_def bind_fail_def no_section_def
        split: option.splits tree.splits if_splits dest: entries)
next
  case (TStruct n fs)
  then have sub: "keeps_type (snd f) (binder_of (snd f) env)" if "f \<in> set fs" for f
    using that by (cases f) (auto intro: snds.intros)
  note struct = bind_struct_typed [OF _ _ sub]
  show ?case unfolding binder_of_struct
    by (intro keeps_typeI)
      (auto simp: assign_struct_def bind_fail_def simp del: typed.simps binder_of.simps
        split: tree.splits dest: struct)
next
  case TAny
  then show ?case by (intro keeps_typeI) (auto simp: assign_any_def no_section_def split: if_splits)
qed


subsection \<open>Panics\<close>

primrec any_free :: "gotype \<Rightarrow> bool" where
  "any_free (TScalar n k) = True"
| "any_free (TText n) = True"
| "any_free (TPtr t) = any_free t"
| "any_free (TSlice t) = any_free t"
| "any_free (TMap kn ks t) = any_free t"
| "any_free (TStruct n fs) = list_all snd (map (map_prod id any_free) fs)"
| "any_free TAny = False"

definition returns_always :: "type_binder \<Rightarrow> bool" where
  "returns_always b \<longleftrightarrow>
     (\<forall>key raw v. bd_assign b key raw v \<noteq> None) \<and> (\<forall>path m v. bd_section b path m v \<noteq> None)"

lemma assign_items_total:
  "(\<And>key raw v. sub key raw v \<noteq> None) \<Longrightarrow> assign_items t sub key i items \<noteq> None"
proof (induction items arbitrary: i)
  case (Cons item items)
  obtain es x where "sub (key @ ''/'' @ itoa i) item (zero_value t) = Some (es, x)"
    using Cons.prems by (metis option.exhaust prod.exhaust)
  moreover obtain es' xs where "assign_items t sub key (i + 1) items = Some (es', xs)"
    using Cons.IH [OF Cons.prems, of "i + 1"] by auto
  ultimately show ?case by simp
qed simp

lemma assign_entries_total:
  "(\<And>key raw v. sub key raw v \<noteq> None) \<Longrightarrow> assign_entries t sub key items \<noteq> None"
proof (induction items)
  case (Cons item items)
  obtain k raw where i: "item = (k, raw)" by fastforce
  obtain es x where "sub (join_key key k) raw (zero_value t) = Some (es, x)"
    using Cons.prems by (metis option.exhaust prod.exhaust)
  moreover obtain es' m where "assign_entries t sub key items = Some (es', m)"
    using Cons.IH [OF Cons.prems] by auto
  ultimately show ?case by (simp add: i)
qed simp

lemma returns_alwaysD:
  "returns_always b \<Longrightarrow> bd_assign b key raw v \<noteq> None" "returns_always b \<Longrightarrow> bd_section b path m v \<noteq> None"
  by (simp_all add: returns_always_def del: not_None_eq)

lemma bind_field_total:
  "returns_always b \<Longrightarrow> bind_field env path m f t b v \<noteq> None"
  by (simp add: bind_field_def returns_alwaysD Let_def del: not_None_eq split: option.splits)

lemma bind_fields_total:
  "\<forall>x\<in>set fs. returns_always (snd x) \<Longrightarrow> bind_fields env path m fs vs \<noteq> None"
proof (induction env path m fs vs rule: bind_fields.induct)
  case (1 env path m f t b fs v vs)
  obtain r where r: "bind_field env path m f t b v = Some r" using bind_field_total [of b] 1(2) by fastforce
  obtain errs x ks where "r = (errs, x, ks)" by (metis prod.exhaust)
  then show ?case using 1 r by (auto split: option.splits)
qed simp_all

lemma binder_of_total: "any_free t \<Longrightarrow> returns_always (binder_of t env)"
proof (induction t)
  case (TSlice t)
  then have "\<And>key raw v. bd_assign (binder_of t env) key raw v \<noteq> None" by (simp add: returns_always_def)
  then have items: "assign_items t (bd_assign (binder_of t env)) key i its \<noteq> None" for key i its
    by (rule assign_items_total)
  show ?case
    by (auto simp: items returns_always_def assign_slice_def bind_fail_def no_section_def Let_def
        split: option.splits tree.splits sum.splits)
next
  case (TMap kn ks t)
  then have "\<And>key raw v. bd_assign (binder_of t env) key raw v \<noteq> None" by (simp add: returns_always_def)
  then have entries: "assign_entries t (bd_assign (binder_of t env)) key its \<noteq> None" for key its
    by (rule assign_entries_total)
  show ?case
    by (auto simp: entries returns_always_def assign_map_def bind_fail_def no_section_def
        split: option.splits tree.splits)
next
  case (TStruct n fs)
  then have "\<forall>x\<in>set (struct_fields env fs). returns_always (snd x)"
    by (auto simp: struct_fields_def list_all_iff intro: snds.intros)
  then have "bind_fields env path m (struct_fields env fs) vs \<noteq> None" for path m vs
    by (rule bind_fields_total)
  then have "bind_struct env t (struct_fields env fs) path m v \<noteq> None" for t path m v
    by (simp add: bind_struct_def del: not_None_eq split: govalue.splits option.splits)
  then show ?case
    unfolding binder_of_struct
    by (auto simp: returns_always_def assign_struct_def bind_fail_def simp del: binder_of.simps
        split: tree.splits)
qed (auto simp: returns_always_def assign_scalar_def assign_text_def assign_ptr_def section_ptr_def
    bind_fail_def no_section_def Let_def split: option.splits sum.splits prod.splits)


lemma bind_tree_total: "any_free ty \<Longrightarrow> bind_tree env m ty dst \<noteq> None"
proof (cases ty)
  case (TPtr t)
  assume "any_free ty"
  then have "bd_section (binder_of t e) path m x \<noteq> None" for e path x
    using returns_alwaysD(2) [OF binder_of_total] by (simp add: TPtr del: not_None_eq)
  then show ?thesis
    by (simp add: bind_tree_def TPtr Let_def del: not_None_eq split: govalue.splits option.splits)
qed (simp_all add: bind_tree_def Let_def)

lemma bind_tree_typed:
  assumes "bind_tree env m ty dst = Some (err, x)" "typed ty dst"
  shows "typed ty x"
proof -
  define env' where "env' = (if be_Tag env = [] then env\<lparr>be_Tag := ''consul''\<rparr> else env)"
  consider "x = dst" | t y y' es where "ty = TPtr t" "dst = VPtr (Some y)"
    "bd_section (binder_of t env') [] m y = Some (es, y')" "x = VPtr (Some y')"
    using assms(1) unfolding bind_tree_def Let_def env'_def [symmetric]
    by (auto split: gotype.splits govalue.splits option.splits if_splits)
  then show ?thesis
  proof cases
    case 2
    then have "typed t y" using assms(2) by simp
    then show ?thesis using keeps_section [OF binder_of_keeps _ 2(3)] 2(1,4) by simp
  qed (use assms(2) in simp)
qed

text \<open>
  C12. Binding keeps the type of its destination, with or without errors: every field, element and
  pointer of the result holds a value of its Go type, an integer fits its width and a duration fits
  int64, and no empty interface holds a null.
\<close>

theorem bind_typed:
  assumes "bind_tree env m ty dst = Some (err, x)" "typed ty dst"
  shows "typed ty x"
  using assms by (rule bind_tree_typed)

definition ascii_env :: bind_env where
  "ascii_env =
     \<lparr>be_Tag = ''consul'', be_ErrorUnused = True, be_lower = (\<lambda>r. if 65 \<le> r \<and> r \<le> 90 then r + 32 else r),
      be_unmarshal = (\<lambda>_ s. (None, s)), be_parse_float = (\<lambda>_ _. None), be_format_float = (\<lambda>_. [])\<rparr>"

definition plain_field :: "string \<Rightarrow> (string \<times> string) list \<Rightarrow> field_info" where
  "plain_field name tags = \<lparr>fi_Name = name, fi_Exported = True, fi_Anonymous = False, fi_Tags = tags\<rparr>"

definition sample_type :: gotype where
  "sample_type =
     TPtr (TStruct ''main.DB''
       [(plain_field ''Host'' [(''consul'', ''host,required'')], TScalar ''string'' KString),
        (plain_field ''Port'' [(''consul'', ''port''), (''default'', ''5432'')], TScalar ''int'' (KInt 64))])"

theorem bind_typed_witness:
  "\<exists>err x. bind_tree ascii_env (fmupd ''host'' (Leaf (SText ''h1'')) fmempty) sample_type
      (VPtr (Some (VStruct [VString [], VInt 0]))) = Some (err, x) \<and> typed sample_type x"
proof -
  let ?dst = "VPtr (Some (VStruct [VString [], VInt 0]))"
  have ty: "typed sample_type ?dst" by (simp add: sample_type_def typed_scalar_def)
  have "bind_tree ascii_env (fmupd ''host'' (Leaf (SText ''h1'')) fmempty) sample_type ?dst \<noteq> None"
    by (rule bind_tree_total) (simp add: sample_type_def)
  then obtain err x where
    "bind_tree ascii_env (fmupd ''host'' (Leaf (SText ''h1'')) fmempty) sample_type ?dst = Some (err, x)"
    by auto
  then show ?thesis using bind_typed [OF _ ty] by blast
qed

text \<open>
  C28. Binding never panics when the type has no empty interface, whatever the tree. With one it may: a
  list folder with the key 01 is read back under the key 1, which is absent, and the null found there
  cannot be stored in an element of type any.
\<close>

theorem bind_panics_only_on_any:
  "(any_free ty \<longrightarrow> bind_tree env m ty dst \<noteq> None) \<and>
   assign_value env (TSlice TAny) key (Node (fmupd ''01'' (Leaf (SText s)) fmempty)) v = None"
proof
  show "any_free ty \<longrightarrow> bind_tree env m ty dst \<noteq> None" using bind_tree_total by blast
  have a: "atoi ''01'' = Some 1"
    by (simp add: atoi_def parse_int_def parse_digits_def is_digit_def digits_val_def)
  have i: "itoa 1 = ''1''" by code_simp
  have "sorted_list_of_fset (fmdom (fmupd ''01'' (Leaf (SText s)) fmempty)) = [''01'']"
    by (simp add: sorted_list_of_fset.rep_eq)
  then show "assign_value env (TSlice TAny) key (Node (fmupd ''01'' (Leaf (SText s)) fmempty)) v = None"
    by (simp add: assign_value_def assign_slice_def assign_any_def folder_items_def a i Let_def)
qed

theorem bind_panics_only_on_any_witness:
  "bind_tree ascii_env fmempty sample_type (VPtr None) \<noteq> None"
proof -
  have "any_free sample_type" by (simp add: sample_type_def)
  then show ?thesis using bind_panics_only_on_any [of sample_type] by blast
qed

subsection \<open>Keys up to spelling\<close>

definition separator :: "nat \<Rightarrow> bool" where
  "separator r \<longleftrightarrow> r = 45 \<or> r = 95 \<or> r = 46"

text \<open>The reference: the runes without separators, in lower case.\<close>

definition normal_key :: "(nat \<Rightarrow> nat) \<Rightarrow> string \<Rightarrow> nat list" where
  "normal_key lower s = map (to_lower_rune lower) (filter (\<lambda>r. \<not> separator r) (runes s))"

lemma next_rune_normal:
  "normal_key lower s =
     (case next_rune lower s of None \<Rightarrow> [] | Some (r, t) \<Rightarrow> r # normal_key lower t)"
proof (induction lower s rule: next_rune.induct)
  case (1 lower s)
  show ?case
  proof (cases "s = []")
    case True
    then show ?thesis by (simp add: next_rune.simps normal_key_def)
  next
    case False
    obtain r w where d: "decode_rune s = (r, w)" by fastforce
    have "runes s = r # runes (drop w s)" using False d by (simp add: runes.simps [of s])
    then show ?thesis
      using 1 [OF False d [symmetric] refl] False d
      by (auto simp: next_rune.simps [of lower s] normal_key_def separator_def)
  qed
qed

lemma same_key_normal: "same_key lower a b \<longleftrightarrow> normal_key lower a = normal_key lower b"
proof (induction lower a b rule: same_key.induct)
  case (1 lower a b)
  show ?case
    using 1 by (simp add: same_key.simps [of lower a b] next_rune_normal [of lower a] next_rune_normal [of lower b]
        split: option.splits prod.splits)
qed

lemma find_sorted:
  "List.find P xs = Some x \<Longrightarrow> x \<in> set xs \<and> P x \<and> (sorted xs \<longrightarrow> (\<forall>y\<in>set xs. P y \<longrightarrow> x \<le> y))"
  by (induction xs) (auto split: if_splits)

text \<open>
  C24. \<open>sameKey\<close>, which compares in place, is equality of the two names without separators and in lower
  case. So the key a field is read from is the exact one if the tree has it, and otherwise the smallest
  of the keys with the same spelling up to case and separators; a field goes without a key only when the
  tree has none of them.
\<close>

theorem same_key_reference:
  "(same_key lower a b \<longleftrightarrow> normal_key lower a = normal_key lower b) \<and>
   (case find_key env m name of
      Some (k, v) \<Rightarrow> fmlookup m k = Some v \<and>
        (k = name \<or> fmlookup m name = None \<and> normal_key (be_lower env) k = normal_key (be_lower env) name \<and>
           (\<forall>j. j |\<in>| fmdom m \<and> normal_key (be_lower env) j = normal_key (be_lower env) name \<longrightarrow> k \<le> j))
    | None \<Rightarrow> \<forall>j. j |\<in>| fmdom m \<longrightarrow> normal_key (be_lower env) j \<noteq> normal_key (be_lower env) name)"
proof -
  have set_keys: "set (sorted_list_of_fset (fmdom m)) = fset (fmdom m)" by (simp add: sorted_list_of_fset.rep_eq)
  define P where "P k \<longleftrightarrow> same_key (be_lower env) k name" for k
  show ?thesis
  proof (cases "fmlookup m name")
    case None
    show ?thesis
    proof (cases "List.find P (sorted_list_of_fset (fmdom m))")
      case (Some k)
      then have k: "k \<in> fset (fmdom m)" "P k" "\<forall>j\<in>fset (fmdom m). P j \<longrightarrow> k \<le> j"
        using find_sorted [OF Some] by (simp_all add: set_keys sorted_list_of_fset.rep_eq)
      then obtain v where "fmlookup m k = Some v" by (auto simp: fmlookup_dom_iff)
      then show ?thesis
        using None Some k by (simp add: find_key_def P_def [abs_def] same_key_normal)
    next
      case no: None
      then have "\<forall>j\<in>fset (fmdom m). \<not> P j" by (simp add: find_None_iff set_keys)
      then show ?thesis using None no by (simp add: find_key_def P_def [abs_def] same_key_normal)
    qed
  qed (simp add: find_key_def same_key_normal)
qed


theorem same_key_reference_witness:
  "\<exists>k v. find_key ascii_env (fmap_of_list [(''max_conns'', Leaf (SText ''10'')), (''host'', Leaf SNull)]) ''MaxConns'' = Some (k, v)"
proof -
  let ?m = "fmap_of_list [(''max_conns'', Leaf (SText ''10'')), (''host'', Leaf SNull)]"
  have "same_key (be_lower ascii_env) ''max_conns'' ''MaxConns''" by code_simp
  then have "normal_key (be_lower ascii_env) ''max_conns'' = normal_key (be_lower ascii_env) ''MaxConns''"
    using same_key_reference [where lower = "be_lower ascii_env" and a = "''max_conns''" and b = "''MaxConns''"
      and env = ascii_env and m = ?m and name = "''MaxConns''", THEN conjunct1] by simp
  moreover have "''max_conns'' |\<in>| fmdom ?m" by simp
  ultimately show ?thesis
    using same_key_reference [where lower = "be_lower ascii_env" and a = "''max_conns''" and b = "''MaxConns''"
      and env = ascii_env and m = ?m and name = "''MaxConns''"]
    by (cases "find_key ascii_env ?m ''MaxConns''") (auto simp del: fmdom_fmap_of_list)
qed


subsection \<open>Three spellings of a list\<close>

lemma folder_indexes_map:
  "\<forall>k\<in>set ks. \<exists>n\<ge>0. atoi k = Some n \<Longrightarrow> folder_indexes ks = Inr (map (the \<circ> atoi) ks)"
  by (induction ks) auto

definition list_folder :: "tree list \<Rightarrow> object" where
  "list_folder items = fmap_of_list (zip (map itoa [0..int (length items) - 1]) items)"

lemma list_folder_lookup:
  assumes "i < length items" "int (length items) < 2 ^ 63"
  shows "fmlookup (list_folder items) (itoa (int i)) = Some (items ! i)"
proof -
  have d: "distinct (map itoa [0..int (length items) - 1])"
    using assms(2) by (auto simp: distinct_map inj_on_def in64_def itoa_inj)
  have "(itoa (int i), items ! i) \<in> set (zip (map itoa [0..int (length items) - 1]) items)"
    unfolding set_zip using assms by (auto intro!: exI [of _ i])
  then show ?thesis using d by (simp add: list_folder_def fmlookup_of_list)
qed

lemma list_folder_items:
  assumes "int (length items) < 2 ^ 63"
  shows "\<exists>idx. folder_indexes (sorted_list_of_fset (fmdom (list_folder items))) = Inr idx \<and>
    folder_items (list_folder items) idx = items"
proof -
  define ks where "ks = sorted_list_of_fset (fmdom (list_folder items))"
  have "set ks = set (map fst (zip (map itoa [0..int (length items) - 1]) items))"
    unfolding ks_def list_folder_def by (simp add: sorted_list_of_fset.rep_eq fset_of_list.rep_eq)
  then have dom: "set ks = itoa ` {0..int (length items) - 1}" by simp
  have atoi: "atoi (itoa j) = Some j" if "j \<in> {0..int (length items) - 1}" for j
    using that assms by (intro atoi_itoa) (simp_all add: in64_def)
  have "\<forall>k\<in>set ks. \<exists>n\<ge>0. atoi k = Some n" using atoi by (auto simp: dom)
  then have idx: "folder_indexes ks = Inr (map (the \<circ> atoi) ks)" by (rule folder_indexes_map)
  have "set (map (the \<circ> atoi) ks) = {0..int (length items) - 1}"
    using atoi by (auto simp: dom image_image image_iff)
  moreover have "distinct (map (the \<circ> atoi) ks)"
    using atoi by (auto simp: distinct_map ks_def [symmetric] dom inj_on_def) (simp add: ks_def sorted_list_of_fset.rep_eq)
  ultimately have "sort (map (the \<circ> atoi) ks) = [0..int (length items) - 1]"
    by (intro sorted_distinct_set_unique) simp_all
  then have "folder_items (list_folder items) (map (the \<circ> atoi) ks) = items"
    by (intro nth_equalityI) (simp_all add: folder_items_def list_folder_lookup [OF _ assms])
  with idx show ?thesis by (simp add: ks_def)
qed

text \<open>
  A slice reads the same from a list, from a folder with the keys 0, 1, 2 and so on (in whatever
  order they compare as texts), and from the comma separated text: with the same errors, under the same
  keys, and the same elements.
\<close>

theorem list_spellings_agree:
  assumes "int (length ws) < 2 ^ 63" "\<forall>w\<in>set ws. w \<noteq> [] \<and> trim_space w = w \<and> CHR '','' \<notin> set w"
    and "trim_space (join_with '','' ws) = [] \<longleftrightarrow> ws = []" "\<not> is_byte t"
  shows "let items = map (\<lambda>w. Leaf (SText w)) ws
    in assign_value env (TSlice t) key (Node (list_folder items)) v = assign_value env (TSlice t) key (Items items) v \<and>
       assign_value env (TSlice t) key (Leaf (SText (join_with '','' ws))) v =
         assign_value env (TSlice t) key (Items items) v"
proof -
  define items where "items = map (\<lambda>w. Leaf (SText w)) ws"
  obtain idx where idx: "folder_indexes (sorted_list_of_fset (fmdom (list_folder items))) = Inr idx"
    "folder_items (list_folder items) idx = items"
    using list_folder_items [of items] assms(1) by (auto simp: items_def)
  have "comma_items (join_with '','' ws) = items"
  proof (cases "ws = []")
    case False
    have "map trim_space ws = ws" using assms(2) by (simp add: map_idI)
    then have "map (\<lambda>w. Leaf (SText (trim_space w))) ws = items" by (metis (no_types, lifting) items_def map_map comp_def map_eq_conv)
    then show ?thesis using False assms(2,3) by (simp add: comma_items_def split_join)
  qed (simp add: comma_items_def items_def trim_space_def)
  then show ?thesis
    using assms(4) idx
    by (simp add: Let_def items_def [symmetric] assign_value_def assign_slice_def scalar_def)
qed

theorem list_spellings_agree_witness:
  "assign_value ascii_env (TSlice (TScalar ''int'' (KInt 64))) ''ports'' (Leaf (SText ''80,443'')) (VSlice None) =
   assign_value ascii_env (TSlice (TScalar ''int'' (KInt 64))) ''ports''
     (Items [Leaf (SText ''80''), Leaf (SText ''443'')]) (VSlice None)"
proof -
  have h: "\<forall>w\<in>set [''80'', ''443'']. w \<noteq> [] \<and> trim_space w = w \<and> CHR '','' \<notin> set w"
    "trim_space (join_with '','' [''80'', ''443'']) = [] \<longleftrightarrow> [''80'', ''443''] = []"
    by code_simp+
  have b: "\<not> is_byte (TScalar ''int'' (KInt 64))" by (simp add: is_byte_def)
  show ?thesis
    using list_spellings_agree [OF _ h b, of ascii_env "''ports''" "VSlice None"] by (simp add: Let_def)
qed

subsection \<open>Every problem is reported\<close>

lemma bind_fields_at:
  assumes "bind_fields env path m fs vs = Some (errs, xs, used)" "i < length fs" "length vs = length fs"
    and "fs ! i = ((f, t), b)"
  shows "\<exists>es x ks. bind_field env path m f t b (vs ! i) = Some (es, x, ks) \<and> set es \<subseteq> set errs \<and> xs ! i = x \<and>
    set ks \<subseteq> set used"
  using assms
proof (induction env path m fs vs arbitrary: errs xs used i rule: bind_fields.induct)
  case (1 env path m f' t' b' fs v vs)
  then obtain es1 y ks1 es2 ys ks2 where
    s: "bind_field env path m f' t' b' v = Some (es1, y, ks1)" "bind_fields env path m fs vs = Some (es2, ys, ks2)"
    "errs = es1 @ es2" "xs = y # ys" "used = ks1 @ ks2"
    by (auto split: option.splits prod.splits)
  show ?case
  proof (cases i)
    case 0
    then show ?thesis using 1(5) s by auto
  next
    case (Suc j)
    then show ?thesis using 1(1) [OF s(1) refl refl s(2), of j] 1(3-5) s by fastforce
  qed
qed auto

lemma bind_field_used:
  assumes "bind_field env path m f t b v = Some (es, x, ks)" "k \<in> set ks"
  shows "\<exists>raw. find_key env m (fs_name (spec_of env f)) = Some (k, raw)"
  using assms unfolding bind_field_def Let_def by (auto split: if_splits option.splits prod.splits)

lemma bind_fields_used:
  "bind_fields env path m fs vs = Some (errs, xs, used) \<Longrightarrow> k \<in> set used \<Longrightarrow>
   \<exists>((g, u), b)\<in>set fs. \<exists>raw. find_key env m (fs_name (spec_of env g)) = Some (k, raw)"
proof (induction env path m fs vs arbitrary: errs xs used rule: bind_fields.induct)
  case (1 env path m f t b fs v vs)
  then obtain es1 y ks1 es2 ys ks2 where
    s: "bind_field env path m f t b v = Some (es1, y, ks1)" "bind_fields env path m fs vs = Some (es2, ys, ks2)"
    "used = ks1 @ ks2"
    by (auto split: option.splits prod.splits)
  then show ?case using 1(1) [OF s(1) refl refl s(2)] 1(3) bind_field_used [OF s(1)] by auto
qed simp_all

text \<open>
  C22. Binding a struct goes through every field and reports every problem, not only the first: the
  errors of each field are among those returned and its value is in its place; a required key that is
  missing is reported with its path; an optional field without a key and without a default keeps its
  value; and, when asked, so is every key that no field matches.
\<close>

theorem bind_reports_all:
  assumes "bd_section (binder_of (TStruct n fs) env) path m (VStruct vs) = Some (errs, VStruct xs)"
    and "length vs = length fs" "i < length fs" "fs ! i = (f, t)"
  shows "(\<exists>es x ks. bind_field env path m f t (binder_of t env) (vs ! i) = Some (es, x, ks) \<and>
       set es \<subseteq> set errs \<and> xs ! i = x) \<and>
     (fi_Exported f \<and> \<not> fs_skip (spec_of env f) \<and> \<not> fi_Anonymous f \<and>
        find_key env m (fs_name (spec_of env f)) = None \<and> tag_of f ''default'' = None \<longrightarrow>
        (if fs_required (spec_of env f)
         then BindError (join_key path (fs_name (spec_of env f))) (type_name t) ErrRequired \<in> set errs \<and> xs ! i = vs ! i
         else struct_kind t \<or> xs ! i = vs ! i)) \<and>
     (be_ErrorUnused env \<longrightarrow>
        (\<forall>k. k |\<in>| fmdom m \<and> \<not> matches_any_field (TStruct n fs) env k \<and>
             (\<forall>(g, u)\<in>set fs. \<forall>raw. find_key env m (fs_name (spec_of env g)) \<noteq> Some (k, raw)) \<longrightarrow>
           BindError (join_key path k) n (Opaque ''unknown key'') \<in> set errs))"
proof -
  obtain es used where b: "bind_fields env path m (struct_fields env fs) vs = Some (es, xs, used)"
    "errs = es @ unknown_keys env (TStruct n fs) path m used"
    using assms(1) unfolding binder_of_struct by (auto simp: bind_struct_def split: option.splits)
  obtain es1 x ks where f: "bind_field env path m f t (binder_of t env) (vs ! i) = Some (es1, x, ks)"
    "set es1 \<subseteq> set es" "xs ! i = x"
    using bind_fields_at [OF b(1), of i] assms(2-4) by (auto simp: struct_fields_def)
  have used: "\<not> k \<in> set used"
    if "\<forall>(g, u)\<in>set fs. \<forall>raw. find_key env m (fs_name (spec_of env g)) \<noteq> Some (k, raw)" for k
    using bind_fields_used [OF b(1)] that unfolding struct_fields_def by (fastforce dest: set_zip_leftD)
  have unknown: "BindError (join_key path k) n (Opaque ''unknown key'') \<in> set errs"
    if "be_ErrorUnused env" "k |\<in>| fmdom m" "\<not> matches_any_field (TStruct n fs) env k"
      "\<forall>(g, u)\<in>set fs. \<forall>raw. find_key env m (fs_name (spec_of env g)) \<noteq> Some (k, raw)" for k
    using that(1-3) used [OF that(4)] unfolding b(2) unknown_keys_def
    by (auto simp: sorted_list_of_fset.rep_eq simp del: matches_any_field.simps)
  have missing: "if fs_required (spec_of env f)
      then es1 = [BindError (join_key path (fs_name (spec_of env f))) (type_name t) ErrRequired] \<and> x = vs ! i
      else struct_kind t \<or> x = vs ! i"
    if "fi_Exported f" "\<not> fs_skip (spec_of env f)" "\<not> fi_Anonymous f"
      "find_key env m (fs_name (spec_of env f)) = None" "tag_of f ''default'' = None"
    using f(1) that by (simp add: bind_field_def Let_def split: if_splits)
  have es1: "set es1 \<subseteq> set errs" using f(2) b(2) by auto
  show ?thesis
  proof (intro conjI impI)
    show "\<exists>es x ks. bind_field env path m f t (binder_of t env) (vs ! i) = Some (es, x, ks) \<and>
       set es \<subseteq> set errs \<and> xs ! i = x"
      using f es1 by blast
  next
    assume "fi_Exported f \<and> \<not> fs_skip (spec_of env f) \<and> \<not> fi_Anonymous f \<and>
        find_key env m (fs_name (spec_of env f)) = None \<and> tag_of f ''default'' = None"
    then show "if fs_required (spec_of env f)
         then BindError (join_key path (fs_name (spec_of env f))) (type_name t) ErrRequired \<in> set errs \<and> xs ! i = vs ! i
         else struct_kind t \<or> xs ! i = vs ! i"
      using missing f(3) es1 by (auto split: if_splits)
  qed (use unknown in blast)
qed

definition host_field :: "field_info \<times> gotype" where
  "host_field = (plain_field ''Host'' [(''consul'', ''host,required'')], TScalar ''string'' KString)"

theorem bind_reports_all_witness:
  "\<exists>errs xs. bd_section (binder_of (TStruct ''main.DB'' [host_field]) ascii_env) [] fmempty (VStruct [VString []]) =
       Some (errs, VStruct xs) \<and> BindError ''host'' ''string'' ErrRequired \<in> set errs"
proof -
  let ?b = "bd_section (binder_of (TStruct ''main.DB'' [host_field]) ascii_env) [] fmempty (VStruct [VString []])"
  have "?b \<noteq> None"
    using binder_of_total [of "TStruct ''main.DB'' [host_field]" ascii_env]
    by (simp add: host_field_def returns_always_def)
  then obtain errs xs where b: "?b = Some (errs, VStruct xs)"
    unfolding binder_of_struct by (auto simp: bind_struct_def split: option.splits)
  have spec: "spec_of ascii_env (plain_field ''Host'' [(''consul'', ''host,required'')]) =
      \<lparr>fs_name = ''host'', fs_required = True, fs_skip = False\<rparr>"
    by code_simp
  have none: "find_key ascii_env fmempty ''host'' = None" by (simp add: find_key_def sorted_list_of_fset.rep_eq)
  have "BindError ''host'' ''string'' ErrRequired \<in> set errs"
    using bind_reports_all [OF b, of 0 "fst host_field" "snd host_field"] spec none
    by (simp add: host_field_def plain_field_def tag_of_def join_key_def)
  with b show ?thesis by blast
qed

end
