(* ===== verification/Loading.thy ===== *)
theory Loading
  imports Bind Client
begin

text \<open>
  kvconfig/kvconfig.go from \<open>LoadInto\<close> on, \<open>buildValue\<close> of kvconfig/watch.go, and kv.go: a configuration
  is read, the subtree bound to a destination and the destination validated. A destination is a value
  with its type; the method \<open>Validate\<close> of a type that has one, and the function given to
  \<open>WithValidator\<close>, are arguments that judge a value and leave it alone. \<open>None\<close> is a panic of the binding.
\<close>

subsection \<open>Binding a part of a tree\<close>

type_synonym validator = "govalue \<Rightarrow> goerr option"

record kv_env =
  ke_bind :: bind_env
  ke_parse :: "kv_format \<Rightarrow> string \<Rightarrow> object option res"
  ke_loader :: loader
  ke_Validate :: "validator option"

definition validate_value :: "kv_env \<Rightarrow> govalue \<Rightarrow> goerr option" where
  "validate_value env v =
     (case ke_Validate env of
        None \<Rightarrow> None
      | Some check \<Rightarrow>
        (case check v of None \<Rightarrow> None | Some err \<Rightarrow> Some (Errorf [] [ErrInvalid, err])))"

definition bind_options :: "kv_env \<Rightarrow> bind_env" where
  "bind_options env = (ke_bind env)\<lparr>be_Tag := [], be_ErrorUnused := ld_ErrorUnused (ke_loader env)\<rparr>"

definition bind_at ::
    "kv_env \<Rightarrow> object \<Rightarrow> string \<Rightarrow> gotype \<Rightarrow> govalue \<Rightarrow> (goerr option \<times> govalue) option" where
  "bind_at env m path ty dst =
     (case bind_tree (bind_options env) (subtree m path) ty dst of
        None \<Rightarrow> None
      | Some (Some err, x) \<Rightarrow> Some (Some err, x)
      | Some (None, x) \<Rightarrow> Some (validate_value env x, x))"

definition loader_bind ::
    "kv_env \<Rightarrow> (string \<Rightarrow> kv_answer) \<Rightarrow> string \<Rightarrow> gotype \<Rightarrow> govalue \<Rightarrow> (goerr option \<times> govalue) option" where
  "loader_bind env answers path ty dst =
     (case load (ke_parse env) (ke_loader env) answers of
        Inl err \<Rightarrow> Some (Some err, dst)
      | Inr (m, _) \<Rightarrow> bind_at env m path ty dst)"

definition load_into ::
    "kv_env \<Rightarrow> (string \<Rightarrow> kv_answer) \<Rightarrow> gotype \<Rightarrow> govalue \<Rightarrow> (goerr option \<times> govalue) option" where
  "load_into env answers ty dst = loader_bind env answers [] ty dst"

subsection \<open>Building a new value\<close>

record watch_options =
  wo_path :: string
  wo_validate :: "validator option"
  wo_onChange :: bool

datatype watch_option = WithPath string | WithValidator validator | OnChange

fun apply_watch_option :: "watch_option \<Rightarrow> watch_options \<Rightarrow> watch_options" where
  "apply_watch_option (WithPath p) o' = o'\<lparr>wo_path := p\<rparr>"
| "apply_watch_option (WithValidator f) o' = o'\<lparr>wo_validate := Some f\<rparr>"
| "apply_watch_option OnChange o' = o'\<lparr>wo_onChange := True\<rparr>"

definition watch_options_of :: "watch_option list \<Rightarrow> watch_options" where
  "watch_options_of opts =
     foldl (\<lambda>o' f. apply_watch_option f o') \<lparr>wo_path = [], wo_validate = None, wo_onChange = False\<rparr> opts"

text \<open>The value, the tree it was built from (none when Consul could not be read) and the error.\<close>

type_synonym built = "govalue \<times> object option \<times> goerr option"

definition pointee :: "gotype \<Rightarrow> govalue \<Rightarrow> govalue" where
  "pointee t p = (case p of VPtr (Some v) \<Rightarrow> v | _ \<Rightarrow> zero_value t)"

definition build_value ::
    "kv_env \<Rightarrow> watch_options \<Rightarrow> gotype \<Rightarrow> (string \<Rightarrow> kv_answer) \<Rightarrow> built option" where
  "build_value env o' t answers =
     (case load (ke_parse env) (ke_loader env) answers of
        Inl err \<Rightarrow> Some (zero_value t, None, Some err)
      | Inr (m, _) \<Rightarrow>
        (case bind_at env m (wo_path o') (TPtr t) (VPtr (Some (zero_value t))) of
           None \<Rightarrow> None
         | Some (Some err, p) \<Rightarrow> Some (pointee t p, Some m, Some err)
         | Some (None, p) \<Rightarrow>
           (let v = pointee t p
            in Some (v, Some m,
                 case wo_validate o' of
                   None \<Rightarrow> None
                 | Some check \<Rightarrow>
                   (case check v of None \<Rightarrow> None | Some err \<Rightarrow> Some (Errorf [] [ErrInvalid, err]))))))"

subsection \<open>The loader of a client\<close>

definition format_of :: "string \<Rightarrow> kv_format" where
  "format_of f = (if f = ''yaml'' then FormatYAML else if f = ''json'' then FormatJSON else FormatKeyValue)"

text \<open>\<open>Client.Config\<close>; the policy of the client is an argument.\<close>

definition config_loader :: "(int \<Rightarrow> duration \<times> bool) \<Rightarrow> client \<Rightarrow> loader" where
  "config_loader policy_delay c =
     (let cfg = cl_cfg c; k = cf_KV cfg; sv = cf_Service cfg
      in new_loader
        \<lparr>ld_Name = (if kc_Name k = [] then sv_Name sv else kc_Name k),
         ld_Profiles = (if slice_list (kc_Profiles k) = [] \<and> sv_Environment sv \<noteq> [] then [sv_Environment sv]
                        else slice_list (kc_Profiles k)),
         ld_Prefix = kc_Prefix k, ld_DefaultContext = kc_DefaultContext k,
         ld_ProfileSeparator = kc_ProfileSeparator k, ld_Format = format_of (kc_Format k),
         ld_DataKey = kc_DataKey k, ld_ErrorUnused = kc_ErrorUnused k,
         ld_RequestTimeout = cc_RequestTimeout (cf_Consul cfg), ld_WaitTime = cc_WaitTime (cf_Consul cfg),
         ld_MinInterval = 0, ld_Retry = Some policy_delay\<rparr>)"

definition config_metric :: "string \<Rightarrow> goerr option \<Rightarrow> metric" where
  "config_metric event err =
     (if event = ''reject'' \<or> err \<noteq> None then IncCounter MetricConfigReloadErrorsTotal []
      else IncCounter MetricConfigReloadTotal [])"


subsection \<open>What loading returns\<close>

lemma validate_None_iff: "validate_value env v = None \<longleftrightarrow> (\<forall>check. ke_Validate env = Some check \<longrightarrow> check v = None)"
  by (auto simp: validate_value_def split: option.splits)

lemma bind_at_typed: "bind_at env m path ty dst = Some (err, x) \<Longrightarrow> typed ty dst \<Longrightarrow> typed ty x"
  by (auto simp: bind_at_def dest: bind_tree_typed split: option.splits)

lemma bind_at_total: "any_free ty \<Longrightarrow> bind_at env m path ty dst \<noteq> None"
  using bind_tree_total [of ty "bind_options env" "subtree m path" dst]
  by (auto simp: bind_at_def split: option.splits)

lemma typed_pointee: "typed (TPtr t) p \<Longrightarrow> typed t (pointee t p)"
  by (auto simp: pointee_def split: option.splits govalue.splits)

lemma bind_at_pointer:
  "bind_at env m path ty (VPtr (Some y)) = Some (err, x) \<Longrightarrow> \<exists>y'. x = VPtr (Some y')"
  by (auto simp: bind_at_def bind_tree_def Let_def split: option.splits gotype.splits if_splits)

text \<open>A value that was built without an error has its type and passed its \<open>Validate\<close> and the validator.\<close>

lemma build_value_accepted:
  assumes "build_value env o' t answers = Some (v, m, None)"
  shows "typed t v" "m \<noteq> None" "validate_value env (VPtr (Some v)) = None"
    "\<And>check. wo_validate o' = Some check \<Longrightarrow> check v = None"
proof -
  obtain m' i p where b: "bind_at env m' (wo_path o') (TPtr t) (VPtr (Some (zero_value t))) = Some (None, p)"
    and v: "v = pointee t p" "m = Some m'"
    and c: "\<And>check. wo_validate o' = Some check \<Longrightarrow> check v = None"
    using assms by (auto simp: build_value_def Let_def split: sum.splits prod.splits option.splits)
  obtain y where p: "p = VPtr (Some y)" using bind_at_pointer [OF b] by blast
  show "typed t v" using bind_at_typed [OF b] typed_pointee v by simp
  show "m \<noteq> None" by (simp add: v)
  show "validate_value env (VPtr (Some v)) = None"
    using b by (auto simp: v p pointee_def bind_at_def split: option.splits)
  show "\<And>check. wo_validate o' = Some check \<Longrightarrow> check v = None" by (rule c)
qed

lemma build_value_total:
  assumes "any_free t"
  shows "build_value env o' t answers \<noteq> None"
proof -
  have "bind_at env m (wo_path o') (TPtr t) p \<noteq> None" for m p using assms by (intro bind_at_total) simp
  then show ?thesis
    by (simp add: build_value_def Let_def del: not_None_eq split: sum.splits prod.splits option.splits)
qed

text \<open>A loader whose type refuses one host.\<close>

definition sample_env_of :: "string \<Rightarrow> kv_env" where
  "sample_env_of refused =
     \<lparr>ke_bind = ascii_env, ke_parse = no_doc, ke_loader = sample_loader\<lparr>ld_ErrorUnused := False\<rparr>,
      ke_Validate = Some (\<lambda>v. if v = VPtr (Some (VStruct [VString refused, VInt 5432])) then Some (Opaque ''refused'') else None)\<rparr>"

end
