(* ===== verification/Environment.thy ===== *)
theory Environment
  imports Validate GoTime
begin

text \<open>
  env.go: the configuration layer read from the environment. \<open>os.LookupEnv\<close> is the argument \<open>lookup\<close>;
  the problems found are collected in the order of the code, as \<open>configErrors\<close> does.
\<close>

definition EnvConsulAddr :: string where "EnvConsulAddr = ''CONSUL_HTTP_ADDR''"
definition EnvConsulToken :: string where "EnvConsulToken = ''CONSUL_HTTP_TOKEN''"
definition EnvConsulTokenFile :: string where "EnvConsulTokenFile = ''CONSUL_HTTP_TOKEN_FILE''"
definition EnvConsulAuth :: string where "EnvConsulAuth = ''CONSUL_HTTP_AUTH''"
definition EnvConsulSSL :: string where "EnvConsulSSL = ''CONSUL_HTTP_SSL''"
definition EnvConsulSSLVerify :: string where "EnvConsulSSLVerify = ''CONSUL_HTTP_SSL_VERIFY''"
definition EnvConsulCACert :: string where "EnvConsulCACert = ''CONSUL_CACERT''"
definition EnvConsulCAPath :: string where "EnvConsulCAPath = ''CONSUL_CAPATH''"
definition EnvConsulCert :: string where "EnvConsulCert = ''CONSUL_CLIENT_CERT''"
definition EnvConsulKey :: string where "EnvConsulKey = ''CONSUL_CLIENT_KEY''"
definition EnvConsulTLSServer :: string where "EnvConsulTLSServer = ''CONSUL_TLS_SERVER_NAME''"
definition EnvConsulNamespace :: string where "EnvConsulNamespace = ''CONSUL_NAMESPACE''"
definition EnvConsulPartition :: string where "EnvConsulPartition = ''CONSUL_PARTITION''"
definition EnvDatacenter :: string where "EnvDatacenter = ''CONSULX_DATACENTER''"
definition EnvServiceName :: string where "EnvServiceName = ''CONSULX_SERVICE_NAME''"
definition EnvServiceID :: string where "EnvServiceID = ''CONSULX_SERVICE_ID''"
definition EnvServiceAddress :: string where "EnvServiceAddress = ''CONSULX_SERVICE_ADDRESS''"
definition EnvServicePort :: string where "EnvServicePort = ''CONSULX_SERVICE_PORT''"
definition EnvServiceTags :: string where "EnvServiceTags = ''CONSULX_SERVICE_TAGS''"
definition EnvServiceMeta :: string where "EnvServiceMeta = ''CONSULX_SERVICE_META''"
definition EnvServiceVersion :: string where "EnvServiceVersion = ''CONSULX_SERVICE_VERSION''"
definition EnvEnvironment :: string where "EnvEnvironment = ''CONSULX_ENVIRONMENT''"
definition EnvZone :: string where "EnvZone = ''CONSULX_ZONE''"
definition EnvHealthEnabled :: string where "EnvHealthEnabled = ''CONSULX_HEALTH_ENABLED''"
definition EnvHealthInterval :: string where "EnvHealthInterval = ''CONSULX_HEALTH_INTERVAL''"
definition EnvDeregisterAfter :: string where "EnvDeregisterAfter = ''CONSULX_DEREGISTER_CRITICAL_AFTER''"
definition EnvFailFast :: string where "EnvFailFast = ''CONSULX_FAIL_FAST''"
definition EnvDrainDelay :: string where "EnvDrainDelay = ''CONSULX_DRAIN_DELAY''"
definition EnvProfiles :: string where "EnvProfiles = ''CONSULX_PROFILES''"

lemmas env_names =
  EnvConsulAddr_def EnvConsulToken_def EnvConsulTokenFile_def EnvConsulAuth_def EnvConsulSSL_def
  EnvConsulSSLVerify_def EnvConsulCACert_def EnvConsulCAPath_def EnvConsulCert_def EnvConsulKey_def
  EnvConsulTLSServer_def EnvConsulNamespace_def EnvConsulPartition_def EnvDatacenter_def
  EnvServiceName_def EnvServiceID_def EnvServiceAddress_def EnvServicePort_def EnvServiceTags_def
  EnvServiceMeta_def EnvServiceVersion_def EnvEnvironment_def EnvZone_def EnvHealthEnabled_def
  EnvHealthInterval_def EnvDeregisterAfter_def EnvFailFast_def EnvDrainDelay_def EnvProfiles_def

subsection \<open>Reading one variable\<close>

type_synonym lookup = "string \<Rightarrow> string option"

definition env_get :: "lookup \<Rightarrow> string \<Rightarrow> string" where
  "env_get lookup k = trim_space (case lookup k of Some v \<Rightarrow> v | None \<Rightarrow> [])"

text \<open>A value read and the problem with it: \<open>None\<close> for a variable that is unset or not readable.\<close>

definition env_bool :: "lookup \<Rightarrow> string \<Rightarrow> bool option \<times> problems" where
  "env_bool lookup k =
     (let v = env_get lookup k
      in if v = [] then (None, [])
         else (case parse_bool v of
                 None \<Rightarrow> (None, [(k, ''must be a boolean'')])
               | Some b \<Rightarrow> (Some b, [])))"

definition env_duration :: "lookup \<Rightarrow> string \<Rightarrow> duration \<times> problems" where
  "env_duration lookup k =
     (let v = env_get lookup k
      in if v = [] then (0, [])
         else (case parse_duration v of
                 None \<Rightarrow> (0, [(k, ''must be a duration such as 10s'')])
               | Some d \<Rightarrow> (d, [])))"

text \<open>\<open>strconv.Atoi\<close> on an error: zero for a malformed text, the nearest integer for one out of range.\<close>

definition atoi_or_limit :: "string \<Rightarrow> int" where
  "atoi_or_limit s =
     (case atoi s of
        Some n \<Rightarrow> n
      | None \<Rightarrow>
        (let neg = (s \<noteq> [] \<and> hd s = CHR ''-'');
             t = (if s \<noteq> [] \<and> (hd s = CHR ''-'' \<or> hd s = CHR ''+'') then tl s else s)
         in if parse_digits t = None then 0
            else if neg then - 9223372036854775808 else 9223372036854775807))"

definition env_int :: "lookup \<Rightarrow> string \<Rightarrow> int \<times> problems" where
  "env_int lookup k =
     (let v = env_get lookup k
      in if v = [] then (0, [])
         else (atoi_or_limit v, problem (atoi v = None) k ''must be an integer''))"

definition split_list :: "string \<Rightarrow> string list" where
  "split_list v = filter (\<lambda>item. item \<noteq> []) (map trim_space (split_on (CHR '','') v))"

definition env_list :: "lookup \<Rightarrow> string \<Rightarrow> string list option" where
  "env_list lookup k =
     (let v = env_get lookup k; items = split_list v
      in if v = [] \<or> items = [] then None else Some items)"

definition meta_format_error :: string where
  "meta_format_error = ''must have the form \"key=value,key=value\"''"

fun parse_meta_loop :: "(string, string) fmap \<Rightarrow> string list \<Rightarrow> (string, string) fmap option" where
  "parse_meta_loop m [] = Some m"
| "parse_meta_loop m (item # items) =
     (let (a, b, ok) = cut item ''=''; k = trim_space a
      in if \<not> ok \<or> k = [] then None else parse_meta_loop (fmupd k (trim_space b) m) items)"

definition parse_meta :: "string \<Rightarrow> (string, string) fmap option" where
  "parse_meta v = parse_meta_loop fmempty (split_list v)"

definition env_meta :: "lookup \<Rightarrow> string \<Rightarrow> (string, string) fmap \<times> problems" where
  "env_meta lookup k =
     (let v = env_get lookup k
      in if v = [] then (fmempty, [])
         else (case parse_meta v of None \<Rightarrow> (fmempty, [(k, meta_format_error)]) | Some m \<Rightarrow> (m, [])))"

subsection \<open>The layer\<close>

definition env_consul :: "lookup \<Rightarrow> consul_config" where
  "env_consul lookup =
     no_consul\<lparr>
       cc_Address := env_get lookup EnvConsulAddr,
       cc_Token := env_get lookup EnvConsulToken,
       cc_TokenFile := env_get lookup EnvConsulTokenFile,
       cc_HTTPAuth := env_get lookup EnvConsulAuth,
       cc_Scheme := (if fst (env_bool lookup EnvConsulSSL) = Some True then ''https'' else []),
       cc_TLS := no_tls\<lparr>
         tl_InsecureSkipVerify := (fst (env_bool lookup EnvConsulSSLVerify) = Some False),
         tl_CAFile := env_get lookup EnvConsulCACert,
         tl_CAPath := env_get lookup EnvConsulCAPath,
         tl_CertFile := env_get lookup EnvConsulCert,
         tl_KeyFile := env_get lookup EnvConsulKey,
         tl_ServerName := env_get lookup EnvConsulTLSServer\<rparr>,
       cc_Namespace := env_get lookup EnvConsulNamespace,
       cc_Partition := env_get lookup EnvConsulPartition,
       cc_Datacenter := env_get lookup EnvDatacenter\<rparr>"

definition env_service :: "lookup \<Rightarrow> service_config" where
  "env_service lookup =
     no_service\<lparr>
       sv_Name := env_get lookup EnvServiceName,
       sv_ID := env_get lookup EnvServiceID,
       sv_Address := env_get lookup EnvServiceAddress,
       sv_Port := fst (env_int lookup EnvServicePort),
       sv_Tags := env_list lookup EnvServiceTags,
       sv_Meta := fst (env_meta lookup EnvServiceMeta),
       sv_Version := env_get lookup EnvServiceVersion,
       sv_Environment := env_get lookup EnvEnvironment,
       sv_Zone := env_get lookup EnvZone\<rparr>"

definition config_from_lookup :: "lookup \<Rightarrow> config \<times> goerr option" where
  "config_from_lookup lookup =
     (let health = no_health\<lparr>
            hc_Enabled := (fst (env_bool lookup EnvHealthEnabled) = Some True),
            hc_Interval := fst (env_duration lookup EnvHealthInterval),
            hc_Deregister := fst (env_duration lookup EnvDeregisterAfter)\<rparr>;
          lifecycle = no_lifecycle\<lparr>
            lc_FailFast := (fst (env_bool lookup EnvFailFast) = Some True),
            lc_DrainDelay := fst (env_duration lookup EnvDrainDelay)\<rparr>;
          errs = snd (env_bool lookup EnvConsulSSL) @ snd (env_bool lookup EnvConsulSSLVerify) @
                 snd (env_int lookup EnvServicePort) @ snd (env_meta lookup EnvServiceMeta) @
                 snd (env_bool lookup EnvHealthEnabled) @ snd (env_duration lookup EnvHealthInterval) @
                 snd (env_duration lookup EnvDeregisterAfter) @ snd (env_bool lookup EnvFailFast) @
                 snd (env_duration lookup EnvDrainDelay)
      in (no_config\<lparr>cf_Consul := env_consul lookup, cf_Service := env_service lookup,
            cf_Health := health, cf_Lifecycle := lifecycle,
            cf_KV := no_kv\<lparr>kc_Profiles := env_list lookup EnvProfiles\<rparr>\<rparr>, err_or_nil errs))"


subsection \<open>Problems are reported, never ignored\<close>

text \<open>The variables that are not plain texts or lists, with what makes a value readable.\<close>

definition typed_variables :: "(string \<times> (string \<Rightarrow> bool)) list" where
  "typed_variables =
     (let is_bool = (\<lambda>v. parse_bool v \<noteq> None); is_duration = (\<lambda>v. parse_duration v \<noteq> None)
      in [(EnvConsulSSL, is_bool), (EnvConsulSSLVerify, is_bool), (EnvServicePort, \<lambda>v. atoi v \<noteq> None),
          (EnvServiceMeta, \<lambda>v. parse_meta v \<noteq> None), (EnvHealthEnabled, is_bool),
          (EnvHealthInterval, is_duration), (EnvDeregisterAfter, is_duration), (EnvFailFast, is_bool),
          (EnvDrainDelay, is_duration)])"

definition malformed :: "lookup \<Rightarrow> string list" where
  "malformed lookup =
     map fst (filter (\<lambda>(k, ok). env_get lookup k \<noteq> [] \<and> \<not> ok (env_get lookup k)) typed_variables)"

lemma env_bool_problems:
  "map fst (snd (env_bool lookup k)) =
     (if env_get lookup k \<noteq> [] \<and> parse_bool (env_get lookup k) = None then [k] else [])"
  by (simp add: env_bool_def Let_def split: option.splits)

lemma env_duration_problems:
  "map fst (snd (env_duration lookup k)) =
     (if env_get lookup k \<noteq> [] \<and> parse_duration (env_get lookup k) = None then [k] else [])"
  by (simp add: env_duration_def Let_def split: option.splits)

lemma env_int_problems:
  "map fst (snd (env_int lookup k)) =
     (if env_get lookup k \<noteq> [] \<and> atoi (env_get lookup k) = None then [k] else [])"
  by (simp add: env_int_def problem_def Let_def)

lemma env_meta_problems:
  "map fst (snd (env_meta lookup k)) =
     (if env_get lookup k \<noteq> [] \<and> parse_meta (env_get lookup k) = None then [k] else [])"
  by (simp add: env_meta_def Let_def split: option.splits)

lemmas env_problems = env_bool_problems env_duration_problems env_int_problems env_meta_problems

lemma malformed_Cons:
  "map fst (filter (\<lambda>(k, ok). P k ok) ((k, ok) # xs)) =
     (if P k ok then [k] else []) @ map fst (filter (\<lambda>(k, ok). P k ok) xs)"
  by simp

lemma config_from_lookup_problems:
  "\<exists>cs. snd (config_from_lookup lookup) = err_or_nil cs \<and> map fst cs = malformed lookup"
  unfolding config_from_lookup_def Let_def snd_conv
  by (intro exI conjI, rule refl)
    (simp only: map_append env_problems malformed_def typed_variables_def Let_def malformed_Cons
      list.map(1) filter.simps(1) append_Nil2 not_not)

lemma env_blank [simp]:
  assumes "env_get lookup k = []"
  shows "env_bool lookup k = (None, [])" "env_duration lookup k = (0, [])" "env_int lookup k = (0, [])"
    "env_list lookup k = None" "env_meta lookup k = (fmempty, [])"
  using assms by (simp_all add: env_bool_def env_duration_def env_int_def env_list_def env_meta_def Let_def)

lemma blank_environment:
  assumes "\<forall>k. env_get lookup k = []"
  shows "config_from_lookup lookup = (no_config, None)"
  using assms
  by (simp add: config_from_lookup_def env_consul_def env_service_def no_consul_def no_service_def
      no_tls_def no_health_def no_lifecycle_def no_kv_def no_config_def err_or_nil_def Let_def)

lemma env_duration_range: "in64 (fst (env_duration lookup k))"
  by (auto simp: env_duration_def Let_def in64_def [of 0] intro: parse_duration_range split: option.splits)

text \<open>
  The environment layer: the error names exactly the variables that are set and cannot be read, in
  the order of the code, and there is no error when there are none; the layer of an environment whose
  variables are unset or blank is empty, so it overrides nothing; and every duration read fits its type.
\<close>

theorem env_reports_exactly:
  "(malformed lookup = [] \<longrightarrow> snd (config_from_lookup lookup) = None) \<and>
   (malformed lookup \<noteq> [] \<longrightarrow>
     (\<exists>cs. snd (config_from_lookup lookup) = Some (ConfigErrors cs) \<and> map fst cs = malformed lookup)) \<and>
   ((\<forall>k. env_get lookup k = []) \<longrightarrow>
     overlay_config c (fst (config_from_lookup lookup)) = c) \<and>
   in64 (hc_Interval (cf_Health (fst (config_from_lookup lookup)))) \<and>
   in64 (lc_DrainDelay (cf_Lifecycle (fst (config_from_lookup lookup))))"
proof -
  obtain cs where cs: "snd (config_from_lookup lookup) = err_or_nil cs" "map fst cs = malformed lookup"
    using config_from_lookup_problems by blast
  have range: "in64 (hc_Interval (cf_Health (fst (config_from_lookup lookup))))"
    "in64 (lc_DrainDelay (cf_Lifecycle (fst (config_from_lookup lookup))))"
    by (simp_all add: config_from_lookup_def Let_def env_duration_range)
  from cs range show ?thesis
    by (cases cs) (auto simp: err_or_nil_def blank_environment)
qed

definition sample_environment :: lookup where
  "sample_environment =
     map_of [(EnvServiceName, '' orders ''), (EnvServicePort, ''80a''), (EnvFailFast, ''yes''),
             (EnvDrainDelay, ''soon'')]"

lemma sample_environment_get:
  "env_get sample_environment k =
     (if k = EnvServiceName then ''orders'' else if k = EnvServicePort then ''80a''
      else if k = EnvFailFast then ''yes'' else if k = EnvDrainDelay then ''soon'' else [])"
proof -
  have "trim_space '' orders '' = ''orders''" "trim_space ''80a'' = ''80a''" "trim_space ''yes'' = ''yes''"
    "trim_space ''soon'' = ''soon''" "trim_space [] = []"
    by code_simp+
  then show ?thesis by (simp add: env_get_def sample_environment_def)
qed

lemma sample_environment_malformed:
  "malformed sample_environment = [EnvServicePort, EnvFailFast, EnvDrainDelay]"
proof -
  have "parse_bool ''yes'' = None" by code_simp
  moreover have "atoi ''80a'' = None"
    by (simp add: atoi_def parse_int_def parse_digits_def is_digit_def)
  moreover have "parse_duration ''soon'' = None"
    by (simp add: parse_duration_def duration_terms.simps duration_term_def is_digit_def Let_def)
  ultimately show ?thesis
    unfolding malformed_def typed_variables_def Let_def malformed_Cons sample_environment_get
    by (simp add: env_names)
qed

theorem env_reports_exactly_witness:
  "\<exists>cs. snd (config_from_lookup sample_environment) = Some (ConfigErrors cs) \<and>
      map fst cs = [EnvServicePort, EnvFailFast, EnvDrainDelay]"
  using env_reports_exactly [of sample_environment no_config] sample_environment_malformed by auto


subsection \<open>Lists and metadata read back\<close>

definition env_item :: "string \<Rightarrow> bool" where
  "env_item w \<longleftrightarrow> w \<noteq> [] \<and> trim_space w = w \<and> CHR '','' \<notin> set w"

lemma split_list_join: "\<forall>w\<in>set ws. env_item w \<Longrightarrow> split_list (join_with '','' ws) = ws"
proof (cases "ws = []")
  case True
  then show ?thesis by (simp add: split_list_def trim_space_def)
next
  case False
  assume a: "\<forall>w\<in>set ws. env_item w"
  then have "map trim_space ws = ws" by (simp add: env_item_def map_idI)
  moreover have "filter (\<lambda>w. w \<noteq> []) ws = ws" using a by (simp add: env_item_def filter_id_conv)
  ultimately show ?thesis using a False by (simp add: split_list_def split_join env_item_def)
qed

lemma cut_char: "d \<notin> set k \<Longrightarrow> cut (k @ d # v) [d] = (k, v, True)"
  by (induction k) auto

lemma parse_meta_loop_pairs:
  assumes "\<forall>(k, v)\<in>set ps. k \<noteq> [] \<and> CHR ''='' \<notin> set k \<and> trim_space k = k \<and> trim_space v = v"
  shows "\<exists>m'. parse_meta_loop m (map (\<lambda>(k, v). k @ ''='' @ v) ps) = Some m' \<and>
    (\<forall>k. fmlookup m' k = (case map_of (rev ps) k of Some v \<Rightarrow> Some v | None \<Rightarrow> fmlookup m k))"
  using assms
proof (induction ps arbitrary: m)
  case (Cons p ps)
  obtain k v where p: "p = (k, v)" by fastforce
  have kv: "cut (k @ CHR ''='' # v) ''='' = (k, v, True)" "k \<noteq> []" "trim_space k = k" "trim_space v = v"
    using Cons.prems p by (auto simp: cut_char)
  obtain m' where "parse_meta_loop (fmupd k v m) (map (\<lambda>(k, v). k @ ''='' @ v) ps) = Some m'"
    "\<forall>j. fmlookup m' j = (case map_of (rev ps) j of Some w \<Rightarrow> Some w | None \<Rightarrow> fmlookup (fmupd k v m) j)"
    using Cons.IH [of "fmupd k v m"] Cons.prems by auto
  then show ?case using kv p
    by (auto simp: Let_def map_add_def split: option.splits)
qed simp

text \<open>
  What is written in the environment is read back: the comma-separated text of a list of trimmed
  items is that list, and the text of key-value pairs is the map in which the last value of a key
  wins; an item without an equals sign or with an empty key makes the whole text an error.
\<close>

theorem env_text_roundtrip:
  "((\<forall>w\<in>set ws. env_item w) \<longrightarrow> split_list (join_with '','' ws) = ws) \<and>
   ((\<forall>(k, v)\<in>set ps. k \<noteq> [] \<and> CHR ''='' \<notin> set k \<and> trim_space k = k \<and> trim_space v = v \<and>
        env_item (k @ ''='' @ v)) \<longrightarrow>
     (\<exists>m. parse_meta (join_with '','' (map (\<lambda>(k, v). k @ ''='' @ v) ps)) = Some m \<and>
        (\<forall>k. fmlookup m k = map_of (rev ps) k))) \<and>
   ((\<forall>w\<in>set ws. env_item w) \<and> (\<exists>w\<in>set ws. CHR ''='' \<notin> set w) \<longrightarrow> parse_meta (join_with '','' ws) = None)"
proof (intro conjI impI)
  show "split_list (join_with '','' ws) = ws" if "\<forall>w\<in>set ws. env_item w" using split_list_join [OF that] .
next
  assume a: "\<forall>(k, v)\<in>set ps. k \<noteq> [] \<and> CHR ''='' \<notin> set k \<and> trim_space k = k \<and> trim_space v = v \<and>
      env_item (k @ ''='' @ v)"
  then have "split_list (join_with '','' (map (\<lambda>(k, v). k @ ''='' @ v) ps)) = map (\<lambda>(k, v). k @ ''='' @ v) ps"
    by (intro split_list_join) auto
  moreover obtain m where "parse_meta_loop fmempty (map (\<lambda>(k, v). k @ ''='' @ v) ps) = Some m"
    "\<forall>k. fmlookup m k = (case map_of (rev ps) k of Some v \<Rightarrow> Some v | None \<Rightarrow> fmlookup fmempty k)"
    using parse_meta_loop_pairs [of ps fmempty] a by auto
  ultimately show "\<exists>m. parse_meta (join_with '','' (map (\<lambda>(k, v). k @ ''='' @ v) ps)) = Some m \<and>
      (\<forall>k. fmlookup m k = map_of (rev ps) k)"
    by (auto simp: parse_meta_def split: option.splits)
next
  have none: "parse_meta_loop m vs = None" if "\<exists>w\<in>set vs. CHR ''='' \<notin> set w" for m vs
    using that
  proof (induction vs arbitrary: m)
    case (Cons w vs)
    have "snd (snd (cut w ''='')) = False" if "CHR ''='' \<notin> set w"
      using that by (induction w) (auto split: prod.splits)
    then show ?case using Cons by (auto simp: Let_def split: prod.splits)
  qed simp
  show "parse_meta (join_with '','' ws) = None"
    if "(\<forall>w\<in>set ws. env_item w) \<and> (\<exists>w\<in>set ws. CHR ''='' \<notin> set w)"
    using that none by (simp add: parse_meta_def split_list_join)
qed

theorem env_text_roundtrip_witness:
  "\<exists>m. parse_meta ''team=core,tier=1,team=edge'' = Some m \<and> fmlookup m ''team'' = Some ''edge''"
proof -
  let ?ps = "[(''team'', ''core''), (''tier'', ''1''), (''team'', ''edge'')]"
  have "\<forall>(k, v)\<in>set ?ps. k \<noteq> [] \<and> CHR ''='' \<notin> set k \<and> trim_space k = k \<and> trim_space v = v \<and>
      env_item (k @ ''='' @ v)"
    by code_simp
  then obtain m where "parse_meta (join_with '','' (map (\<lambda>(k, v). k @ ''='' @ v) ?ps)) = Some m"
    "\<forall>k. fmlookup m k = map_of (rev ?ps) k"
    using conjunct1 [OF conjunct2 [OF env_text_roundtrip [of "[]" ?ps]]] by blast
  then show ?thesis by simp
qed

end
