(* ===== verification/Settings.thy ===== *)
theory Settings
  imports Environment Client
begin

text \<open>
  options.go, apiclient.go, http.go and \<open>New\<close> of client.go: the options as a datatype with the names
  of their constructors, their effect on the settings, the configuration of the official client, the
  handler that serves the health endpoints, and the client that \<open>New\<close> creates. The official client is
  a parameter: whether it accepts a TLS configuration and its own configuration. A logger, a metrics
  sink and an application handler are numbers, a nil one is \<open>None\<close>.
\<close>

subsection \<open>The official client's configuration\<close>

record api_tls =
  at_Address :: string
  at_CAFile :: string
  at_CAPath :: string
  at_CAPem :: "string option"
  at_CertFile :: string
  at_KeyFile :: string
  at_CertPEM :: "string option"
  at_KeyPEM :: "string option"
  at_InsecureSkipVerify :: bool

record http_transport =
  tp_DialTimeout :: duration
  tp_KeepAlive :: duration
  tp_ForceAttemptHTTP2 :: bool
  tp_MaxIdleConns :: int
  tp_MaxIdleConnsPerHost :: int
  tp_IdleConnTimeout :: duration
  tp_TLSHandshakeTimeout :: duration
  tp_ExpectContinueTimeout :: duration

definition new_transport :: "int \<Rightarrow> duration \<Rightarrow> http_transport" where
  "new_transport gomaxprocs dial =
     \<lparr>tp_DialTimeout = dial, tp_KeepAlive = 30 * second, tp_ForceAttemptHTTP2 = True,
      tp_MaxIdleConns = 100, tp_MaxIdleConnsPerHost = gomaxprocs + 1, tp_IdleConnTimeout = 90 * second,
      tp_TLSHandshakeTimeout = 10 * second, tp_ExpectContinueTimeout = second\<rparr>"

text \<open>The caller's HTTP client, or the one made of a transport and a TLS configuration.\<close>

datatype http_client = CallerClient nat | PooledClient http_transport api_tls

record api_config =
  ap_Address :: string
  ap_Scheme :: string
  ap_Datacenter :: string
  ap_Namespace :: string
  ap_Partition :: string
  ap_Token :: string
  ap_TokenFile :: string
  ap_HttpAuth :: "(string \<times> string) option"
  ap_TLSConfig :: api_tls
  ap_Transport :: "http_transport option"
  ap_HttpClient :: "http_client option"

subsection \<open>Settings\<close>

datatype logger = DefaultLogger | DiscardLogger | AppLogger nat
datatype metrics_sink = NoopMetrics | AppMetrics nat

type_synonym retry_policy = "int \<Rightarrow> duration \<times> bool"

datatype probe = ProbeHealth | ProbeLive | ProbeReady

datatype http_handler =
    NotFoundHandler
  | DefaultServeMux
  | AppHandler nat
  | HealthMux "(string, probe \<times> handler_options) fmap" http_handler

text \<open>The server of the application with its handler.\<close>

type_synonym app_server = "http_server \<times> http_handler option"

record settings =
  se_cfg :: config
  se_logger :: "logger option"
  se_metrics :: "metrics_sink option"
  se_retry :: "retry_policy option"
  se_httpClient :: "nat option"
  se_apiHook :: "(api_config \<Rightarrow> api_config) option"
  se_server :: "app_server option"
  se_listener :: "listener option"
  se_resolver :: "resolver option"
  se_regHook :: "(agent_service \<Rightarrow> agent_service) option"

definition env_settings :: "config \<Rightarrow> settings" where
  "env_settings cfg =
     \<lparr>se_cfg = cfg, se_logger = None, se_metrics = None, se_retry = None, se_httpClient = None,
      se_apiHook = None, se_server = None, se_listener = None, se_resolver = None, se_regHook = None\<rparr>"

datatype client_option =
    ConfigLayer config
  | WithConsulAddress string
  | WithDatacenter string
  | WithNamespace string
  | WithPartition string
  | WithToken string
  | WithTokenFile string
  | WithTLS tls_config
  | WithRequestTimeout duration
  | WithHTTPClient "nat option"
  | WithAPIConfig "(api_config \<Rightarrow> api_config) option"
  | WithServiceName string
  | WithServiceID string
  | WithServiceAddress string
  | WithServicePort int
  | WithTags "string list option"
  | WithMetadata "(string, string) fmap"
  | WithHealth health_config
  | WithAutoHealth
  | WithHealthEndpoints health_endpoints
  | WithDeregisterCriticalServiceAfter duration
  | WithRetry retry_config
  | WithRetryPolicy "retry_policy option"
  | WithAutoRegister bool
  | WithFailFast bool
  | WithShutdownTimeout duration
  | WithDrainDelay duration
  | WithLogger "nat option"
  | WithMetrics "nat option"
  | WithServer "app_server option"
  | WithListener "listener option"
  | WithAddressResolver "resolver option"
  | WithRegistrationHook "(agent_service \<Rightarrow> agent_service) option"
  | WithKVConfig kv_config

abbreviation map_config :: "(config \<Rightarrow> config) \<Rightarrow> settings \<Rightarrow> settings" where
  "map_config f s \<equiv> s\<lparr>se_cfg := f (se_cfg s)\<rparr>"

definition set_consul :: "(consul_config \<Rightarrow> consul_config) \<Rightarrow> settings \<Rightarrow> settings" where
  "set_consul f = map_config (\<lambda>c. c\<lparr>cf_Consul := f (cf_Consul c)\<rparr>)"

definition set_service :: "(service_config \<Rightarrow> service_config) \<Rightarrow> settings \<Rightarrow> settings" where
  "set_service f = map_config (\<lambda>c. c\<lparr>cf_Service := f (cf_Service c)\<rparr>)"

definition set_health :: "(health_config \<Rightarrow> health_config) \<Rightarrow> settings \<Rightarrow> settings" where
  "set_health f = map_config (\<lambda>c. c\<lparr>cf_Health := f (cf_Health c)\<rparr>)"

definition set_lifecycle :: "(lifecycle_config \<Rightarrow> lifecycle_config) \<Rightarrow> settings \<Rightarrow> settings" where
  "set_lifecycle f = map_config (\<lambda>c. c\<lparr>cf_Lifecycle := f (cf_Lifecycle c)\<rparr>)"

lemmas set_section_defs = set_consul_def set_service_def set_health_def set_lifecycle_def

text \<open>An option that refuses a nil argument.\<close>

definition not_nil :: "string \<Rightarrow> 'a option \<Rightarrow> ('a \<Rightarrow> settings) \<Rightarrow> settings res" where
  "not_nil field v f =
     (case v of None \<Rightarrow> Inl (ConfigError field ''must not be nil'') | Some x \<Rightarrow> Inr (f x))"

text \<open>The options of the health and retry sections, of the runtime, and of the HTTP server.\<close>

fun apply_health_option :: "client_option \<Rightarrow> settings \<Rightarrow> settings res" where
  "apply_health_option (WithHealth h) s = Inr (set_health (\<lambda>old. overlay_health old h) s)"
| "apply_health_option WithAutoHealth s = Inr (set_health (hc_Enabled_update (\<lambda>_. True)) s)"
| "apply_health_option (WithHealthEndpoints e) s =
     (if e = no_endpoints
      then Inl (ConfigError ''Health.Endpoints'' ''at least one path is required'')
      else Inr (set_health (\<lambda>h. h\<lparr>hc_Enabled := True, hc_Endpoints := e\<rparr>) s))"
| "apply_health_option (WithDeregisterCriticalServiceAfter d) s =
     Inr (set_health (hc_Deregister_update (\<lambda>_. d)) s)"
| "apply_health_option (WithRetry r) s =
     Inr (map_config (\<lambda>c. c\<lparr>cf_Retry := overlay_retry (cf_Retry c) r\<rparr>) s)"
| "apply_health_option (WithRetryPolicy p) s =
     not_nil ''RetryPolicy'' p (\<lambda>x. s\<lparr>se_retry := Some x\<rparr>)"
| "apply_health_option _ s = Inr s"

fun apply_runtime_option :: "client_option \<Rightarrow> settings \<Rightarrow> settings res" where
  "apply_runtime_option (WithAutoRegister b) s =
     Inr (set_lifecycle (lc_AutoRegister_update (\<lambda>_. Some b)) s)"
| "apply_runtime_option (WithFailFast b) s = Inr (set_lifecycle (lc_FailFast_update (\<lambda>_. b)) s)"
| "apply_runtime_option (WithShutdownTimeout d) s =
     Inr (set_lifecycle (lc_ShutdownTimeout_update (\<lambda>_. d)) s)"
| "apply_runtime_option (WithDrainDelay d) s =
     (if d < 0 then Inl (ConfigError ''Lifecycle.DrainDelay'' ''must not be negative'')
      else Inr (set_lifecycle (lc_DrainDelay_update (\<lambda>_. d)) s))"
| "apply_runtime_option (WithLogger l) s =
     Inr (s\<lparr>se_logger := Some (case l of None \<Rightarrow> DiscardLogger | Some n \<Rightarrow> AppLogger n)\<rparr>)"
| "apply_runtime_option (WithMetrics m) s =
     not_nil ''Metrics'' m (\<lambda>x. s\<lparr>se_metrics := Some (AppMetrics x)\<rparr>)"
| "apply_runtime_option _ s = Inr s"

fun apply_server_option :: "client_option \<Rightarrow> settings \<Rightarrow> settings res" where
  "apply_server_option (WithServer srv) s = not_nil ''Server'' srv (\<lambda>x. s\<lparr>se_server := Some x\<rparr>)"
| "apply_server_option (WithListener lis) s = not_nil ''Listener'' lis (\<lambda>x. s\<lparr>se_listener := Some x\<rparr>)"
| "apply_server_option (WithAddressResolver r) s =
     not_nil ''AddressResolver'' r (\<lambda>x. s\<lparr>se_resolver := Some x\<rparr>)"
| "apply_server_option _ s = Inr s"

text \<open>Every option.\<close>

fun apply_client_option :: "client_option \<Rightarrow> settings \<Rightarrow> settings res" where
  "apply_client_option (ConfigLayer c) s = Inr (map_config (\<lambda>cfg. overlay_config cfg c) s)"
| "apply_client_option (WithConsulAddress a) s = Inr (set_consul (cc_Address_update (\<lambda>_. a)) s)"
| "apply_client_option (WithDatacenter dc) s = Inr (set_consul (cc_Datacenter_update (\<lambda>_. dc)) s)"
| "apply_client_option (WithNamespace ns) s = Inr (set_consul (cc_Namespace_update (\<lambda>_. ns)) s)"
| "apply_client_option (WithPartition p) s = Inr (set_consul (cc_Partition_update (\<lambda>_. p)) s)"
| "apply_client_option (WithToken t) s = Inr (set_consul (cc_Token_update (\<lambda>_. t)) s)"
| "apply_client_option (WithTokenFile p) s = Inr (set_consul (cc_TokenFile_update (\<lambda>_. p)) s)"
| "apply_client_option (WithTLS tls) s =
     Inr (set_consul (cc_TLS_update (\<lambda>_. tls\<lparr>tl_Enabled := True\<rparr>)) s)"
| "apply_client_option (WithRequestTimeout d) s = Inr (set_consul (cc_RequestTimeout_update (\<lambda>_. d)) s)"
| "apply_client_option (WithHTTPClient h) s =
     not_nil ''HTTPClient'' h (\<lambda>x. s\<lparr>se_httpClient := Some x\<rparr>)"
| "apply_client_option (WithAPIConfig f) s = Inr (s\<lparr>se_apiHook := f\<rparr>)"
| "apply_client_option (WithServiceName n) s = Inr (set_service (sv_Name_update (\<lambda>_. n)) s)"
| "apply_client_option (WithServiceID i) s = Inr (set_service (sv_ID_update (\<lambda>_. i)) s)"
| "apply_client_option (WithServiceAddress a) s = Inr (set_service (sv_Address_update (\<lambda>_. a)) s)"
| "apply_client_option (WithServicePort p) s = Inr (set_service (sv_Port_update (\<lambda>_. p)) s)"
| "apply_client_option (WithTags tags) s = Inr (set_service (sv_Tags_update (\<lambda>_. tags)) s)"
| "apply_client_option (WithMetadata m) s = Inr (set_service (sv_Meta_update (\<lambda>old. old ++\<^sub>f m)) s)"
| "apply_client_option (WithRegistrationHook f) s =
     not_nil ''RegistrationHook'' f (\<lambda>x. s\<lparr>se_regHook := Some x\<rparr>)"
| "apply_client_option (WithKVConfig k) s =
     Inr (map_config (\<lambda>c. c\<lparr>cf_KV := overlay_kv (cf_KV c) k\<rparr>) s)"
| "apply_client_option opt s =
     bind_outcome (apply_health_option opt s) (\<lambda>s1.
     bind_outcome (apply_runtime_option opt s1) (apply_server_option opt))"

text \<open>The loop over the options: an option that fails leaves the settings alone.\<close>

fun apply_options :: "client_option option list \<Rightarrow> settings \<Rightarrow> settings \<times> goerr list" where
  "apply_options [] s = (s, [])"
| "apply_options (None # os) s = apply_options os s"
| "apply_options (Some opt # os) s =
     (case apply_client_option opt s of
        Inl e \<Rightarrow> (let (s', es) = apply_options os s in (s', e # es))
      | Inr s' \<Rightarrow> apply_options os s')"

definition new_settings ::
    "(string \<Rightarrow> bool) \<Rightarrow> lookup \<Rightarrow> client_option option list \<Rightarrow> settings res" where
  "new_settings host_ok lookup opts =
     (let (env, err) = config_from_lookup lookup
      in case err of
           Some e \<Rightarrow> Inl e
         | None \<Rightarrow>
           (let (s, errs) = apply_options opts (env_settings env)
            in if errs \<noteq> [] then Inl (Joined errs)
               else
                 (let s1 = map_config apply_defaults s
                  in case validate host_ok (se_cfg s1) of
                       Some e \<Rightarrow> Inl e
                     | None \<Rightarrow>
                       Inr (s1\<lparr>se_logger := (case se_logger s1 of None \<Rightarrow> Some DefaultLogger | l \<Rightarrow> l),
                               se_metrics := (case se_metrics s1 of None \<Rightarrow> Some NoopMetrics | m \<Rightarrow> m)\<rparr>))))"

subsection \<open>The connection\<close>

record api_lib =
  lib_http_client :: "http_transport \<Rightarrow> api_tls \<Rightarrow> string option"
  lib_client :: "api_config \<Rightarrow> string option"
  lib_gomaxprocs :: int

definition new_api_client :: "api_lib \<Rightarrow> settings \<Rightarrow> (api_config \<times> http_transport option) res" where
  "new_api_client lib s =
     (let cc = cf_Consul (se_cfg s); tls = cc_TLS cc;
          conf = \<lparr>ap_Address = cc_Address cc, ap_Scheme = consul_scheme cc,
             ap_Datacenter = cc_Datacenter cc, ap_Namespace = cc_Namespace cc,
             ap_Partition = cc_Partition cc, ap_Token = cc_Token cc, ap_TokenFile = cc_TokenFile cc,
             ap_HttpAuth =
               (if cc_HTTPAuth cc = [] then None
                else (let (user, pass, _) = cut (cc_HTTPAuth cc) '':'' in Some (user, pass))),
             ap_TLSConfig = \<lparr>at_Address = tl_ServerName tls, at_CAFile = tl_CAFile tls,
               at_CAPath = tl_CAPath tls, at_CAPem = tl_CAPEM tls, at_CertFile = tl_CertFile tls,
               at_KeyFile = tl_KeyFile tls, at_CertPEM = tl_CertPEM tls, at_KeyPEM = tl_KeyPEM tls,
               at_InsecureSkipVerify = tl_InsecureSkipVerify tls\<rparr>,
             ap_Transport = None, ap_HttpClient = None\<rparr>;
          ready = (case se_httpClient s of
              Some h \<Rightarrow> Inr (conf\<lparr>ap_HttpClient := Some (CallerClient h)\<rparr>, None)
            | None \<Rightarrow>
              (let t = new_transport (lib_gomaxprocs lib) (cc_DialTimeout cc)
               in case lib_http_client lib t (ap_TLSConfig conf) of
                    Some msg \<Rightarrow> Inl (ConfigError ''Consul.TLS'' msg)
                  | None \<Rightarrow> Inr (conf\<lparr>ap_Transport := Some t,
                                   ap_HttpClient := Some (PooledClient t (ap_TLSConfig conf))\<rparr>, Some t)))
      in bind_outcome ready (\<lambda>(conf, transport).
           let conf' = (case se_apiHook s of None \<Rightarrow> conf | Some f \<Rightarrow> f conf)
           in case lib_client lib conf' of
                Some msg \<Rightarrow> Inl (ConfigError ''Consul'' msg)
              | None \<Rightarrow> Inr (conf', transport)))"

subsection \<open>Health endpoints\<close>

definition health_mux :: "health_config \<Rightarrow> http_handler \<Rightarrow> http_handler" where
  "health_mux h next_handler =
     (let opts = \<lparr>ho_HideDetails = hc_HideDetails h, ho_DegradedStatusCode = hc_DegradedStatusCode h\<rparr>;
          route = (\<lambda>path p routes. if path \<noteq> [] then fmupd path (p, opts) routes else routes);
          e = hc_Endpoints h
      in HealthMux
           (route (he_Ready e) ProbeReady (route (he_Live e) ProbeLive (route (he_Health e) ProbeHealth fmempty)))
           next_handler)"

definition health_handler :: "health_config \<Rightarrow> http_handler" where
  "health_handler h = health_mux h NotFoundHandler"

definition inject_health :: "health_config \<Rightarrow> app_server option \<Rightarrow> app_server option" where
  "inject_health h server =
     (case server of
        Some (srv, next_handler) \<Rightarrow>
          if hc_Enabled h
          then Some (srv, Some (health_mux h
                 (case next_handler of None \<Rightarrow> DefaultServeMux | Some n \<Rightarrow> n)))
          else server
      | None \<Rightarrow> None)"

text \<open>\<open>ServeHTTP\<close>: a health answer, or the application's handler with the request as it came.\<close>

datatype served = Answered response | Delegated http_handler

definition probe_report ::
    "probe \<Rightarrow> string list \<Rightarrow> (nat \<Rightarrow> result option) \<Rightarrow> registry \<Rightarrow> report" where
  "probe_report p =
     (case p of ProbeHealth \<Rightarrow> health | ProbeLive \<Rightarrow> live | ProbeReady \<Rightarrow> ready)"

fun serve_http ::
    "http_handler \<Rightarrow> string list \<Rightarrow> (nat \<Rightarrow> result option) \<Rightarrow> registry \<Rightarrow> string \<Rightarrow> string \<Rightarrow> served" where
  "serve_http (HealthMux routes next_handler) order published reg path verb =
     (case fmlookup routes path of
        Some (p, opts) \<Rightarrow> Answered (handler (probe_report p order published reg) opts verb)
      | None \<Rightarrow> serve_http next_handler order published reg path verb)"
| "serve_http h order published reg path verb = Delegated h"

subsection \<open>New\<close>

definition default_policy :: "retry_config \<Rightarrow> policy" where
  "default_policy r =
     \<lparr>p_Initial = rt_InitialDelay r, p_Max = rt_MaxDelay r, p_Multiplier = rt_Multiplier r,
      p_Jitter = (\<not> rt_DisableJitter r), p_MaxAttempts = rt_MaxAttempts r\<rparr>"

text \<open>The client with what the runtime model leaves out; \<open>Inr\<close> of a policy is the one of the caller.\<close>

record created =
  cr_client :: client
  cr_api :: api_config
  cr_transport :: "http_transport option"
  cr_log :: logger
  cr_metrics :: metrics_sink
  cr_retry :: "policy + retry_policy"
  cr_server :: "app_server option"

definition new_client ::
    "api_lib \<Rightarrow> (string \<Rightarrow> bool) \<Rightarrow> lookup \<Rightarrow> client_option option list \<Rightarrow> created res" where
  "new_client lib host_ok lookup opts =
     bind_outcome (new_settings host_ok lookup opts) (\<lambda>s.
     bind_outcome (new_api_client lib s) (\<lambda>(raw, transport).
       let server = map_option fst (se_server s)
       in Inr
         \<lparr>cr_client =
            \<lparr>cl_cfg = se_cfg s, cl_scheme = detect_scheme (se_cfg s) server, cl_server = server,
             cl_listener = se_listener s, cl_resolver = se_resolver s,
             cl_health = new_registry (go_div (wrap64 (hc_Timeout (cf_Health (se_cfg s)) * 4)) 5),
             cl_hook = se_regHook s, cl_agent = None, cl_generated = None, cl_reg = no_registration,
             cl_state = StateIdle, cl_cancelled = False, cl_bg_cancelled = False, cl_done = False,
             cl_errs = [], cl_errs_closed = False, cl_wakeup = False, cl_balancers = [],
             cl_requests = [], cl_metrics = []\<rparr>,
          cr_api = raw, cr_transport = transport,
          cr_log = (case se_logger s of Some l \<Rightarrow> l | None \<Rightarrow> DefaultLogger),
          cr_metrics = (case se_metrics s of Some m \<Rightarrow> m | None \<Rightarrow> NoopMetrics),
          cr_retry = (case se_retry s of Some p \<Rightarrow> Inr p | None \<Rightarrow> Inl (default_policy (cf_Retry (se_cfg s)))),
          cr_server = inject_health (cf_Health (se_cfg s)) (se_server s)\<rparr>))"


subsection \<open>What \<open>New\<close> returns\<close>

text \<open>An option fails on its argument alone.\<close>

definition nil_error :: "string \<Rightarrow> 'a option \<Rightarrow> goerr option" where
  "nil_error field v = (if v = None then Some (ConfigError field ''must not be nil'') else None)"

fun option_error :: "client_option \<Rightarrow> goerr option" where
  "option_error (WithHTTPClient h) = nil_error ''HTTPClient'' h"
| "option_error (WithRetryPolicy p) = nil_error ''RetryPolicy'' p"
| "option_error (WithMetrics m) = nil_error ''Metrics'' m"
| "option_error (WithServer s) = nil_error ''Server'' s"
| "option_error (WithListener l) = nil_error ''Listener'' l"
| "option_error (WithAddressResolver r) = nil_error ''AddressResolver'' r"
| "option_error (WithRegistrationHook f) = nil_error ''RegistrationHook'' f"
| "option_error (WithHealthEndpoints e) =
     (if e = no_endpoints then Some (ConfigError ''Health.Endpoints'' ''at least one path is required'') else None)"
| "option_error (WithDrainDelay d) =
     (if d < 0 then Some (ConfigError ''Lifecycle.DrainDelay'' ''must not be negative'') else None)"
| "option_error _ = None"

lemma apply_client_option_error:
  "(case apply_client_option opt s of Inl e \<Rightarrow> Some e | Inr _ \<Rightarrow> None) = option_error opt"
  by (cases opt) (simp_all add: not_nil_def nil_error_def split: option.splits)

lemma apply_client_option_Inl: "apply_client_option opt s = Inl e \<longleftrightarrow> option_error opt = Some e"
  using apply_client_option_error [of opt s] by (auto split: sum.splits)

lemma option_error_is: "option_error opt = Some e \<Longrightarrow> errors_is e ErrInvalidConfiguration"
  by (cases opt) (auto simp: nil_error_def split: if_splits)

definition option_errors :: "client_option option list \<Rightarrow> goerr list" where
  "option_errors opts = List.map_filter option_error (List.map_filter (\<lambda>x. x) opts)"

lemma apply_options_errors: "snd (apply_options opts s) = option_errors opts"
proof (induction opts s rule: apply_options.induct)
  case (3 opt os s)
  show ?case
  proof (cases "apply_client_option opt s")
    case (Inl e)
    then have "option_error opt = Some e" by (simp add: apply_client_option_Inl)
    with Inl 3(1) [OF Inl] show ?thesis
      by (simp add: option_errors_def List.map_filter_simps Let_def case_prod_unfold)
  next
    case (Inr t)
    then have "option_error opt = None" using apply_client_option_error [of opt s] by simp
    with Inr 3(2) [OF Inr] show ?thesis by (simp add: option_errors_def List.map_filter_simps)
  qed
qed (simp_all add: option_errors_def List.map_filter_simps)

lemma option_errors_are: "e \<in> set (option_errors opts) \<Longrightarrow> errors_is e ErrInvalidConfiguration"
  by (auto simp: option_errors_def List.map_filter_def option_error_is)

lemma err_or_nil_invalid: "err_or_nil cs = Some e \<Longrightarrow> errors_is e ErrInvalidConfiguration"
proof -
  assume "err_or_nil cs = Some e"
  then have p: "cs \<noteq> []" and e: "e = ConfigErrors cs" by (auto simp: err_or_nil_def split: if_splits)
  show ?thesis unfolding e using p by (rule config_errors_is_invalid)
qed

lemma config_from_lookup_invalid:
  "snd (config_from_lookup lookup) = Some e \<Longrightarrow> errors_is e ErrInvalidConfiguration"
  using config_from_lookup_problems [of lookup] err_or_nil_invalid by metis

lemma new_settings_cases:
  "case new_settings host_ok lookup opts of
     Inl e \<Rightarrow> errors_is e ErrInvalidConfiguration
   | Inr s \<Rightarrow>
     snd (config_from_lookup lookup) = None \<and> option_errors opts = [] \<and>
     se_cfg s = apply_defaults (se_cfg (fst (apply_options opts (env_settings (fst (config_from_lookup lookup)))))) \<and>
     valid_config host_ok (se_cfg s)"
proof (cases "snd (config_from_lookup lookup)")
  case (Some e)
  then show ?thesis
    using config_from_lookup_invalid [OF Some] Some
    by (cases "config_from_lookup lookup") (simp add: new_settings_def)
next
  case None
  define out where "out = apply_options opts (env_settings (fst (config_from_lookup lookup)))"
  have errs: "snd out = option_errors opts" by (simp add: out_def apply_options_errors)
  have new: "new_settings host_ok lookup opts =
      (if snd out \<noteq> [] then Inl (Joined (snd out))
       else (let s1 = map_config apply_defaults (fst out) in
         case validate host_ok (se_cfg s1) of
           Some e \<Rightarrow> Inl e
         | None \<Rightarrow>
           Inr (s1\<lparr>se_logger := (case se_logger s1 of None \<Rightarrow> Some DefaultLogger | l \<Rightarrow> l),
                   se_metrics := (case se_metrics s1 of None \<Rightarrow> Some NoopMetrics | m \<Rightarrow> m)\<rparr>)))"
    using None
    by (cases "config_from_lookup lookup") (simp add: new_settings_def out_def case_prod_unfold Let_def)
  have joined: "errors_is (Joined (snd out)) ErrInvalidConfiguration" if "snd out \<noteq> []"
    using that option_errors_are errs by (metis errors_is_Joined last_in_set)
  show ?thesis
    unfolding new using joined errs None
    by (auto simp: Let_def validate_None out_def [symmetric] dest: validate_Some split: option.splits)
qed

lemma new_api_client_invalid:
  "new_api_client lib s = Inl e \<Longrightarrow> errors_is e ErrInvalidConfiguration"
  by (auto simp: new_api_client_def bind_outcome_def Let_def split: option.splits sum.splits)


lemma new_client_Inr:
  assumes "new_client lib host_ok lookup opts = Inr r"
  obtains s raw transport where "new_settings host_ok lookup opts = Inr s"
    "new_api_client lib s = Inr (raw, transport)" "cr_api r = raw" "cr_transport r = transport"
    "cl_cfg (cr_client r) = se_cfg s" "valid_config host_ok (se_cfg s)"
    "cr_retry r = (case se_retry s of Some p \<Rightarrow> Inr p | None \<Rightarrow> Inl (default_policy (cf_Retry (se_cfg s))))"
    "cr_server r = inject_health (cf_Health (se_cfg s)) (se_server s)"
proof -
  obtain s raw transport where s: "new_settings host_ok lookup opts = Inr s"
    "new_api_client lib s = Inr (raw, transport)"
    using assms by (auto simp: new_client_def bind_outcome_Inr)
  moreover have "valid_config host_ok (se_cfg s)"
    using new_settings_cases [of lookup opts host_ok] unfolding s(1) sum.case by blast
  ultimately show thesis using assms by (intro that [of s raw transport]) (auto simp: new_client_def Let_def)
qed

definition layered :: "lookup \<Rightarrow> client_option option list \<Rightarrow> config" where
  "layered lookup opts =
     apply_defaults (se_cfg (fst (apply_options opts (env_settings (fst (config_from_lookup lookup))))))"

lemma new_settings_error:
  assumes "new_settings host_ok lookup opts = Inl e"
  shows "if malformed lookup \<noteq> [] then \<exists>ps. e = ConfigErrors ps \<and> map fst ps = malformed lookup
    else if option_errors opts \<noteq> [] then e = Joined (option_errors opts)
    else broken (config_rules host_ok (layered lookup opts)) \<noteq> {} \<and>
      (\<exists>ps. e = ConfigErrors ps \<and> reported ps = broken (config_rules host_ok (layered lookup opts)))"
proof -
  obtain env err where env: "config_from_lookup lookup = (env, err)" by fastforce
  obtain cs where cs: "err = err_or_nil cs" "map fst cs = malformed lookup"
    using config_from_lookup_problems [of lookup] env by auto
  obtain s errs where s: "apply_options opts (env_settings env) = (s, errs)" by fastforce
  have errs: "errs = option_errors opts" using apply_options_errors [of opts "env_settings env"] s by simp
  have cfg: "se_cfg (map_config apply_defaults s) = layered lookup opts" by (simp add: layered_def env s)
  show ?thesis
  proof (cases "cs = [] \<and> errs = []")
    case False
    then show ?thesis using assms cs errs by (auto simp: new_settings_def env s err_or_nil_def split: if_splits)
  next
    case True
    then have "validate host_ok (layered lookup opts) = Some e"
      using assms cs(1) by (auto simp: new_settings_def env s err_or_nil_def cfg Let_def split: option.splits)
    with validate_parts [OF this] show ?thesis using True cs(2) errs by auto
  qed
qed

lemma new_settings_clean:
  assumes "new_settings host_ok lookup opts = Inr s"
  shows "malformed lookup = []" "option_errors opts = []" "se_cfg s = layered lookup opts"
    "broken (config_rules host_ok (layered lookup opts)) = {}"
proof -
  have c: "snd (config_from_lookup lookup) = None" "option_errors opts = []" "se_cfg s = layered lookup opts"
    "valid_config host_ok (se_cfg s)"
    using new_settings_cases [of lookup opts host_ok] assms by (auto simp: layered_def)
  then show "option_errors opts = []" "se_cfg s = layered lookup opts" by simp_all
  show "malformed lookup = []"
    using config_from_lookup_problems [of lookup] c(1) by (auto simp: err_or_nil_def split: if_splits)
  show "broken (config_rules host_ok (layered lookup opts)) = {}" using valid_unbroken c(3,4) by simp
qed

text \<open>
  C26. What \<open>New\<close> returns. Every error it returns matches \<open>ErrInvalidConfiguration\<close>. The problems are reported
  stage by stage, each stage hiding those after it: every malformed variable of the environment; if there is
  none, the errors of all the options, in order; if there are none, every field of the configuration that
  breaks a rule; if there are none, what the official client refuses. Otherwise the configuration is the
  environment layer with every option applied in order and then the defaults, it is valid, and the client
  is idle: nothing was sent to Consul, nothing is registered, no channel is closed.
\<close>

theorem new_client_outcome:
  "let cfg = apply_defaults (se_cfg (fst (apply_options opts (env_settings (fst (config_from_lookup lookup))))));
       bad = broken (config_rules host_ok cfg)
   in case new_client lib host_ok lookup opts of
     Inl e \<Rightarrow> errors_is e ErrInvalidConfiguration \<and>
       (if malformed lookup \<noteq> [] then \<exists>ps. e = ConfigErrors ps \<and> map fst ps = malformed lookup
        else if option_errors opts \<noteq> [] then e = Joined (option_errors opts)
        else if bad \<noteq> {} then \<exists>ps. e = ConfigErrors ps \<and> reported ps = bad
        else \<exists>s. new_settings host_ok lookup opts = Inr s \<and> new_api_client lib s = Inl e)
   | Inr r \<Rightarrow>
       malformed lookup = [] \<and> option_errors opts = [] \<and> bad = {} \<and>
       cl_cfg (cr_client r) = cfg \<and> valid_config host_ok cfg \<and>
       cl_state (cr_client r) = StateIdle \<and> cl_requests (cr_client r) = [] \<and>
       cl_reg (cr_client r) = no_registration \<and> cl_balancers (cr_client r) = [] \<and>
       \<not> cl_done (cr_client r) \<and> \<not> cl_errs_closed (cr_client r) \<and> \<not> cl_cancelled (cr_client r)"
proof (cases "new_client lib host_ok lookup opts")
  case (Inl e)
  have inv: "errors_is e ErrInvalidConfiguration"
    using Inl new_settings_cases [of lookup opts host_ok] new_api_client_invalid [of lib _ e]
    by (auto simp: new_client_def bind_outcome_def Let_def split: sum.splits)
  show ?thesis
  proof (cases "new_settings host_ok lookup opts")
    case e': (Inl e')
    then have "e' = e" using Inl by (simp add: new_client_def bind_outcome_def)
    with new_settings_error [OF e'] Inl inv show ?thesis by (auto simp: layered_def Let_def split: if_splits)
  next
    case (Inr s)
    then have "new_api_client lib s = Inl e" using Inl by (auto simp: new_client_def bind_outcome_def Let_def split: sum.splits)
    with new_settings_clean [OF Inr] Inl Inr inv show ?thesis by (simp add: layered_def Let_def)
  qed
next
  case (Inr r)
  obtain s raw transport where s: "new_settings host_ok lookup opts = Inr s"
    "cl_cfg (cr_client r) = se_cfg s" "valid_config host_ok (se_cfg s)"
    using new_client_Inr [OF Inr] by metis
  show ?thesis using new_settings_clean [OF s(1)] Inr s(2,3)
    by (auto simp: new_client_def bind_outcome_Inr layered_def Let_def)
qed

theorem new_client_outcome_witness:
  "\<forall>lib host_ok. new_client lib host_ok (\<lambda>_. None) [Some (WithDrainDelay (- 1)), None, Some (WithMetrics None)] =
     Inl (Joined [ConfigError ''Lifecycle.DrainDelay'' ''must not be negative'',
                  ConfigError ''Metrics'' ''must not be nil''])"
proof -
  let ?opts = "[Some (WithDrainDelay (- 1)), None, Some (WithMetrics None)] :: client_option option list"
  have blank: "snd (config_from_lookup (\<lambda>_. None)) = None"
    by (subst blank_environment) (simp_all add: env_get_def trim_space_def)
  have errs: "option_errors ?opts = [ConfigError ''Lifecycle.DrainDelay'' ''must not be negative'',
      ConfigError ''Metrics'' ''must not be nil'']"
    by (simp add: option_errors_def List.map_filter_simps nil_error_def)
  have "malformed (\<lambda>_. None) = []"
    using blank config_from_lookup_problems [of "\<lambda>_. None"] by (auto simp: err_or_nil_def split: if_splits)
  note known = this errs
  show ?thesis
  proof (intro allI)
    fix lib host_ok
    note outcome = new_client_outcome [where lib = lib and host_ok = host_ok and lookup = "\<lambda>_. None" and opts = ?opts,
        unfolded Let_def known]
    show "new_client lib host_ok (\<lambda>_. None) ?opts = Inl (Joined [ConfigError ''Lifecycle.DrainDelay''
        ''must not be negative'', ConfigError ''Metrics'' ''must not be nil''])"
    proof (cases "new_client lib host_ok (\<lambda>_. None) ?opts")
      case (Inl e)
      with outcome show ?thesis by (simp only: sum.case simp_thms if_False if_True list.distinct)
    next
      case (Inr r)
      with outcome show ?thesis by (simp only: sum.case simp_thms list.distinct)
    qed
  qed
qed

text \<open>
  The default retry policy that \<open>New\<close> builds from a validated configuration is well behaved: unless
  the maximal delay exceeds what a float64 counts exactly (104 days), the wait before every retry lies
  between half of the initial delay and the maximal delay, it is never negative, and the policy ends
  exactly after the configured number of attempts (never when there is none).
\<close>

theorem default_policy_bounds:
  assumes "new_client lib host_ok lookup opts = Inr r" "cr_retry r = Inl p" "p_Max p \<le> 2 ^ 53"
    and "pow_ok pow" "0 \<le> x" "x \<le> 1"
    and "next_delay pow oob (Fin x) p a = (d, again)"
  shows "p = default_policy (cf_Retry (cl_cfg (cr_client r))) \<and>
    (again \<longrightarrow> p_Initial p div 2 \<le> d \<and> d \<le> p_Max p \<and> 0 \<le> d) \<and>
    (\<not> again \<longleftrightarrow> 0 < p_MaxAttempts p \<and> p_MaxAttempts p \<le> max 1 a)"
proof -
  obtain s where s: "new_settings host_ok lookup opts = Inr s" "cl_cfg (cr_client r) = se_cfg s"
    "valid_config host_ok (se_cfg s)"
    "cr_retry r = (case se_retry s of Some p \<Rightarrow> Inr p | None \<Rightarrow> Inl (default_policy (cf_Retry (se_cfg s))))"
    using new_client_Inr [OF assms(1)] by metis
  have p: "p = default_policy (cf_Retry (se_cfg s))" using s(4) assms(2) by (auto split: option.splits)
  have "rt_InitialDelay (cf_Retry (se_cfg s)) \<noteq> 0"
    using new_settings_cases [of lookup opts host_ok] s(1)
    by (auto simp: apply_defaults_def default_retry_def or_default_def default_defs millisecond_def)
  then have ok: "policy_ok p"
    using s(3) assms(3) by (auto simp: p default_policy_def policy_ok_def valid_config_def valid_retry_def)
  have "p_Initial p div 2 \<le> d \<and> d \<le> p_Max p \<and> 0 \<le> d" if again
    using next_delay_bounds [OF assms(4) ok assms(5,6), of oob a d] assms(7) that ok
    by (auto simp: policy_ok_def)
  then show ?thesis
    using assms(7) p s(2) by (auto simp: next_delay_def Let_def split: if_splits)
qed


definition sample_options :: "client_option option list" where
  "sample_options =
     [Some (WithServiceName ''orders''), None, Some WithAutoHealth,
      Some (WithServer (Some (\<lparr>hs_Addr = '':8080'', hs_TLS = False\<rparr>, Some (AppHandler 1))))]"

definition sample_lib :: api_lib where
  "sample_lib = \<lparr>lib_http_client = (\<lambda>_ _. None), lib_client = (\<lambda>_. None), lib_gomaxprocs = 4\<rparr>"

definition sample_settings :: settings where
  "sample_settings =
     (env_settings (apply_defaults
        (no_config\<lparr>cf_Service := no_service\<lparr>sv_Name := ''orders''\<rparr>,
                   cf_Health := no_health\<lparr>hc_Enabled := True\<rparr>\<rparr>)))
     \<lparr>se_logger := Some DefaultLogger, se_metrics := Some NoopMetrics,
      se_server := Some (\<lparr>hs_Addr = '':8080'', hs_TLS = False\<rparr>, Some (AppHandler 1))\<rparr>"

lemma sample_settings_valid: "valid_config (\<lambda>_. True) (se_cfg sample_settings)"
proof -
  have "validate_consul_address (\<lambda>_. True) DefaultConsulAddress = []" by code_simp
  then have a: "consul_address (\<lambda>_. True) DefaultConsulAddress" by (simp add: validate_consul_address_Nil)
  have b: "\<not> contains_any ''orders'' name_chars" by code_simp
  show ?thesis
    using a b
    by (simp add: valid_config_def sample_settings_def env_settings_def apply_defaults_def no_config_def
        default_consul_def default_service_def default_health_def default_retry_def default_lifecycle_def
        no_consul_def no_service_def no_tls_def no_health_def no_retry_def no_lifecycle_def no_kv_def
        no_endpoints_def or_default_def valid_consul_def valid_service_def valid_health_def valid_retry_def
        valid_meta_def valid_ports_def valid_paths_def slice_list_def check_type_defs
        IDHostnamePort_def Let_def fcard_fempty)
      (simp add: default_defs second_def minute_def millisecond_def)
qed

lemma sample_settings_new: "new_settings (\<lambda>_. True) (\<lambda>_. None) sample_options = Inr sample_settings"
proof -
  have blank: "config_from_lookup (\<lambda>_. None) = (no_config, None)"
    by (rule blank_environment) (simp add: env_get_def trim_space_def)
  have valid: "validate (\<lambda>_. True) (apply_defaults
        (no_config\<lparr>cf_Service := no_service\<lparr>sv_Name := ''orders''\<rparr>,
                   cf_Health := no_health\<lparr>hc_Enabled := True\<rparr>\<rparr>)) = None"
    using sample_settings_valid by (simp add: validate_None sample_settings_def env_settings_def)
  have "apply_options sample_options (env_settings no_config) =
      ((env_settings (no_config\<lparr>cf_Service := no_service\<lparr>sv_Name := ''orders''\<rparr>,
                   cf_Health := no_health\<lparr>hc_Enabled := True\<rparr>\<rparr>))
       \<lparr>se_server := Some (\<lparr>hs_Addr = '':8080'', hs_TLS = False\<rparr>, Some (AppHandler 1))\<rparr>, [])"
    by (simp add: sample_options_def env_settings_def set_section_defs not_nil_def no_config_def)
  then show ?thesis
    using valid by (simp add: new_settings_def blank sample_settings_def env_settings_def)
qed

lemma sample_new_client:
  "\<exists>r. new_client sample_lib (\<lambda>_. True) (\<lambda>_. None) sample_options = Inr r \<and>
     cr_retry r = Inl (default_policy (cf_Retry (se_cfg sample_settings))) \<and>
     cl_cfg (cr_client r) = se_cfg sample_settings \<and>
     cr_server r = inject_health (cf_Health (se_cfg sample_settings)) (se_server sample_settings)"
proof -
  obtain raw transport where "new_api_client sample_lib sample_settings = Inr (raw, transport)"
    by (simp add: new_api_client_def sample_lib_def sample_settings_def env_settings_def Let_def)
  moreover have "se_retry sample_settings = None" by (simp add: sample_settings_def env_settings_def)
  ultimately show ?thesis by (simp add: new_client_def sample_settings_new Let_def)
qed

theorem default_policy_bounds_witness:
  "let p = default_policy (cf_Retry (se_cfg sample_settings));
       d = fst (next_delay sample_pow (\<lambda>_. 0) (Fin (1 / 2)) p 3)
   in 250000000 \<le> d \<and> d \<le> 30000000000"
proof -
  define p where "p = default_policy (cf_Retry (se_cfg sample_settings))"
  have p: "p_Initial p = 500000000" "p_Max p = 30000000000" "p_MaxAttempts p = 0"
    by (simp_all add: p_def default_policy_def sample_settings_def env_settings_def apply_defaults_def
        no_config_def no_retry_def default_retry_def or_default_def default_defs millisecond_def second_def)
  obtain r where r: "new_client sample_lib (\<lambda>_. True) (\<lambda>_. None) sample_options = Inr r" "cr_retry r = Inl p"
    using sample_new_client by (auto simp: p_def)
  have "p_Max p \<le> 2 ^ 53" by (simp add: p(2))
  note b = conjunct2 [OF default_policy_bounds [OF r this sample_policy_ok(1) _ _ prod.collapse [symmetric],
      of "1 / 2" "\<lambda>_. 0" 3]]
  show ?thesis using b p unfolding p_def [symmetric] Let_def by simp
qed

subsection \<open>The injected endpoints\<close>

lemma routes_lookup:
  assumes "valid_paths (hc_Endpoints h)"
  shows "health_mux h n = HealthMux routes m \<Longrightarrow>
    fmlookup routes path =
      (if path = [] then None
       else map_option (\<lambda>p. (p, \<lparr>ho_HideDetails = hc_HideDetails h, ho_DegradedStatusCode = hc_DegradedStatusCode h\<rparr>))
         (if path = he_Health (hc_Endpoints h) then Some ProbeHealth
          else if path = he_Live (hc_Endpoints h) then Some ProbeLive
          else if path = he_Ready (hc_Endpoints h) then Some ProbeReady else None))"
  using assms by (auto simp: health_mux_def valid_paths_def Let_def split: if_splits)

lemma drained_code:
  assumes "rg_draining reg" "p \<noteq> ProbeLive" "verb = ''GET'' \<or> verb = ''HEAD''"
  shows "rs_code (handler (probe_report p order published reg) opts verb) = 503"
  using assms
  by (cases p) (auto simp: handler_def probe_report_def ready_def health_def drained_def status_code_def
      hstatus_defs Let_def)

text \<open>
  C13. With health enabled and a server, \<open>New\<close> puts the endpoints in front of the application: each
  configured path is answered by its own probe with the configured options, every other request goes
  to the handler the server had (the default mux when it had none), and while the instance drains the
  path that Consul checks answers 503, when it is the readiness or the health path.
\<close>

theorem endpoints_injected:
  assumes "new_client lib host_ok lookup opts = Inr r" "cr_server r = Some (srv, Some h)"
    and "hc_Enabled (cf_Health (cl_cfg (cr_client r)))"
  shows "let hc = cf_Health (cl_cfg (cr_client r)); e = hc_Endpoints hc;
       ho = \<lparr>ho_HideDetails = hc_HideDetails hc, ho_DegradedStatusCode = hc_DegradedStatusCode hc\<rparr>;
       serve = serve_http h order published reg
     in (\<forall>p path. (p, path) \<in> {(ProbeHealth, he_Health e), (ProbeLive, he_Live e), (ProbeReady, he_Ready e)} \<and>
            path \<noteq> [] \<longrightarrow> serve path verb = Answered (handler (probe_report p order published reg) ho verb)) \<and>
        (\<exists>s app. new_settings host_ok lookup opts = Inr s \<and> se_server s = Some (srv, app) \<and>
          (\<forall>path. path \<notin> {he_Health e, he_Live e, he_Ready e} \<or> path = [] \<longrightarrow>
             serve path verb =
               serve_http (case app of None \<Rightarrow> DefaultServeMux | Some n \<Rightarrow> n) order published reg path verb)) \<and>
        (rg_draining reg \<and> verb \<in> {''GET'', ''HEAD''} \<and> hc_CheckPath hc \<in> {he_Health e, he_Ready e} - {[]} \<longrightarrow>
          (\<exists>resp. serve (hc_CheckPath hc) verb = Answered resp \<and> rs_code resp = 503))"
proof -
  obtain s where s: "new_settings host_ok lookup opts = Inr s" "cl_cfg (cr_client r) = se_cfg s"
    "valid_config host_ok (se_cfg s)" "cr_server r = inject_health (cf_Health (se_cfg s)) (se_server s)"
    using new_client_Inr [OF assms(1)] by metis
  define hc where "hc = cf_Health (se_cfg s)"
  define e where "e = hc_Endpoints hc"
  have v: "valid_paths (hc_Endpoints hc)" using s(3) by (simp add: hc_def valid_config_def valid_health_def)
  obtain app where app: "se_server s = Some (srv, app)"
    "h = health_mux hc (case app of None \<Rightarrow> DefaultServeMux | Some n \<Rightarrow> n)"
    using assms(2,3) s(2,4) by (auto simp: inject_health_def hc_def split: option.splits if_splits)
  obtain routes where h: "h = HealthMux routes (case app of None \<Rightarrow> DefaultServeMux | Some n \<Rightarrow> n)"
    by (simp add: app(2) health_mux_def Let_def)
  note look = routes_lookup [OF v, of _ routes, OF app(2) [symmetric, unfolded h], folded e_def]
  have paths: "p = [] \<or> p \<noteq> q" if "(p, q) \<in> {(he_Health e, he_Live e), (he_Health e, he_Ready e), (he_Live e, he_Ready e)}"
    for p q
    using that v by (auto simp: valid_paths_def e_def Let_def split: if_splits)
  have serve: "serve_http h order published reg path verb =
      (case fmlookup routes path of
         Some (p, ho) \<Rightarrow> Answered (handler (probe_report p order published reg) ho verb)
       | None \<Rightarrow> serve_http (case app of None \<Rightarrow> DefaultServeMux | Some n \<Rightarrow> n) order published reg path verb)" for path
    by (simp add: h)
  define ho where "ho = \<lparr>ho_HideDetails = hc_HideDetails hc, ho_DegradedStatusCode = hc_DegradedStatusCode hc\<rparr>"
  have answered: "serve_http h order published reg path verb =
      Answered (handler (probe_report p order published reg) ho verb)"
    if "(p, path) \<in> {(ProbeHealth, he_Health e), (ProbeLive, he_Live e), (ProbeReady, he_Ready e)}" "path \<noteq> []"
    for p path
    using that paths unfolding serve look ho_def [symmetric] by auto
  have other: "serve_http h order published reg path verb =
      serve_http (case app of None \<Rightarrow> DefaultServeMux | Some n \<Rightarrow> n) order published reg path verb"
    if "path \<notin> {he_Health e, he_Live e, he_Ready e} \<or> path = []" for path
    using that unfolding serve look by auto
  have draining: "\<exists>resp. serve_http h order published reg path verb = Answered resp \<and> rs_code resp = 503"
    if "rg_draining reg" "verb \<in> {''GET'', ''HEAD''}" "path \<in> {he_Health e, he_Ready e} - {[]}" for path
    using that answered [of ProbeHealth path] answered [of ProbeReady path]
      drained_code [OF that(1), of ProbeHealth] drained_code [OF that(1), of ProbeReady] by auto
  show ?thesis
    unfolding Let_def s(2) hc_def [symmetric] e_def [symmetric] ho_def [symmetric]
    using answered other draining s(1) app(1) by blast
qed

theorem endpoints_injected_witness:
  "let h = health_mux (cf_Health (se_cfg sample_settings)) (AppHandler 1);
       serve = serve_http h [] (\<lambda>_. None) (set_draining True (new_registry 0))
   in (\<exists>resp. serve ''/health/ready'' ''GET'' = Answered resp \<and> rs_code resp = 503) \<and>
      serve ''/orders'' ''GET'' = Delegated (AppHandler 1)"
proof -
  define hc where "hc = cf_Health (se_cfg sample_settings)"
  obtain r where r: "new_client sample_lib (\<lambda>_. True) (\<lambda>_. None) sample_options = Inr r"
    "cl_cfg (cr_client r) = se_cfg sample_settings"
    "cr_server r = inject_health hc (se_server sample_settings)"
    using sample_new_client by (auto simp: hc_def)
  have e: "hc_Enabled hc" "hc_Endpoints hc = \<lparr>he_Health = ''/health'', he_Live = ''/health/live'', he_Ready = ''/health/ready''\<rparr>"
    "hc_CheckPath hc = ''/health/ready''"
    by (simp_all add: hc_def sample_settings_def env_settings_def apply_defaults_def no_config_def
        default_health_def no_health_def or_default_def default_defs check_type_defs Let_def)
  have srv: "se_server sample_settings = Some (\<lparr>hs_Addr = '':8080'', hs_TLS = False\<rparr>, Some (AppHandler 1))"
    by (simp add: sample_settings_def env_settings_def)
  have "cr_server r = Some (\<lparr>hs_Addr = '':8080'', hs_TLS = False\<rparr>, Some (health_mux hc (AppHandler 1)))"
    by (simp add: r(3) inject_health_def srv e(1))
  moreover have "hc_Enabled (cf_Health (cl_cfg (cr_client r)))" by (simp add: r(2) hc_def [symmetric] e(1))
  moreover have "s = sample_settings" if "new_settings (\<lambda>_. True) (\<lambda>_. None) sample_options = Inr s" for s
    using that sample_settings_new by simp
  ultimately show ?thesis
    using endpoints_injected [OF r(1), of _ _ "[]" "\<lambda>_. None" "set_draining True (new_registry 0)" "''GET''"]
      srv
    unfolding r(2) hc_def [symmetric] Let_def
    by (fastforce simp: e set_draining_def)
qed

end
