(* ===== verification/Access.thy ===== *)
theory Access
  imports Balancer Loading Environment Settings
begin

text \<open>
  The ways into a client and out of it: secret.go (what a secret shows), file.go (configuration files,
  with the YAML decoder as an argument) and discover.go (the discovery client and the balancers of a
  client).
\<close>

subsection \<open>Secrets\<close>

definition redacted :: string where
  "redacted = ''[REDACTED]''"

definition reveal :: "string \<Rightarrow> string" where
  "reveal s = s"

definition secret_string :: "string \<Rightarrow> string" where
  "secret_string s = (if s = [] then [] else redacted)"

definition secret_go_string :: "(nat \<Rightarrow> bool) \<Rightarrow> string \<Rightarrow> string" where
  "secret_go_string printable s = ''consulx.Secret('' @ quote printable (secret_string s) @ '')''"

text \<open>\<open>Format\<close>, with the verb and the flag #.\<close>

definition secret_format :: "(nat \<Rightarrow> bool) \<Rightarrow> char \<Rightarrow> bool \<Rightarrow> string \<Rightarrow> string" where
  "secret_format printable verb sharp s =
     (if verb = CHR ''q'' then quote printable (secret_string s)
      else if verb = CHR ''v'' then (if sharp then secret_go_string printable s else secret_string s)
      else secret_string s)"

definition secret_log_value :: "string \<Rightarrow> string" where
  "secret_log_value s = secret_string s"

definition secret_marshal_text :: "string \<Rightarrow> string res" where
  "secret_marshal_text s = Inr (secret_string s)"

definition secret_unmarshal_text :: "string \<Rightarrow> string \<Rightarrow> goerr option \<times> string" where
  "secret_unmarshal_text s b = (None, b)"

text \<open>Everything that prints, logs or encodes a secret shows.\<close>

datatype secret_use = Print char bool | PrintString | PrintGo | Log | Encode

fun shown :: "(nat \<Rightarrow> bool) \<Rightarrow> secret_use \<Rightarrow> string \<Rightarrow> string res" where
  "shown printable (Print verb sharp) s = Inr (secret_format printable verb sharp s)"
| "shown printable PrintString s = Inr (secret_string s)"
| "shown printable PrintGo s = Inr (secret_go_string printable s)"
| "shown printable Log s = Inr (secret_log_value s)"
| "shown printable Encode s = secret_marshal_text s"

text \<open>
  C33. A secret does not leak. Whatever is printed with any verb and flag, logged or encoded in any
  sequence is the same for any two secrets that are both set, or both empty: the output says only
  whether a secret is set. The value itself comes out of \<open>Reveal\<close> alone, and a decoded text is kept.
\<close>

theorem secrets_hidden:
  assumes "s = [] \<longleftrightarrow> s' = []"
  shows "map (\<lambda>u. shown printable u s) uses = map (\<lambda>u. shown printable u s') uses \<and>
    reveal (snd (secret_unmarshal_text old s)) = s"
proof -
  have "secret_string s = secret_string s'" using assms by (simp add: secret_string_def)
  then have "shown printable u s = shown printable u s'" for u
    by (cases u) (simp_all add: secret_format_def secret_go_string_def secret_log_value_def secret_marshal_text_def)
  then show ?thesis by (simp add: reveal_def secret_unmarshal_text_def)
qed

theorem secrets_hidden_witness:
  "shown (\<lambda>_. True) (Print CHR ''x'' False) ''b1b1c857-3ee0'' = shown (\<lambda>_. True) (Print CHR ''x'' False) ''other''"
  using secrets_hidden [of "''b1b1c857-3ee0''" "''other''" "\<lambda>_. True" "[Print CHR ''x'' False]"] by simp

subsection \<open>Configuration files\<close>

datatype yaml_error = YamlEOF | YamlError string

definition parse_config :: "(string \<Rightarrow> yaml_error option \<times> config) \<Rightarrow> string \<Rightarrow> config res" where
  "parse_config decode_yaml data =
     (case decode_yaml data of
        (Some (YamlError reason), _) \<Rightarrow> Inl (ConfigError ''file'' reason)
      | (_, cfg) \<Rightarrow> Inr cfg)"

definition load_config ::
    "(string \<Rightarrow> yaml_error option \<times> config) \<Rightarrow> (string \<Rightarrow> string res) \<Rightarrow> lookup \<Rightarrow> string \<Rightarrow> config res" where
  "load_config decode_yaml read_file lookup path =
     (case read_file path of
        Inl err \<Rightarrow> Inl (Errorf ''consulx: read config file: '' [err])
      | Inr data \<Rightarrow>
        (case parse_config decode_yaml data of
           Inl err \<Rightarrow> Inl (Errorf ('' (file '' @ path @ '')'') [err])
         | Inr cfg \<Rightarrow>
           (case config_from_lookup lookup of
              (_, Some err) \<Rightarrow> Inl err
            | (env, None) \<Rightarrow> Inr (overlay_config cfg env))))"

text \<open>A file that cannot be decoded and an unreadable environment are invalid configurations.\<close>

lemma load_config_invalid:
  assumes "read_file path = Inr data" "decode_yaml data = (Some (YamlError reason), cfg)"
  shows "\<exists>err. load_config decode_yaml read_file lookup path = Inl err \<and> errors_is err ErrInvalidConfiguration"
  using assms by (simp add: load_config_def parse_config_def)

subsection \<open>Discovery and balancers of a client\<close>

definition DefaultStaleGrace :: duration where
  "DefaultStaleGrace = 10 * second"

definition client_discovery :: "(int \<Rightarrow> duration \<times> bool) \<Rightarrow> client \<Rightarrow> discovery_config" where
  "client_discovery policy_delay c =
     new_discovery
       \<lparr>dc_WaitTime = cc_WaitTime (cf_Consul (cl_cfg c)), dc_RequestTimeout = cc_RequestTimeout (cf_Consul (cl_cfg c)),
        dc_MinInterval = 0, dc_Retry = Some policy_delay\<rparr>"

definition observe_discovery :: "string \<Rightarrow> goerr option \<Rightarrow> client \<Rightarrow> client" where
  "observe_discovery op err c =
     (let c' = emit (IncCounter MetricDiscoveryRequestsTotal (operation_labels op)) c
      in if err \<noteq> None then emit (IncCounter MetricDiscoveryErrorsTotal (operation_labels op)) c' else c')"

text \<open>\<open>Client.Balancer\<close>: a balancer is a number in the list of the client; its context is \<open>bgCtx\<close>.\<close>

definition client_balancer ::
    "strategy \<Rightarrow> balancer_option list \<Rightarrow> nat \<Rightarrow> client \<Rightarrow> balancer \<times> client" where
  "client_balancer str opts n c =
     ((new_balancer str (WithStaleGrace DefaultStaleGrace # opts))\<lparr>b_ctxDone := cl_bg_cancelled c\<rparr>,
      c\<lparr>cl_balancers := cl_balancers c @ [n]\<rparr>)"

fun stale_grace :: "balancer_option \<Rightarrow> duration option" where
  "stale_grace (WithStaleGrace d) = Some d"
| "stale_grace _ = None"

lemma apply_option_grace:
  "b_grace (foldl apply_option b opts) =
     (case List.map_filter stale_grace opts of [] \<Rightarrow> b_grace b | ds \<Rightarrow> last ds)"
proof (induction opts arbitrary: b)
  case (Cons opt opts)
  have "b_grace (apply_option b opt) = (case stale_grace opt of None \<Rightarrow> b_grace b | Some d \<Rightarrow> d)"
    by (cases opt) simp_all
  then show ?case
    unfolding foldl_Cons Cons.IH by (cases "stale_grace opt") (simp_all add: map_filter_simps split: list.splits)
qed (simp add: map_filter_simps)

text \<open>
  A balancer of a client keeps the last non-empty list for ten seconds unless the caller chose a grace
  period, and one created after the client has stopped is closed from the start.
\<close>

lemma client_balancer_grace:
  "b_grace (fst (client_balancer str opts n c)) =
     (case List.map_filter stale_grace opts of [] \<Rightarrow> 10 * second | ds \<Rightarrow> last ds) \<and>
   (cl_bg_cancelled c \<longrightarrow> is_closed (fst (client_balancer str opts n c)))"
  by (simp add: client_balancer_def new_balancer_def apply_option_grace is_closed_def DefaultStaleGrace_def
      split: list.split)

text \<open>contrib/fiber: the routes \<open>Mount\<close> registers, all served by the health handler of the client.\<close>

definition mounted_routes :: "client \<Rightarrow> string list" where
  "mounted_routes c =
     (let e = hc_Endpoints (cf_Health (effective_config c))
      in filter (\<lambda>path. path \<noteq> []) [he_Health e, he_Live e, he_Ready e])"

end
