(* ===== verification/Contexts.thy ===== *)
theory Contexts
  imports Lifecycle Access Loading Watch
begin

text \<open>
  Contexts with a deadline and the waits under them: \<open>requestContext\<close> of discovery/discovery.go and
  kvconfig/kvconfig.go, \<open>sleep\<close> of discovery/watch.go, \<open>drain\<close> of lifecycle.go; the calls
  \<open>Client.Services\<close> and \<open>Client.Watch\<close> of discovery/discovery.go; the accessors of registration.go; and the
  order of the states of lifecycle.go. A context is the time it has left, \<open>None\<close> when it has no deadline;
  \<open>tie\<close> is what a select takes when a timer and the context are ready together.
\<close>

subsection \<open>Deadlines\<close>

definition with_timeout :: "duration \<Rightarrow> duration option \<Rightarrow> duration option" where
  "with_timeout d left = Some (case left of None \<Rightarrow> d | Some l \<Rightarrow> min d l)"

definition discovery_context :: "discovery_config \<Rightarrow> duration option \<Rightarrow> duration option" where
  "discovery_context cfg left =
     (if 0 < dc_RequestTimeout cfg then with_timeout (dc_RequestTimeout cfg) left else left)"

definition loader_context :: "loader \<Rightarrow> duration option \<Rightarrow> duration option" where
  "loader_context c left =
     (if 0 < ld_RequestTimeout c then with_timeout (ld_RequestTimeout c) left else left)"

definition wait_elapsed :: "duration \<Rightarrow> duration option \<Rightarrow> duration" where
  "wait_elapsed d left = max 0 (case left of None \<Rightarrow> d | Some l \<Rightarrow> min d l)"

definition timer_first :: "bool \<Rightarrow> duration \<Rightarrow> duration option \<Rightarrow> bool" where
  "timer_first tie d left = (case left of None \<Rightarrow> True | Some l \<Rightarrow> max 0 d < max 0 l \<or> max 0 d = max 0 l \<and> tie)"

text \<open>\<open>sleep\<close>: the time it takes and its error; \<open>err\<close> is the one of the context.\<close>

definition sleep_under :: "bool \<Rightarrow> goerr \<Rightarrow> duration \<Rightarrow> duration option \<Rightarrow> duration \<times> goerr option" where
  "sleep_under tie err d left = (wait_elapsed d left, if timer_first tie d left then None else Some err)"

definition drain :: "lifecycle_config \<Rightarrow> duration option \<Rightarrow> duration" where
  "drain lc left = (if lc_DrainDelay lc \<le> 0 then 0 else wait_elapsed (lc_DrainDelay lc) left)"

text \<open>The folders of a load are read one after the other, each under a context of its own.\<close>

fun load_time :: "loader \<Rightarrow> duration option \<Rightarrow> duration list \<Rightarrow> duration" where
  "load_time c left [] = 0"
| "load_time c left (d # ds) =
     (let e = wait_elapsed d (loader_context c left)
      in e + load_time c (map_option (\<lambda>l. l - e) left) ds)"

lemma wait_elapsed_nonneg [simp]: "0 \<le> wait_elapsed d left"
  by (simp add: wait_elapsed_def)

lemma wait_elapsed_le: "0 \<le> l \<Longrightarrow> wait_elapsed d (Some l) \<le> l"
  by (simp add: wait_elapsed_def)

lemma context_bounds:
  "0 < ld_RequestTimeout c \<Longrightarrow> wait_elapsed d (loader_context c left) \<le> ld_RequestTimeout c"
  "0 \<le> l \<Longrightarrow> wait_elapsed d (loader_context c (Some l)) \<le> l"
  by (auto simp: wait_elapsed_def loader_context_def with_timeout_def split: option.splits)

text \<open>Waiting never outlasts the context, the drain no longer than its delay.\<close>

lemma sleep_bounds:
  assumes "0 \<le> l"
  shows "fst (sleep_under tie err d (Some l)) \<le> l" and "snd (sleep_under tie err d (Some l)) = Some err \<Longrightarrow> fst (sleep_under tie err d (Some l)) = l"
    and "snd (sleep_under tie err d (Some l)) = None \<Longrightarrow> fst (sleep_under tie err d (Some l)) = max 0 d"
  using assms by (auto simp: sleep_under_def wait_elapsed_def timer_first_def split: if_splits)

lemma drain_bounds:
  "0 \<le> drain lc left" "drain lc left \<le> max 0 (lc_DrainDelay lc)" "0 \<le> l \<Longrightarrow> drain lc (Some l) \<le> l"
  by (auto simp: drain_def wait_elapsed_def split: option.splits)

text \<open>A load of \<open>n\<close> folders takes at most \<open>n\<close> request timeouts, and never outlasts its context.\<close>

lemma load_time_bounds:
  "0 < ld_RequestTimeout c \<Longrightarrow> load_time c left ds \<le> int (length ds) * ld_RequestTimeout c"
  "0 \<le> l \<Longrightarrow> load_time c (Some l) ds \<le> l"
proof -
  show "0 < ld_RequestTimeout c \<Longrightarrow> load_time c left ds \<le> int (length ds) * ld_RequestTimeout c"
  proof (induction ds arbitrary: left)
    case (Cons d ds)
    then show ?case
      using add_mono [OF context_bounds(1) [of c d left]
          Cons.IH [of "map_option (\<lambda>l. l - wait_elapsed d (loader_context c left)) left"]]
      by (simp add: Let_def distrib_right)
  qed simp
  show "0 \<le> l \<Longrightarrow> load_time c (Some l) ds \<le> l"
  proof (induction ds arbitrary: l)
    case (Cons d ds)
    let ?e = "wait_elapsed d (loader_context c (Some l))"
    have "?e \<le> l" using Cons.prems by (rule context_bounds)
    with Cons.IH [of "l - ?e"] show ?case by (simp add: Let_def)
  qed simp
qed

subsection \<open>Calls of discovery\<close>

definition discovery_watch :: "string \<Rightarrow> watch res" where
  "discovery_watch name = start_watch (service_query name)"

definition discovery_services ::
    "(goerr, (string, string list) fmap) outcome \<Rightarrow> client \<Rightarrow> (goerr, (string, string list) fmap) outcome \<times> client" where
  "discovery_services answer c =
     (answer, observe_discovery ''services'' (case answer of Inl err \<Rightarrow> Some err | Inr _ \<Rightarrow> None) c)"

lemma services_counted:
  "cl_metrics (snd (discovery_services answer c)) = cl_metrics c @
     [IncCounter MetricDiscoveryRequestsTotal [(''operation'', ''services'')]] @
     (if isl answer then [IncCounter MetricDiscoveryErrorsTotal [(''operation'', ''services'')]] else [])"
  by (cases answer) (simp_all add: discovery_services_def observe_discovery_def emit_def operation_labels_def Let_def)

subsection \<open>The registration\<close>

definition get_registration :: "client \<Rightarrow> registration" where
  "get_registration c = cl_reg c"

definition set_registration :: "registration \<Rightarrow> client \<Rightarrow> client" where
  "set_registration reg c = c\<lparr>cl_reg := reg\<rparr>"

lemma mark_lost_registration:
  "mark_lost c = set_registration ((get_registration c)\<lparr>rgn_Registered := False\<rparr>) c"
  by (simp add: mark_lost_def set_registration_def get_registration_def)

subsection \<open>The order of the states\<close>

text \<open>The states in the order of their numbers.\<close>

lemma state_code_inject: "state_code s = state_code t \<longleftrightarrow> s = t"
  by (cases s; cases t) (simp_all add: state_code_def)

instantiation lstate :: linorder
begin

definition less_eq_lstate :: "lstate \<Rightarrow> lstate \<Rightarrow> bool" where
  "less_eq_lstate s t \<longleftrightarrow> state_code s \<le> state_code t"

definition less_lstate :: "lstate \<Rightarrow> lstate \<Rightarrow> bool" where
  "less_lstate s t \<longleftrightarrow> state_code s < state_code t"

instance
  by intro_classes (auto simp: less_eq_lstate_def less_lstate_def state_code_inject)

end

lemma state_order [simp]:
  "StateIdle \<le> s" "s \<le> StateStopped" "StateStarting < StateRunning" "StateRunning < StateDegraded"
  "StateDegraded < StateStopping" "StateStopping < StateStopped"
  by (cases s; simp add: less_eq_lstate_def less_lstate_def state_code_def)+

lemma same_life_state: "same_life c c' \<Longrightarrow> cl_state c' = cl_state c"
  by (simp add: same_life_def)

lemma call_start_raises:
  assumes "call_start nd sy env r = Some r'"
  shows "cl_state (rt_client r) \<le> cl_state (rt_client r')"
proof (cases "cl_state (rt_client r) = StateIdle")
  case True
  then show ?thesis by simp
next
  case False
  then show ?thesis using assms by (auto simp: call_start_def returns_def Let_def split: if_splits)
qed

lemma call_stop_raises: "cl_state (rt_client r) \<le> cl_state (rt_client (call_stop r))"
  by (cases "cl_state (rt_client r)") (simp_all add: call_stop_def returns_def less_eq_lstate_def state_code_def)

lemma op_step_raises:
  "op_step r = Some r' \<Longrightarrow> rt_op r \<noteq> StartStore \<Longrightarrow> cl_state (rt_client r) \<le> cl_state (rt_client r')"
  by (auto simp: op_step_def returns_def Let_def finish_fields split: op_pc.splits option.splits if_splits)

lemma shutdown_state: "cl_state (rt_client (shutdown b answer r)) = cl_state (rt_client r)"
  using same_life_deregister
  by (auto simp: shutdown_def Let_def same_life_state split: prod.splits option.splits)

text \<open>
  The state of a client goes down in two places only: the store at the end of \<open>Start\<close> and the store of the
  registrar, each after a load that may be out of date.
\<close>

lemma only_stores_lower:
  assumes s: "runtime_step nd sy ev r = Some r'" and less: "cl_state (rt_client r') < cl_state (rt_client r)"
  shows "ev = OpStep \<and> rt_op r = StartStore \<or> (\<exists>e t k. ev = TaskReg e \<and> rt_reg r = Some (RegStore t k))"
proof (cases ev)
  case (CallStart env)
  then show ?thesis using s less call_start_raises [of nd sy env r r'] by (auto simp: runtime_step_def split: if_splits)
next
  case CallStop
  then show ?thesis using s less call_stop_raises [of r] by (auto simp: runtime_step_def split: if_splits)
next
  case OpStep
  then show ?thesis using s less op_step_raises [of r r'] by (cases "rt_op r = StartStore") (auto simp: runtime_step_def)
next
  case (Shutdown b answer)
  then show ?thesis using s less shutdown_state [of b answer r] by (auto simp: runtime_step_def split: if_splits)
next
  case (TaskReg e)
  then obtain pc pc' c' where "rt_reg r = Some pc" "registrar nd sy e pc (rt_client r) = Some (pc', c')"
    "r' = r\<lparr>rt_client := c', rt_reg := Some pc'\<rparr>"
    using s by (auto simp: runtime_step_def split: option.splits)
  then show ?thesis using less registrar_life [of nd sy e pc "rt_client r" pc' c'] TaskReg
    by (auto simp: same_life_state)
next
  case (TaskHb e)
  then show ?thesis using s less
    by (auto simp: runtime_step_def split: option.splits dest!: same_life_heart same_life_state)
next
  case Receive
  then show ?thesis using s less by (auto simp: runtime_step_def dest!: same_life_receive same_life_state)
next
  case Push
  then show ?thesis using s less same_life_state [OF same_life_notify [of "rt_client r"]]
    by (auto simp: runtime_step_def)
qed

end
