(* ===== verification/Metrics.thy ===== *)
theory Metrics
  imports Client
begin

text \<open>
  contrib/prometheus and contrib/otel: the two adapters that report the metrics of ConsulX. A vector, a
  series and an instrument of the libraries are values of type variables; creating one, and asking a
  vector for the series of some label values, are arguments, functions of their arguments as documented.
  Both adapters cache what they resolve.
\<close>

subsection \<open>Prometheus\<close>

record series_key =
  sk_name :: string
  sk_label :: "string \<times> string"
  sk_n :: nat

definition split_labels :: "labels \<Rightarrow> string list \<times> string list" where
  "split_labels ls = (map fst ls, map snd ls)"

definition key_of :: "string \<Rightarrow> labels \<Rightarrow> series_key" where
  "key_of name ls =
     \<lparr>sk_name = name, sk_label = (case ls of [l] \<Rightarrow> l | _ \<Rightarrow> ([], [])), sk_n = length ls\<rparr>"

record ('v, 's) vectors =
  vc_vecs :: "(string, 'v) fmap"
  vc_cache :: "(series_key, 's) fmap"

definition no_vectors :: "('v, 's) vectors" where
  "no_vectors = \<lparr>vc_vecs = fmempty, vc_cache = fmempty\<rparr>"

text \<open>\<open>GetMetricWithLabelValues\<close> is \<open>get\<close>; it fails on a wrong number of values.\<close>

definition series ::
    "(string \<Rightarrow> string list \<Rightarrow> 'v) \<Rightarrow> ('v \<Rightarrow> string list \<Rightarrow> 's option) \<Rightarrow> string \<Rightarrow> labels \<Rightarrow>
     ('v, 's) vectors \<Rightarrow> 's option \<times> ('v, 's) vectors" where
  "series create get name ls m =
     (let key = key_of name ls; cacheable = (length ls \<le> 1)
      in case (if cacheable then fmlookup (vc_cache m) key else None) of
           Some s \<Rightarrow> (Some s, m)
         | None \<Rightarrow>
           (let (names, vals) = split_labels ls;
                (v, m1) = (case fmlookup (vc_vecs m) name of
                             Some v \<Rightarrow> (v, m)
                           | None \<Rightarrow> (let v = create name names in (v, m\<lparr>vc_vecs := fmupd name v (vc_vecs m)\<rparr>)))
            in case get v vals of
                 None \<Rightarrow> (None, m1)
               | Some s \<Rightarrow>
                   (Some s, if cacheable then m1\<lparr>vc_cache := fmupd key s (vc_cache m1)\<rparr> else m1)))"

definition help_texts :: "(string \<times> string) list" where
  "help_texts =
     [(MetricRegisterTotal, ''Successful service registrations.''),
      (MetricRegisterErrorsTotal, ''Failed service registrations.''),
      (MetricDeregisterTotal, ''Successful service deregistrations.''),
      (MetricDeregisterErrorsTotal, ''Failed service deregistrations.''),
      (MetricDiscoveryRequestsTotal, ''Discovery requests sent to Consul.''),
      (MetricDiscoveryErrorsTotal, ''Failed discovery requests.''),
      (MetricConsulRequestsTotal, ''Requests sent to Consul by the runtime.''),
      (MetricConsulRequestErrorsTotal, ''Failed requests sent to Consul by the runtime.''),
      (MetricConsulRequestDuration, ''Duration of runtime requests to Consul.''),
      (MetricReconnectTotal, ''Recoveries after Consul was unavailable.''),
      (MetricHealthStatus, ''Readiness reported to Consul: 1 up, 0.5 degraded, 0 down.''),
      (MetricRuntimeState, ''Runtime state: 0 idle, 1 starting, 2 running, 3 degraded, 4 stopping, 5 stopped.''),
      (MetricConfigReloadTotal, ''Configuration reloads applied.''),
      (MetricConfigReloadErrorsTotal, ''Configuration reloads that failed or were rejected.''),
      (MetricErrorsDroppedTotal, ''Runtime errors dropped because Errors() was not read.'')]"

definition help_for :: "string \<Rightarrow> string" where
  "help_for name =
     (case map_of help_texts name of
        Some h \<Rightarrow> h
      | None \<Rightarrow> ''ConsulX metric '' @ trim_prefix name ''consulx_'' @ ''.'')"

datatype 'c registering = Registered | AlreadyRegistered 'c | AlreadyOther | RegisterFailed goerr

definition register_collector :: "('c \<Rightarrow> 'c registering) \<Rightarrow> 'c \<Rightarrow> 'c" where
  "register_collector reg c = (case reg c of AlreadyRegistered existing \<Rightarrow> existing | _ \<Rightarrow> c)"

text \<open>The three maps of vectors and caches; the library, with a kind for each.\<close>

datatype metric_kind = Counter | Gauge | Histogram

record ('v, 's) prom_lib =
  pl_new :: "metric_kind \<Rightarrow> string \<Rightarrow> string \<Rightarrow> string list \<Rightarrow> 'v"
  pl_register :: "'v \<Rightarrow> 'v registering"
  pl_get :: "'v \<Rightarrow> string list \<Rightarrow> 's option"

record ('v, 's) prom_metrics =
  pm_counters :: "('v, 's) vectors"
  pm_gauges :: "('v, 's) vectors"
  pm_histograms :: "('v, 's) vectors"

definition new_prom :: "('v, 's) prom_metrics" where
  "new_prom = \<lparr>pm_counters = no_vectors, pm_gauges = no_vectors, pm_histograms = no_vectors\<rparr>"

definition new_vec :: "('v, 's) prom_lib \<Rightarrow> metric_kind \<Rightarrow> string \<Rightarrow> string list \<Rightarrow> 'v" where
  "new_vec lib k name names = register_collector (pl_register lib) (pl_new lib k name (help_for name) names)"

text \<open>What is done to a series: one more, a value, or a number of seconds.\<close>

datatype measurement = Inc | SetTo f64 | ObserveSeconds f64

definition duration_seconds :: "duration \<Rightarrow> f64" where
  "duration_seconds d =
     fadd (f64_of_int (go_div d second))
       (fdiv (f64_of_int (d - go_div d second * second)) (f64_of_int 1000000000))"

fun prom_report ::
    "('v, 's) prom_lib \<Rightarrow> metric \<Rightarrow> ('v, 's) prom_metrics \<Rightarrow> ('s \<times> measurement) option \<times> ('v, 's) prom_metrics" where
  "prom_report lib (IncCounter name ls) m =
     (let (s, vs) = series (new_vec lib Counter) (pl_get lib) name ls (pm_counters m)
      in (map_option (\<lambda>c. (c, Inc)) s, m\<lparr>pm_counters := vs\<rparr>))"
| "prom_report lib (SetGauge name x ls) m =
     (let (s, vs) = series (new_vec lib Gauge) (pl_get lib) name ls (pm_gauges m)
      in (map_option (\<lambda>g. (g, SetTo x)) s, m\<lparr>pm_gauges := vs\<rparr>))"
| "prom_report lib (ObserveDuration name d ls) m =
     (let (s, vs) = series (new_vec lib Histogram) (pl_get lib) name ls (pm_histograms m)
      in (map_option (\<lambda>h. (h, ObserveSeconds (duration_seconds d))) s, m\<lparr>pm_histograms := vs\<rparr>))"

fun prom_reports :: "('v, 's) prom_lib \<Rightarrow> metric list \<Rightarrow> ('v, 's) prom_metrics \<Rightarrow> ('s \<times> measurement) option list" where
  "prom_reports lib [] m = []"
| "prom_reports lib (x # xs) m = (let (r, m') = prom_report lib x m in r # prom_reports lib xs m')"

subsection \<open>The caches do not show\<close>

text \<open>Without caches: the vector of the name and the label names, and its series of the label values.\<close>

fun prom_direct :: "('v, 's) prom_lib \<Rightarrow> metric \<Rightarrow> ('s \<times> measurement) option" where
  "prom_direct lib (IncCounter name ls) =
     map_option (\<lambda>c. (c, Inc)) (pl_get lib (new_vec lib Counter name (map fst ls)) (map snd ls))"
| "prom_direct lib (SetGauge name x ls) =
     map_option (\<lambda>g. (g, SetTo x)) (pl_get lib (new_vec lib Gauge name (map fst ls)) (map snd ls))"
| "prom_direct lib (ObserveDuration name d ls) =
     map_option (\<lambda>h. (h, ObserveSeconds (duration_seconds d)))
       (pl_get lib (new_vec lib Histogram name (map fst ls)) (map snd ls))"

text \<open>The vectors and the cached series belong to the label names every report of a name uses.\<close>

definition vectors_ok ::
    "(string \<Rightarrow> string list) \<Rightarrow> (string \<Rightarrow> string list \<Rightarrow> 'v) \<Rightarrow> ('v \<Rightarrow> string list \<Rightarrow> 's option) \<Rightarrow>
     ('v, 's) vectors \<Rightarrow> bool" where
  "vectors_ok names create get m \<longleftrightarrow>
     (\<forall>name v. fmlookup (vc_vecs m) name = Some v \<longrightarrow> v = create name (names name)) \<and>
     (\<forall>name ls s. length ls \<le> 1 \<and> fmlookup (vc_cache m) (key_of name ls) = Some s \<longrightarrow>
        get (create name (names name)) (map snd ls) = Some s)"

lemma vectors_ok_none: "vectors_ok names create get no_vectors"
  by (simp add: vectors_ok_def no_vectors_def)

lemma key_of_eq:
  "length ls \<le> 1 \<Longrightarrow> length ls' \<le> 1 \<Longrightarrow> key_of name ls = key_of name' ls' \<longleftrightarrow> name = name' \<and> ls = ls'"
  by (cases ls; cases ls') (auto simp: key_of_def)

lemma series_direct:
  assumes ok: "vectors_ok names create get m" and ls: "map fst ls = names name"
  shows "fst (series create get name ls m) = get (create name (names name)) (map snd ls)"
    and "vectors_ok names create get (snd (series create get name ls m))"
proof -
  have vec: "(case fmlookup (vc_vecs m) name of
        Some v \<Rightarrow> (v, m)
      | None \<Rightarrow> (let v = create name (names name) in (v, m\<lparr>vc_vecs := fmupd name v (vc_vecs m)\<rparr>))) =
      (create name (names name),
       if fmlookup (vc_vecs m) name = None
       then m\<lparr>vc_vecs := fmupd name (create name (names name)) (vc_vecs m)\<rparr> else m)"
    using ok by (auto simp: vectors_ok_def Let_def split: option.splits)
  show "fst (series create get name ls m) = get (create name (names name)) (map snd ls)"
    using ok unfolding series_def Let_def split_labels_def ls prod.case vec [unfolded Let_def]
    by (auto simp: vectors_ok_def split: option.splits)
  have upd: "vectors_ok names create get (m\<lparr>vc_vecs := fmupd name (create name (names name)) (vc_vecs m)\<rparr>)"
    using ok by (simp add: vectors_ok_def)
  have cache: "vectors_ok names create get (m'\<lparr>vc_cache := fmupd (key_of name ls) s (vc_cache m')\<rparr>)"
    if "vectors_ok names create get m'" "get (create name (names name)) (map snd ls) = Some s" "length ls \<le> 1"
    for m' s
    using that by (auto simp: vectors_ok_def key_of_eq)
  show "vectors_ok names create get (snd (series create get name ls m))"
    using ok upd cache cache [OF upd] unfolding series_def Let_def split_labels_def ls prod.case vec [unfolded Let_def]
    by (auto split: option.splits)
qed

definition prom_ok :: "(string \<Rightarrow> string list) \<Rightarrow> ('v, 's) prom_lib \<Rightarrow> ('v, 's) prom_metrics \<Rightarrow> bool" where
  "prom_ok names lib m \<longleftrightarrow>
     vectors_ok names (new_vec lib Counter) (pl_get lib) (pm_counters m) \<and>
     vectors_ok names (new_vec lib Gauge) (pl_get lib) (pm_gauges m) \<and>
     vectors_ok names (new_vec lib Histogram) (pl_get lib) (pm_histograms m)"

fun metric_labels :: "metric \<Rightarrow> string \<times> labels" where
  "metric_labels (IncCounter name ls) = (name, ls)"
| "metric_labels (SetGauge name x ls) = (name, ls)"
| "metric_labels (ObserveDuration name d ls) = (name, ls)"

lemma prom_report_direct:
  assumes "prom_ok names lib m" "map fst (snd (metric_labels x)) = names (fst (metric_labels x))"
  shows "fst (prom_report lib x m) = prom_direct lib x" "prom_ok names lib (snd (prom_report lib x m))"
  using assms series_direct [where names = names and get = "pl_get lib"]
  by (cases x; simp add: prom_ok_def split: prod.split; metis fst_conv snd_conv)+

text \<open>
  The caches of the Prometheus adapter do not show. As long as every report of a name uses the same
  label names, as the ones of ConsulX do, a sequence of reports has the effect it would have if each
  report created its vector anew and asked it for the series of its label values: the same measurements
  on the same series, and the same ones dropped.
\<close>

theorem prometheus_cache_exact:
  assumes "\<forall>x\<in>set xs. map fst (snd (metric_labels x)) = names (fst (metric_labels x))"
  shows "prom_reports lib xs new_prom = map (prom_direct lib) xs"
proof -
  have "prom_reports lib xs m = map (prom_direct lib) xs" if "prom_ok names lib m" for m
    using that assms
  proof (induction xs arbitrary: m)
    case (Cons x xs)
    have x: "map fst (snd (metric_labels x)) = names (fst (metric_labels x))" using Cons.prems(2) by simp
    show ?case
      using prom_report_direct [OF Cons.prems(1) x] Cons.IH [of "snd (prom_report lib x m)"] Cons.prems(2)
      by (cases "prom_report lib x m") simp
  qed simp
  moreover have "prom_ok names lib new_prom" by (simp add: prom_ok_def new_prom_def vectors_ok_none)
  ultimately show ?thesis by blast
qed

text \<open>A library that names vectors and series, and refuses a wrong number of values.\<close>

definition text_lib :: "(metric_kind \<times> string \<times> string list, string \<times> string list) prom_lib" where
  "text_lib =
     \<lparr>pl_new = (\<lambda>k name help names. (k, name, names)), pl_register = (\<lambda>_. Registered),
      pl_get = (\<lambda>(k, name, names) vals. if length vals = length names then Some (name, vals) else None)\<rparr>"

theorem prometheus_cache_exact_witness:
  "prom_reports text_lib
     [IncCounter MetricDiscoveryRequestsTotal (operation_labels ''query''),
      IncCounter MetricDiscoveryRequestsTotal (operation_labels ''watch''),
      IncCounter MetricDiscoveryRequestsTotal (operation_labels ''query'')] new_prom =
   map (\<lambda>op. Some ((MetricDiscoveryRequestsTotal, [op]), Inc)) [''query'', ''watch'', ''query'']"
proof -
  let ?xs = "[IncCounter MetricDiscoveryRequestsTotal (operation_labels ''query''),
      IncCounter MetricDiscoveryRequestsTotal (operation_labels ''watch''),
      IncCounter MetricDiscoveryRequestsTotal (operation_labels ''query'')]"
  have ls: "operation_labels op = [(''operation'', op)]" for op by (simp add: operation_labels_def)
  have "prom_reports text_lib ?xs new_prom = map (prom_direct text_lib) ?xs"
    by (rule prometheus_cache_exact [where names = "\<lambda>_. [''operation'']"]) (simp add: ls)
  then show ?thesis by (simp add: ls text_lib_def new_vec_def register_collector_def)
qed

subsection \<open>OpenTelemetry\<close>

definition instrument_name :: "string \<Rightarrow> string" where
  "instrument_name name =
     map (\<lambda>c. if c = CHR ''_'' then CHR ''.'' else c)
       (trim_suffix (trim_suffix name ''_total'') ''_seconds'')"

text \<open>
  An attribute key, and the three maps of instruments with the map of options. The options of a label
  combination are the labels: one set of attributes, or none.
\<close>

definition attr_key :: "labels \<Rightarrow> (string \<times> string) \<times> nat" where
  "attr_key ls = ((case ls of [l] \<Rightarrow> l | _ \<Rightarrow> ([], [])), length ls)"

record 'i otel_metrics =
  om_counters :: "(string, 'i) fmap"
  om_gauges :: "(string, 'i) fmap"
  om_histograms :: "(string, 'i) fmap"
  om_options :: "((string \<times> string) \<times> nat, labels option) fmap"

definition new_otel :: "'i otel_metrics" where
  "new_otel = \<lparr>om_counters = fmempty, om_gauges = fmempty, om_histograms = fmempty, om_options = fmempty\<rparr>"

definition measurement_options :: "labels \<Rightarrow> labels option" where
  "measurement_options ls = (if ls = [] then None else Some ls)"

definition options_for :: "labels \<Rightarrow> 'i otel_metrics \<Rightarrow> labels option \<times> 'i otel_metrics" where
  "options_for ls m =
     (if 1 < length ls then (measurement_options ls, m)
      else (case fmlookup (om_options m) (attr_key ls) of
              Some o' \<Rightarrow> (o', m)
            | None \<Rightarrow>
              (let o' = measurement_options ls
               in (o', m\<lparr>om_options := fmupd (attr_key ls) o' (om_options m)\<rparr>))))"

text \<open>The instrument of a name; a creation that fails is not cached.\<close>

definition instrument ::
    "(string \<Rightarrow> 'i option) \<Rightarrow> string \<Rightarrow> (string, 'i) fmap \<Rightarrow> ('i \<times> (string, 'i) fmap) option" where
  "instrument create name ins =
     (case fmlookup ins name of
        Some i \<Rightarrow> Some (i, ins)
      | None \<Rightarrow> map_option (\<lambda>i. (i, fmupd name i ins)) (create (instrument_name name)))"

type_synonym 'i recorded = "('i \<times> measurement \<times> labels option) option"

fun otel_report :: "(metric_kind \<Rightarrow> string \<Rightarrow> 'i option) \<Rightarrow> metric \<Rightarrow> 'i otel_metrics \<Rightarrow> 'i recorded \<times> 'i otel_metrics" where
  "otel_report create (IncCounter name ls) m =
     (case instrument (create Counter) name (om_counters m) of
        None \<Rightarrow> (None, m)
      | Some (i, ins) \<Rightarrow>
        (let (o', m') = options_for ls (m\<lparr>om_counters := ins\<rparr>) in (Some (i, Inc, o'), m')))"
| "otel_report create (SetGauge name x ls) m =
     (case instrument (create Gauge) name (om_gauges m) of
        None \<Rightarrow> (None, m)
      | Some (i, ins) \<Rightarrow>
        (let (o', m') = options_for ls (m\<lparr>om_gauges := ins\<rparr>) in (Some (i, SetTo x, o'), m')))"
| "otel_report create (ObserveDuration name d ls) m =
     (case instrument (create Histogram) name (om_histograms m) of
        None \<Rightarrow> (None, m)
      | Some (i, ins) \<Rightarrow>
        (let (o', m') = options_for ls (m\<lparr>om_histograms := ins\<rparr>)
         in (Some (i, ObserveSeconds (duration_seconds d), o'), m')))"

definition instruments_ok :: "(string \<Rightarrow> 'i option) \<Rightarrow> (string, 'i) fmap \<Rightarrow> bool" where
  "instruments_ok create ins \<longleftrightarrow> (\<forall>name i. fmlookup ins name = Some i \<longrightarrow> create (instrument_name name) = Some i)"

definition otel_ok :: "(metric_kind \<Rightarrow> string \<Rightarrow> 'i option) \<Rightarrow> 'i otel_metrics \<Rightarrow> bool" where
  "otel_ok create m \<longleftrightarrow>
     instruments_ok (create Counter) (om_counters m) \<and> instruments_ok (create Gauge) (om_gauges m) \<and>
     instruments_ok (create Histogram) (om_histograms m) \<and>
     (\<forall>ls o'. length ls \<le> 1 \<and> fmlookup (om_options m) (attr_key ls) = Some o' \<longrightarrow> o' = measurement_options ls)"

fun otel_direct :: "(metric_kind \<Rightarrow> string \<Rightarrow> 'i option) \<Rightarrow> metric \<Rightarrow> 'i recorded" where
  "otel_direct create (IncCounter name ls) =
     map_option (\<lambda>i. (i, Inc, measurement_options ls)) (create Counter (instrument_name name))"
| "otel_direct create (SetGauge name x ls) =
     map_option (\<lambda>i. (i, SetTo x, measurement_options ls)) (create Gauge (instrument_name name))"
| "otel_direct create (ObserveDuration name d ls) =
     map_option (\<lambda>i. (i, ObserveSeconds (duration_seconds d), measurement_options ls))
       (create Histogram (instrument_name name))"

lemma instrument_direct:
  assumes "instruments_ok create ins"
  shows "map_option fst (instrument create name ins) = create (instrument_name name)"
    and "instrument create name ins = Some (i, ins') \<Longrightarrow> instruments_ok create ins'"
  using assms by (auto simp: instrument_def instruments_ok_def option.map_comp comp_def option.map_ident
      split: option.splits if_splits)

lemma attr_key_eq: "length ls \<le> 1 \<Longrightarrow> length ls' \<le> 1 \<Longrightarrow> attr_key ls = attr_key ls' \<longleftrightarrow> ls = ls'"
  by (cases ls; cases ls') (auto simp: attr_key_def)

lemma options_direct:
  assumes "otel_ok create m"
  shows "fst (options_for ls m) = measurement_options ls" "otel_ok create (snd (options_for ls m))"
  using assms by (auto simp: options_for_def otel_ok_def Let_def attr_key_eq split: option.splits)

fun otel_reports :: "(metric_kind \<Rightarrow> string \<Rightarrow> 'i option) \<Rightarrow> metric list \<Rightarrow> 'i otel_metrics \<Rightarrow> 'i recorded list" where
  "otel_reports create [] m = []"
| "otel_reports create (x # xs) m = (let (r, m') = otel_report create x m in r # otel_reports create xs m')"

lemma measured_direct:
  assumes "instruments_ok c ins0" "otel_ok create m" "\<And>ins. instruments_ok c ins \<Longrightarrow> otel_ok create (upd ins)"
    and r: "r = (case instrument c name ins0 of
        None \<Rightarrow> (None, m)
      | Some (i, ins) \<Rightarrow> (let (o', m') = options_for ls (upd ins) in (Some (i, x, o'), m')))"
  shows "fst r = map_option (\<lambda>i. (i, x, measurement_options ls)) (c (instrument_name name)) \<and> otel_ok create (snd r)"
proof (cases "instrument c name ins0")
  case None
  then show ?thesis using instrument_direct(1) [OF assms(1), of name] assms(2) by (simp add: r)
next
  case (Some p)
  obtain i ins where p: "p = (i, ins)" by fastforce
  have i: "c (instrument_name name) = Some i"
    using instrument_direct(1) [OF assms(1), of name] by (simp add: Some p)
  have "otel_ok create (upd ins)" using instrument_direct(2) [OF assms(1) Some [unfolded p]] assms(3) by blast
  from options_direct [OF this, of ls] show ?thesis
    by (cases "options_for ls (upd ins)") (simp add: r Some p i)
qed

lemma otel_report_direct:
  assumes "otel_ok create m"
  shows "fst (otel_report create x m) = otel_direct create x \<and> otel_ok create (snd (otel_report create x m))"
proof (cases x)
  case (IncCounter name ls)
  show ?thesis
    unfolding IncCounter otel_report.simps otel_direct.simps
    by (rule measured_direct [where upd = "\<lambda>ins. m\<lparr>om_counters := ins\<rparr>", OF _ _ _ refl])
      (use assms in \<open>simp_all add: otel_ok_def\<close>)
next
  case (SetGauge name v ls)
  show ?thesis
    unfolding SetGauge otel_report.simps otel_direct.simps
    by (rule measured_direct [where upd = "\<lambda>ins. m\<lparr>om_gauges := ins\<rparr>", OF _ _ _ refl])
      (use assms in \<open>simp_all add: otel_ok_def\<close>)
next
  case (ObserveDuration name d ls)
  show ?thesis
    unfolding ObserveDuration otel_report.simps otel_direct.simps
    by (rule measured_direct [where upd = "\<lambda>ins. m\<lparr>om_histograms := ins\<rparr>", OF _ _ _ refl])
      (use assms in \<open>simp_all add: otel_ok_def\<close>)
qed

definition metric_names :: "string list" where
  "metric_names = map fst help_texts"

lemma instrument_names_distinct: "distinct (map instrument_name metric_names)"
  by code_simp

text \<open>
  The OpenTelemetry adapter reports what it is given. Any sequence of reports records, one by one,
  the measurement on the instrument of the metric's name with the attributes of its labels, as if
  nothing was cached; a report is dropped only when the instrument cannot be created. And no two metrics
  of ConsulX share an instrument name, although their suffixes are dropped.
\<close>

theorem otel_reports_exact:
  "otel_reports create xs new_otel = map (otel_direct create) xs \<and>
   distinct (map instrument_name metric_names)"
proof -
  have "otel_reports create xs m = map (otel_direct create) xs" if "otel_ok create m" for m
    using that
  proof (induction xs arbitrary: m)
    case (Cons x xs)
    then show ?case using otel_report_direct [OF Cons.prems, of x] Cons.IH [of "snd (otel_report create x m)"]
      by (cases "otel_report create x m") simp
  qed simp
  moreover have "otel_ok create new_otel" by (simp add: otel_ok_def new_otel_def instruments_ok_def)
  ultimately show ?thesis using instrument_names_distinct by blast
qed

end
