(* ===== verification/KVWatch.thy ===== *)
theory KVWatch
  imports Loading Blocking Winding
begin

text \<open>
  kvconfig/watch.go: the watcher that keeps a validated configuration. \<open>folder_step\<close> is the loop of
  \<open>watchPrefix\<close> for one folder, \<open>run_step\<close> the loop of \<open>run\<close>, \<open>kv_step\<close> interleaves them with the consumer
  and with the cancellation of the context. A step is the code between two operations on something
  shared (a channel, the current value, the context). The state has two parts the code does not: what
  was received and observed, and the counts of the signals sent and of those sent before the last
  reload began.
\<close>

subsection \<open>Deep equality\<close>

text \<open>\<open>reflect.DeepEqual\<close> of values that share nothing is equality, except that NaN is not equal to itself.\<close>

definition nan_free_scalar :: "scalar_value \<Rightarrow> bool" where
  "nan_free_scalar s \<longleftrightarrow> s \<noteq> SFloat NaN"

primrec nan_free :: "tree \<Rightarrow> bool" where
  "nan_free (Leaf s) = nan_free_scalar s"
| "nan_free (Items xs) = list_all (\<lambda>b. b) (map nan_free xs)"
| "nan_free (Node m) = fmpred (\<lambda>_ b. b) (fmmap nan_free m)"

definition tree_equal :: "object \<Rightarrow> object \<Rightarrow> bool" where
  "tree_equal a b \<longleftrightarrow> a = b \<and> fmpred (\<lambda>_. nan_free) a"

primrec nan_free_value :: "govalue \<Rightarrow> bool" where
  "nan_free_value (VString s) = True"
| "nan_free_value (VBool b) = True"
| "nan_free_value (VInt i) = True"
| "nan_free_value (VUint n) = True"
| "nan_free_value (VFloat f) = (f \<noteq> NaN)"
| "nan_free_value (VText s) = True"
| "nan_free_value (VPtr p) = pred_option (\<lambda>b. b) (map_option nan_free_value p)"
| "nan_free_value (VSlice xs) = pred_option (list_all (\<lambda>b. b)) (map_option (map nan_free_value) xs)"
| "nan_free_value (VMap m) = pred_option (fmpred (\<lambda>_ b. b)) (map_option (fmmap nan_free_value) m)"
| "nan_free_value (VStruct vs) = list_all (\<lambda>b. b) (map nan_free_value vs)"
| "nan_free_value (VAny t) = pred_option nan_free t"
| "nan_free_value (VOpaque n) = True"

definition deep_equal :: "govalue \<Rightarrow> govalue \<Rightarrow> bool" where
  "deep_equal a b \<longleftrightarrow> a = b \<and> nan_free_value a"

subsection \<open>One folder\<close>

datatype folder_pc = FwPace | FwPaced duration | FwRequest | FwBackoff duration | FwDone

record folder_watch =
  fw_folder :: string
  fw_pc :: folder_pc
  fw_limiter :: limiter
  fw_index :: "64 word"
  fw_hadKeys :: bool
  fw_failures :: int

type_synonym keys_answer = "(goerr, string list \<times> 64 word) outcome"

definition new_folder :: "loader \<Rightarrow> string \<Rightarrow> folder_watch" where
  "new_folder c folder =
     \<lparr>fw_folder = folder, fw_pc = FwPace, fw_limiter = new_limiter (ld_MinInterval c) 2,
      fw_index = 0, fw_hadKeys = False, fw_failures = 0\<rparr>"

text \<open>The timeout of a request, its wait index and its wait time.\<close>

definition folder_request :: "loader \<Rightarrow> folder_watch \<Rightarrow> duration \<times> 64 word \<times> duration" where
  "folder_request c fw =
     (request_timeout (ld_WaitTime c) (ld_RequestTimeout c), fw_index fw, ld_WaitTime c)"

definition folder_delay :: "loader \<Rightarrow> int \<Rightarrow> duration" where
  "folder_delay c n =
     (case ld_Retry c of
        None \<Rightarrow> 0
      | Some next \<Rightarrow> (let (d, ok) = next n in if ok then d else go_div (ld_WaitTime c) 10))"

definition folder_failure :: "loader \<Rightarrow> folder_watch \<Rightarrow> folder_watch" where
  "folder_failure c fw =
     (let n = fw_failures fw + 1 in fw\<lparr>fw_failures := n, fw_pc := FwBackoff (folder_delay c n)\<rparr>)"

text \<open>A response: the folder afterwards and whether it signals a change.\<close>

definition folder_response :: "string list \<Rightarrow> 64 word \<Rightarrow> folder_watch \<Rightarrow> folder_watch \<times> bool" where
  "folder_response keys last_index fw =
     (let prev = fw_index fw;
          index = next_index prev last_index;
          signal = (prev = 0 \<or> fw_failures fw > 0 \<or> index \<noteq> prev \<and> (keys \<noteq> [] \<or> fw_hadKeys fw))
      in (fw\<lparr>fw_index := index, fw_hadKeys := (keys \<noteq> []), fw_failures := 0, fw_pc := FwPace\<rparr>, signal))"

datatype folder_event =
    Paced gotime
  | TimerFires
  | CtxEnds
  | Answered keys_answer

text \<open>What a step of a folder does to the rest: nothing, a signal, or a failed request.\<close>

datatype folder_effect = Quiet | Signal | Failure goerr

text \<open>\<open>None\<close>: the step is not the next one of this goroutine.\<close>

definition folder_step ::
    "(f64 \<Rightarrow> int) \<Rightarrow> loader \<Rightarrow> bool \<Rightarrow> folder_event \<Rightarrow> folder_watch \<Rightarrow> (folder_watch \<times> folder_effect) option" where
  "folder_step oob c cancelled ev fw =
     (case (fw_pc fw, ev) of
        (FwPace, Paced now) \<Rightarrow>
          (let (w, l) = limiter_wait oob (fw_limiter fw) now;
               fw' = fw\<lparr>fw_limiter := l\<rparr>
           in Some (fw'\<lparr>fw_pc := (if 0 < w then FwPaced w else if cancelled then FwDone else FwRequest)\<rparr>, Quiet))
      | (FwPaced w, TimerFires) \<Rightarrow> Some (fw\<lparr>fw_pc := FwRequest\<rparr>, Quiet)
      | (FwPaced w, CtxEnds) \<Rightarrow> if cancelled then Some (fw\<lparr>fw_pc := FwDone\<rparr>, Quiet) else None
      | (FwRequest, Answered answer) \<Rightarrow>
          if cancelled then Some (fw\<lparr>fw_pc := FwDone\<rparr>, Quiet)
          else (case answer of
                  Inl err \<Rightarrow> Some (folder_failure c fw, Failure err)
                | Inr (keys, idx) \<Rightarrow>
                    (let (fw', signal) = folder_response keys idx fw
                     in Some (fw', if signal then Signal else Quiet)))
      | (FwBackoff d, TimerFires) \<Rightarrow> Some (fw\<lparr>fw_index := 0, fw_pc := FwPace\<rparr>, Quiet)
      | (FwBackoff d, CtxEnds) \<Rightarrow> if cancelled then Some (fw\<lparr>fw_pc := FwDone\<rparr>, Quiet) else None
      | _ \<Rightarrow> None)"

subsection \<open>The watcher\<close>

datatype run_pc =
    RunWait
  | RunCoalesce
  | RunReload
  | RunStore govalue
  | RunDrain govalue govalue
  | RunSend govalue govalue
  | RunNotify govalue govalue
  | RunStopping
  | RunJoin
  | RunDone
  | RunPanicked

record kv_watch =
  kw_current :: govalue
  kw_changes :: "govalue option"
  kw_errs :: "goerr option"
  kw_closed :: bool
  kw_cancelled :: bool
  kw_pc :: run_pc
  kw_changed :: bool
  kw_rejected :: "object option"
  kw_folders :: "folder_watch list"
  kw_calls :: "(govalue \<times> govalue) list"
  kw_observed :: "(string \<times> goerr option) list"
  kw_received :: "govalue list"
  kw_signals :: nat
  kw_answered :: nat
  kw_last :: "built option"

definition new_kv_watch :: "kv_env \<Rightarrow> govalue \<Rightarrow> kv_watch" where
  "new_kv_watch env first =
     \<lparr>kw_current = first, kw_changes = None, kw_errs = None, kw_closed = False, kw_cancelled = False,
      kw_pc = RunWait, kw_changed = False, kw_rejected = None,
      kw_folders = map (new_folder (ke_loader env)) (contexts (ke_loader env)),
      kw_calls = [], kw_observed = [], kw_received = [], kw_signals = 0, kw_answered = 0, kw_last = None\<rparr>"

text \<open>\<open>Watch\<close>: it fails when the first value cannot be built; \<open>None\<close> is a panic.\<close>

definition start_kv_watch ::
    "kv_env \<Rightarrow> watch_option list \<Rightarrow> gotype \<Rightarrow> (string \<Rightarrow> kv_answer) \<Rightarrow> kv_watch res option" where
  "start_kv_watch env opts t answers =
     (case build_value env (watch_options_of opts) t answers of
        None \<Rightarrow> None
      | Some (v, m, Some err) \<Rightarrow> Some (Inl err)
      | Some (v, m, None) \<Rightarrow> Some (Inr (new_kv_watch env v)))"

definition kv_publish_err :: "goerr \<Rightarrow> goerr option \<Rightarrow> goerr option" where
  "kv_publish_err err slot =
     (let drained = (case slot of Some _ \<Rightarrow> None | None \<Rightarrow> slot)
      in case drained of None \<Rightarrow> Some err | Some e \<Rightarrow> Some e)"

definition observe :: "string \<Rightarrow> goerr option \<Rightarrow> kv_watch \<Rightarrow> kv_watch" where
  "observe event err w = w\<lparr>kw_observed := kw_observed w @ [(event, err)]\<rparr>"

text \<open>What the loop does with the value it built.\<close>

definition after_build :: "built \<Rightarrow> kv_watch \<Rightarrow> kv_watch" where
  "after_build r w =
     (case r of
        (_, None, Some err) \<Rightarrow>
          (observe ''reload'' (Some err) w)\<lparr>kw_errs := kv_publish_err err (kw_errs w), kw_pc := RunWait\<rparr>
      | (_, Some m, Some err) \<Rightarrow>
          if (case kw_rejected w of None \<Rightarrow> False | Some m' \<Rightarrow> tree_equal m m') then w\<lparr>kw_pc := RunWait\<rparr>
          else (observe ''reject'' (Some err) w)
                 \<lparr>kw_rejected := Some m, kw_errs := kv_publish_err err (kw_errs w), kw_pc := RunWait\<rparr>
      | (v, _, None) \<Rightarrow>
          w\<lparr>kw_rejected := None, kw_pc := (if deep_equal (kw_current w) v then RunWait else RunStore v)\<rparr>)"

definition reload ::
    "kv_env \<Rightarrow> watch_options \<Rightarrow> gotype \<Rightarrow> (string \<Rightarrow> kv_answer) \<Rightarrow> kv_watch \<Rightarrow> kv_watch" where
  "reload env o' t answers w =
     (case build_value env o' t answers of
        None \<Rightarrow> w\<lparr>kw_pc := RunPanicked\<rparr>
      | Some r \<Rightarrow>
        if kw_cancelled w then w\<lparr>kw_pc := RunStopping\<rparr>
        else after_build r (w\<lparr>kw_last := Some r\<rparr>))"

datatype kv_event =
    Next "string \<Rightarrow> kv_answer"
  | TakeSignal
  | SeeDone
  | Folder nat folder_event
  | Receive
  | ReceiveErr
  | Cancel

text \<open>The step of \<open>run\<close> after the select, by program counter; the answers are for the reload.\<close>

definition run_step ::
    "kv_env \<Rightarrow> watch_options \<Rightarrow> gotype \<Rightarrow> (string \<Rightarrow> kv_answer) \<Rightarrow> kv_watch \<Rightarrow> kv_watch option" where
  "run_step env o' t answers w =
     (case kw_pc w of
        RunCoalesce \<Rightarrow>
          Some (if kw_changed w then w\<lparr>kw_changed := False\<rparr>
                else w\<lparr>kw_pc := RunReload, kw_answered := kw_signals w\<rparr>)
      | RunReload \<Rightarrow> Some (reload env o' t answers w)
      | RunStore v \<Rightarrow>
          Some ((observe ''reload'' None w)\<lparr>kw_current := v, kw_pc := RunDrain (kw_current w) v\<rparr>)
      | RunDrain old v \<Rightarrow> Some (w\<lparr>kw_changes := None, kw_pc := RunSend old v\<rparr>)
      | RunSend old v \<Rightarrow>
          (case kw_changes w of
             None \<Rightarrow> Some (w\<lparr>kw_changes := Some v, kw_pc := RunNotify old v\<rparr>)
           | Some _ \<Rightarrow> None)
      | RunNotify old v \<Rightarrow>
          Some (w\<lparr>kw_calls := kw_calls w @ (if wo_onChange o' then [(old, v)] else []), kw_pc := RunWait\<rparr>)
      | RunStopping \<Rightarrow> Some (w\<lparr>kw_cancelled := True, kw_pc := RunJoin\<rparr>)
      | RunJoin \<Rightarrow>
          if list_all (\<lambda>fw. fw_pc fw = FwDone) (kw_folders w)
          then Some (w\<lparr>kw_closed := True, kw_pc := RunDone\<rparr>) else None
      | _ \<Rightarrow> None)"

definition folder_effects :: "folder_effect \<Rightarrow> kv_watch \<Rightarrow> kv_watch" where
  "folder_effects eff w =
     (case eff of
        Quiet \<Rightarrow> w
      | Signal \<Rightarrow> w\<lparr>kw_changed := True, kw_signals := kw_signals w + 1\<rparr>
      | Failure err \<Rightarrow>
          (observe ''reload'' (Some err) w)\<lparr>kw_errs := kv_publish_err err (kw_errs w)\<rparr>)"

fun kv_step ::
    "(f64 \<Rightarrow> int) \<Rightarrow> kv_env \<Rightarrow> watch_options \<Rightarrow> gotype \<Rightarrow> kv_event \<Rightarrow> kv_watch \<Rightarrow> kv_watch option" where
  "kv_step oob env o' t (Next answers) w = run_step env o' t answers w"
| "kv_step oob env o' t TakeSignal w =
     (if kw_pc w = RunWait \<and> kw_changed w then Some (w\<lparr>kw_changed := False, kw_pc := RunCoalesce\<rparr>) else None)"
| "kv_step oob env o' t SeeDone w =
     (if kw_pc w = RunWait \<and> kw_cancelled w then Some (w\<lparr>kw_pc := RunStopping\<rparr>) else None)"
| "kv_step oob env o' t (Folder i ev) w =
     (if i < length (kw_folders w)
      then (case folder_step oob (ke_loader env) (kw_cancelled w) ev (kw_folders w ! i) of
              None \<Rightarrow> None
            | Some (fw, eff) \<Rightarrow>
                Some (folder_effects eff (w\<lparr>kw_folders := (kw_folders w)[i := fw]\<rparr>)))
      else None)"
| "kv_step oob env o' t Receive w =
     (case kw_changes w of
        None \<Rightarrow> None
      | Some v \<Rightarrow> Some (w\<lparr>kw_changes := None, kw_received := kw_received w @ [v]\<rparr>))"
| "kv_step oob env o' t ReceiveErr w =
     (case kw_errs w of None \<Rightarrow> None | Some e \<Rightarrow> Some (w\<lparr>kw_errs := None\<rparr>))"
| "kv_step oob env o' t Cancel w = Some (w\<lparr>kw_cancelled := True\<rparr>)"

text \<open>The states reached from a watcher whose first value is \<open>v0\<close>.\<close>

inductive kv_reachable ::
    "(f64 \<Rightarrow> int) \<Rightarrow> kv_env \<Rightarrow> watch_option list \<Rightarrow> gotype \<Rightarrow> govalue \<Rightarrow> kv_watch \<Rightarrow> bool"
  for oob env opts t v0 where
  start: "start_kv_watch env opts t answers = Some (Inr w) \<Longrightarrow> kw_current w = v0 \<Longrightarrow>
    kv_reachable oob env opts t v0 w"
| step: "kv_reachable oob env opts t v0 w \<Longrightarrow>
    kv_step oob env (watch_options_of opts) t ev w = Some w' \<Longrightarrow> kv_reachable oob env opts t v0 w'"

lemma start_kv_watch_Inr:
  "start_kv_watch env opts t answers = Some (Inr w) \<longleftrightarrow>
     (\<exists>v m. build_value env (watch_options_of opts) t answers = Some (v, m, None) \<and> w = new_kv_watch env v)"
  by (auto simp: start_kv_watch_def split: option.splits)

lemma kv_publish_err_Some [simp]: "kv_publish_err err slot = Some err"
  by (simp add: kv_publish_err_def Let_def split: option.splits)

lemma tree_equalD: "tree_equal a b \<Longrightarrow> a = b"
  by (simp add: tree_equal_def)

lemma deep_equalD: "deep_equal a b \<Longrightarrow> a = b"
  by (simp add: deep_equal_def)

subsection \<open>What a consumer can rely on\<close>

definition accepted :: "kv_env \<Rightarrow> watch_options \<Rightarrow> gotype \<Rightarrow> govalue \<Rightarrow> bool" where
  "accepted env o' t v \<longleftrightarrow> (\<exists>answers m. build_value env o' t answers = Some (v, m, None))"

fun publishing :: "run_pc \<Rightarrow> bool" where
  "publishing (RunDrain old v) = True"
| "publishing (RunSend old v) = True"
| "publishing _ = False"

text \<open>The value the last reload brought is the current one, and the tree it rejected is remembered.\<close>

definition reflects :: "govalue \<Rightarrow> kv_watch \<Rightarrow> bool" where
  "reflects v0 w \<longleftrightarrow>
     (case kw_last w of
        None \<Rightarrow> kw_current w = v0
      | Some (v, m, None) \<Rightarrow> kw_current w = v \<and> kw_rejected w = None
      | Some (v, Some m, Some err) \<Rightarrow> kw_rejected w = Some m
      | Some (v, None, Some err) \<Rightarrow> True)"

definition kv_values_ok :: "kv_env \<Rightarrow> watch_options \<Rightarrow> gotype \<Rightarrow> kv_watch \<Rightarrow> bool" where
  "kv_values_ok env o' t w \<longleftrightarrow>
     accepted env o' t (kw_current w) \<and> pred_option (accepted env o' t) (kw_changes w) \<and>
     list_all (accepted env o' t) (kw_received w) \<and>
     (case kw_pc w of RunStore v \<Rightarrow> accepted env o' t v | _ \<Rightarrow> True)"

definition kv_slot_ok :: "govalue \<Rightarrow> kv_watch \<Rightarrow> bool" where
  "kv_slot_ok v0 w \<longleftrightarrow>
     (case kw_pc w of
        RunDrain old v \<Rightarrow> v = kw_current w
      | RunSend old v \<Rightarrow> v = kw_current w \<and> kw_changes w = None
      | _ \<Rightarrow> (case kw_changes w of None \<Rightarrow> last (v0 # kw_received w) = kw_current w | Some v \<Rightarrow> v = kw_current w))"

definition kv_last_ok :: "govalue \<Rightarrow> kv_watch \<Rightarrow> bool" where
  "kv_last_ok v0 w \<longleftrightarrow>
     (case kw_pc w of
        RunStore v \<Rightarrow> (\<exists>m. kw_last w = Some (v, m, None)) \<and> kw_rejected w = None
      | _ \<Rightarrow> reflects v0 w)"

definition kv_signals_ok :: "kv_watch \<Rightarrow> bool" where
  "kv_signals_ok w \<longleftrightarrow>
     kw_answered w \<le> kw_signals w \<and>
     (kw_answered w < kw_signals w \<longrightarrow> kw_changed w \<or> kw_pc w = RunCoalesce) \<and>
     (kw_pc w = RunWait \<or> kw_pc w = RunCoalesce \<longrightarrow> 0 < kw_answered w \<longrightarrow> kw_last w \<noteq> None) \<and>
     (\<forall>v. kw_pc w = RunStore v \<longrightarrow> kw_last w \<noteq> None) \<and>
     (\<forall>old v. kw_pc w = RunDrain old v \<or> kw_pc w = RunSend old v \<or> kw_pc w = RunNotify old v \<longrightarrow> kw_last w \<noteq> None)"

lemma build_value_tree: "build_value env o' t answers = Some (v, m, None) \<Longrightarrow> m \<noteq> None"
  by (rule build_value_accepted)

text \<open>The steps of the run loop, one case per way they can go.\<close>

inductive run_move ::
    "kv_env \<Rightarrow> watch_options \<Rightarrow> gotype \<Rightarrow> kv_watch \<Rightarrow> kv_watch \<Rightarrow> bool"
  for env o' t w where
  drain_signal: "kw_pc w = RunCoalesce \<Longrightarrow> kw_changed w \<Longrightarrow> run_move env o' t w (w\<lparr>kw_changed := False\<rparr>)"
| begin_reload: "kw_pc w = RunCoalesce \<Longrightarrow> \<not> kw_changed w \<Longrightarrow>
    run_move env o' t w (w\<lparr>kw_pc := RunReload, kw_answered := kw_signals w\<rparr>)"
| panic: "kw_pc w = RunReload \<Longrightarrow> build_value env o' t answers = None \<Longrightarrow>
    run_move env o' t w (w\<lparr>kw_pc := RunPanicked\<rparr>)"
| cancelled: "kw_pc w = RunReload \<Longrightarrow> kw_cancelled w \<Longrightarrow> run_move env o' t w (w\<lparr>kw_pc := RunStopping\<rparr>)"
| unread: "kw_pc w = RunReload \<Longrightarrow> \<not> kw_cancelled w \<Longrightarrow>
    build_value env o' t answers = Some (v, None, Some err) \<Longrightarrow>
    run_move env o' t w
      (w\<lparr>kw_last := Some (v, None, Some err), kw_observed := kw_observed w @ [(''reload'', Some err)],
         kw_errs := Some err, kw_pc := RunWait\<rparr>)"
| rejected_again: "kw_pc w = RunReload \<Longrightarrow> \<not> kw_cancelled w \<Longrightarrow>
    build_value env o' t answers = Some (v, Some m, Some err) \<Longrightarrow> kw_rejected w = Some m \<Longrightarrow> tree_equal m m \<Longrightarrow>
    run_move env o' t w (w\<lparr>kw_last := Some (v, Some m, Some err), kw_pc := RunWait\<rparr>)"
| rejected: "kw_pc w = RunReload \<Longrightarrow> \<not> kw_cancelled w \<Longrightarrow>
    build_value env o' t answers = Some (v, Some m, Some err) \<Longrightarrow>
    kw_rejected w \<noteq> Some m \<or> \<not> tree_equal m m \<Longrightarrow>
    run_move env o' t w
      (w\<lparr>kw_last := Some (v, Some m, Some err), kw_observed := kw_observed w @ [(''reject'', Some err)],
         kw_rejected := Some m, kw_errs := Some err, kw_pc := RunWait\<rparr>)"
| unchanged: "kw_pc w = RunReload \<Longrightarrow> \<not> kw_cancelled w \<Longrightarrow>
    build_value env o' t answers = Some (kw_current w, m, None) \<Longrightarrow> nan_free_value (kw_current w) \<Longrightarrow>
    run_move env o' t w (w\<lparr>kw_last := Some (kw_current w, m, None), kw_rejected := None, kw_pc := RunWait\<rparr>)"
| valid: "kw_pc w = RunReload \<Longrightarrow> \<not> kw_cancelled w \<Longrightarrow>
    build_value env o' t answers = Some (v, m, None) \<Longrightarrow> \<not> deep_equal (kw_current w) v \<Longrightarrow>
    run_move env o' t w (w\<lparr>kw_last := Some (v, m, None), kw_rejected := None, kw_pc := RunStore v\<rparr>)"
| store: "kw_pc w = RunStore v \<Longrightarrow>
    run_move env o' t w
      (w\<lparr>kw_observed := kw_observed w @ [(''reload'', None)], kw_current := v, kw_pc := RunDrain (kw_current w) v\<rparr>)"
| drain: "kw_pc w = RunDrain old v \<Longrightarrow> run_move env o' t w (w\<lparr>kw_changes := None, kw_pc := RunSend old v\<rparr>)"
| send: "kw_pc w = RunSend old v \<Longrightarrow> kw_changes w = None \<Longrightarrow>
    run_move env o' t w (w\<lparr>kw_changes := Some v, kw_pc := RunNotify old v\<rparr>)"
| notify: "kw_pc w = RunNotify old v \<Longrightarrow>
    run_move env o' t w
      (w\<lparr>kw_calls := kw_calls w @ (if wo_onChange o' then [(old, v)] else []), kw_pc := RunWait\<rparr>)"
| stopping: "kw_pc w = RunStopping \<Longrightarrow> run_move env o' t w (w\<lparr>kw_cancelled := True, kw_pc := RunJoin\<rparr>)"
| join: "kw_pc w = RunJoin \<Longrightarrow> list_all (\<lambda>fw. fw_pc fw = FwDone) (kw_folders w) \<Longrightarrow>
    run_move env o' t w (w\<lparr>kw_closed := True, kw_pc := RunDone\<rparr>)"
| take_signal: "kw_pc w = RunWait \<Longrightarrow> kw_changed w \<Longrightarrow>
    run_move env o' t w (w\<lparr>kw_changed := False, kw_pc := RunCoalesce\<rparr>)"
| see_done: "kw_pc w = RunWait \<Longrightarrow> kw_cancelled w \<Longrightarrow> run_move env o' t w (w\<lparr>kw_pc := RunStopping\<rparr>)"

lemma after_build_valid [simp]:
  "after_build (v, m, None) w =
     w\<lparr>kw_rejected := None, kw_pc := (if deep_equal (kw_current w) v then RunWait else RunStore v)\<rparr>"
  by (cases m) (simp_all add: after_build_def)

lemma reload_move: "kw_pc w = RunReload \<Longrightarrow> run_move env o' t w (reload env o' t answers w)"
proof -
  assume pc: "kw_pc w = RunReload"
  show ?thesis
  proof (cases "build_value env o' t answers")
    case None
    then show ?thesis using panic [OF pc None] by (simp add: reload_def)
  next
    case (Some r)
    obtain v m err where r: "r = (v, m, err)" by (cases r)
    note b = Some [unfolded r]
    show ?thesis
    proof (cases "kw_cancelled w")
      case True
      then show ?thesis using cancelled [OF pc True] Some by (simp add: reload_def)
    next
      case no: False
      show ?thesis
      proof (cases err)
        case None
        note b = b [unfolded None]
        show ?thesis
        proof (cases "deep_equal (kw_current w) v")
          case True
          then have "v = kw_current w" "nan_free_value (kw_current w)" by (auto simp: deep_equal_def)
          then show ?thesis using unchanged [OF pc no, of env o' t answers m] b True no
            by (simp add: reload_def)
        qed (use valid [OF pc no b] b no in \<open>simp add: reload_def\<close>)
      next
        case (Some e)
        note b = b [unfolded Some]
        show ?thesis
        proof (cases m)
          case None
          show ?thesis using unread [OF pc no b [unfolded None]] b no
            by (simp add: reload_def after_build_def observe_def None)
        next
          case (Some m')
          note b = b [unfolded Some]
          show ?thesis
          proof (cases "kw_rejected w = Some m' \<and> tree_equal m' m'")
            case True
            then show ?thesis using rejected_again [OF pc no b] b no by (simp add: reload_def after_build_def)
          next
            case False
            then have "\<not> (case kw_rejected w of None \<Rightarrow> False | Some m'' \<Rightarrow> tree_equal m' m'')"
              by (auto dest: tree_equalD split: option.splits)
            then show ?thesis using rejected [OF pc no b] False b no
              by (simp add: reload_def after_build_def observe_def)
          qed
        qed
      qed
    qed
  qed
qed

lemma run_step_move: "run_step env o' t answers w = Some w' \<Longrightarrow> run_move env o' t w w'"
proof (cases "kw_pc w")
  case (RunNotify old v)
  assume "run_step env o' t answers w = Some w'"
  then show ?thesis using notify [OF RunNotify, of env o' t] by (simp add: run_step_def RunNotify)
qed (auto simp: run_step_def observe_def reload_move split: option.splits if_splits intro: run_move.intros)

inductive kv_move ::
    "(f64 \<Rightarrow> int) \<Rightarrow> kv_env \<Rightarrow> watch_options \<Rightarrow> gotype \<Rightarrow> kv_watch \<Rightarrow> kv_watch \<Rightarrow> bool"
  for oob env o' t w where
  run: "run_move env o' t w w' \<Longrightarrow> kv_move oob env o' t w w'"
| quiet: "kv_move oob env o' t w (w\<lparr>kw_folders := fws\<rparr>)"
| signal: "kv_move oob env o' t w (w\<lparr>kw_folders := fws, kw_changed := True, kw_signals := Suc (kw_signals w)\<rparr>)"
| failure: "kv_move oob env o' t w
    (w\<lparr>kw_folders := fws, kw_observed := kw_observed w @ [(''reload'', Some err)], kw_errs := Some err\<rparr>)"
| receive: "kw_changes w = Some v \<Longrightarrow>
    kv_move oob env o' t w (w\<lparr>kw_changes := None, kw_received := kw_received w @ [v]\<rparr>)"
| receive_err: "kv_move oob env o' t w (w\<lparr>kw_errs := None\<rparr>)"
| cancel: "kv_move oob env o' t w (w\<lparr>kw_cancelled := True\<rparr>)"

lemma kv_step_move: "kv_step oob env o' t ev w = Some w' \<Longrightarrow> kv_move oob env o' t w w'"
proof (cases ev)
  case (Folder i fev)
  assume "kv_step oob env o' t ev w = Some w'"
  then obtain fw eff where "w' = folder_effects eff (w\<lparr>kw_folders := (kw_folders w)[i := fw]\<rparr>)"
    by (auto simp: Folder split: if_splits option.splits)
  then show ?thesis
    by (cases eff) (auto simp: folder_effects_def observe_def intro: kv_move.intros)
qed (auto intro: run kv_move.intros run_move.intros run_step_move split: option.splits if_splits)

lemma kv_reachable_induct [consumes 1, case_names start move]:
  assumes "kv_reachable oob env opts t v0 w"
    and "accepted env (watch_options_of opts) t v0 \<Longrightarrow> P (new_kv_watch env v0)"
    and "\<And>w w'. kv_reachable oob env opts t v0 w \<Longrightarrow> P w \<Longrightarrow> kv_move oob env (watch_options_of opts) t w w' \<Longrightarrow> P w'"
  shows "P w"
  using assms(1)
proof induction
  case (start answers w)
  then obtain m where "build_value env (watch_options_of opts) t answers = Some (v0, m, None)" "w = new_kv_watch env v0"
    by (auto simp: start_kv_watch_Inr) (simp add: new_kv_watch_def)
  then show ?case using assms(2) by (auto simp: accepted_def)
next
  case (step w ev w')
  then show ?case using assms(3) kv_step_move by blast
qed

lemma kv_values_step:
  "kv_move oob env o' t w w' \<Longrightarrow> kv_values_ok env o' t w \<Longrightarrow> kv_slot_ok v0 w \<Longrightarrow> kv_values_ok env o' t w'"
  by (elim kv_move.cases run_move.cases) (auto simp: kv_values_ok_def accepted_def kv_slot_ok_def)

lemma kv_slot_step: "kv_move oob env o' t w w' \<Longrightarrow> kv_slot_ok v0 w \<Longrightarrow> kv_slot_ok v0 w'"
  by (elim kv_move.cases run_move.cases) (auto simp: kv_slot_ok_def split: run_pc.splits option.splits)

lemma kv_last_step: "kv_move oob env o' t w w' \<Longrightarrow> kv_last_ok v0 w \<Longrightarrow> kv_last_ok v0 w'"
  by (elim kv_move.cases run_move.cases)
    (auto simp: kv_last_ok_def reflects_def dest: build_value_tree split: run_pc.splits option.splits)

lemma kv_signals_step: "kv_move oob env o' t w w' \<Longrightarrow> kv_signals_ok w \<Longrightarrow> kv_signals_ok w'"
  by (elim kv_move.cases run_move.cases) (auto simp: kv_signals_ok_def)

lemma kv_invariants:
  assumes "kv_reachable oob env opts t v0 w"
  shows "kv_values_ok env (watch_options_of opts) t w \<and> kv_slot_ok v0 w \<and> kv_last_ok v0 w \<and> kv_signals_ok w"
  using assms
proof (induction rule: kv_reachable_induct)
  case start
  then show ?case
    by (simp add: kv_values_ok_def kv_slot_ok_def kv_last_ok_def kv_signals_ok_def reflects_def new_kv_watch_def)
next
  case (move w w')
  then show ?case using kv_values_step kv_slot_step kv_last_step kv_signals_step by metis
qed

text \<open>
  C7. Readers only ever see good values. The current value, the unread change and every change received
  has the Go type of the configuration and passed its \<open>Validate\<close> and the validator of the watch. Outside
  of the two steps in which a new value is put in the channel, the unread change is the current value,
  and when there is none the last value received (or the first one) is the current one: a slow reader
  gets the latest value, and no value gets lost. The send never blocks.
\<close>

theorem kv_consumer_view:
  assumes "kv_reachable oob env opts t v0 w"
  shows "(\<forall>v. v = kw_current w \<or> v \<in> set (kw_received w) \<or> kw_changes w = Some v \<longrightarrow>
        typed t v \<and> (\<forall>check. ke_Validate env = Some check \<longrightarrow> check (VPtr (Some v)) = None) \<and>
        (\<forall>check. wo_validate (watch_options_of opts) = Some check \<longrightarrow> check v = None)) \<and>
     (\<not> publishing (kw_pc w) \<longrightarrow>
       (case kw_changes w of
          None \<Rightarrow> last (v0 # kw_received w) = kw_current w
        | Some v \<Rightarrow> v = kw_current w)) \<and>
     (\<forall>old v. kw_pc w = RunSend old v \<longrightarrow> kw_changes w = None)"
proof -
  have good: "typed t v \<and> (\<forall>check. ke_Validate env = Some check \<longrightarrow> check (VPtr (Some v)) = None) \<and>
        (\<forall>check. wo_validate (watch_options_of opts) = Some check \<longrightarrow> check v = None)"
    if "accepted env (watch_options_of opts) t v" for v
    using that build_value_accepted unfolding accepted_def validate_None_iff [symmetric] by metis
  note inv = kv_invariants [OF assms]
  show ?thesis
  proof (intro conjI)
    show "\<forall>v. v = kw_current w \<or> v \<in> set (kw_received w) \<or> kw_changes w = Some v \<longrightarrow>
        typed t v \<and> (\<forall>check. ke_Validate env = Some check \<longrightarrow> check (VPtr (Some v)) = None) \<and>
        (\<forall>check. wo_validate (watch_options_of opts) = Some check \<longrightarrow> check v = None)"
      using inv good by (auto simp: kv_values_ok_def list_all_iff)
    show "\<not> publishing (kw_pc w) \<longrightarrow>
       (case kw_changes w of None \<Rightarrow> last (v0 # kw_received w) = kw_current w | Some v \<Rightarrow> v = kw_current w)"
      using inv by (cases "kw_pc w") (simp_all add: kv_slot_ok_def)
    show "\<forall>old v. kw_pc w = RunSend old v \<longrightarrow> kw_changes w = None"
      using inv by (auto simp: kv_slot_ok_def)
  qed
qed

text \<open>
  C10. No signal is lost. While a signal of a folder has not been answered by a reload that began after
  it, the loop has another reload to make: the signal is pending, or it has been taken and the reload
  begins next. So when the loop waits with no signal pending, the last reload began after every signal,
  and the watcher shows what that reload found: its value is current if it was valid, and its tree is
  the rejected one if it was not.
\<close>

theorem kv_no_signal_lost:
  assumes "kv_reachable oob env opts t v0 w"
  shows "(kw_answered w < kw_signals w \<longrightarrow> kw_changed w \<or> kw_pc w = RunCoalesce) \<and>
     (kw_pc w = RunWait \<and> \<not> kw_changed w \<longrightarrow>
        kw_answered w = kw_signals w \<and>
        (case kw_last w of
           None \<Rightarrow> kw_signals w = 0 \<and> kw_current w = v0
         | Some (v, m, None) \<Rightarrow> kw_current w = v \<and> kw_rejected w = None
         | Some (v, Some m, Some err) \<Rightarrow> kw_rejected w = Some m
         | Some (v, None, Some err) \<Rightarrow> True))"
  using kv_invariants [OF assms]
  by (cases "kw_pc w") (auto simp: kv_signals_ok_def kv_last_ok_def reflects_def split: option.splits)

subsection \<open>Rejections\<close>

definition rejects :: "kv_watch \<Rightarrow> nat" where
  "rejects w = length (filter (\<lambda>(event, err). event = ''reject'') (kw_observed w))"

definition read_failures :: "kv_watch \<Rightarrow> nat" where
  "read_failures w = length (filter (\<lambda>(event, err). event = ''reload'' \<and> err \<noteq> None) (kw_observed w))"

fun rejection_of :: "object \<Rightarrow> built \<Rightarrow> bool" where
  "rejection_of m (v, m', err) = (m' = Some m \<and> err \<noteq> None)"

fun unread_build :: "built \<Rightarrow> bool" where
  "unread_build (v, m, err) = (m = None \<and> err \<noteq> None)"

lemma after_build_unread:
  "unread_build r \<Longrightarrow>
     kw_current (after_build r w) = kw_current w \<and> kw_changes (after_build r w) = kw_changes w \<and>
     kw_calls (after_build r w) = kw_calls w \<and> kw_rejected (after_build r w) = kw_rejected w \<and>
     rejects (after_build r w) = rejects w \<and> read_failures (after_build r w) = Suc (read_failures w)"
  by (cases r) (auto simp: after_build_def observe_def rejects_def read_failures_def split: option.splits)

lemma after_build_rejection:
  "rejection_of m r \<Longrightarrow>
     kw_current (after_build r w) = kw_current w \<and> kw_changes (after_build r w) = kw_changes w \<and>
     kw_calls (after_build r w) = kw_calls w \<and> kw_rejected (after_build r w) = Some m \<and>
     read_failures (after_build r w) = read_failures w \<and>
     rejects (after_build r w) =
       rejects w + (if kw_rejected w = Some m \<and> tree_equal m m then 0 else 1)"
  by (cases r) (auto simp: after_build_def observe_def rejects_def read_failures_def dest: tree_equalD
      split: option.splits)

text \<open>
  While the store holds one configuration that is rejected, every folder watcher may ask for it to be
  built again, and some reads may fail: the value stays, no change is delivered, no callback runs, each
  failed read is reported, and the rejection is reported once, or not at all if that state is the one
  rejected last. It is reported every time when the tree holds a NaN, which is not equal to itself.
\<close>

theorem rejected_once:
  assumes "\<forall>r\<in>set rs. rejection_of m r \<or> unread_build r"
  shows "let w' = fold after_build rs w; n = length (filter (rejection_of m) rs)
    in kw_current w' = kw_current w \<and> kw_changes w' = kw_changes w \<and> kw_calls w' = kw_calls w \<and>
       read_failures w' = read_failures w + length (filter unread_build rs) \<and>
       rejects w' = rejects w +
         (if tree_equal m m then (if n = 0 \<or> kw_rejected w = Some m then 0 else 1) else n)"
  using assms
proof (induction rs arbitrary: w)
  case (Cons r rs)
  show ?case
  proof (cases "rejection_of m r")
    case True
    then have "\<not> unread_build r" by (cases r) auto
    then show ?thesis using Cons.IH [of "after_build r w"] Cons.prems after_build_rejection [OF True, of w] True
      by (auto simp: Let_def)
  next
    case False
    then have u: "unread_build r" using Cons.prems by simp
    then show ?thesis using Cons.IH [of "after_build r w"] Cons.prems after_build_unread [OF u, of w] False
      by (auto simp: Let_def)
  qed
qed (simp add: Let_def)

subsection \<open>The end of the watch\<close>

fun goroutine_step :: "kv_event \<Rightarrow> bool" where
  "goroutine_step (Next answers) = True"
| "goroutine_step TakeSignal = True"
| "goroutine_step SeeDone = True"
| "goroutine_step (Folder i ev) = True"
| "goroutine_step _ = False"

fun run_weight :: "run_pc \<Rightarrow> nat" where
  "run_weight (RunStore v) = 9"
| "run_weight (RunDrain old v) = 8"
| "run_weight (RunSend old v) = 7"
| "run_weight (RunNotify old v) = 6"
| "run_weight RunWait = 5"
| "run_weight RunCoalesce = 4"
| "run_weight RunReload = 3"
| "run_weight RunStopping = 2"
| "run_weight RunJoin = 1"
| "run_weight RunDone = 0"
| "run_weight RunPanicked = 0"

fun folder_weight :: "folder_pc \<Rightarrow> nat" where
  "folder_weight (FwBackoff d) = 4"
| "folder_weight FwPace = 3"
| "folder_weight (FwPaced w) = 2"
| "folder_weight FwRequest = 1"
| "folder_weight FwDone = 0"

definition kv_weight :: "kv_watch \<Rightarrow> nat" where
  "kv_weight w = run_weight (kw_pc w) + (if kw_changed w then 1 else 0) +
     sum_list (map (\<lambda>fw. folder_weight (fw_pc fw)) (kw_folders w))"

definition kv_cancelled :: "kv_watch \<Rightarrow> bool" where
  "kv_cancelled w \<longleftrightarrow> kw_cancelled w \<and> (\<forall>old v. kw_pc w = RunSend old v \<longrightarrow> kw_changes w = None)"

definition kv_ended :: "kv_watch \<Rightarrow> bool" where
  "kv_ended w \<longleftrightarrow> kw_pc w = RunDone \<or> kw_pc w = RunPanicked"

text \<open>A cancelled folder neither signals nor fails any more, and each step brings it closer to its end.\<close>

lemma folder_step_cancelled:
  "folder_step oob c True ev fw = Some (fw', eff) \<Longrightarrow>
     eff = Quiet \<and> folder_weight (fw_pc fw') < folder_weight (fw_pc fw)"
  by (auto simp: folder_step_def Let_def split: folder_pc.splits folder_event.splits prod.splits if_splits)

lemma folder_step_enabled:
  "fw_pc fw \<noteq> FwDone \<Longrightarrow> \<exists>ev fw' eff. folder_step oob c True ev fw = Some (fw', eff)"
proof (cases "fw_pc fw")
  case FwPace
  have "folder_step oob c True (Paced 0) fw \<noteq> None"
    by (simp add: folder_step_def FwPace Let_def del: not_None_eq split: prod.splits)
  then show ?thesis by fastforce
next
  case (FwPaced w)
  have "folder_step oob c True CtxEnds fw \<noteq> None" by (simp add: folder_step_def FwPaced)
  then show ?thesis by fastforce
next
  case FwRequest
  have "folder_step oob c True (Answered undefined) fw \<noteq> None" by (simp add: folder_step_def FwRequest)
  then show ?thesis by fastforce
next
  case (FwBackoff d)
  have "folder_step oob c True CtxEnds fw \<noteq> None" by (simp add: folder_step_def FwBackoff)
  then show ?thesis by fastforce
qed simp

lemma folder_weight_update:
  assumes "i < length fws" "folder_weight (fw_pc fw) < folder_weight (fw_pc (fws ! i))"
  shows "sum_list (map (\<lambda>fw. folder_weight (fw_pc fw)) (fws[i := fw])) <
    sum_list (map (\<lambda>fw. folder_weight (fw_pc fw)) fws)"
proof -
  let ?ns = "map (\<lambda>fw. folder_weight (fw_pc fw)) fws"
  have "?ns ! i \<le> sum_list ?ns" using assms(1) by (intro elem_le_sum_list) simp
  then show ?thesis using assms by (simp add: map_update sum_list_update)
qed

lemma folder_weight_le: "folder_weight pc \<le> 4"
  by (cases pc) simp_all

lemma folder_weights_le: "sum_list (map (\<lambda>fw. folder_weight (fw_pc fw)) (fws :: folder_watch list)) \<le> 4 * length fws"
proof (induction fws)
  case (Cons fw fws)
  then show ?case using folder_weight_le [of "fw_pc fw"] by simp
qed simp

lemma run_move_weight: "run_move env o' t w w' \<Longrightarrow> kw_cancelled w \<Longrightarrow> kv_weight w' < kv_weight w"
  by (elim run_move.cases) (auto simp: kv_weight_def)

lemma kv_step_cases:
  assumes "kv_step oob env o' t ev w = Some w'" "goroutine_step ev"
  obtains "run_move env o' t w w'"
  | i fev fw eff where "ev = Folder i fev" "i < length (kw_folders w)"
    "folder_step oob (ke_loader env) (kw_cancelled w) fev (kw_folders w ! i) = Some (fw, eff)"
    "w' = folder_effects eff (w\<lparr>kw_folders := (kw_folders w)[i := fw]\<rparr>)"
  using assms
  by (cases ev) (auto intro: run_step_move take_signal see_done split: if_splits option.splits)

lemma kv_own_less:
  assumes "kv_step oob env o' t ev w = Some w'" "goroutine_step ev" "kw_cancelled w"
  shows "kv_weight w' < kv_weight w"
  using assms(1,2)
proof (cases rule: kv_step_cases)
  case (2 i fev fw eff)
  then have "eff = Quiet" "folder_weight (fw_pc fw) < folder_weight (fw_pc (kw_folders w ! i))"
    using folder_step_cancelled assms(3) by simp_all
  then show ?thesis using folder_weight_update [OF 2(2)] 2(4) by (simp add: kv_weight_def folder_effects_def)
qed (use run_move_weight assms(3) in blast)

lemma kv_cancelled_step: "kv_step oob env o' t ev w = Some w' \<Longrightarrow> kv_cancelled w \<Longrightarrow> kv_cancelled w'"
  by (drule kv_step_move, elim kv_move.cases run_move.cases) (auto simp: kv_cancelled_def)

lemma kv_next_enabled:
  assumes "kv_cancelled w" "\<not> kv_ended w"
  shows "\<exists>ev w'. goroutine_step ev \<and> kv_step oob env o' t ev w = Some w'"
proof (cases "kw_pc w = RunJoin \<and> \<not> list_all (\<lambda>fw. fw_pc fw = FwDone) (kw_folders w)")
  case True
  then obtain i where i: "i < length (kw_folders w)" "fw_pc (kw_folders w ! i) \<noteq> FwDone"
    by (auto simp: list_all_length)
  obtain fev fw eff where
    "folder_step oob (ke_loader env) True fev (kw_folders w ! i) = Some (fw, eff)"
    using folder_step_enabled [OF i(2)] by blast
  then have "goroutine_step (Folder i fev) \<and> kv_step oob env o' t (Folder i fev) w \<noteq> None"
    using i(1) assms(1) by (simp add: kv_cancelled_def)
  then show ?thesis by blast
next
  case False
  show ?thesis
  proof (cases "kw_pc w = RunWait")
    case True
    then have "goroutine_step SeeDone \<and> kv_step oob env o' t SeeDone w \<noteq> None"
      using assms(1) by (simp add: kv_cancelled_def)
    then show ?thesis by blast
  next
    case no: False
    have "goroutine_step (Next answers) \<and> kv_step oob env o' t (Next answers) w \<noteq> None" for answers
      using False no assms
      by (cases "kw_pc w") (auto simp: run_step_def kv_cancelled_def kv_ended_def)
    then show ?thesis by blast
  qed
qed

interpretation kv_end: winding_down "kv_step oob env o' t" goroutine_step kv_cancelled kv_ended kv_weight
  for oob env o' t
proof
  fix w ev w'
  show "kv_cancelled w \<Longrightarrow> kv_step oob env o' t ev w = Some w' \<Longrightarrow> kv_cancelled w'"
    by (rule kv_cancelled_step)
  show "kv_cancelled w \<Longrightarrow> goroutine_step ev \<Longrightarrow> kv_step oob env o' t ev w = Some w' \<Longrightarrow> kv_weight w' < kv_weight w"
    using kv_own_less by (simp add: kv_cancelled_def)
  show "kv_cancelled w \<Longrightarrow> \<not> goroutine_step ev \<Longrightarrow> kv_step oob env o' t ev w = Some w' \<Longrightarrow> kv_weight w' \<le> kv_weight w"
    by (cases ev) (auto simp: kv_weight_def split: option.splits)
  show "kv_cancelled w \<Longrightarrow> \<not> kv_ended w \<Longrightarrow> \<exists>ev w'. goroutine_step ev \<and> kv_step oob env o' t ev w = Some w'"
    by (rule kv_next_enabled)
qed

primrec kv_run ::
    "(f64 \<Rightarrow> int) \<Rightarrow> kv_env \<Rightarrow> watch_options \<Rightarrow> gotype \<Rightarrow> kv_event list \<Rightarrow> kv_watch \<Rightarrow> kv_watch option" where
  "kv_run oob env o' t [] w = Some w"
| "kv_run oob env o' t (ev # evs) w = Option.bind (kv_step oob env o' t ev w) (kv_run oob env o' t evs)"

lemma kv_run_steps: "kv_run oob env o' t evs w = kv_end.steps oob env o' t evs w"
  by (induction evs arbitrary: w) (simp_all add: fun_eq_iff cong: Option.bind_cong)

lemma kv_run_reachable:
  "kv_run oob env (watch_options_of opts) t evs w = Some w' \<Longrightarrow> kv_reachable oob env opts t v0 w \<Longrightarrow>
   kv_reachable oob env opts t v0 w'"
  by (induction evs arbitrary: w) (auto intro: kv_reachable.step split: bind_splits)

definition kv_closed_ok :: "kv_watch \<Rightarrow> bool" where
  "kv_closed_ok w \<longleftrightarrow>
     (kw_pc w = RunDone \<longrightarrow> kw_closed w \<and> list_all (\<lambda>fw. fw_pc fw = FwDone) (kw_folders w))"

lemma folder_step_done: "fw_pc fw = FwDone \<Longrightarrow> folder_step oob c b ev fw = None"
  by (simp add: folder_step_def)

lemma kv_closed_step: "kv_step oob env o' t ev w = Some w' \<Longrightarrow> kv_closed_ok w \<Longrightarrow> kv_closed_ok w'"
proof (cases "goroutine_step ev")
  case True
  assume "kv_step oob env o' t ev w = Some w'" and ok: "kv_closed_ok w"
  from this(1) True show ?thesis
  proof (cases rule: kv_step_cases)
    case 1
    then show ?thesis using ok by (elim run_move.cases) (auto simp: kv_closed_ok_def)
  next
    case (2 i fev fw eff)
    then have "fw_pc (kw_folders w ! i) \<noteq> FwDone" using folder_step_done by fastforce
    then have "kw_pc w \<noteq> RunDone" using ok 2(2) by (auto simp: kv_closed_ok_def list_all_length)
    then show ?thesis by (simp add: kv_closed_ok_def 2(4) folder_effects_def observe_def split: folder_effect.splits)
  qed
next
  case False
  assume "kv_step oob env o' t ev w = Some w'" "kv_closed_ok w"
  then show ?thesis using False by (cases ev) (auto simp: kv_closed_ok_def split: option.splits)
qed

lemma kv_closed_reachable: "kv_reachable oob env opts t v0 w \<Longrightarrow> kv_closed_ok w"
proof (induction rule: kv_reachable.induct)
  case (start answers w)
  then show ?case by (auto simp: start_kv_watch_Inr new_kv_watch_def kv_closed_ok_def)
qed (rule kv_closed_step)

lemma kv_never_panics: "kv_reachable oob env opts t v0 w \<Longrightarrow> any_free t \<Longrightarrow> kw_pc w \<noteq> RunPanicked"
proof (induction rule: kv_reachable_induct)
  case (move w w')
  have "build_value env (watch_options_of opts) t answers \<noteq> None" for answers
    using build_value_total [OF move(4)] .
  then show ?case using move(2-4) by (elim kv_move.cases run_move.cases) (simp_all del: not_None_eq)
qed (simp add: new_kv_watch_def)

text \<open>
  C15. The watch ends after it is cancelled, by \<open>Close\<close> or by its context. However the remaining steps,
  the receives of the consumer and further cancellations interleave, the goroutines make at most 10
  steps and 4 for every folder; the goroutines alone can always go on to their end, where the binding
  has panicked, which a type without empty interfaces excludes, or every folder watcher has returned
  and the channels are closed.
\<close>

theorem kv_watch_ends:
  assumes "kv_reachable oob env opts t v0 w" "kw_cancelled w"
  shows "(kv_run oob env (watch_options_of opts) t evs w = Some w' \<longrightarrow>
       length (filter goroutine_step evs) \<le> 10 + 4 * length (kw_folders w)) \<and>
     (\<exists>own stop. list_all goroutine_step own \<and> kv_run oob env (watch_options_of opts) t own w = Some stop \<and>
        (kw_pc stop = RunPanicked \<and> \<not> any_free t \<or>
         kw_pc stop = RunDone \<and> kw_closed stop \<and> list_all (\<lambda>fw. fw_pc fw = FwDone) (kw_folders stop)))"
proof
  have c: "kv_cancelled w" using assms kv_invariants [OF assms(1)] by (auto simp: kv_cancelled_def kv_slot_ok_def)
  have "run_weight (kw_pc w) \<le> 9" by (cases "kw_pc w") simp_all
  then have "kv_weight w \<le> 10 + 4 * length (kw_folders w)"
    using folder_weights_le [of "kw_folders w"] by (simp add: kv_weight_def)
  then show "kv_run oob env (watch_options_of opts) t evs w = Some w' \<longrightarrow>
       length (filter goroutine_step evs) \<le> 10 + 4 * length (kw_folders w)"
    using kv_end.bounded [OF c] by (fastforce simp: kv_run_steps)
  obtain own stop where own: "list_all goroutine_step own"
    "kv_run oob env (watch_options_of opts) t own w = Some stop" "kv_ended stop"
    using kv_end.reaches_end [OF c] unfolding kv_run_steps by blast
  then have r: "kv_reachable oob env opts t v0 stop" using kv_run_reachable assms(1) by blast
  have "kw_pc stop = RunPanicked \<and> \<not> any_free t \<or>
         kw_pc stop = RunDone \<and> kw_closed stop \<and> list_all (\<lambda>fw. fw_pc fw = FwDone) (kw_folders stop)"
    using own(3) kv_closed_reachable [OF r] kv_never_panics [OF r] by (auto simp: kv_ended_def kv_closed_ok_def)
  then show "\<exists>own stop. list_all goroutine_step own \<and> kv_run oob env (watch_options_of opts) t own w = Some stop \<and>
        (kw_pc stop = RunPanicked \<and> \<not> any_free t \<or>
         kw_pc stop = RunDone \<and> kw_closed stop \<and> list_all (\<lambda>fw. fw_pc fw = FwDone) (kw_folders stop))"
    using own by blast
qed

subsection \<open>What a folder signals\<close>

text \<open>A folder after a sequence of answers, with its waits elapsed.\<close>

definition folder_answered :: "loader \<Rightarrow> keys_answer \<Rightarrow> folder_watch \<Rightarrow> folder_watch" where
  "folder_answered c answer fw =
     (case answer of
        Inl err \<Rightarrow> (folder_failure c fw)\<lparr>fw_index := 0, fw_pc := FwPace\<rparr>
      | Inr (keys, idx) \<Rightarrow> fst (folder_response keys idx fw))"

definition folder_after :: "loader \<Rightarrow> keys_answer list \<Rightarrow> folder_watch" where
  "folder_after c answers = foldl (\<lambda>fw a. folder_answered c a fw) (new_folder c []) answers"

lemma folder_after_snoc [simp]:
  "folder_after c (pre @ [a]) = folder_answered c a (folder_after c pre)"
  by (simp add: folder_after_def)

lemma folder_failures_nonneg: "0 \<le> fw_failures (folder_after c answers)"
  by (induction answers rule: rev_induct)
    (auto simp: folder_after_def new_folder_def folder_answered_def folder_failure_def folder_response_def Let_def
      split: sum.splits prod.splits)

text \<open>
  When a folder signals. The first response does, and so does the first one after a failure: a change
  made since the configuration was last read, or while Consul was away, is not missed. After a response
  with index \<open>idx0\<close>, one with another index signals as soon as the folder had keys or has some; a folder
  that stays empty is silent although its index moves with every write of the store, and so is one whose
  index stays, unless the last response had made the watch start over from index 0.
\<close>

theorem folder_signals:
  "let fw = folder_after c answers; signal = snd (folder_response keys idx fw)
   in (answers = [] \<or> (\<exists>err. last answers = Inl err) \<longrightarrow> signal) \<and>
      (\<forall>keys0 idx0. answers \<noteq> [] \<and> last answers = Inr (keys0, idx0) \<and> idx0 \<noteq> 0 \<longrightarrow>
         (idx \<noteq> idx0 \<and> (keys0 \<noteq> [] \<or> keys \<noteq> []) \<longrightarrow> signal) \<and>
         (fw_index fw \<noteq> 0 \<and> (keys0 = [] \<and> keys = [] \<or> idx = idx0) \<longrightarrow> \<not> signal))"
proof (cases answers rule: rev_cases)
  case Nil
  then show ?thesis by (simp add: folder_after_def new_folder_def folder_response_def Let_def)
next
  case (snoc pre a)
  define fw where "fw = folder_after c pre"
  show ?thesis
  proof (cases a)
    case (Inl err)
    have "0 < fw_failures fw + 1" using folder_failures_nonneg [of c pre] by (simp add: fw_def)
    then show ?thesis using Inl
      by (simp add: snoc fw_def [symmetric] folder_answered_def folder_failure_def folder_response_def Let_def)
  next
    case (Inr r)
    obtain keys0 idx0 where r: "r = (keys0, idx0)" by fastforce
    have signal: "snd (folder_response keys idx (folder_after c answers)) \<longleftrightarrow>
        (let i = next_index (fw_index fw) idx0
         in i = 0 \<or> next_index i idx \<noteq> i \<and> (keys \<noteq> [] \<or> keys0 \<noteq> []))"
      by (simp add: snoc fw_def [symmetric] folder_answered_def Inr r folder_response_def Let_def)
    have i: "fw_index (folder_after c answers) = next_index (fw_index fw) idx0"
      by (simp add: snoc fw_def [symmetric] folder_answered_def Inr r folder_response_def Let_def)
    have moved: "next_index (next_index p idx0) idx \<noteq> next_index p idx0"
      if "idx0 \<noteq> 0" "idx \<noteq> idx0" "next_index p idx0 \<noteq> 0" for p
      using that by (auto simp: next_index_def split: if_splits)
    have stays: "next_index (next_index p idx0) idx0 = next_index p idx0" if "idx0 \<noteq> 0" "next_index p idx0 \<noteq> 0" for p
      using that by (auto simp: next_index_def split: if_splits)
    show ?thesis
      unfolding Let_def signal i using moved stays by (auto simp: snoc Inr r Let_def)
  qed
qed

theorem folder_signals_witness:
  "snd (folder_response [''config/app/a''] 9 (folder_after sample_loader [Inl CtxCanceled, Inr ([], 7)]))"
  using folder_signals [of sample_loader "[Inl CtxCanceled, Inr ([], 7)]" "[''config/app/a'']" 9]
  by (simp add: Let_def)

subsection \<open>A sample watch\<close>

definition sample_struct :: gotype where
  "sample_struct =
     TStruct ''main.Config'' [(plain_field ''Host'' [(''consul'', ''host''), (''default'', ''localhost'')], TScalar ''string'' KString)]"

definition sample_kv_env :: kv_env where
  "sample_kv_env = (sample_env_of ''h1'')\<lparr>ke_Validate := None\<rparr>"

definition empty_store :: "string \<Rightarrow> kv_answer" where
  "empty_store folder = Inr ([], 1)"

definition sample_watch :: kv_watch where
  "sample_watch = new_kv_watch sample_kv_env (VStruct [VString ''localhost''])"

lemma load_empty_store:
  "ld_Format c = FormatKeyValue \<Longrightarrow> \<exists>i. load_loop parse_doc c empty_store folders fmempty j = Inr (fmempty, i)"
proof (induction folders arbitrary: j)
  case (Cons f fs)
  have "merge_tree fmempty fmempty = fmempty"
    by (rule fmap_ext) (simp add: merge_tree_def merge_into_lookup)
  then show ?case using Cons by (simp add: empty_store_def decode_def)
qed simp

lemma sample_kv_build:
  "build_value sample_kv_env (watch_options_of []) sample_struct empty_store =
     Some (VStruct [VString ''localhost''], Some fmempty, None)"
proof -
  have "ld_Format (ke_loader sample_kv_env) = FormatKeyValue"
    by (simp add: sample_kv_env_def sample_env_of_def sample_loader_def new_loader_def)
  then obtain i where l: "load (ke_parse sample_kv_env) (ke_loader sample_kv_env) empty_store = Inr (fmempty, i)"
    using load_empty_store unfolding load_def by blast
  have spec: "spec_of e (plain_field ''Host'' [(''consul'', ''host''), (''default'', ''localhost'')]) =
      \<lparr>fs_name = ''host'', fs_required = False, fs_skip = False\<rparr>" if "be_Tag e = ''consul''" for e
    using that by (simp add: spec_of_def plain_field_def tag_of_def cut_def) code_simp
  have t: "trim_space ''localhost'' = ''localhost''" by code_simp
  define e where "e = (bind_options sample_kv_env)\<lparr>be_Tag := ''consul''\<rparr>"
  have e: "be_Tag e = ''consul''" "\<not> be_ErrorUnused e"
    by (simp_all add: e_def bind_options_def sample_kv_env_def sample_env_of_def)
  have none: "find_key e fmempty k = None" for k by (simp add: find_key_def sorted_list_of_fset.rep_eq)
  have "bind_field e [] fmempty (plain_field ''Host'' [(''consul'', ''host''), (''default'', ''localhost'')])
      (TScalar ''string'' KString) (binder_of (TScalar ''string'' KString) e) (VString []) =
      Some ([], VString ''localhost'', [])"
    unfolding bind_field_def Let_def spec [OF e(1)] none
    by (simp add: plain_field_def tag_of_def assign_scalar_def scalar_def set_scalar_def t Let_def)
  then have "bd_section (binder_of sample_struct e) [] fmempty (VStruct [VString []]) =
      Some ([], VStruct [VString ''localhost''])"
    unfolding sample_struct_def binder_of_struct bind_struct_def
    by (simp add: struct_fields_def unknown_keys_def e)
  then have "bind_tree (bind_options sample_kv_env) fmempty (TPtr sample_struct) (VPtr (Some (zero_value sample_struct))) =
      Some (None, VPtr (Some (VStruct [VString ''localhost''])))"
    by (simp add: bind_tree_def Let_def e_def bind_options_def sample_struct_def errors_join_def zero_scalar_def)
  moreover have "ke_Validate sample_kv_env = None" by (simp add: sample_kv_env_def)
  moreover have "wo_path (watch_options_of []) = []" "wo_validate (watch_options_of []) = None"
    by (simp_all add: watch_options_of_def)
  moreover have "subtree fmempty [] = fmempty" by (simp add: subtree_def trim_def trim_left_def trim_right_def)
  ultimately show ?thesis
    by (simp add: build_value_def l bind_at_def validate_value_def pointee_def)
qed

lemma sample_kv_reachable: "kv_reachable oob sample_kv_env [] sample_struct (VStruct [VString ''localhost'']) sample_watch"
proof (rule kv_reachable.start)
  show "start_kv_watch sample_kv_env [] sample_struct empty_store = Some (Inr sample_watch)"
    by (simp add: start_kv_watch_def sample_kv_build sample_watch_def)
qed (simp add: sample_watch_def new_kv_watch_def)

text \<open>A folder answers for the first time, and the watch is cancelled.\<close>

definition sample_kv_events :: "kv_event list" where
  "sample_kv_events = [Folder 0 (Paced 0), Folder 0 (Answered (Inr ([''config/application/host''], 7))), Cancel]"

lemma sample_folder_signals:
  "\<exists>w. kv_run oob sample_kv_env (watch_options_of []) sample_struct sample_kv_events sample_watch = Some w \<and>
     kw_changed w \<and> kw_signals w = 1 \<and> kw_answered w = 0 \<and> kw_cancelled w \<and> kw_pc w = RunWait"
proof -
  have c: "contexts (ke_loader sample_kv_env) \<noteq> []" by (simp add: contexts_def Let_def)
  then obtain f fs where f: "contexts (ke_loader sample_kv_env) = f # fs" by (cases "contexts (ke_loader sample_kv_env)") auto
  have two: "f64_of_int 2 = Fin 2" using f64_of_int_exact [of 2] by simp
  have "fst (limiter_wait oob (new_limiter i 2) 0) = 0" for i
    by (simp add: limiter_wait_def new_limiter_def refilled_def two Let_def)
  then obtain l where l: "limiter_wait oob (new_limiter (ld_MinInterval (ke_loader sample_kv_env)) 2) 0 = (0, l)"
    by (metis prod.collapse)
  show ?thesis
    by (simp add: sample_kv_events_def sample_watch_def new_kv_watch_def f new_folder_def folder_step_def l
        folder_response_def folder_effects_def Let_def)
qed

theorem kv_consumer_view_witness:
  "\<exists>w. kv_reachable (\<lambda>_. 0) sample_kv_env [] sample_struct (VStruct [VString ''localhost'']) w \<and>
     typed sample_struct (kw_current w)"
  using kv_consumer_view [OF sample_kv_reachable] sample_kv_reachable by blast

theorem kv_no_signal_lost_witness:
  "\<exists>w. kv_reachable (\<lambda>_. 0) sample_kv_env [] sample_struct (VStruct [VString ''localhost'']) w \<and>
     kw_answered w < kw_signals w \<and> (kw_changed w \<or> kw_pc w = RunCoalesce)"
proof -
  obtain w where w: "kv_run (\<lambda>_. 0) sample_kv_env (watch_options_of []) sample_struct sample_kv_events sample_watch = Some w"
    "kw_signals w = 1" "kw_answered w = 0"
    using sample_folder_signals by blast
  have r: "kv_reachable (\<lambda>_. 0) sample_kv_env [] sample_struct (VStruct [VString ''localhost'']) w"
    using kv_run_reachable [OF w(1) sample_kv_reachable] .
  show ?thesis using kv_no_signal_lost [OF r] r w by auto
qed

theorem rejected_once_witness:
  "rejects (fold after_build
      [(VBool True, Some fmempty, Some ErrInvalid), (VBool True, None, Some CtxCanceled),
       (VBool True, Some fmempty, Some ErrInvalid)] sample_watch) = 1"
proof -
  have "tree_equal fmempty fmempty" by (simp add: tree_equal_def)
  moreover have "rejects sample_watch = 0" "kw_rejected sample_watch = None"
    by (simp_all add: rejects_def sample_watch_def new_kv_watch_def)
  ultimately show ?thesis
    using rejected_once [of "[(VBool True, Some fmempty, Some ErrInvalid), (VBool True, None, Some CtxCanceled),
       (VBool True, Some fmempty, Some ErrInvalid)]" fmempty sample_watch]
    by (simp add: Let_def)
qed

theorem kv_watch_ends_witness:
  "\<exists>w (stop :: kv_watch). kv_reachable (\<lambda>_. 0) sample_kv_env [] sample_struct (VStruct [VString ''localhost'']) w \<and>
     kw_pc stop = RunDone \<and> kw_closed stop"
proof -
  obtain w where w: "kv_run (\<lambda>_. 0) sample_kv_env (watch_options_of []) sample_struct sample_kv_events sample_watch = Some w"
    "kw_cancelled w"
    using sample_folder_signals by blast
  have r: "kv_reachable (\<lambda>_. 0) sample_kv_env [] sample_struct (VStruct [VString ''localhost'']) w"
    using kv_run_reachable [OF w(1) sample_kv_reachable] .
  have "any_free sample_struct" by (simp add: sample_struct_def)
  then obtain stop :: kv_watch where "kw_pc stop = RunDone" "kw_closed stop"
    using kv_watch_ends [OF r w(2), of "[]", THEN conjunct2] by auto
  with r show ?thesis by blast
qed

end
