(* ===== verification/FakeAgent.thy ===== *)
theory FakeAgent
  imports KVWatch Query Reliability
begin

text \<open>
  internal/fakeconsul: the in-process agent the module's tests run against. Its handlers are functions of
  the state behind the mutex; a blocking handler is one pass of its loop, which answers or waits for the
  channel \<open>changed\<close>, a generation number here. The JSON of requests and answers is the value it stands for,
  the content hash of a service and the aggregated status of checks are arguments. At the end the rules
  of blocking queries that the watches rely on are proved of it, together with the watches.
\<close>

subsection \<open>The agent\<close>

record ttl_update =
  tu_CheckID :: string
  tu_Status :: string
  tu_Output :: string

record fake_agent =
  fa_version :: string
  fa_services :: "(string, agent_service) fmap"
  fa_registers :: int
  fa_deregisters :: "string list"
  fa_ttl :: "ttl_update list"
  fa_maintenance :: "(string, string) fmap"
  fa_tokens :: "string list"
  fa_failAll :: int
  fa_hang :: bool
  fa_failNext :: int
  fa_forbidSelf :: bool
  fa_changed :: nat
  fa_health :: "(string, service_entry list) fmap"
  fa_kv :: "(string, string) fmap"
  fa_index :: "64 word"
  fa_queries :: "(string list \<times> bool) list"

definition new_fake :: "string \<Rightarrow> fake_agent" where
  "new_fake version =
     \<lparr>fa_version = version, fa_services = fmempty, fa_registers = 0, fa_deregisters = [], fa_ttl = [],
      fa_maintenance = fmempty, fa_tokens = [], fa_failAll = 0, fa_hang = False, fa_failNext = 0,
      fa_forbidSelf = False, fa_changed = 0, fa_health = fmempty, fa_kv = fmempty, fa_index = 1, fa_queries = []\<rparr>"

definition notify_locked :: "fake_agent \<Rightarrow> fake_agent" where
  "notify_locked a = a\<lparr>fa_changed := fa_changed a + 1\<rparr>"

subsection \<open>What a test does to it\<close>

datatype fake_call =
    SetFailing int
  | FailNextRegisters int
  | ForbidSelf
  | Forget
  | SetHealth string "service_entry list"
  | BumpIndex
  | PutKV string string
  | DeleteKV string
  | SetHanging bool

definition set_failing :: "int \<Rightarrow> fake_agent \<Rightarrow> fake_agent" where
  "set_failing code a = a\<lparr>fa_failAll := code\<rparr>"

definition fail_next_registers :: "int \<Rightarrow> fake_agent \<Rightarrow> fake_agent" where
  "fail_next_registers n a = a\<lparr>fa_failNext := n\<rparr>"

definition forbid_self :: "fake_agent \<Rightarrow> fake_agent" where
  "forbid_self a = a\<lparr>fa_forbidSelf := True\<rparr>"

definition forget :: "fake_agent \<Rightarrow> fake_agent" where
  "forget a = notify_locked (a\<lparr>fa_services := fmempty\<rparr>)"

definition set_health_entries :: "string \<Rightarrow> service_entry list \<Rightarrow> fake_agent \<Rightarrow> fake_agent" where
  "set_health_entries service entries a =
     notify_locked (a\<lparr>fa_health := fmupd service entries (fa_health a), fa_index := fa_index a + 1\<rparr>)"

definition bump_index :: "fake_agent \<Rightarrow> fake_agent" where
  "bump_index a = notify_locked (a\<lparr>fa_index := fa_index a + 1\<rparr>)"

definition put_kv :: "string \<Rightarrow> string \<Rightarrow> fake_agent \<Rightarrow> fake_agent" where
  "put_kv key v a = notify_locked (a\<lparr>fa_kv := fmupd key v (fa_kv a), fa_index := fa_index a + 1\<rparr>)"

definition delete_kv :: "string \<Rightarrow> fake_agent \<Rightarrow> fake_agent" where
  "delete_kv key a = notify_locked (a\<lparr>fa_kv := fmdrop key (fa_kv a), fa_index := fa_index a + 1\<rparr>)"

definition set_hanging :: "bool \<Rightarrow> fake_agent \<Rightarrow> fake_agent" where
  "set_hanging h a = a\<lparr>fa_hang := h\<rparr>"

lemmas fake_call_defs =
  set_failing_def fail_next_registers_def forbid_self_def forget_def set_health_entries_def bump_index_def
  put_kv_def delete_kv_def set_hanging_def notify_locked_def

fun fake_do :: "fake_call \<Rightarrow> fake_agent \<Rightarrow> fake_agent" where
  "fake_do (SetFailing code) a = set_failing code a"
| "fake_do (FailNextRegisters n) a = fail_next_registers n a"
| "fake_do ForbidSelf a = forbid_self a"
| "fake_do Forget a = forget a"
| "fake_do (SetHealth service entries) a = set_health_entries service entries a"
| "fake_do BumpIndex a = bump_index a"
| "fake_do (PutKV key v) a = put_kv key v a"
| "fake_do (DeleteKV key) a = delete_kv key a"
| "fake_do (SetHanging h) a = set_hanging h a"

subsection \<open>Requests\<close>

datatype fake_route =
    RouteSelf
  | RouteLeader
  | RouteRegister
  | RouteDeregister string
  | RouteMaintenance string
  | RouteGetService string
  | RouteKV string
  | RouteHealth string
  | RouteTTL string
  | RouteUnknown

definition fake_route_of :: "string \<Rightarrow> string \<Rightarrow> fake_route" where
  "fake_route_of verb p =
     (let get = (verb = ''GET''); put = (verb = ''PUT'');
          rest = (\<lambda>folder. trim_prefix p folder)
      in if get \<and> p = ''/v1/agent/self'' then RouteSelf
         else if get \<and> p = ''/v1/status/leader'' then RouteLeader
         else if put \<and> p = ''/v1/agent/service/register'' then RouteRegister
         else if put \<and> has_prefix p ''/v1/agent/service/deregister/''
         then RouteDeregister (rest ''/v1/agent/service/deregister/'')
         else if put \<and> has_prefix p ''/v1/agent/service/maintenance/''
         then RouteMaintenance (rest ''/v1/agent/service/maintenance/'')
         else if get \<and> has_prefix p ''/v1/agent/service/'' then RouteGetService (rest ''/v1/agent/service/'')
         else if get \<and> has_prefix p ''/v1/kv/'' then RouteKV (rest ''/v1/kv/'')
         else if get \<and> has_prefix p ''/v1/health/service/'' then RouteHealth (rest ''/v1/health/service/'')
         else if put \<and> has_prefix p ''/v1/agent/check/update/'' then RouteTTL (rest ''/v1/agent/check/update/'')
         else RouteUnknown)"

text \<open>Before the routing: the token is recorded, a hanging agent answers nothing, a failing one its code.\<close>

datatype fake_gate = Hangs | Fails int | Passes

definition fake_admit :: "string \<Rightarrow> fake_agent \<Rightarrow> fake_gate \<times> fake_agent" where
  "fake_admit token a =
     (if fa_hang a then Hangs else if fa_failAll a \<noteq> 0 then Fails (fa_failAll a) else Passes,
      a\<lparr>fa_tokens := fa_tokens a @ [token]\<rparr>)"

text \<open>The answers: a status code with a body, or an error code with its text.\<close>

type_synonym http_error = "int \<times> string"

definition fake_self :: "fake_agent \<Rightarrow> (http_error, string \<times> string \<times> string) outcome" where
  "fake_self a =
     (if fa_forbidSelf a then Inl (403, ''Permission denied'') else Inr (''dc1'', ''fake'', fa_version a))"

text \<open>\<open>fmt.Sscanf\<close> with two integers separated by a point.\<close>

definition scan_int :: "string \<Rightarrow> (int \<times> string) option" where
  "scan_int s =
     (let t = dropWhile (\<lambda>c. c = CHR '' '' \<or> byte c = 9) s;
          sg = (case t of c # _ \<Rightarrow> if c = CHR ''+'' \<or> c = CHR ''-'' then [c] else [] | [] \<Rightarrow> []);
          ds = takeWhile is_digit (drop (length sg) t)
      in if ds = [] then None
         else map_option (\<lambda>n. (n, drop (length sg + length ds) t)) (parse_int 64 (sg @ ds)))"

definition scan_version :: "string \<Rightarrow> (int \<times> int) option" where
  "scan_version v =
     (case scan_int v of
        Some (ma, c # rest) \<Rightarrow> if c = CHR ''.'' then map_option (\<lambda>r. (ma, fst r)) (scan_int rest) else None
      | _ \<Rightarrow> None)"

definition version_less :: "string \<Rightarrow> int \<Rightarrow> int \<Rightarrow> bool" where
  "version_less v major minor =
     (case scan_version v of
        None \<Rightarrow> False
      | Some (ma, mi) \<Rightarrow> ma < major \<or> ma = major \<and> mi < minor)"

text \<open>A registration; a body that cannot be decoded is \<open>None\<close>.\<close>

definition fake_register :: "agent_service option \<Rightarrow> fake_agent \<Rightarrow> http_error option \<times> fake_agent" where
  "fake_register body a =
     (if 0 < fa_failNext a
      then (Some (500, ''injected register failure''), a\<lparr>fa_failNext := fa_failNext a - 1\<rparr>)
      else (case body of
              None \<Rightarrow> (Some (400, ''Request decode failed''), a)
            | Some reg \<Rightarrow>
              if as_Ports reg \<noteq> [] \<and> version_less (fa_version a) 1 22
              then (Some (400, ''Request decode failed: json: unknown field \"Ports\"''), a)
              else if as_AI reg
              then (Some (400, ''Request decode failed: json: unknown field \"AI\"''), a)
              else if agent_service.as_Name reg = [] then (Some (400, ''Missing service name''), a)
              else (let reg' = (if agent_service.as_ID reg = [] then reg\<lparr>as_ID := agent_service.as_Name reg\<rparr> else reg)
                    in (None, notify_locked
                          (a\<lparr>fa_services := fmupd (agent_service.as_ID reg') reg' (fa_services a),
                             fa_registers := fa_registers a + 1\<rparr>)))))"

definition fake_deregister :: "string \<Rightarrow> fake_agent \<Rightarrow> http_error option \<times> fake_agent" where
  "fake_deregister sid a =
     (if fmlookup (fa_services a) sid = None then (Some (404, ''Unknown service ID '' @ sid), a)
      else (None, notify_locked
              (a\<lparr>fa_services := fmdrop sid (fa_services a), fa_deregisters := fa_deregisters a @ [sid]\<rparr>)))"

definition fake_maintenance :: "string \<Rightarrow> string \<Rightarrow> string \<Rightarrow> fake_agent \<Rightarrow> http_error option \<times> fake_agent" where
  "fake_maintenance sid enable reason a =
     (if fmlookup (fa_services a) sid = None then (Some (404, ''Unknown service ID '' @ sid), a)
      else (None, a\<lparr>fa_maintenance :=
              (if enable = ''true'' then fmupd sid reason (fa_maintenance a) else fmdrop sid (fa_maintenance a))\<rparr>))"

definition fake_update_ttl :: "string \<Rightarrow> string \<Rightarrow> string \<Rightarrow> fake_agent \<Rightarrow> http_error option \<times> fake_agent" where
  "fake_update_ttl cid st out a =
     (if fBex (fmdom (fa_services a)) (\<lambda>sid.
           case fmlookup (fa_services a) sid of
             Some s \<Rightarrow> (case as_Check s of
                          Some ck \<Rightarrow> agent_check.ac_CheckID ck = cid \<and> ac_TTL ck \<noteq> []
                        | None \<Rightarrow> False)
           | None \<Rightarrow> False)
      then (None, a\<lparr>fa_ttl := fa_ttl a @ [\<lparr>tu_CheckID = cid, tu_Status = st, tu_Output = out\<rparr>]\<rparr>)
      else (Some (404, ''Unknown check ID''), a))"

subsection \<open>Blocking queries\<close>

datatype 'a pass = Answer 'a | Blocks

text \<open>One pass of \<open>getService\<close>: no such service, the service with its hash, or wait.\<close>

definition get_service ::
    "(agent_service \<Rightarrow> string) \<Rightarrow> string \<Rightarrow> string \<Rightarrow> fake_agent \<Rightarrow> (http_error, agent_service \<times> string) outcome pass" where
  "get_service hash_of sid client_hash a =
     (case fmlookup (fa_services a) sid of
        None \<Rightarrow> Answer (Inl (404, ''unknown service ID: '' @ sid))
      | Some svc \<Rightarrow>
        if client_hash = [] \<or> client_hash \<noteq> hash_of svc then Answer (Inr (svc, hash_of svc)) else Blocks)"

fun has_tags :: "string list \<Rightarrow> string list \<Rightarrow> bool" where
  "has_tags have [] = True"
| "has_tags have (t # ts) = (if t \<notin> set have then False else has_tags have ts)"

definition fake_matches :: "(api_check list \<Rightarrow> status) \<Rightarrow> bool \<Rightarrow> string list \<Rightarrow> service_entry \<Rightarrow> bool" where
  "fake_matches agg passing tags e \<longleftrightarrow>
     (\<not> passing \<or> agg (se_Checks e) = StatusPassing) \<and> has_tags (api_service.as_Tags (se_Service e)) tags"

definition health_pass ::
    "(api_check list \<Rightarrow> status) \<Rightarrow> string \<Rightarrow> bool \<Rightarrow> string list \<Rightarrow> 64 word \<Rightarrow> fake_agent \<Rightarrow>
     (service_entry list \<times> 64 word) pass" where
  "health_pass agg name passing tags want a =
     (if want = 0 \<or> want < fa_index a
      then Answer (filter (fake_matches agg passing tags)
                     (case fmlookup (fa_health a) name of None \<Rightarrow> [] | Some es \<Rightarrow> es), fa_index a)
      else Blocks)"

definition log_query :: "string list \<Rightarrow> bool \<Rightarrow> fake_agent \<Rightarrow> fake_agent" where
  "log_query tags passing a = a\<lparr>fa_queries := fa_queries a @ [(tags, passing)]\<rparr>"

definition kv_keys :: "string \<Rightarrow> fake_agent \<Rightarrow> string list" where
  "kv_keys folder a = sorted_list_of_fset (ffilter (\<lambda>k. has_prefix k folder) (fmdom (fa_kv a)))"

text \<open>The keys below a folder with their values, and the index; a folder without keys is not found.\<close>

definition kv_pass :: "string \<Rightarrow> 64 word \<Rightarrow> fake_agent \<Rightarrow> (kv_pairs \<times> 64 word) pass" where
  "kv_pass folder want a =
     (if want = 0 \<or> want < fa_index a
      then Answer (map (\<lambda>k. (k, case fmlookup (fa_kv a) k of None \<Rightarrow> [] | Some v \<Rightarrow> v)) (kv_keys folder a), fa_index a)
      else Blocks)"

definition kv_found :: "kv_pairs \<Rightarrow> int" where
  "kv_found ps = (if ps = [] then 404 else 200)"

subsection \<open>The server\<close>

text \<open>
  A request with its token, its query parameters and its decoded body, and the answers. A pass of a
  blocking handler that finds nothing new waits for a change.
\<close>

record fake_request =
  fr_verb :: string
  fr_path :: string
  fr_token :: string
  fr_query :: "(string, string list) fmap"
  fr_service :: "agent_service option"
  fr_ttl :: "string \<times> string"

datatype fake_reply =
    NoReply
  | ErrorReply int string
  | EmptyReply
  | SelfReply string string string
  | LeaderReply
  | ServiceReply agent_service string
  | NoKeysReply "64 word"
  | KeysReply "string list" "64 word"
  | PairsReply kv_pairs "64 word"
  | EntriesReply "service_entry list" "64 word"
  | AwaitsChange

definition query_get :: "fake_request \<Rightarrow> string \<Rightarrow> string" where
  "query_get r key = (case fmlookup (fr_query r) key of Some (v # _) \<Rightarrow> v | _ \<Rightarrow> [])"

definition query_has :: "fake_request \<Rightarrow> string \<Rightarrow> bool" where
  "query_has r key \<longleftrightarrow> fmlookup (fr_query r) key \<noteq> None"

definition query_tags :: "fake_request \<Rightarrow> string list" where
  "query_tags r = (case fmlookup (fr_query r) ''tag'' of Some ts \<Rightarrow> ts | None \<Rightarrow> [])"

text \<open>The index of a request; \<open>strconv.ParseUint\<close> gives 0 for what is not a number and the largest one
  for what is too large.\<close>

definition query_index :: "fake_request \<Rightarrow> 64 word" where
  "query_index r =
     (case parse_digits (query_get r ''index'') of
        None \<Rightarrow> 0
      | Some n \<Rightarrow> if n < 2 ^ 64 then of_nat n else -1)"

fun written :: "http_error option \<times> fake_agent \<Rightarrow> fake_reply \<times> fake_agent" where
  "written (None, a) = (EmptyReply, a)"
| "written (Some (code, msg), a) = (ErrorReply code msg, a)"

definition kv_reply :: "fake_request \<Rightarrow> (kv_pairs \<times> 64 word) pass \<Rightarrow> fake_reply" where
  "kv_reply r p =
     (case p of
        Blocks \<Rightarrow> AwaitsChange
      | Answer (ps, idx) \<Rightarrow>
          if kv_found ps = 404 then NoKeysReply idx
          else if query_has r ''keys'' then KeysReply (map fst ps) idx
          else PairsReply ps idx)"

text \<open>
  What follows the failure \<open>fail\<close> met on arrival. A request that hangs gets no reply when its client leaves,
  and goes on with \<open>fake_answer\<close> when the agent stops hanging.
\<close>

definition fake_answer ::
    "(api_check list \<Rightarrow> status) \<Rightarrow> (agent_service \<Rightarrow> string) \<Rightarrow> int \<Rightarrow> fake_request \<Rightarrow> fake_agent \<Rightarrow>
     fake_reply \<times> fake_agent" where
  "fake_answer agg hash_of fail r a =
     (if fail \<noteq> 0 then (ErrorReply fail ''injected failure'', a) else
      (case fake_route_of (fr_verb r) (fr_path r) of
         RouteSelf \<Rightarrow>
           (case fake_self a of
              Inl (code, msg) \<Rightarrow> (ErrorReply code msg, a)
            | Inr (dc, node, v) \<Rightarrow> (SelfReply dc node v, a))
       | RouteLeader \<Rightarrow> (LeaderReply, a)
       | RouteRegister \<Rightarrow> written (fake_register (fr_service r) a)
       | RouteDeregister sid \<Rightarrow> written (fake_deregister sid a)
       | RouteMaintenance sid \<Rightarrow> written (fake_maintenance sid (query_get r ''enable'') (query_get r ''reason'') a)
       | RouteGetService sid \<Rightarrow>
           (case get_service hash_of sid (query_get r ''hash'') a of
              Blocks \<Rightarrow> (AwaitsChange, a)
            | Answer (Inl (code, msg)) \<Rightarrow> (ErrorReply code msg, a)
            | Answer (Inr (svc, h)) \<Rightarrow> (ServiceReply svc h, a))
       | RouteKV folder \<Rightarrow> (kv_reply r (kv_pass folder (query_index r) a), a)
       | RouteHealth name \<Rightarrow>
           (let a' = log_query (query_tags r) (query_has r ''passing'') a
            in case health_pass agg name (query_has r ''passing'') (query_tags r) (query_index r) a' of
                 Blocks \<Rightarrow> (AwaitsChange, a')
               | Answer (es, idx) \<Rightarrow> (EntriesReply es idx, a'))
       | RouteTTL cid \<Rightarrow> written (fake_update_ttl cid (fst (fr_ttl r)) (snd (fr_ttl r)) a)
       | RouteUnknown \<Rightarrow> (ErrorReply 404 ''Invalid URL path: not a recognized HTTP API endpoint'', a)))"

definition fake_serve ::
    "(api_check list \<Rightarrow> status) \<Rightarrow> (agent_service \<Rightarrow> string) \<Rightarrow> fake_request \<Rightarrow> fake_agent \<Rightarrow> fake_reply \<times> fake_agent" where
  "fake_serve agg hash_of r a0 =
     (case fake_admit (fr_token r) a0 of
        (Hangs, a) \<Rightarrow> (NoReply, a)
      | (Fails code, a) \<Rightarrow> fake_answer agg hash_of code r a
      | (Passes, a) \<Rightarrow> fake_answer agg hash_of 0 r a)"

text \<open>What the tests read of it.\<close>

definition fake_Service :: "string \<Rightarrow> fake_agent \<Rightarrow> agent_service option" where
  "fake_Service sid a = fmlookup (fa_services a) sid"

definition fake_Registers :: "fake_agent \<Rightarrow> int" where
  "fake_Registers a = fa_registers a"

definition fake_Deregisters :: "fake_agent \<Rightarrow> string list" where
  "fake_Deregisters a = fa_deregisters a"

definition fake_TTLUpdates :: "fake_agent \<Rightarrow> ttl_update list" where
  "fake_TTLUpdates a = fa_ttl a"

definition fake_Maintenance :: "string \<Rightarrow> fake_agent \<Rightarrow> string option" where
  "fake_Maintenance sid a = fmlookup (fa_maintenance a) sid"

definition fake_Tokens :: "fake_agent \<Rightarrow> string list" where
  "fake_Tokens a = fa_tokens a"

definition fake_HealthQueries :: "fake_agent \<Rightarrow> (string list \<times> bool) list" where
  "fake_HealthQueries a = fa_queries a"

text \<open>The loader's two requests for a folder and a registrar's: what an agent that neither hangs nor fails
  answers them. A blocking handler reads the same state however often it is asked.\<close>

lemma serve_passes:
  assumes "\<not> fa_hang a" "fa_failAll a = 0"
  shows "fake_admit token a = (Passes, a\<lparr>fa_tokens := fa_tokens a @ [token]\<rparr>)"
  using assms by (simp add: fake_admit_def)

lemma kv_pass_frame [simp]:
  "kv_pass folder want (a\<lparr>fa_tokens := ts\<rparr>) = kv_pass folder want a"
  by (simp add: kv_pass_def kv_keys_def)

lemma fake_route_kv: "fake_route_of ''GET'' (''/v1/kv/'' @ folder) = RouteKV folder"
  by (simp add: fake_route_of_def trim_prefix_def)

lemma serve_kv:
  assumes "\<not> fa_hang a" "fa_failAll a = 0" "fr_verb r = ''GET''" "fr_path r = ''/v1/kv/'' @ folder"
  shows "fst (fake_serve agg hash_of r a) = kv_reply r (kv_pass folder (query_index r) a)"
  unfolding fake_serve_def fake_answer_def assms(3,4) fake_route_kv serve_passes [OF assms(1,2)] by simp

text \<open>Reading changes nothing a later answer depends on.\<close>

lemma serve_reads:
  assumes "fr_verb r = ''GET''"
  shows "fa_services (snd (fake_serve agg hash_of r a)) = fa_services a \<and> fa_kv (snd (fake_serve agg hash_of r a)) = fa_kv a \<and>
    fa_health (snd (fake_serve agg hash_of r a)) = fa_health a \<and> fa_index (snd (fake_serve agg hash_of r a)) = fa_index a \<and>
    fa_changed (snd (fake_serve agg hash_of r a)) = fa_changed a"
proof -
  have "fake_route_of ''GET'' p \<noteq> RouteRegister \<and> (\<forall>sid. fake_route_of ''GET'' p \<noteq> RouteDeregister sid) \<and>
      (\<forall>sid. fake_route_of ''GET'' p \<noteq> RouteMaintenance sid) \<and> (\<forall>cid. fake_route_of ''GET'' p \<noteq> RouteTTL cid)" for p
    by (simp add: fake_route_of_def Let_def)
  then show ?thesis using assms
    by (auto simp: fake_serve_def fake_answer_def fake_admit_def log_query_def Let_def
        split: fake_route.split pass.split sum.split prod.split)
qed

subsection \<open>Blocking queries do not miss a change\<close>

definition kv_content :: "string \<Rightarrow> fake_agent \<Rightarrow> kv_pairs" where
  "kv_content folder a = map (\<lambda>k. (k, case fmlookup (fa_kv a) k of None \<Rightarrow> [] | Some v \<Rightarrow> v)) (kv_keys folder a)"

lemma kv_content_keys [simp]: "map fst (kv_content folder a) = kv_keys folder a"
  by (simp add: kv_content_def comp_def)

text \<open>Every call moves the index by at most one, and by one when it changes what is stored.\<close>

lemma fake_do_index:
  assumes "unat (fa_index a) < 2 ^ 64 - 1"
  shows "unat (fa_index (fake_do c a)) \<le> unat (fa_index a) + 1"
    and "unat (fa_index a) \<le> unat (fa_index (fake_do c a))"
    and "fa_kv (fake_do c a) \<noteq> fa_kv a \<or> fa_health (fake_do c a) \<noteq> fa_health a \<Longrightarrow>
      unat (fa_index (fake_do c a)) = unat (fa_index a) + 1"
proof -
  have "unat (fa_index a + 1) = unat (fa_index a) + 1"
    using assms by (subst unat_plus_simple [THEN iffD1]) (auto simp: no_olen_add_nat)
  then show "unat (fa_index (fake_do c a)) \<le> unat (fa_index a) + 1"
    and "unat (fa_index a) \<le> unat (fa_index (fake_do c a))"
    and "fa_kv (fake_do c a) \<noteq> fa_kv a \<or> fa_health (fake_do c a) \<noteq> fa_health a \<Longrightarrow>
      unat (fa_index (fake_do c a)) = unat (fa_index a) + 1"
    by (cases c; simp add: fake_call_defs)+
qed

subsection \<open>The index of a sane agent\<close>

definition fake_sane :: "fake_agent \<Rightarrow> bool" where
  "fake_sane a \<longleftrightarrow> fa_index a \<noteq> 0"

text \<open>The index does not wrap while there is room for one more write.\<close>

definition fake_room :: "fake_agent \<Rightarrow> bool" where
  "fake_room a \<longleftrightarrow> fa_index a \<noteq> -1"

lemma fake_do_room:
  assumes "fake_room a"
  shows "fa_index a \<le> fa_index (fake_do c a)" "fake_sane a \<Longrightarrow> fake_sane (fake_do c a)"
    and "fa_kv (fake_do c a) \<noteq> fa_kv a \<or> fa_health (fake_do c a) \<noteq> fa_health a \<Longrightarrow> fa_index a < fa_index (fake_do c a)"
proof -
  have "fa_index a < -1" using assms word_order.not_eq_extremum by (auto simp: fake_room_def)
  then have "unat (fa_index a) < unat (-1 :: 64 word)" by (rule unat_mono)
  moreover have "unat (-1 :: 64 word) = 2 ^ 64 - 1" by (simp add: unsigned_minus_1_eq_mask mask_eq_exp_minus_1)
  ultimately have "unat (fa_index a) < 2 ^ 64 - 1" by simp
  note i = fake_do_index [OF this, of c]
  show mono: "fa_index a \<le> fa_index (fake_do c a)" using i(2) by (simp add: word_le_nat_alt)
  then show "fake_sane (fake_do c a)" if "fake_sane a" using that by (auto simp: fake_sane_def)
  show "fa_index a < fa_index (fake_do c a)" if "fa_kv (fake_do c a) \<noteq> fa_kv a \<or> fa_health (fake_do c a) \<noteq> fa_health a"
    using i(3) [OF that] by (simp add: word_less_nat_alt)
qed

lemma fake_calls_index:
  assumes "unat (fa_index a) + length calls < 2 ^ 64"
  shows "unat (fa_index (fold fake_do calls a)) \<le> unat (fa_index a) + length calls \<and>
    unat (fa_index a) \<le> unat (fa_index (fold fake_do calls a)) \<and>
    (fa_kv (fold fake_do calls a) \<noteq> fa_kv a \<or> fa_health (fold fake_do calls a) \<noteq> fa_health a \<longrightarrow>
       unat (fa_index a) < unat (fa_index (fold fake_do calls a)))"
  using assms
proof (induction calls arbitrary: a)
  case (Cons c calls)
  have "unat (fa_index a) < 2 ^ 64 - 1" using Cons.prems by simp
  note c = fake_do_index [OF this, of c]
  have "unat (fa_index (fake_do c a)) + length calls < 2 ^ 64" using c(1) Cons.prems by simp
  note rest = Cons.IH [OF this]
  show ?case
  proof (cases "fa_kv (fake_do c a) \<noteq> fa_kv a \<or> fa_health (fake_do c a) \<noteq> fa_health a")
    case True
    then show ?thesis using c(3) rest by simp
  next
    case False
    then show ?thesis using c(1,2) rest by fastforce
  qed
qed simp

text \<open>
  The watches see every change between two answers. A configuration folder and
  a service watch that hold the index of the last answer wait while nothing was written. After any calls
  that changed the keys or values below the folder, the next query answers at once with them, and the
  folder signals a reload; after any that changed what is known of the service, the query of its watch
  answers at once with the new entries.
\<close>

theorem fake_change_noticed:
  assumes "a' = fold fake_do calls a" "unat (fa_index a) + length calls < 2 ^ 64" "fa_index a \<noteq> 0"
    and "fw_index fw = fa_index a" "fw_hadKeys fw = (kv_keys folder a \<noteq> [])"
  shows "kv_pass folder (fa_index a) a = Blocks \<and> health_pass agg name False [] (fa_index a) a = Blocks \<and>
    (kv_content folder a' \<noteq> kv_content folder a \<longrightarrow>
       kv_pass folder (fw_index fw) a' = Answer (kv_content folder a', fa_index a') \<and>
       snd (folder_response (kv_keys folder a') (fa_index a') fw)) \<and>
    (fmlookup (fa_health a') name \<noteq> fmlookup (fa_health a) name \<longrightarrow>
       (\<exists>es. health_pass agg name False [] (fa_index a) a' = Answer (es, fa_index a') \<and>
          es = (case fmlookup (fa_health a') name of None \<Rightarrow> [] | Some es \<Rightarrow> es)))"
proof -
  note idx = fake_calls_index [OF assms(2), folded assms(1)]
  have same: "kv_content folder a' = kv_content folder a" if "fa_kv a' = fa_kv a"
    by (simp add: kv_content_def kv_keys_def that)
  have later: "fa_index a < fa_index a'" if "fa_kv a' \<noteq> fa_kv a \<or> fa_health a' \<noteq> fa_health a"
    using idx that by (simp add: word_less_nat_alt)
  have kv: "kv_pass folder (fw_index fw) a' = Answer (kv_content folder a', fa_index a') \<and>
      snd (folder_response (kv_keys folder a') (fa_index a') fw)"
    if c: "kv_content folder a' \<noteq> kv_content folder a"
  proof -
    have l: "fa_index a < fa_index a'" using later same c by blast
    have "kv_keys folder a' \<noteq> [] \<or> kv_keys folder a \<noteq> []" using c by (auto simp: kv_content_def)
    then show ?thesis using l assms(3-5)
      by (auto simp: kv_pass_def kv_content_def folder_response_def next_index_def Let_def)
  qed
  have health: "\<exists>es. health_pass agg name False [] (fa_index a) a' = Answer (es, fa_index a') \<and>
      es = (case fmlookup (fa_health a') name of None \<Rightarrow> [] | Some es \<Rightarrow> es)"
    if "fmlookup (fa_health a') name \<noteq> fmlookup (fa_health a) name"
  proof -
    have "fa_index a < fa_index a'" using later that by metis
    moreover have "filter (fake_matches agg False []) es = es" for es by (simp add: fake_matches_def)
    ultimately show ?thesis by (simp add: health_pass_def)
  qed
  show ?thesis using kv health assms(3) by (simp add: kv_pass_def health_pass_def)
qed

theorem fake_change_noticed_witness:
  "snd (folder_response (kv_keys ''config/'' (fake_do (PutKV ''config/app/a'' ''1'') (new_fake ''1.22'')))
     (fa_index (fake_do (PutKV ''config/app/a'' ''1'') (new_fake ''1.22'')))
     ((new_folder sample_loader ''config/'')\<lparr>fw_index := 1\<rparr>))"
proof -
  let ?a = "new_fake ''1.22''" and ?fw = "(new_folder sample_loader ''config/'')\<lparr>fw_index := 1\<rparr>"
  have k: "kv_keys ''config/'' ?a = []" by (simp add: kv_keys_def new_fake_def sorted_list_of_fset.rep_eq)
  let ?b = "fake_do (PutKV ''config/app/a'' ''1'') ?a"
  have "''config/app/a'' \<in> set (kv_keys ''config/'' ?b)"
    by (simp add: kv_keys_def new_fake_def fake_call_defs sorted_list_of_fset.rep_eq)
  then have "map fst (kv_content ''config/'' ?b) \<noteq> map fst (kv_content ''config/'' ?a)"
    unfolding kv_content_keys k by auto
  then have "kv_content ''config/'' ?b \<noteq> kv_content ''config/'' ?a" by metis
  then show ?thesis
    using fake_change_noticed [where a = ?a and calls = "[PutKV ''config/app/a'' ''1'']" and fw = ?fw and folder = "''config/''", OF refl]
    by (simp add: k) (simp add: new_fake_def new_folder_def)
qed

text \<open>
  A service the agent has lost is registered again. After \<open>Forget\<close> the blocking query of the
  registrar is answered 404 whatever hash it carries; the registrar then takes the registration for
  lost, degrades and begins an attempt; and when the agent takes the definition, the same query is
  answered with the service and its hash.
\<close>

theorem lost_service_recovered:
  assumes "\<not> cl_cancelled c" "agent_service.as_Name svc \<noteq> []" "agent_service.as_ID svc = sid"
    and "as_Ports svc = [] \<or> \<not> version_less (fa_version a) 1 22" "\<not> as_AI svc" "fa_failNext a \<le> 0" "sid \<noteq> []"
  shows "let lost = fake_do Forget a; again = snd (fake_register (Some svc) lost) in
    (\<exists>msg. get_service hash_of sid hash lost = Answer (Inl (404, msg)) \<and>
       after_watch f sid (Inl (StatusError 404 msg)) c = (RegLoad StateDegraded (RegTop f), mark_lost c)) \<and>
    registrar nd sy Internal (RegTop f) (mark_lost c) = Some (RegAttempt 1, mark_lost c) \<and>
    fst (fake_register (Some svc) lost) = None \<and>
    get_service hash_of sid [] again = Answer (Inr (svc, hash_of svc)) \<and>
    (hash_of svc \<noteq> [] \<longrightarrow> get_service hash_of sid (hash_of svc) again = Blocks)"
proof -
  have e: "is_status (StatusError 404 m) 404" for m by (simp add: is_status_def as_status_def)
  show ?thesis
    using assms e
    by (auto simp: Let_def get_service_def fake_call_defs after_watch_def fake_register_def mark_lost_def)
qed

definition sample_definition :: agent_service where
  "sample_definition =
     \<lparr>as_ID = ''orders-1'', as_Name = ''orders'', as_Tags = None, as_Address = ''10.0.0.5'', as_Port = 8080,
      as_Ports = [], as_Meta = fmempty, as_EnableTagOverride = False, as_Namespace = [], as_Partition = [],
      as_Weights = None, as_TaggedAddresses = fmempty, as_Check = None, as_AI = False\<rparr>"

theorem lost_service_recovered_witness:
  "get_service (\<lambda>_. ''h'') ''orders-1'' ''h'' (snd (fake_register (Some sample_definition) (fake_do Forget (new_fake ''1.22'')))) = Blocks"
proof -
  have h: "\<not> cl_cancelled sample_client" "agent_service.as_Name sample_definition \<noteq> []"
    "agent_service.as_ID sample_definition = ''orders-1''"
    "as_Ports sample_definition = [] \<or> \<not> version_less (fa_version (new_fake ''1.22'')) 1 22"
    "\<not> as_AI sample_definition" "fa_failNext (new_fake ''1.22'') \<le> 0" "''orders-1'' \<noteq> []"
    by (simp_all add: sample_client_def sample_definition_def new_fake_def)
  show ?thesis
    using lost_service_recovered [OF h, where hash_of = "\<lambda>_. ''h''"] by (simp add: Let_def del: fake_do.simps)
qed

end
