(* ===== verification/KVRace.thy ===== *)
theory KVRace
  imports KVWatch
begin

text \<open>
  A run of the configuration watch (kvconfig/watch.go) that ends at rest with a value the store does not
  hold. A folder without keys does not signal when its index moves. If a key is written to it and deleted
  again between two of its answers, and another folder made the watch reload in between, nothing makes
  it reload after the deletion.
\<close>

text \<open>A state of the store, what \<open>List\<close> returns of a folder in it, and the keys of the folder.\<close>

type_synonym kv_store = "(string \<times> string) list"

definition listed :: "kv_store \<Rightarrow> 64 word \<Rightarrow> string \<Rightarrow> kv_answer" where
  "listed st idx folder = Inr (filter (\<lambda>(k, v). has_prefix k folder) st, idx)"

definition keys_below :: "kv_store \<Rightarrow> string \<Rightarrow> string list" where
  "keys_below st folder = map fst (filter (\<lambda>(k, v). has_prefix k folder) st)"

definition two_folders :: loader where
  "two_folders =
     new_loader \<lparr>ld_Name = ''orders'', ld_Profiles = [], ld_Prefix = [], ld_DefaultContext = [],
       ld_ProfileSeparator = [], ld_Format = FormatKeyValue, ld_DataKey = [], ld_ErrorUnused = False,
       ld_RequestTimeout = 0, ld_WaitTime = 0, ld_MinInterval = 0, ld_Retry = None\<rparr>"

definition race_env :: kv_env where
  "race_env = \<lparr>ke_bind = ascii_env, ke_parse = no_doc, ke_loader = two_folders, ke_Validate = None\<rparr>"

abbreviation host_value :: "string \<Rightarrow> govalue" where
  "host_value h \<equiv> VStruct [VString h]"

definition store_first :: kv_store where
  "store_first = [(''config/application/host'', ''h0'')]"

definition store_between :: kv_store where
  "store_between = [(''config/application/host'', ''h2''), (''config/orders/host'', ''h1'')]"

definition store_last :: kv_store where
  "store_last = [(''config/application/host'', ''h2'')]"

lemma two_folders_contexts: "contexts two_folders = [''config/application/'', ''config/orders/'']"
  by (simp add: contexts_def two_folders_def new_loader_def trim_def trim_left_def trim_right_def)

lemma host_bound:
  assumes "fmlookup m ''host'' = Some (Leaf (SText h))" "trim_space h = h"
  shows "bind_at race_env m [] (TPtr sample_struct) (VPtr (Some (zero_value sample_struct))) =
    Some (None, VPtr (Some (host_value h)))"
proof -
  define e where "e = (bind_options race_env)\<lparr>be_Tag := ''consul''\<rparr>"
  have e: "be_Tag e = ''consul''" "\<not> be_ErrorUnused e"
    by (simp_all add: e_def bind_options_def race_env_def two_folders_def new_loader_def)
  have spec: "spec_of e (plain_field ''Host'' [(''consul'', ''host''), (''default'', ''localhost'')]) =
      \<lparr>fs_name = ''host'', fs_required = False, fs_skip = False\<rparr>"
    using e(1) by (simp add: spec_of_def plain_field_def tag_of_def cut_def) code_simp
  have key: "find_key e m ''host'' = Some (''host'', Leaf (SText h))" by (simp add: find_key_def assms(1))
  have "bind_field e [] m (plain_field ''Host'' [(''consul'', ''host''), (''default'', ''localhost'')])
      (TScalar ''string'' KString) (binder_of (TScalar ''string'' KString) e) (VString []) =
      Some ([], VString h, [''host''])"
    unfolding bind_field_def Let_def spec
    by (simp add: key) (simp add: plain_field_def tag_of_def assign_scalar_def scalar_def set_scalar_def assms(2) Let_def)
  then have "bd_section (binder_of sample_struct e) [] m (VStruct [VString []]) = Some ([], host_value h)"
    unfolding sample_struct_def binder_of_struct bind_struct_def
    by (simp add: struct_fields_def unknown_keys_def e)
  then have "bind_tree (bind_options race_env) m (TPtr sample_struct) (VPtr (Some (zero_value sample_struct))) =
      Some (None, VPtr (Some (host_value h)))"
    by (simp add: bind_tree_def Let_def e_def bind_options_def sample_struct_def errors_join_def zero_scalar_def)
  moreover have "subtree m [] = m" by (simp add: subtree_def trim_def trim_left_def trim_right_def)
  ultimately show ?thesis by (simp add: bind_at_def validate_value_def race_env_def)
qed

lemma store_built:
  assumes "load no_doc two_folders (listed st idx) = Inr (m, i)"
    and "fmlookup m ''host'' = Some (Leaf (SText h))" "trim_space h = h"
  shows "build_value race_env (watch_options_of []) sample_struct (listed st idx) = Some (host_value h, Some m, None)"
proof -
  have "wo_path (watch_options_of []) = []" "wo_validate (watch_options_of []) = None"
    by (simp_all add: watch_options_of_def)
  then show ?thesis using assms(1) host_bound [OF assms(2,3)]
    by (simp add: build_value_def race_env_def pointee_def)
qed

lemma layers:
  "decode no_doc two_folders ''config/application/'' [(''config/application/host'', v)] =
     Inr (fmupd ''host'' (Leaf (SText v)) fmempty)"
  "decode no_doc two_folders ''config/orders/'' [(''config/orders/host'', v)] =
     Inr (fmupd ''host'' (Leaf (SText v)) fmempty)"
  "decode no_doc two_folders f [] = Inr fmempty"
  by (simp_all add: decode_def two_folders_def new_loader_def trim_prefix_def folder_marker_def has_suffix_def as_object_def)

lemma loaded:
  "\<exists>m i. load no_doc two_folders (listed store_first 5) = Inr (m, i) \<and> fmlookup m ''host'' = Some (Leaf (SText ''h0''))"
  "\<exists>m i. load no_doc two_folders (listed store_between 7) = Inr (m, i) \<and> fmlookup m ''host'' = Some (Leaf (SText ''h1''))"
  "\<exists>m i. load no_doc two_folders (listed store_last 8) = Inr (m, i) \<and> fmlookup m ''host'' = Some (Leaf (SText ''h2''))"
  by (simp_all add: load_def two_folders_contexts listed_def store_first_def store_between_def store_last_def layers
      merge_tree_lookup)

lemma trimmed: "trim_space ''h0'' = ''h0''" "trim_space ''h1'' = ''h1''" "trim_space ''h2'' = ''h2''"
  by code_simp+

lemma built:
  "\<exists>m. build_value race_env (watch_options_of []) sample_struct (listed store_first 5) = Some (host_value ''h0'', Some m, None)"
  "\<exists>m. build_value race_env (watch_options_of []) sample_struct (listed store_between 7) = Some (host_value ''h1'', Some m, None)"
  "\<exists>m. build_value race_env (watch_options_of []) sample_struct (listed store_last 8) = Some (host_value ''h2'', Some m, None)"
  using loaded store_built trimmed by metis+

lemma two_admitted:
  "\<exists>l1 l2. limiter_wait oob (new_limiter second 2) 0 = (0, l1) \<and> limiter_wait oob l1 0 = (0, l2)"
proof -
  let ?l = "new_limiter second 2"
  have l: "0 < l_interval ?l" "l_interval ?l \<le> 2 ^ 53" "l_burst ?l = Fin (of_int 2)" "l_tokens ?l = Fin (of_int 2)"
    "l_last ?l = None"
    using f64_of_int_exact [of 2] by (simp_all add: new_limiter_def go_defs)
  have 1: "limiter_wait oob ?l 0 = (0, ?l\<lparr>l_tokens := Fin (of_int (2 - 1)), l_last := Some 0\<rparr>)"
    by (rule limiter_wait_token [OF l(1,2) _ _ _ l(3,4)]) (simp_all add: l(5))
  have "limiter_wait oob (?l\<lparr>l_tokens := Fin (of_int (2 - 1)), l_last := Some 0\<rparr>) 0 =
      (0, (?l\<lparr>l_tokens := Fin (of_int (2 - 1)), l_last := Some 0\<rparr>)\<lparr>l_tokens := Fin (of_int (1 - 1)), l_last := Some 0\<rparr>)"
    by (rule limiter_wait_token [where b = 2]) (use l in simp_all)
  with 1 show ?thesis by blast
qed

text \<open>
  The run. Both folders answer for the first time and the loop reloads. While the watcher of orders waits
  for its limiter, a key is written below orders and another below application, whose answer makes the
  loop reload; then the key below orders is deleted. The next request for orders is answered with the
  index of the deletion and no keys.
\<close>

definition race_events :: "kv_event list" where
  "race_events =
     [Folder 0 (Paced 0), Folder 1 (Paced 0),
      Folder 0 (Answered (Inr (keys_below store_first ''config/application/'', 5))),
      Folder 1 (Answered (Inr (keys_below store_first ''config/orders/'', 5))),
      TakeSignal, Next (listed store_first 5), Next (listed store_first 5),
      Folder 0 (Paced 0),
      Folder 0 (Answered (Inr (keys_below store_between ''config/application/'', 7))),
      TakeSignal, Next (listed store_between 7), Next (listed store_between 7),
      Next (listed store_between 7), Next (listed store_between 7), Next (listed store_between 7),
      Next (listed store_between 7),
      Folder 1 (Paced 0), Folder 1 (Answered (Inr (keys_below store_last ''config/orders/'', 8)))]"

text \<open>
  C29. The silence of empty folders loses a deletion. In this run the loop ends waiting without a signal,
  both folders have answered for the state of the store they hold the index of, and the current value
  has the host \<open>h1\<close> although the store no longer has that key and building the value now gives \<open>h2\<close>.
  Nothing but another change makes the watch reload.
\<close>

theorem deletion_lost:
  "\<exists>w0 w m. start_kv_watch race_env [] sample_struct (listed store_first 5) = Some (Inr w0) \<and>
     kv_run oob race_env (watch_options_of []) sample_struct race_events w0 = Some w \<and>
     kw_pc w = RunWait \<and> \<not> kw_changed w \<and> \<not> kw_cancelled w \<and>
     map fw_index (kw_folders w) = [7, 8] \<and> map fw_failures (kw_folders w) = [0, 0] \<and>
     kw_current w = host_value ''h1'' \<and>
     build_value race_env (watch_options_of []) sample_struct (listed store_last 8) = Some (host_value ''h2'', Some m, None)"
proof -
  obtain m5 m7 m8 where b:
    "build_value race_env (watch_options_of []) sample_struct (listed store_first 5) = Some (host_value ''h0'', Some m5, None)"
    "build_value race_env (watch_options_of []) sample_struct (listed store_between 7) = Some (host_value ''h1'', Some m7, None)"
    "build_value race_env (watch_options_of []) sample_struct (listed store_last 8) = Some (host_value ''h2'', Some m8, None)"
    using built by blast
  obtain l1 l2 where l: "limiter_wait oob (new_limiter second 2) 0 = (0, l1)" "limiter_wait oob l1 0 = (0, l2)"
    using two_admitted by blast
  have i: "ld_MinInterval (ke_loader race_env) = second" "contexts (ke_loader race_env) = [''config/application/'', ''config/orders/'']"
    using two_folders_contexts by (simp_all add: race_env_def two_folders_def new_loader_def)
  have keys: "keys_below store_first ''config/application/'' = [''config/application/host'']"
    "keys_below store_first ''config/orders/'' = []" "keys_below store_last ''config/orders/'' = []"
    "keys_below store_between ''config/application/'' = [''config/application/host'']"
    by (simp_all add: keys_below_def store_first_def store_between_def store_last_def)
  define w0 where "w0 = new_kv_watch race_env (host_value ''h0'')"
  have start: "start_kv_watch race_env [] sample_struct (listed store_first 5) = Some (Inr w0)"
    by (simp add: start_kv_watch_def b w0_def)
  have run: "\<exists>w. kv_run oob race_env (watch_options_of []) sample_struct race_events w0 = Some w \<and>
     kw_pc w = RunWait \<and> \<not> kw_changed w \<and> \<not> kw_cancelled w \<and>
     map fw_index (kw_folders w) = [7, 8] \<and> map fw_failures (kw_folders w) = [0, 0] \<and>
     kw_current w = host_value ''h1''"
    unfolding race_events_def w0_def
    by (simp add: new_kv_watch_def i new_folder_def folder_step_def l folder_response_def folder_effects_def
        run_step_def reload_def b deep_equal_def observe_def keys next_index_def Let_def)
  then obtain w where w: "kv_run oob race_env (watch_options_of []) sample_struct race_events w0 = Some w"
    "kw_pc w = RunWait" "\<not> kw_changed w" "\<not> kw_cancelled w" "map fw_index (kw_folders w) = [7, 8]"
    "map fw_failures (kw_folders w) = [0, 0]" "kw_current w = host_value ''h1''"
    by (elim exE conjE) (rule that)
  show ?thesis
  proof (intro exI conjI)
    show "start_kv_watch race_env [] sample_struct (listed store_first 5) = Some (Inr w0)" by (rule start)
    show "kv_run oob race_env (watch_options_of []) sample_struct race_events w0 = Some w" by (rule w(1))
    show "build_value race_env (watch_options_of []) sample_struct (listed store_last 8) =
        Some (host_value ''h2'', Some m8, None)"
      by (rule b(3))
  qed (rule w(2-7))+
qed

end
