(* ===== verification/KVSystem.thy ===== *)
theory KVSystem
  imports FakeAgent KVRace
begin

text \<open>
  The watch of kvconfig/watch.go together with the store it reads. A reload is not atomic here:
  \<open>load\<close> (kvconfig/kvconfig.go) asks for one folder after the other, and the store may be written, the
  folder watchers answered and the consumer served between two of its reads. The store is a parameter
  whose laws are those of Consul's blocking queries (locale \<open>kv_store\<close>); the agent of the tests
  (internal/fakeconsul) is shown to keep them and is the store of the theorems at the end.
\<close>

subsection \<open>The store\<close>

text \<open>A query with a wait index (0 does not wait), the writes, and the states in which a write does not
  wrap an index.\<close>

record ('a, 'c) kv_server =
  srv_query :: "string \<Rightarrow> 64 word \<Rightarrow> 'a \<Rightarrow> (kv_pairs \<times> 64 word) pass"
  srv_write :: "'c \<Rightarrow> 'a \<Rightarrow> 'a"
  srv_room :: "'a \<Rightarrow> bool"

definition held :: "('a, 'c) kv_server \<Rightarrow> 'a \<Rightarrow> string \<Rightarrow> kv_pairs \<times> 64 word" where
  "held srv a folder = (case srv_query srv folder 0 a of Answer r \<Rightarrow> r | Blocks \<Rightarrow> ([], 0))"

text \<open>No folder that has keys loses its last one.\<close>

definition keeps_folders :: "('a, 'c) kv_server \<Rightarrow> string list \<Rightarrow> 'a \<Rightarrow> 'a \<Rightarrow> bool" where
  "keeps_folders srv fs a a' \<longleftrightarrow> list_all (\<lambda>f. fst (held srv a f) \<noteq> [] \<longrightarrow> fst (held srv a' f) \<noteq> []) fs"

subsection \<open>The system\<close>

record 'a kv_system =
  sy_store :: 'a
  sy_watch :: kv_watch
  sy_reads :: "(string \<times> kv_answer) list"

text \<open>
  The events: a write; the answer of the blocking query of a folder, at once or when its wait time is
  over; its failure; the next read of a reload and its failure; a step of the run loop; any other step
  of the watch.
\<close>

datatype 'c sys_event =
    Write 'c
  | Blocking nat
  | Elapsed nat
  | Failed nat goerr
  | ReadFolder
  | ReadFails goerr
  | Go
  | Local kv_event

fun local_event :: "kv_event \<Rightarrow> bool" where
  "local_event (Next answers) = False"
| "local_event (Folder i (Answered answer)) = False"
| "local_event _ = True"

text \<open>
  The answers a reload has so far; it is over when every folder was read or one of them fails. A folder that
  is listed twice (a profile given twice) has its first answer both times.
\<close>

definition answers_of :: "(string \<times> kv_answer) list \<Rightarrow> string \<Rightarrow> kv_answer" where
  "answers_of reads folder =
     (case map_of reads folder of Some r \<Rightarrow> r | None \<Rightarrow> Inl (Errorf ''not read'' []))"

fun read_stops :: "kv_env \<Rightarrow> string \<times> kv_answer \<Rightarrow> bool" where
  "read_stops env (f, Inl err) = True"
| "read_stops env (f, Inr (ps, idx)) = (case decode (ke_parse env) (ke_loader env) f ps of Inl _ \<Rightarrow> True | Inr _ \<Rightarrow> False)"

definition loaded :: "kv_env \<Rightarrow> (string \<times> kv_answer) list \<Rightarrow> bool" where
  "loaded env reads \<longleftrightarrow> length (contexts (ke_loader env)) \<le> length reads \<or> list_ex (read_stops env) reads"

definition on_watch :: "'a kv_system \<Rightarrow> kv_watch option \<Rightarrow> 'a kv_system option" where
  "on_watch s r = map_option (\<lambda>w. s\<lparr>sy_watch := w\<rparr>) r"

definition folder_query ::
    "('a, 'c) kv_server \<Rightarrow> 'a kv_system \<Rightarrow> nat \<Rightarrow> 64 word \<Rightarrow> keys_answer option" where
  "folder_query srv s i want =
     (if i < length (kw_folders (sy_watch s))
      then (case srv_query srv (fw_folder (kw_folders (sy_watch s) ! i)) want (sy_store s) of
              Blocks \<Rightarrow> None
            | Answer (ps, idx) \<Rightarrow> Some (Inr (map fst ps, idx)))
      else None)"

definition read_next :: "kv_env \<Rightarrow> 'a kv_system \<Rightarrow> (string \<Rightarrow> kv_answer) \<Rightarrow> 'a kv_system option" where
  "read_next env s answer =
     (if kw_pc (sy_watch s) = RunReload \<and> \<not> loaded env (sy_reads s)
      then (let f = contexts (ke_loader env) ! length (sy_reads s)
            in Some (s\<lparr>sy_reads := sy_reads s @ [(f, answer f)]\<rparr>))
      else None)"

fun sys_step ::
    "(f64 \<Rightarrow> int) \<Rightarrow> ('a, 'c) kv_server \<Rightarrow> kv_env \<Rightarrow> watch_options \<Rightarrow> gotype \<Rightarrow> 'c sys_event \<Rightarrow> 'a kv_system \<Rightarrow>
     'a kv_system option" where
  "sys_step oob srv env o' t (Write c) s =
     (if srv_room srv (sy_store s) \<and>
         keeps_folders srv (contexts (ke_loader env)) (sy_store s) (srv_write srv c (sy_store s))
      then Some (s\<lparr>sy_store := srv_write srv c (sy_store s)\<rparr>) else None)"
| "sys_step oob srv env o' t (Blocking i) s =
     Option.bind (folder_query srv s i (fw_index (kw_folders (sy_watch s) ! i)))
       (\<lambda>answer. on_watch s (kv_step oob env o' t (Folder i (Answered answer)) (sy_watch s)))"
| "sys_step oob srv env o' t (Elapsed i) s =
     Option.bind (folder_query srv s i 0)
       (\<lambda>answer. on_watch s (kv_step oob env o' t (Folder i (Answered answer)) (sy_watch s)))"
| "sys_step oob srv env o' t (Failed i err) s =
     on_watch s (kv_step oob env o' t (Folder i (Answered (Inl err))) (sy_watch s))"
| "sys_step oob srv env o' t ReadFolder s = read_next env s (\<lambda>f. Inr (held srv (sy_store s) f))"
| "sys_step oob srv env o' t (ReadFails err) s = read_next env s (\<lambda>f. Inl err)"
| "sys_step oob srv env o' t Go s =
     (if kw_pc (sy_watch s) = RunReload \<and> \<not> loaded env (sy_reads s) then None
      else map_option (\<lambda>w. s\<lparr>sy_watch := w, sy_reads := (if kw_pc w = RunReload then [] else sy_reads s)\<rparr>)
             (kv_step oob env o' t (Next (answers_of (sy_reads s))) (sy_watch s)))"
| "sys_step oob srv env o' t (Local ev) s =
     (if local_event ev then on_watch s (kv_step oob env o' t ev (sy_watch s)) else None)"

lemma on_watch_Some: "on_watch s r = Some s' \<longleftrightarrow> (\<exists>w. r = Some w \<and> s' = s\<lparr>sy_watch := w\<rparr>)"
  by (auto simp: on_watch_def)

text \<open>Reachable from \<open>Watch\<close>; what it read may be older than the store.\<close>

lemmas sys_step_forms = on_watch_Some bind_eq_Some_conv

inductive sys_reachable ::
    "(f64 \<Rightarrow> int) \<Rightarrow> ('a, 'c) kv_server \<Rightarrow> ('a \<Rightarrow> bool) \<Rightarrow> kv_env \<Rightarrow> watch_option list \<Rightarrow> gotype \<Rightarrow> govalue \<Rightarrow>
     'a kv_system \<Rightarrow> bool"
  for oob srv sane env opts t v0 where
  start: "sane a \<Longrightarrow> map fst reads = contexts (ke_loader env) \<Longrightarrow>
    start_kv_watch env opts t (answers_of reads) = Some (Inr w) \<Longrightarrow> kw_current w = v0 \<Longrightarrow>
    sys_reachable oob srv sane env opts t v0 \<lparr>sy_store = a, sy_watch = w, sy_reads = reads\<rparr>"
| step: "sys_reachable oob srv sane env opts t v0 s \<Longrightarrow>
    sys_step oob srv env (watch_options_of opts) t ev s = Some s' \<Longrightarrow>
    sys_reachable oob srv sane env opts t v0 s'"

subsection \<open>What a reload reads\<close>

text \<open>The outcome of a load depends on the pairs it was answered, not on the indexes.\<close>

lemma load_loop_same:
  assumes "\<forall>f\<in>set fs. \<exists>ps i j. A f = Inr (ps, i) \<and> B f = Inr (ps, j)"
    and "rest = [] \<or> (\<exists>f\<in>set fs. \<exists>e. layer_of parse c A f = Inl e)"
  shows "map_sum id fst (load_loop parse c A (fs @ rest) m i) = map_sum id fst (load_loop parse c B (fs @ rest) m j)"
  using assms
proof (induction fs arbitrary: m i j)
  case (Cons f fs)
  then obtain ps k l where f: "A f = Inr (ps, k)" "B f = Inr (ps, l)" by auto
  show ?case
  proof (cases "decode parse c f ps")
    case (Inr layer)
    then have "rest = [] \<or> (\<exists>f\<in>set fs. \<exists>e. layer_of parse c A f = Inl e)"
      using Cons.prems(2) f by (auto simp: layer_of_def)
    then show ?thesis using Cons.IH Cons.prems(1) f Inr by (simp add: bind_outcome_def)
  qed (simp add: f bind_outcome_def)
qed simp

lemma build_value_load:
  assumes "map_sum id fst (load (ke_parse env) (ke_loader env) A) = map_sum id fst (load (ke_parse env) (ke_loader env) B)"
  shows "build_value env o' t A = build_value env o' t B"
  using assms by (cases "load (ke_parse env) (ke_loader env) A"; cases "load (ke_parse env) (ke_loader env) B")
    (auto simp: build_value_def split: prod.splits)

text \<open>Every folder a reload has read gave the pairs the store holds.\<close>

definition current_reads :: "('a, 'c) kv_server \<Rightarrow> 'a \<Rightarrow> (string \<times> kv_answer) list \<Rightarrow> bool" where
  "current_reads srv a reads \<longleftrightarrow> list_all (\<lambda>(f, r). \<exists>idx. r = Inr (fst (held srv a f), idx)) reads"

lemma build_current:
  assumes "map fst reads = take (length reads) (contexts (ke_loader env))" "loaded env reads" "current_reads srv a reads"
  shows "build_value env o' t (answers_of reads) = build_value env o' t (\<lambda>f. Inr (held srv a f))"
proof (rule build_value_load)
  define rest where "rest = drop (length reads) (contexts (ke_loader env))"
  let ?fs = "map fst reads"
  let ?A = "answers_of reads" and ?B = "\<lambda>f. Inr (held srv a f) :: kv_answer"
  have fs: "contexts (ke_loader env) = ?fs @ rest" unfolding rest_def assms(1) by simp
  have A: "\<exists>idx. ?A f = Inr (fst (held srv a f), idx)" if f: "f \<in> set ?fs" for f
  proof -
    obtain r where r: "map_of reads f = Some r" using f by (metis map_of_eq_None_iff not_None_eq set_map)
    then have "(f, r) \<in> set reads" by (rule map_of_SomeD)
    then show ?thesis using assms(3) r by (force simp: current_reads_def list_all_iff answers_of_def)
  qed
  have same: "\<forall>f\<in>set ?fs. \<exists>ps i j. ?A f = Inr (ps, i) \<and> ?B f = Inr (ps, j)"
    using A by (metis surjective_pairing)
  have early: "rest = [] \<or> (\<exists>f\<in>set ?fs. \<exists>e. layer_of (ke_parse env) (ke_loader env) ?A f = Inl e)"
  proof (cases "rest = []")
    case False
    then have "\<not> length (contexts (ke_loader env)) \<le> length reads" by (simp add: rest_def)
    then obtain f r where r: "(f, r) \<in> set reads" "read_stops env (f, r)"
      using assms(2) by (auto simp: loaded_def list_ex_iff)
    then obtain idx where "r = Inr (fst (held srv a f), idx)" using assms(3) by (auto simp: current_reads_def list_all_iff)
    then obtain e where "decode (ke_parse env) (ke_loader env) f (fst (held srv a f)) = Inl e"
      using r(2) by (auto split: sum.splits)
    moreover have f: "f \<in> set ?fs" using r(1) by force
    ultimately show ?thesis using A [OF f] by (intro disjI2 bexI [OF _ f]) (auto simp: layer_of_def bind_outcome_def)
  qed simp
  show "map_sum id fst (load (ke_parse env) (ke_loader env) ?A) = map_sum id fst (load (ke_parse env) (ke_loader env) ?B)"
    unfolding load_def by (subst (1 2) fs) (rule load_loop_same [OF same early])
qed

subsection \<open>Invariants of the system\<close>

text \<open>The next answer of a folder signals a change.\<close>

definition will_signal :: "('a, 'c) kv_server \<Rightarrow> 'a \<Rightarrow> folder_watch \<Rightarrow> bool" where
  "will_signal srv a fw \<longleftrightarrow>
     fw_index fw = 0 \<or> 0 < fw_failures fw \<or>
     fw_index fw < snd (held srv a (fw_folder fw)) \<and> (fw_hadKeys fw \<or> fst (held srv a (fw_folder fw)) \<noteq> [])"

definition caught_up :: "('a, 'c) kv_server \<Rightarrow> 'a \<Rightarrow> folder_watch \<Rightarrow> bool" where
  "caught_up srv a fw \<longleftrightarrow> fw_index fw = snd (held srv a (fw_folder fw)) \<and> fw_failures fw = 0"

definition folder_ok :: "('a, 'c) kv_server \<Rightarrow> 'a \<Rightarrow> folder_watch \<Rightarrow> bool" where
  "folder_ok srv a fw \<longleftrightarrow> 0 \<le> fw_failures fw \<and> fw_index fw \<le> snd (held srv a (fw_folder fw))"

definition read_fresh :: "('a, 'c) kv_server \<Rightarrow> 'a \<Rightarrow> (string \<times> kv_answer) list \<Rightarrow> folder_watch \<Rightarrow> bool" where
  "read_fresh srv a reads fw \<longleftrightarrow>
     will_signal srv a fw \<or>
     (\<forall>ps idx. (fw_folder fw, Inr (ps, idx)) \<in> set reads \<longrightarrow> ps = fst (held srv a (fw_folder fw)))"

definition folders_ok :: "('a, 'c) kv_server \<Rightarrow> kv_env \<Rightarrow> 'a kv_system \<Rightarrow> bool" where
  "folders_ok srv env s \<longleftrightarrow>
     map fw_folder (kw_folders (sy_watch s)) = contexts (ke_loader env) \<and>
     list_all (folder_ok srv (sy_store s)) (kw_folders (sy_watch s)) \<and>
     map fst (sy_reads s) = take (length (sy_reads s)) (contexts (ke_loader env))"

text \<open>What the last reload read of a folder is still there, or the folder will signal, or it has.\<close>

definition reads_ok :: "('a, 'c) kv_server \<Rightarrow> 'a kv_system \<Rightarrow> bool" where
  "reads_ok srv s \<longleftrightarrow>
     kw_answered (sy_watch s) < kw_signals (sy_watch s) \<or>
     list_all (read_fresh srv (sy_store s) (sy_reads s)) (kw_folders (sy_watch s))"

fun between_reloads :: "run_pc \<Rightarrow> bool" where
  "between_reloads RunReload = False"
| "between_reloads RunStopping = False"
| "between_reloads RunJoin = False"
| "between_reloads RunDone = False"
| "between_reloads RunPanicked = False"
| "between_reloads _ = True"

definition linked :: "kv_env \<Rightarrow> watch_options \<Rightarrow> gotype \<Rightarrow> govalue \<Rightarrow> 'a kv_system \<Rightarrow> bool" where
  "linked env o' t v0 s \<longleftrightarrow>
     (between_reloads (kw_pc (sy_watch s)) \<longrightarrow>
        loaded env (sy_reads s) \<and>
        (case kw_last (sy_watch s) of
           None \<Rightarrow> \<exists>m. build_value env o' t (answers_of (sy_reads s)) = Some (v0, m, None)
         | Some r \<Rightarrow> build_value env o' t (answers_of (sy_reads s)) = Some r))"

lemma linked_store [simp]: "linked env o' t v0 (s\<lparr>sy_store := a\<rparr>) = linked env o' t v0 s"
  by (simp add: linked_def split: option.splits)

lemma folder_step_frame:
  assumes "folder_step oob c b ev fw = Some (fw', eff)" "\<forall>r. ev \<noteq> Answered (Inr r)" "0 \<le> fw_failures fw"
  shows "fw_folder fw' = fw_folder fw \<and> 0 \<le> fw_failures fw' \<and> (fw_index fw' = fw_index fw \<or> fw_index fw' = 0) \<and>
    (will_signal srv a fw \<longrightarrow> will_signal srv a fw') \<and> fw_hadKeys fw' = fw_hadKeys fw \<and> eff \<noteq> Signal"
  using assms
  by (auto simp: folder_step_def folder_failure_def Let_def will_signal_def
      split: folder_pc.splits folder_event.splits prod.splits if_splits sum.splits)

lemma folder_step_answer:
  assumes "folder_step oob c b (Answered (Inr (keys, idx))) fw = Some (fw', eff)"
  shows "b \<and> fw' = fw\<lparr>fw_pc := FwDone\<rparr> \<and> eff = Quiet \<or>
    \<not> b \<and> fw' = fst (folder_response keys idx fw) \<and> eff = (if snd (folder_response keys idx fw) then Signal else Quiet)"
  using assms by (auto simp: folder_step_def split: folder_pc.splits if_splits prod.splits)

text \<open>
  A store that keeps the rules of blocking queries: a query waits exactly while the index is not above the
  one it carries, indexes are positive and do not go back, and move when the pairs of the folder change.
\<close>

locale kv_store =
  fixes srv :: "('a, 'c) kv_server" and sane :: "'a \<Rightarrow> bool"
  assumes sane_write: "sane a \<Longrightarrow> srv_room srv a \<Longrightarrow> sane (srv_write srv c a)"
    and asks: "sane a \<Longrightarrow> srv_query srv f want a =
      (if want = 0 \<or> want < snd (held srv a f) then Answer (held srv a f) else Blocks)"
    and index_pos: "sane a \<Longrightarrow> snd (held srv a f) \<noteq> 0"
    and index_mono: "sane a \<Longrightarrow> srv_room srv a \<Longrightarrow> snd (held srv a f) \<le> snd (held srv (srv_write srv c a) f)"
    and index_moves: "sane a \<Longrightarrow> srv_room srv a \<Longrightarrow> fst (held srv (srv_write srv c a) f) \<noteq> fst (held srv a f) \<Longrightarrow>
      snd (held srv a f) < snd (held srv (srv_write srv c a) f)"
begin

lemma response_signals:
  assumes "sane a" "folder_ok srv a fw"
  shows "snd (folder_response (map fst (fst (held srv a (fw_folder fw)))) (snd (held srv a (fw_folder fw))) fw) =
    will_signal srv a fw"
  using assms index_pos [OF assms(1), of "fw_folder fw"]
  by (auto simp: folder_response_def Let_def will_signal_def folder_ok_def next_index_def)

lemma response_folder:
  assumes "sane a" "folder_ok srv a fw"
    "fw' = fst (folder_response (map fst (fst (held srv a (fw_folder fw)))) (snd (held srv a (fw_folder fw))) fw)"
  shows "fw_folder fw' = fw_folder fw" "caught_up srv a fw'" "folder_ok srv a fw'"
  using assms index_pos [OF assms(1), of "fw_folder fw"]
  by (auto simp: folder_response_def Let_def caught_up_def folder_ok_def next_index_def)

text \<open>A folder that has seen the store does not signal.\<close>

lemma caught_up_quiet: "sane a \<Longrightarrow> caught_up srv a fw \<Longrightarrow> \<not> will_signal srv a fw"
  using index_pos by (auto simp: caught_up_def will_signal_def)

lemma write_fresh:
  assumes "sane a" "srv_room srv a" "a' = srv_write srv c a" "folder_ok srv a fw" "read_fresh srv a reads fw"
    and "fst (held srv a (fw_folder fw)) \<noteq> [] \<Longrightarrow> fst (held srv a' (fw_folder fw)) \<noteq> []"
  shows "folder_ok srv a' fw \<and> read_fresh srv a' reads fw"
proof -
  let ?f = "fw_folder fw"
  have mono: "snd (held srv a ?f) \<le> snd (held srv a' ?f)" using index_mono assms(1-3) by simp
  have moves: "fst (held srv a' ?f) \<noteq> fst (held srv a ?f) \<Longrightarrow> snd (held srv a ?f) < snd (held srv a' ?f)"
    using index_moves assms(1-3) by simp
  have keeps: "will_signal srv a fw \<Longrightarrow> will_signal srv a' fw"
    using mono assms(6) by (auto simp: will_signal_def)
  have "read_fresh srv a' reads fw"
  proof (cases "fst (held srv a' ?f) = fst (held srv a ?f)")
    case True
    then show ?thesis using assms(5) keeps by (auto simp: read_fresh_def)
  next
    case False
    then have "fst (held srv a' ?f) \<noteq> []" using assms(6) by metis
    then have "will_signal srv a' fw" using moves [OF False] assms(4) by (auto simp: will_signal_def folder_ok_def)
    then show ?thesis by (simp add: read_fresh_def)
  qed
  then show ?thesis using assms(4) mono by (auto simp: folder_ok_def)
qed

end

subsection \<open>Steps of the watch\<close>

lemma kv_step_folder:
  assumes "kv_step oob env o' t (Folder i ev) w = Some w'"
  obtains fw eff where "i < length (kw_folders w)"
    "folder_step oob (ke_loader env) (kw_cancelled w) ev (kw_folders w ! i) = Some (fw, eff)"
    "kw_folders w' = (kw_folders w)[i := fw]" "kw_pc w' = kw_pc w" "kw_last w' = kw_last w"
    "kw_answered w' = kw_answered w" "kw_signals w' = kw_signals w + (if eff = Signal then 1 else 0)"
    "kw_cancelled w' = kw_cancelled w" "kw_changed w' = (kw_changed w \<or> eff = Signal)"
    "kw_changes w' = kw_changes w"
proof -
  obtain fw eff where r: "i < length (kw_folders w)"
    "folder_step oob (ke_loader env) (kw_cancelled w) ev (kw_folders w ! i) = Some (fw, eff)"
    "w' = folder_effects eff (w\<lparr>kw_folders := (kw_folders w)[i := fw]\<rparr>)"
    using assms by (auto split: if_splits option.splits)
  then show ?thesis
    by (intro that [of fw eff]) (auto simp: folder_effects_def observe_def split: folder_effect.splits)
qed

definition counts :: "kv_watch \<Rightarrow> folder_watch list \<times> nat \<times> nat" where
  "counts w = (kw_folders w, kw_answered w, kw_signals w)"

lemma local_step_frame:
  assumes "kv_step oob env o' t ev w = Some w'" "local_event ev" "\<nexists>i fev. ev = Folder i fev"
  shows "counts w' = counts w \<and> kw_last w' = kw_last w \<and> (between_reloads (kw_pc w') \<longrightarrow> between_reloads (kw_pc w))"
  using assms by (cases ev) (auto simp: counts_def split: if_splits option.splits)

lemma reload_counts: "counts (reload env o' t answers w) = counts w"
  by (auto simp: counts_def reload_def after_build_def observe_def split: option.splits)

lemma reload_linked:
  "between_reloads (kw_pc (reload env o' t answers w)) \<Longrightarrow> kw_last (reload env o' t answers w) = build_value env o' t answers"
  by (auto simp: reload_def after_build_def observe_def split: option.splits)

lemma reload_leaves: "kw_pc w = RunReload \<Longrightarrow> kw_pc (reload env o' t answers w) \<noteq> RunReload"
  by (auto simp: reload_def after_build_def observe_def split: option.splits)

lemma run_step_frame:
  assumes "run_step env o' t answers w = Some w'"
  shows "kw_pc w = RunReload \<and> w' = reload env o' t answers w \<or>
    kw_pc w = RunCoalesce \<and> \<not> kw_changed w \<and> w' = w\<lparr>kw_pc := RunReload, kw_answered := kw_signals w\<rparr> \<or>
    kw_pc w \<noteq> RunReload \<and> kw_pc w' \<noteq> RunReload \<and> counts w' = counts w \<and> kw_last w' = kw_last w \<and>
      (between_reloads (kw_pc w') \<longrightarrow> between_reloads (kw_pc w))"
  using assms by (cases "kw_pc w") (auto simp: run_step_def counts_def observe_def split: if_splits option.splits)

subsection \<open>Preservation\<close>

lemma list_all_update: "list_all P xs \<Longrightarrow> P x \<Longrightarrow> list_all P (xs[i := x])"
  using set_update_subset_insert [of xs i x] by (auto simp: list_all_iff)

context kv_store
begin

lemma folder_event_frame:
  assumes "kv_step oob env o' t (Folder i ev) w = Some w'" "\<forall>r. ev \<noteq> Answered (Inr r)"
    and "folders_ok srv env s" "reads_ok srv s" "sy_watch s = w" "sane (sy_store s)"
  shows "folders_ok srv env (s\<lparr>sy_watch := w'\<rparr>) \<and> reads_ok srv (s\<lparr>sy_watch := w'\<rparr>)"
  using assms(1)
proof (cases rule: kv_step_folder)
  case (1 fw eff)
  let ?old = "kw_folders w ! i" and ?a = "sy_store s"
  have old: "?old \<in> set (kw_folders w)" using 1 by simp
  then have ok: "folder_ok srv ?a ?old" using assms(3,5) by (auto simp: folders_ok_def list_all_iff)
  note f = folder_step_frame [OF 1(2) assms(2), where srv = srv and a = ?a]
  have f: "fw_folder fw = fw_folder ?old" "folder_ok srv ?a fw" "eff \<noteq> Signal"
    "read_fresh srv ?a (sy_reads s) ?old \<Longrightarrow> read_fresh srv ?a (sy_reads s) fw"
    using f ok by (auto simp: folder_ok_def read_fresh_def will_signal_def)
  have "map fw_folder ((kw_folders w)[i := fw]) = map fw_folder (kw_folders w)"
    using f(1) 1 by (simp add: map_update list_update_same_conv)
  moreover have "list_all (folder_ok srv ?a) ((kw_folders w)[i := fw])"
    using list_all_update f(2) assms(3,5) by (auto simp: folders_ok_def)
  moreover have "list_all (read_fresh srv ?a (sy_reads s)) ((kw_folders w)[i := fw])"
    if all: "list_all (read_fresh srv ?a (sy_reads s)) (kw_folders w)"
    using list_all_update [OF all f(4)] old all by (simp add: list_all_iff)
  ultimately show ?thesis using 1 f(3) assms(3-5) by (auto simp: folders_ok_def reads_ok_def)
qed

lemma folder_event_answer:
  assumes "kv_step oob env o' t (Folder i (Answered (Inr (map fst (fst (held srv a f)), snd (held srv a f))))) w = Some w'"
    and "folders_ok srv env s" "reads_ok srv s" "sy_watch s = w" "sy_store s = a" "sane a"
    and "f = fw_folder (kw_folders w ! i)" "kw_answered w \<le> kw_signals w"
  shows "folders_ok srv env (s\<lparr>sy_watch := w'\<rparr>) \<and> reads_ok srv (s\<lparr>sy_watch := w'\<rparr>)"
  using assms(1)
proof (cases rule: kv_step_folder)
  case (1 fw eff)
  let ?old = "kw_folders w ! i"
  have old: "?old \<in> set (kw_folders w)" using 1 by simp
  then have ok: "folder_ok srv a ?old" using assms(2,4,5) by (auto simp: folders_ok_def list_all_iff)
  have f: "fw_folder fw = f \<and> folder_ok srv a fw \<and>
      (eff = Signal \<or> (read_fresh srv a (sy_reads s) ?old \<longrightarrow> read_fresh srv a (sy_reads s) fw))"
    using folder_step_answer [OF 1(2)]
  proof (elim disjE conjE)
    assume "fw = ?old\<lparr>fw_pc := FwDone\<rparr>"
    then show ?thesis using ok assms(7) by (simp add: folder_ok_def read_fresh_def will_signal_def)
  next
    assume fw: "fw = fst (folder_response (map fst (fst (held srv a f))) (snd (held srv a f)) ?old)"
      and eff: "eff = (if snd (folder_response (map fst (fst (held srv a f))) (snd (held srv a f)) ?old) then Signal else Quiet)"
    note r = response_folder [OF assms(6) ok fw [unfolded assms(7)]]
    show ?thesis
    proof (cases "will_signal srv a ?old")
      case True
      then show ?thesis using response_signals [OF assms(6) ok] r(1,3) eff assms(7) by simp
    next
      case False
      then show ?thesis using r(1,3) assms(7) by (simp add: read_fresh_def)
    qed
  qed
  have "map fw_folder ((kw_folders w)[i := fw]) = map fw_folder (kw_folders w)"
    using f 1 assms(7) by (simp add: map_update list_update_same_conv)
  then have fs: "folders_ok srv env (s\<lparr>sy_watch := w'\<rparr>)"
    using 1 f assms(2,4,5) list_all_update [of "folder_ok srv a" "kw_folders w" fw] by (simp add: folders_ok_def)
  show ?thesis
  proof (cases "eff = Signal")
    case True
    then show ?thesis using fs 1 assms(8) by (simp add: reads_ok_def)
  next
    case False
    have "list_all (read_fresh srv a (sy_reads s)) ((kw_folders w)[i := fw])"
      if all: "list_all (read_fresh srv a (sy_reads s)) (kw_folders w)"
      by (rule list_all_update [OF all]) (use f old all False in \<open>simp add: list_all_iff\<close>)
    then show ?thesis using fs 1 False assms(3-5) by (auto simp: reads_ok_def)
  qed
qed

lemma unchanged_counts:
  "counts w' = counts (sy_watch s) \<Longrightarrow> folders_ok srv env s \<Longrightarrow> reads_ok srv s \<Longrightarrow>
     folders_ok srv env (s\<lparr>sy_watch := w'\<rparr>) \<and> reads_ok srv (s\<lparr>sy_watch := w'\<rparr>)"
  by (simp add: counts_def folders_ok_def reads_ok_def)

lemma folder_event_linked:
  assumes "kv_step oob env o' t (Folder i ev) (sy_watch s) = Some w'" "linked env o' t v0 s"
  shows "linked env o' t v0 (s\<lparr>sy_watch := w'\<rparr>)"
  using assms(1) by (cases rule: kv_step_folder) (use assms(2) in \<open>simp add: linked_def split: option.splits\<close>)

definition sys_inv :: "kv_env \<Rightarrow> watch_options \<Rightarrow> gotype \<Rightarrow> govalue \<Rightarrow> 'a kv_system \<Rightarrow> bool" where
  "sys_inv env o' t v0 s \<longleftrightarrow>
     sane (sy_store s) \<and> folders_ok srv env s \<and> reads_ok srv s \<and> linked env o' t v0 s"

lemma inv_write:
  assumes "sys_inv env o' t v0 s" "sys_step oob srv env o' t (Write c) s = Some s'"
  shows "sys_inv env o' t v0 s'"
proof -
  let ?a = "sy_store s" and ?a' = "srv_write srv c (sy_store s)"
  have s': "s' = s\<lparr>sy_store := ?a'\<rparr>" "srv_room srv ?a" "keeps_folders srv (contexts (ke_loader env)) ?a ?a'"
    using assms(2) by (auto split: if_splits)
  have sane: "sane ?a" using assms(1) by (simp add: sys_inv_def)
  have kept: "fst (held srv ?a' (fw_folder fw)) \<noteq> []"
    if "fw \<in> set (kw_folders (sy_watch s))" "fst (held srv ?a (fw_folder fw)) \<noteq> []" for fw
  proof -
    have "fw_folder fw \<in> set (contexts (ke_loader env))"
      using that(1) assms(1) unfolding sys_inv_def folders_ok_def by (metis image_eqI set_map)
    then show ?thesis using s'(3) that(2) by (simp add: keeps_folders_def list_all_iff)
  qed
  have "folder_ok srv ?a' fw \<and> (read_fresh srv ?a (sy_reads s) fw \<longrightarrow> read_fresh srv ?a' (sy_reads s) fw)"
    if fw: "fw \<in> set (kw_folders (sy_watch s))" for fw
  proof -
    have ok: "folder_ok srv ?a fw" using fw assms(1) by (auto simp: sys_inv_def folders_ok_def list_all_iff)
    have "read_fresh srv ?a [] fw" by (simp add: read_fresh_def)
    then show ?thesis using write_fresh [OF sane s'(2) refl ok _ kept [OF fw]] by blast
  qed
  then show ?thesis using assms(1) sane_write [OF sane s'(2)]
    by (auto simp: s'(1) sys_inv_def folders_ok_def reads_ok_def list_all_iff)
qed

lemma folder_query_now:
  assumes "folder_query srv s i want = Some answer" "sane (sy_store s)"
  shows "answer = Inr (map fst (fst (held srv (sy_store s) (fw_folder (kw_folders (sy_watch s) ! i)))),
      snd (held srv (sy_store s) (fw_folder (kw_folders (sy_watch s) ! i))))"
  using assms asks by (auto simp: folder_query_def split: if_splits pass.splits prod.splits)

lemma inv_answered:
  assumes "sys_inv env o' t v0 s" "kw_answered (sy_watch s) \<le> kw_signals (sy_watch s)"
    and "folder_query srv s i want = Some answer"
    and "kv_step oob env o' t (Folder i (Answered answer)) (sy_watch s) = Some w'"
  shows "sys_inv env o' t v0 (s\<lparr>sy_watch := w'\<rparr>)"
proof -
  have sane: "sane (sy_store s)" using assms(1) by (simp add: sys_inv_def)
  note a = folder_query_now [OF assms(3) sane]
  show ?thesis
    using folder_event_answer [OF assms(4) [unfolded a] _ _ refl refl sane refl assms(2)]
      folder_event_linked [OF assms(4)] assms(1)
    by (simp add: sys_inv_def)
qed

lemma inv_frame:
  assumes "sys_inv env o' t v0 s" "kv_step oob env o' t ev (sy_watch s) = Some w'"
    and "local_event ev \<or> (\<exists>i err. ev = Folder i (Answered (Inl err)))"
  shows "sys_inv env o' t v0 (s\<lparr>sy_watch := w'\<rparr>)"
proof (cases "\<exists>i fev. ev = Folder i fev")
  case True
  then obtain i fev where ev: "ev = Folder i fev" by blast
  have "\<forall>r. fev \<noteq> Answered (Inr r)" using assms(3) ev by auto
  then show ?thesis
    using folder_event_frame [OF assms(2) [unfolded ev]] folder_event_linked [OF assms(2) [unfolded ev]] assms(1)
    by (simp add: sys_inv_def)
next
  case False
  then have "local_event ev" using assms(3) by blast
  then have "counts w' = counts (sy_watch s)" "kw_last w' = kw_last (sy_watch s)"
    "between_reloads (kw_pc w') \<Longrightarrow> between_reloads (kw_pc (sy_watch s))"
    using local_step_frame [OF assms(2)] False by auto
  then show ?thesis using unchanged_counts [of w' s env] assms(1) by (simp add: sys_inv_def linked_def split: option.splits)
qed

lemma inv_read:
  assumes "sys_inv env o' t v0 s" "read_next env s answer = Some s'"
    and "\<And>f. answer f = Inr (held srv (sy_store s) f) \<or> (\<exists>err. answer f = Inl err)"
  shows "sys_inv env o' t v0 s'"
proof -
  let ?f = "contexts (ke_loader env) ! length (sy_reads s)"
  have pc: "kw_pc (sy_watch s) = RunReload" "\<not> loaded env (sy_reads s)"
    and s': "s' = s\<lparr>sy_reads := sy_reads s @ [(?f, answer ?f)]\<rparr>"
    using assms(2) by (auto simp: read_next_def Let_def split: if_splits)
  have "length (sy_reads s) < length (contexts (ke_loader env))" using pc(2) by (simp add: loaded_def)
  then have fs: "folders_ok srv env s'"
    using assms(1) by (simp add: sys_inv_def folders_ok_def s' take_Suc_conv_app_nth)
  have "read_fresh srv (sy_store s) (sy_reads s @ [(?f, answer ?f)]) fw" if "read_fresh srv (sy_store s) (sy_reads s) fw" for fw
    using that assms(3) [of ?f] by (auto simp: read_fresh_def) (metis fst_conv)
  then have "reads_ok srv s'" using assms(1) by (auto simp: sys_inv_def reads_ok_def s' list_all_iff)
  then show ?thesis using assms(1) fs pc(1) by (simp add: sys_inv_def linked_def s')
qed

lemma inv_go:
  assumes "sys_inv env o' t v0 s" "sys_step oob srv env o' t Go s = Some s'"
  shows "sys_inv env o' t v0 s'"
proof -
  let ?w = "sy_watch s" and ?answers = "answers_of (sy_reads s)"
  obtain w' where w': "run_step env o' t ?answers ?w = Some w'"
    and s': "s' = s\<lparr>sy_watch := w', sy_reads := (if kw_pc w' = RunReload then [] else sy_reads s)\<rparr>"
    and over: "kw_pc ?w = RunReload \<Longrightarrow> loaded env (sy_reads s)"
    using assms(2) by (auto split: if_splits)
  have inv: "sane (sy_store s)" "folders_ok srv env s" "reads_ok srv s" "linked env o' t v0 s"
    using assms(1) by (simp_all add: sys_inv_def)
  show ?thesis
    using run_step_frame [OF w']
  proof (elim disjE conjE)
    assume pc: "kw_pc ?w = RunReload" and r: "w' = reload env o' t ?answers ?w"
    then have "s' = s\<lparr>sy_watch := w'\<rparr>" using reload_leaves [OF pc] by (simp add: s')
    moreover have "linked env o' t v0 (s\<lparr>sy_watch := w'\<rparr>)"
      using reload_linked [of env o' t ?answers ?w] over [OF pc] r
      by (cases "build_value env o' t ?answers") (auto simp: linked_def reload_def)
    ultimately show ?thesis using inv unchanged_counts [of w' s env] reload_counts r by (simp add: sys_inv_def)
  next
    assume "w' = ?w\<lparr>kw_pc := RunReload, kw_answered := kw_signals ?w\<rparr>"
    then show ?thesis using inv
      by (simp add: s' sys_inv_def folders_ok_def reads_ok_def linked_def read_fresh_def list_all_iff)
  next
    assume "kw_pc w' \<noteq> RunReload" "counts w' = counts ?w" "kw_last w' = kw_last ?w"
      "between_reloads (kw_pc w') \<longrightarrow> between_reloads (kw_pc ?w)"
    then show ?thesis using inv unchanged_counts [of w' s env] by (simp add: s' sys_inv_def linked_def split: option.splits)
  qed
qed

lemma inv_step:
  assumes "sys_inv env o' t v0 s" "kw_answered (sy_watch s) \<le> kw_signals (sy_watch s)"
    and "sys_step oob srv env o' t ev s = Some s'"
  shows "sys_inv env o' t v0 s'"
proof (cases ev)
  case (Blocking i)
  then show ?thesis using assms inv_answered by (auto simp: sys_step_forms simp del: kv_step.simps)
next
  case (Elapsed i)
  then show ?thesis using assms inv_answered by (auto simp: sys_step_forms simp del: kv_step.simps)
next
  case (Failed i err)
  then show ?thesis using assms(3) inv_frame [OF assms(1)] by (auto simp: sys_step_forms simp del: kv_step.simps)
next
  case (Local lev)
  then show ?thesis using assms(3) inv_frame [OF assms(1)]
    by (auto simp: sys_step_forms simp del: kv_step.simps split: if_splits)
next
  case ReadFolder
  then show ?thesis using inv_read [OF assms(1)] assms(3) by auto
next
  case (ReadFails err)
  then show ?thesis using inv_read [OF assms(1)] assms(3) by auto
next
  case (Write c)
  then show ?thesis using inv_write assms(1,3) by blast
next
  case Go
  then show ?thesis using inv_go assms(1,3) by blast
qed

lemma new_folder_index [simp]: "fw_index (new_folder c f) = 0" "fw_failures (new_folder c f) = 0" "fw_folder (new_folder c f) = f"
  by (simp_all add: new_folder_def)

lemma inv_start:
  assumes "sane a" "map fst reads = contexts (ke_loader env)"
    and "start_kv_watch env opts t (answers_of reads) = Some (Inr w)" "kw_current w = v0"
  shows "sys_inv env (watch_options_of opts) t v0 \<lparr>sy_store = a, sy_watch = w, sy_reads = reads\<rparr>"
proof -
  obtain m where b: "build_value env (watch_options_of opts) t (answers_of reads) = Some (v0, m, None)"
    and w: "w = new_kv_watch env v0"
    using assms(3,4) by (auto simp: start_kv_watch_Inr) (simp add: new_kv_watch_def)
  have "length reads = length (contexts (ke_loader env))" using assms(2) by (metis length_map)
  then show ?thesis using assms(1,2) b
    by (simp add: sys_inv_def folders_ok_def reads_ok_def linked_def loaded_def w new_kv_watch_def list_all_iff
        folder_ok_def read_fresh_def will_signal_def comp_def)
qed

end

lemma sys_watch_step:
  "sys_step oob srv env o' t ev s = Some s' \<Longrightarrow>
     sy_watch s' = sy_watch s \<or> (\<exists>kev. kv_step oob env o' t kev (sy_watch s) = Some (sy_watch s'))"
  by (cases ev) (auto simp: sys_step_forms read_next_def Let_def simp del: kv_step.simps split: if_splits)

lemma sys_watch_reachable:
  "sys_reachable oob srv sane env opts t v0 s \<Longrightarrow> kv_reachable oob env opts t v0 (sy_watch s)"
proof (induction rule: sys_reachable.induct)
  case (step s ev s')
  then show ?case using sys_watch_step [OF step.hyps(2)] kv_reachable.step by metis
qed (auto intro: kv_reachable.start)

context kv_store
begin

lemma reachable_inv:
  assumes "sys_reachable oob srv sane env opts t v0 s"
  shows "sys_inv env (watch_options_of opts) t v0 s"
  using assms
proof (induction rule: sys_reachable.induct)
  case (start a reads w)
  then show ?case using inv_start by blast
next
  case (step s ev s')
  have "kw_answered (sy_watch s) \<le> kw_signals (sy_watch s)"
    using kv_invariants [OF sys_watch_reachable [OF step.hyps(1)]] by (simp add: kv_signals_ok_def)
  then show ?case using inv_step [OF step.IH _ step.hyps(2)] by blast
qed

end

subsection \<open>At rest the watch shows the store\<close>

definition resting :: "('a, 'c) kv_server \<Rightarrow> 'a kv_system \<Rightarrow> bool" where
  "resting srv s \<longleftrightarrow>
     kw_pc (sy_watch s) = RunWait \<and> \<not> kw_changed (sy_watch s) \<and>
     list_all (caught_up srv (sy_store s)) (kw_folders (sy_watch s))"

definition read_failed :: "(string \<times> kv_answer) list \<Rightarrow> bool" where
  "read_failed reads \<longleftrightarrow> list_ex (\<lambda>(f, r). case r of Inl _ \<Rightarrow> True | Inr _ \<Rightarrow> False) reads"

definition value_of_store :: "('a, 'c) kv_server \<Rightarrow> kv_env \<Rightarrow> watch_options \<Rightarrow> gotype \<Rightarrow> 'a \<Rightarrow> built option" where
  "value_of_store srv env o' t a = build_value env o' t (\<lambda>f. Inr (held srv a f))"

text \<open>The watch shows what a load of this store gives: the value, the rejected tree, or the error.\<close>

definition shows_store :: "('a, 'c) kv_server \<Rightarrow> kv_env \<Rightarrow> watch_options \<Rightarrow> gotype \<Rightarrow> 'a kv_system \<Rightarrow> bool" where
  "shows_store srv env o' t s \<longleftrightarrow>
     (case value_of_store srv env o' t (sy_store s) of
        None \<Rightarrow> False
      | Some (v, _, None) \<Rightarrow> kw_current (sy_watch s) = v
      | Some (_, Some m, Some err) \<Rightarrow> kw_rejected (sy_watch s) = Some m
      | Some (v, None, Some err) \<Rightarrow> kw_last (sy_watch s) = Some (v, None, Some err))"

context kv_store
begin

lemma rest_shows_store:
  assumes r: "sys_reachable oob srv sane env opts t v0 s" and rest: "resting srv s"
  shows "read_failed (sy_reads s) \<or> shows_store srv env (watch_options_of opts) t s"
proof (cases "read_failed (sy_reads s)")
  case False
  let ?w = "sy_watch s" and ?a = "sy_store s" and ?o = "watch_options_of opts"
  have pc: "kw_pc ?w = RunWait" "\<not> kw_changed ?w" using rest by (simp_all add: resting_def)
  have inv: "sane ?a" "folders_ok srv env s" "reads_ok srv s" "linked env ?o t v0 s"
    using reachable_inv [OF r] by (simp_all add: sys_inv_def)
  note kv = kv_invariants [OF sys_watch_reachable [OF r]]
  have "\<not> kw_answered ?w < kw_signals ?w" using kv pc by (auto simp: kv_signals_ok_def)
  then have fresh: "list_all (read_fresh srv ?a (sy_reads s)) (kw_folders ?w)" using inv(3) by (simp add: reads_ok_def)
  have "\<exists>idx. ans = Inr (fst (held srv ?a f), idx)" if in_reads: "(f, ans) \<in> set (sy_reads s)" for f ans
  proof -
    obtain ps idx where ans: "ans = Inr (ps, idx)"
      using False in_reads by (cases ans) (auto simp: read_failed_def list_ex_iff)
    have "f \<in> set (map fst (sy_reads s))" using in_reads by force
    then have "f \<in> set (map fw_folder (kw_folders ?w))"
      using inv(2) unfolding folders_ok_def by (metis in_set_takeD)
    then obtain fw where fw: "fw \<in> set (kw_folders ?w)" "fw_folder fw = f" by auto
    then have "\<not> will_signal srv ?a fw" using rest caught_up_quiet [OF inv(1)] by (auto simp: resting_def list_all_iff)
    then show ?thesis using fresh fw in_reads ans by (auto simp: read_fresh_def list_all_iff)
  qed
  then have "current_reads srv ?a (sy_reads s)" by (auto simp: current_reads_def list_all_iff)
  then have built: "build_value env ?o t (answers_of (sy_reads s)) = value_of_store srv env ?o t ?a"
    using build_current inv(2,4) pc(1) by (auto simp: value_of_store_def folders_ok_def linked_def)
  have last: "reflects v0 ?w" using kv pc(1) by (simp add: kv_last_ok_def)
  show ?thesis
  proof (cases "kw_last ?w")
    case None
    then show ?thesis using inv(4) built last pc(1) by (auto simp: linked_def shows_store_def reflects_def split: option.split)
  next
    case (Some r)
    then have "value_of_store srv env ?o t ?a = Some r" using inv(4) built pc(1) by (simp add: linked_def)
    then show ?thesis using last Some by (auto simp: shows_store_def reflects_def split: option.splits)
  qed
qed simp

end

subsection \<open>The agent of the tests is such a store\<close>

definition fake_store :: "(fake_agent, fake_call) kv_server" where
  "fake_store = \<lparr>srv_query = kv_pass, srv_write = fake_do, srv_room = fake_room\<rparr>"

lemma held_fake [simp]: "held fake_store a f = (kv_content f a, fa_index a)"
  by (simp add: held_def fake_store_def kv_pass_def kv_content_def)

lemma fake_content_moves:
  assumes "fake_room a" "kv_content f (fake_do c a) \<noteq> kv_content f a"
  shows "fa_index a < fa_index (fake_do c a)"
proof -
  have "fa_kv (fake_do c a) \<noteq> fa_kv a" using assms(2) by (auto simp: kv_content_def kv_keys_def)
  then show ?thesis using fake_do_room(3) assms(1) by blast
qed

interpretation fake: kv_store fake_store fake_sane
proof
  fix a c f want
  show "fake_sane a \<Longrightarrow> srv_query fake_store f want a =
      (if want = 0 \<or> want < snd (held fake_store a f) then Answer (held fake_store a f) else Blocks)"
    by (simp add: kv_pass_def kv_content_def) (simp add: fake_store_def kv_pass_def)
  show "fake_sane a \<Longrightarrow> snd (held fake_store a f) \<noteq> 0" by (simp add: fake_sane_def)
qed (simp_all, simp_all add: fake_store_def fake_do_room fake_content_moves)

end
