(* ===== verification/KVConverge.thy ===== *)
theory KVConverge
  imports KVSystem
begin

text \<open>
  The configuration watch converges (kvconfig/watch.go with internal/fakeconsul): once the store is no
  longer written and answers, the goroutines of the watch come to rest after a bounded number of steps,
  and then the watch shows what the store holds. The last part shows the one way out: a reload whose
  read fails is not tried again by itself.
\<close>

subsection \<open>Steps in a quiet store\<close>

text \<open>The steps of the goroutines, and the receives of the consumer: no write, failure, elapsed wait or
  cancellation.\<close>

fun quiet_event :: "'c sys_event \<Rightarrow> bool" where
  "quiet_event (Blocking i) = True"
| "quiet_event ReadFolder = True"
| "quiet_event Go = True"
| "quiet_event (Local TakeSignal) = True"
| "quiet_event (Local (Folder i (Paced now))) = True"
| "quiet_event (Local (Folder i TimerFires)) = True"
| "quiet_event _ = False"

fun consumer_event :: "'c sys_event \<Rightarrow> bool" where
  "consumer_event (Local Receive) = True"
| "consumer_event (Local ReceiveErr) = True"
| "consumer_event _ = False"

definition quiet_step ::
    "(f64 \<Rightarrow> int) \<Rightarrow> ('a, 'c) kv_server \<Rightarrow> kv_env \<Rightarrow> watch_options \<Rightarrow> gotype \<Rightarrow> 'c sys_event \<Rightarrow> 'a kv_system \<Rightarrow>
     'a kv_system option" where
  "quiet_step oob srv env o' t ev s =
     (if quiet_event ev \<or> consumer_event ev then sys_step oob srv env o' t ev s else None)"

primrec quiet_run ::
    "(f64 \<Rightarrow> int) \<Rightarrow> ('a, 'c) kv_server \<Rightarrow> kv_env \<Rightarrow> watch_options \<Rightarrow> gotype \<Rightarrow> 'c sys_event list \<Rightarrow> 'a kv_system \<Rightarrow>
     'a kv_system option" where
  "quiet_run oob srv env o' t [] s = Some s"
| "quiet_run oob srv env o' t (ev # evs) s =
     Option.bind (quiet_step oob srv env o' t ev s) (quiet_run oob srv env o' t evs)"

subsection \<open>A watch that is not cancelled\<close>

definition folder_alive :: "folder_watch \<Rightarrow> bool" where
  "folder_alive fw \<longleftrightarrow>
     fw_pc fw \<noteq> FwDone \<and> 0 \<le> fw_failures fw \<and> (0 < fw_failures fw \<longrightarrow> fw_index fw = 0 \<or> (\<exists>d. fw_pc fw = FwBackoff d))"

fun run_alive :: "run_pc \<Rightarrow> bool" where
  "run_alive RunStopping = False"
| "run_alive RunJoin = False"
| "run_alive RunDone = False"
| "run_alive _ = True"

definition kv_alive :: "kv_watch \<Rightarrow> bool" where
  "kv_alive w \<longleftrightarrow> kw_cancelled w \<or> run_alive (kw_pc w) \<and> list_all folder_alive (kw_folders w)"

lemma folder_step_alive:
  assumes "folder_step oob c False ev fw = Some (fw', eff)" "folder_alive fw"
  shows "folder_alive fw'"
  using assms
  by (auto simp: folder_step_def folder_failure_def folder_response_def Let_def folder_alive_def
      split: folder_pc.splits folder_event.splits prod.splits if_splits sum.splits)

lemma reload_alive: "run_alive (kw_pc (reload env o' t answers w)) \<or> kw_cancelled (reload env o' t answers w)"
  by (auto simp: reload_def after_build_def observe_def split: option.splits)

lemma kv_step_alive:
  assumes "kv_step oob env o' t ev w = Some w'" "kv_alive w"
  shows "kv_alive w'"
proof (cases ev)
  case (Folder i fev)
  from assms(1) [unfolded Folder] show ?thesis
  proof (cases rule: kv_step_folder)
    case (1 fw eff)
    show ?thesis
    proof (cases "kw_cancelled w")
      case True
      then show ?thesis using 1 by (simp add: kv_alive_def)
    next
      case False
      then have "folder_alive fw" using 1 assms(2) folder_step_alive [of oob "ke_loader env" fev]
        by (auto simp: kv_alive_def list_all_iff)
      then show ?thesis using 1 False assms(2) list_all_update [of folder_alive "kw_folders w" fw]
        by (simp add: kv_alive_def)
    qed
  qed
next
  case (Next answers)
  then have r: "run_step env o' t answers w = Some w'" using assms(1) by simp
  show ?thesis
    using run_step_frame [OF r]
  proof (elim disjE conjE)
    assume "w' = reload env o' t answers w"
    then show ?thesis using reload_alive [of env o' t answers w] reload_counts [of env o' t answers w] assms(2)
      by (auto simp: kv_alive_def counts_def reload_def after_build_def observe_def split: option.splits)
  next
    assume "counts w' = counts w"
    then show ?thesis using r assms(2)
      by (cases "kw_pc w") (auto simp: kv_alive_def counts_def run_step_def reload_def after_build_def observe_def
        split: if_splits option.splits)
  qed (use assms(2) in \<open>auto simp: kv_alive_def\<close>)
qed (use assms in \<open>auto simp: kv_alive_def split: if_splits option.splits\<close>)

lemma kv_alive_reachable: "kv_reachable oob env opts t v0 w \<Longrightarrow> kv_alive w"
proof (induction rule: kv_reachable.induct)
  case (start answers w)
  then show ?case
    by (auto simp: start_kv_watch_Inr new_kv_watch_def kv_alive_def folder_alive_def list_all_iff new_folder_def)
qed (rule kv_step_alive)

subsection \<open>The work left\<close>

text \<open>A folder has work while the store has moved on, and the pace of its limiter or a backoff to wait for.\<close>

definition due :: "('a, 'c) kv_server \<Rightarrow> 'a \<Rightarrow> folder_watch \<Rightarrow> bool" where
  "due srv a fw \<longleftrightarrow>
     fw_index fw = 0 \<or> fw_index fw < snd (held srv a (fw_folder fw)) \<or> (\<exists>d. fw_pc fw = FwBackoff d)"

fun pace_cost :: "folder_pc \<Rightarrow> nat" where
  "pace_cost (FwBackoff d) = 3"
| "pace_cost FwPace = 2"
| "pace_cost (FwPaced w) = 1"
| "pace_cost _ = 0"

fun run_cost :: "nat \<Rightarrow> nat \<Rightarrow> run_pc \<Rightarrow> nat" where
  "run_cost n k (RunNotify old v) = 1"
| "run_cost n k (RunSend old v) = 2"
| "run_cost n k (RunDrain old v) = 3"
| "run_cost n k (RunStore v) = 4"
| "run_cost n k RunReload = 5 + (n - k)"
| "run_cost n k RunCoalesce = 6 + n"
| "run_cost n k _ = 0"

definition folder_cost :: "('a, 'c) kv_server \<Rightarrow> nat \<Rightarrow> 'a \<Rightarrow> folder_watch \<Rightarrow> nat" where
  "folder_cost srv n a fw = (if due srv a fw then n + 10 else 0) + pace_cost (fw_pc fw)"

definition sys_cost :: "('a, 'c) kv_server \<Rightarrow> kv_env \<Rightarrow> 'a kv_system \<Rightarrow> nat" where
  "sys_cost srv env s =
     (let n = length (contexts (ke_loader env)); w = sy_watch s
      in run_cost n (length (sy_reads s)) (kw_pc w) + (if kw_changed w then n + 7 else 0) +
         sum_list (map (folder_cost srv n (sy_store s)) (kw_folders w)))"

lemma run_cost_le: "run_cost n k pc \<le> n + 6"
  by (cases pc) simp_all

lemma sum_list_le: "list_all (\<lambda>x. f x \<le> (b :: nat)) xs \<Longrightarrow> sum_list (map f xs) \<le> b * length xs"
  by (induction xs) simp_all

lemma sys_cost_le:
  assumes "length (kw_folders (sy_watch s)) = length (contexts (ke_loader env))" "n = length (contexts (ke_loader env))"
  shows "sys_cost srv env s \<le> n * (n + 15) + 13"
proof -
  have "folder_cost srv n (sy_store s) fw \<le> n + 13" for fw
    by (cases "fw_pc fw") (simp_all add: folder_cost_def)
  then have "sum_list (map (folder_cost srv n (sy_store s)) (kw_folders (sy_watch s))) \<le> (n + 13) * n"
    using sum_list_le [of "folder_cost srv n (sy_store s)" "n + 13" "kw_folders (sy_watch s)"] assms
    by (simp add: list_all_iff)
  moreover have "n * (n + 15) + 13 = (n + 13) * n + (n + 6) + (n + 7)" by algebra
  ultimately show ?thesis
    using run_cost_le [of n "length (sy_reads s)" "kw_pc (sy_watch s)"] assms(2)
    by (auto simp: sys_cost_def Let_def)
qed

lemma sum_list_update_less:
  assumes "i < length xs" "f y + d < f (xs ! i)"
  shows "sum_list (map f (xs[i := y])) + d < sum_list (map f xs :: nat list)"
proof -
  have "f (xs ! i) \<le> sum_list (map f xs)" using assms(1) by (intro member_le_sum_list) auto
  then show ?thesis using assms by (simp add: map_update sum_list_update)
qed

text \<open>A step of a folder that is not an answer makes its cost smaller and signals nothing.\<close>

lemma pacing_cost:
  assumes "folder_step oob c False ev fw = Some (fw', eff)" "(\<exists>now. ev = Paced now) \<or> ev = TimerFires"
  shows "folder_cost srv n a fw' < folder_cost srv n a fw \<and> eff = Quiet"
  using assms
  by (auto simp: folder_step_def Let_def folder_cost_def due_def split: folder_pc.splits prod.splits if_splits)

lemma folder_event_cost:
  assumes "kv_step oob env o' t (Folder i ev) (sy_watch s) = Some w'" "n = length (contexts (ke_loader env))"
    and "\<And>fw eff. folder_step oob (ke_loader env) (kw_cancelled (sy_watch s)) ev (kw_folders (sy_watch s) ! i) = Some (fw, eff) \<Longrightarrow>
      folder_cost srv n (sy_store s) fw + (if eff = Signal then n + 7 else 0) < folder_cost srv n (sy_store s) (kw_folders (sy_watch s) ! i)"
  shows "sys_cost srv env (s\<lparr>sy_watch := w'\<rparr>) < sys_cost srv env s"
  using assms(1)
proof (cases rule: kv_step_folder)
  case (1 fw eff)
  note less = sum_list_update_less [OF 1(1) assms(3) [OF 1(2)]]
  show ?thesis using less 1 assms(2) by (auto simp: sys_cost_def Let_def split: if_splits)
qed

lemma run_step_cost:
  assumes "run_step env o' t answers (sy_watch s) = Some w'" "run_alive (kw_pc (sy_watch s))"
    and "kw_pc (sy_watch s) = RunReload \<Longrightarrow> \<not> kw_cancelled (sy_watch s)"
  shows "sys_cost srv env (s\<lparr>sy_watch := w', sy_reads := (if kw_pc w' = RunReload then [] else sy_reads s)\<rparr>) <
    sys_cost srv env s"
  using assms
  by (cases "kw_pc (sy_watch s)")
    (auto simp: run_step_def sys_cost_def Let_def observe_def reload_def after_build_def split: if_splits option.splits)

context kv_store
begin

lemma answer_cost:
  assumes "sane a" "folder_ok srv a fw" "due srv a fw" "fw_pc fw = FwRequest"
    and "folder_step oob c False (Answered (Inr (map fst (fst (held srv a (fw_folder fw))), snd (held srv a (fw_folder fw))))) fw = Some (fw', eff)"
  shows "folder_cost srv n a fw' + (if eff = Signal then n + 7 else 0) < folder_cost srv n a fw"
proof -
  have r: "fw' = fst (folder_response (map fst (fst (held srv a (fw_folder fw)))) (snd (held srv a (fw_folder fw))) fw)"
    using folder_step_answer [OF assms(5)] by simp
  have pc: "fw_pc fw' = FwPace" by (simp add: r folder_response_def Let_def)
  note caught = response_folder(2) [OF assms(1,2) r]
  have "fw_index fw' \<noteq> 0" using caught index_pos [OF assms(1)] by (simp add: caught_up_def)
  then have "\<not> due srv a fw'" using caught pc by (simp add: due_def caught_up_def)
  then show ?thesis using assms(3) pc by (simp add: folder_cost_def)
qed

end

subsection \<open>The laws of a system that winds down\<close>

definition running :: "'a kv_system \<Rightarrow> bool" where
  "running s \<longleftrightarrow>
     \<not> kw_cancelled (sy_watch s) \<and> kv_alive (sy_watch s) \<and>
     (\<forall>old v. kw_pc (sy_watch s) = RunSend old v \<longrightarrow> kw_changes (sy_watch s) = None)"

lemma reachable_running:
  assumes "sys_reachable oob srv sane env opts t v0 s" "\<not> kw_cancelled (sy_watch s)"
  shows "running s"
proof -
  note r = sys_watch_reachable [OF assms(1)]
  show ?thesis using kv_alive_reachable [OF r] kv_invariants [OF r] assms(2)
    by (auto simp: running_def kv_slot_ok_def)
qed

definition settled :: "('a, 'c) kv_server \<Rightarrow> 'a kv_system \<Rightarrow> bool" where
  "settled srv s \<longleftrightarrow> kw_pc (sy_watch s) = RunPanicked \<or> resting srv s"

lemma quiet_step_sys: "quiet_step oob srv env o' t ev s = Some s' \<Longrightarrow> sys_step oob srv env o' t ev s = Some s'"
  by (simp add: quiet_step_def split: if_splits)

lemma reload_cancelled: "kw_cancelled (reload env o' t answers w) = kw_cancelled w"
  by (auto simp: reload_def after_build_def observe_def split: option.splits)

lemma quiet_uncancelled:
  assumes "quiet_step oob srv env o' t ev s = Some s'" "running s"
  shows "\<not> kw_cancelled (sy_watch s')"
proof -
  have a: "\<not> kw_cancelled (sy_watch s)" "run_alive (kw_pc (sy_watch s))"
    using assms(2) by (auto simp: running_def kv_alive_def)
  have folder: "\<not> kw_cancelled w'" if "kv_step oob env o' t (Folder i fev) (sy_watch s) = Some w'" for i fev w'
    using that by (cases rule: kv_step_folder) (use a in simp)
  have go: "\<not> kw_cancelled w'" if "run_step env o' t answers (sy_watch s) = Some w'" for answers w'
    using that a by (cases "kw_pc (sy_watch s)")
      (auto simp: run_step_def observe_def reload_cancelled split: if_splits option.splits)
  show ?thesis
    using assms(1) a(1) folder go
    by (cases ev rule: quiet_event.cases)
      (auto simp: quiet_step_def sys_step_forms read_next_def Let_def simp del: kv_step.simps(4) split: if_splits option.splits)
qed

lemma consumer_cost:
  assumes "quiet_step oob srv env o' t ev s = Some s'" "\<not> quiet_event ev"
  shows "sys_cost srv env s' \<le> sys_cost srv env s"
proof -
  have "consumer_event ev" using assms by (simp add: quiet_step_def split: if_splits)
  then show ?thesis using assms(1)
    by (cases ev rule: consumer_event.cases)
      (auto simp: quiet_step_def sys_step_forms sys_cost_def Let_def split: option.splits)
qed

context kv_store
begin

lemma quiet_cost:
  assumes inv: "sys_inv env o' t v0 s" and run: "running s"
    and ev: "quiet_event ev" and step: "sys_step oob srv env o' t ev s = Some s'"
  shows "sys_cost srv env s' < sys_cost srv env s"
proof -
  have a: "\<not> kw_cancelled (sy_watch s)" "run_alive (kw_pc (sy_watch s))"
    using run by (auto simp: running_def kv_alive_def)
  have sane: "sane (sy_store s)" and fs: "folders_ok srv env s" using inv by (simp_all add: sys_inv_def)
  show ?thesis
    using ev
  proof (cases ev rule: quiet_event.cases)
    case (1 i)
    let ?fw = "kw_folders (sy_watch s) ! i"
    obtain answer w' where q: "folder_query srv s i (fw_index ?fw) = Some answer"
      and w': "kv_step oob env o' t (Folder i (Answered answer)) (sy_watch s) = Some w'" "s' = s\<lparr>sy_watch := w'\<rparr>"
      using step 1 by (auto simp: sys_step_forms simp del: kv_step.simps)
    have i: "i < length (kw_folders (sy_watch s))" using q by (simp add: folder_query_def split: if_splits)
    then have ok: "folder_ok srv (sy_store s) ?fw" using fs by (simp add: folders_ok_def list_all_length)
    have due: "due srv (sy_store s) ?fw"
      using q i asks [OF sane] by (auto simp: folder_query_def due_def split: if_splits)
    note ans = folder_query_now [OF q sane]
    show ?thesis unfolding w'(2)
    proof (rule folder_event_cost [OF w'(1) refl])
      fix fw eff
      assume f: "folder_step oob (ke_loader env) (kw_cancelled (sy_watch s)) (Answered answer) ?fw = Some (fw, eff)"
      then have pc: "fw_pc ?fw = FwRequest" by (auto simp: folder_step_def split: folder_pc.splits)
      have "folder_step oob (ke_loader env) False (Answered (Inr (map fst (fst (held srv (sy_store s) (fw_folder ?fw))),
          snd (held srv (sy_store s) (fw_folder ?fw))))) ?fw = Some (fw, eff)" using f a(1) ans by simp
      from answer_cost [OF sane ok due pc this]
      show "folder_cost srv (length (contexts (ke_loader env))) (sy_store s) fw +
          (if eff = Signal then length (contexts (ke_loader env)) + 7 else 0) <
          folder_cost srv (length (contexts (ke_loader env))) (sy_store s) ?fw" .
    qed
  next
    case 2
    then show ?thesis using step
      by (auto simp: read_next_def Let_def loaded_def sys_cost_def split: if_splits)
  next
    case 3
    then obtain w' where w': "run_step env o' t (answers_of (sy_reads s)) (sy_watch s) = Some w'"
      "s' = s\<lparr>sy_watch := w', sy_reads := (if kw_pc w' = RunReload then [] else sy_reads s)\<rparr>"
      using step by (auto split: if_splits)
    show ?thesis unfolding w'(2) using run_step_cost [OF w'(1) a(2)] a(1) by blast
  next
    case 4
    then show ?thesis using step by (auto simp: sys_step_forms sys_cost_def Let_def split: if_splits)
  next
    case (5 i now)
    then obtain w' where w': "kv_step oob env o' t (Folder i (Paced now)) (sy_watch s) = Some w'" "s' = s\<lparr>sy_watch := w'\<rparr>"
      using step by (auto simp: sys_step_forms simp del: kv_step.simps)
    show ?thesis unfolding w'(2)
      by (rule folder_event_cost [OF w'(1) refl]) (use pacing_cost a(1) in fastforce)
  next
    case (6 i)
    then obtain w' where w': "kv_step oob env o' t (Folder i TimerFires) (sy_watch s) = Some w'" "s' = s\<lparr>sy_watch := w'\<rparr>"
      using step by (auto simp: sys_step_forms simp del: kv_step.simps)
    show ?thesis unfolding w'(2)
      by (rule folder_event_cost [OF w'(1) refl]) (use pacing_cost a(1) in fastforce)
  qed simp_all
qed

lemma quiet_enabled:
  assumes inv: "sys_inv env o' t v0 s" and run: "running s" and not: "\<not> settled srv s"
  shows "\<exists>ev s'. quiet_event ev \<and> sys_step oob srv env o' t ev s = Some s'"
proof -
  let ?w = "sy_watch s"
  have a: "\<not> kw_cancelled ?w" "run_alive (kw_pc ?w)" "list_all folder_alive (kw_folders ?w)"
    using run by (auto simp: running_def kv_alive_def)
  have sane: "sane (sy_store s)" and fs: "folders_ok srv env s" using inv by (simp_all add: sys_inv_def)
  have any: "?thesis" if "quiet_event ev" "sys_step oob srv env o' t ev s \<noteq> None" for ev using that by blast
  consider "kw_pc ?w = RunWait" "kw_changed ?w" | "kw_pc ?w = RunWait" "\<not> kw_changed ?w"
    | "kw_pc ?w = RunReload" "\<not> loaded env (sy_reads s)" | "kw_pc ?w \<noteq> RunWait" "kw_pc ?w = RunReload \<longrightarrow> loaded env (sy_reads s)"
    by blast
  then show ?thesis
  proof cases
    case 1
    then show ?thesis using any [of "Local TakeSignal"] by (simp add: on_watch_def)
  next
    case 2
    then have "\<not> list_all (caught_up srv (sy_store s)) (kw_folders ?w)" using not by (simp add: settled_def resting_def)
    then obtain i where i: "i < length (kw_folders ?w)" "\<not> caught_up srv (sy_store s) (kw_folders ?w ! i)"
      by (auto simp: list_all_length)
    let ?fw = "kw_folders ?w ! i"
    have ok: "folder_ok srv (sy_store s) ?fw" and alive: "folder_alive ?fw"
      using fs a(3) i(1) by (simp_all add: folders_ok_def list_all_length)
    show ?thesis
    proof (cases "fw_pc ?fw")
      case FwPace
      then show ?thesis using any [of "Local (Folder i (Paced 0))"] i(1)
        by (auto simp: on_watch_def folder_step_def Let_def simp del: not_None_eq split: prod.splits)
    next
      case (FwPaced d)
      then show ?thesis using any [of "Local (Folder i TimerFires)"] i(1) by (simp add: on_watch_def folder_step_def)
    next
      case (FwBackoff d)
      then show ?thesis using any [of "Local (Folder i TimerFires)"] i(1) by (simp add: on_watch_def folder_step_def)
    next
      case FwRequest
      then have "fw_failures ?fw = 0 \<or> fw_index ?fw = 0" using alive by (auto simp: folder_alive_def)
      then have "fw_index ?fw = 0 \<or> fw_index ?fw < snd (held srv (sy_store s) (fw_folder ?fw))"
        using i(2) ok by (auto simp: caught_up_def folder_ok_def)
      then obtain r where "folder_query srv s i (fw_index ?fw) = Some (Inr r)"
        using i(1) asks [OF sane] by (fastforce simp: folder_query_def split: prod.splits)
      then show ?thesis using any [of "Blocking i"] i(1) FwRequest a(1)
        by (simp add: on_watch_def folder_step_def split: prod.splits)
    qed (use alive in \<open>simp add: folder_alive_def\<close>)
  next
    case 3
    then show ?thesis using any [of ReadFolder] by (simp add: read_next_def Let_def)
  next
    case 4
    have "run_step env o' t (answers_of (sy_reads s)) ?w \<noteq> None"
      using 4 a(2) run not by (cases "kw_pc ?w") (auto simp: run_step_def running_def settled_def)
    then show ?thesis using any [of Go] 4 by (auto simp: split: if_splits)
  qed
qed

end

subsection \<open>A change reaches a reload\<close>

text \<open>Every read of the last reload succeeded, or there will be another one: a signal is pending, or a
  folder has one to send.\<close>

definition hears :: "('a, 'c) kv_server \<Rightarrow> 'a kv_system \<Rightarrow> bool" where
  "hears srv s \<longleftrightarrow>
     \<not> read_failed (sy_reads s) \<or> kw_answered (sy_watch s) < kw_signals (sy_watch s) \<or>
     list_ex (will_signal srv (sy_store s)) (kw_folders (sy_watch s))"

lemma list_ex_update:
  assumes "list_ex P xs" "i < length xs" "P (xs ! i) \<Longrightarrow> P y"
  shows "list_ex P (xs[i := y])"
proof -
  obtain j where j: "j < length xs" "P (xs ! j)" using assms(1) by (auto simp: list_ex_length)
  then have "P (xs[i := y] ! j)" using assms(2,3) by (cases "i = j") auto
  then show ?thesis using j(1) by (auto simp: list_ex_length)
qed

lemma quiet_store: "quiet_step oob srv env o' t ev s = Some s' \<Longrightarrow> sy_store s' = sy_store s"
  by (cases ev rule: quiet_event.cases)
    (auto simp: quiet_step_def sys_step_forms read_next_def Let_def simp del: kv_step.simps split: if_splits)

context kv_store
begin

lemma hears_pacing:
  assumes "kv_step oob env o' t (Folder i fev) (sy_watch s) = Some w'" "\<forall>r. fev \<noteq> Answered (Inr r)"
    and "hears srv s" "folders_ok srv env s"
  shows "hears srv (s\<lparr>sy_watch := w'\<rparr>)"
  using assms(1)
proof (cases rule: kv_step_folder)
  case (1 fw eff)
  have "folder_ok srv (sy_store s) (kw_folders (sy_watch s) ! i)" using 1 assms(4) by (simp add: folders_ok_def list_all_length)
  then have "will_signal srv (sy_store s) (kw_folders (sy_watch s) ! i) \<Longrightarrow> will_signal srv (sy_store s) fw" "eff \<noteq> Signal"
    using folder_step_frame [OF 1(2) assms(2), where srv = srv and a = "sy_store s"] by (auto simp: folder_ok_def)
  then show ?thesis using assms(3) 1 list_ex_update [of "will_signal srv (sy_store s)"] by (auto simp: hears_def)
qed

lemma hears_answer:
  assumes "sys_inv env o' t v0 s" "running s" "kw_answered (sy_watch s) \<le> kw_signals (sy_watch s)"
    and "folder_query srv s i want = Some answer"
    and "kv_step oob env o' t (Folder i (Answered answer)) (sy_watch s) = Some w'" "hears srv s"
  shows "hears srv (s\<lparr>sy_watch := w'\<rparr>)"
  using assms(5)
proof (cases rule: kv_step_folder)
  case (1 fw eff)
  let ?fw = "kw_folders (sy_watch s) ! i" and ?a = "sy_store s"
  have sane: "sane ?a" and ok: "folder_ok srv ?a ?fw"
    using assms(1) 1(1) by (auto simp: sys_inv_def folders_ok_def list_all_length)
  have "eff = (if will_signal srv ?a ?fw then Signal else Quiet)"
    using folder_step_answer [OF 1(2) [unfolded folder_query_now [OF assms(4) sane]]] response_signals [OF sane ok] assms(2)
    by (auto simp: running_def)
  then show ?thesis using assms(3,6) 1 list_ex_update [of "will_signal srv ?a"] by (auto simp: hears_def)
qed

lemma hears_step:
  assumes "sys_inv env o' t v0 s" "running s" "kw_answered (sy_watch s) \<le> kw_signals (sy_watch s)"
    and "quiet_step oob srv env o' t ev s = Some s'" "hears srv s"
  shows "hears srv s'"
proof -
  have step: "sys_step oob srv env o' t ev s = Some s'" "quiet_event ev \<or> consumer_event ev"
    using assms(4) by (auto simp: quiet_step_def split: if_splits)
  have fs: "folders_ok srv env s" using assms(1) by (simp add: sys_inv_def)
  have frame: "hears srv (s\<lparr>sy_watch := w'\<rparr>)" if "counts w' = counts (sy_watch s)" for w'
    using that assms(5) by (simp add: hears_def counts_def)
  show ?thesis
  proof (cases ev)
    case (Blocking i)
    then show ?thesis using step(1) hears_answer [OF assms(1-3) _ _ assms(5)]
      by (auto simp: sys_step_forms simp del: kv_step.simps)
  next
    case ReadFolder
    then show ?thesis using step(1) assms(5)
      by (auto simp: read_next_def Let_def hears_def read_failed_def split: if_splits)
  next
    case Go
    then obtain w' where w': "run_step env o' t (answers_of (sy_reads s)) (sy_watch s) = Some w'"
      "s' = s\<lparr>sy_watch := w', sy_reads := (if kw_pc w' = RunReload then [] else sy_reads s)\<rparr>"
      using step(1) by (auto split: if_splits)
    then have "kw_pc w' = RunReload \<or> counts w' = counts (sy_watch s)"
      using run_step_frame [OF w'(1)] reload_counts by auto
    then show ?thesis using frame [of w'] w'(2) by (auto simp: hears_def read_failed_def counts_def)
  next
    case (Local lev)
    then obtain w' where w': "kv_step oob env o' t lev (sy_watch s) = Some w'" "local_event lev" "s' = s\<lparr>sy_watch := w'\<rparr>"
      using step(1) by (auto simp: sys_step_forms simp del: kv_step.simps split: if_splits)
    show ?thesis
    proof (cases "\<exists>i fev. lev = Folder i fev")
      case True
      then obtain i fev where l: "lev = Folder i fev" by blast
      then have "\<forall>r. fev \<noteq> Answered (Inr r)" using w'(2) by auto
      then show ?thesis using hears_pacing [OF w'(1) [unfolded l] _ assms(5) fs] w'(3) by blast
    next
      case False
      then show ?thesis using local_step_frame [OF w'(1,2)] frame w'(3) by blast
    qed
  qed (use step(2) in simp_all)
qed

lemma quiet_end:
  assumes "quiet_run oob srv env (watch_options_of opts) t evs s = Some s'"
    and "sys_reachable oob srv sane env opts t v0 s" "\<not> kw_cancelled (sy_watch s)"
  shows "sys_reachable oob srv sane env opts t v0 s' \<and> sy_store s' = sy_store s \<and> (hears srv s \<longrightarrow> hears srv s')"
  using assms
proof (induction evs arbitrary: s)
  case (Cons ev evs)
  then obtain s1 where s1: "quiet_step oob srv env (watch_options_of opts) t ev s = Some s1"
    "quiet_run oob srv env (watch_options_of opts) t evs s1 = Some s'"
    by (auto simp: bind_eq_Some_conv)
  note run = reachable_running [OF Cons.prems(2,3)]
  have r: "sys_reachable oob srv sane env opts t v0 s1" using Cons.prems(2) quiet_step_sys [OF s1(1)] by (rule sys_reachable.step)
  have "kw_answered (sy_watch s) \<le> kw_signals (sy_watch s)"
    using kv_invariants [OF sys_watch_reachable [OF Cons.prems(2)]] by (simp add: kv_signals_ok_def)
  then have "hears srv s \<longrightarrow> hears srv s1" using hears_step [OF reachable_inv [OF Cons.prems(2)] run _ s1(1)] by blast
  then show ?case using Cons.IH [OF s1(2) r quiet_uncancelled [OF s1(1) run]] quiet_store [OF s1(1)] by simp
qed simp

lemma rest_hears:
  assumes "sys_reachable oob srv sane env opts t v0 s" "resting srv s" "hears srv s"
  shows "\<not> read_failed (sy_reads s)"
proof -
  have "\<not> kw_answered (sy_watch s) < kw_signals (sy_watch s)"
    using kv_invariants [OF sys_watch_reachable [OF assms(1)]] assms(2) by (auto simp: kv_signals_ok_def resting_def)
  moreover have "\<not> list_ex (will_signal srv (sy_store s)) (kw_folders (sy_watch s))"
    using assms(2) reachable_inv [OF assms(1)] caught_up_quiet by (auto simp: resting_def sys_inv_def list_all_iff list_ex_iff)
  ultimately show ?thesis using assms(3) by (simp add: hears_def)
qed

end

subsection \<open>Convergence on the agent of the tests\<close>

interpretation fake_quiet: winding_down "quiet_step oob fake_store env (watch_options_of opts) t" quiet_event
    "\<lambda>s. sys_reachable oob fake_store fake_sane env opts t v0 s \<and> \<not> kw_cancelled (sy_watch s)"
    "settled fake_store" "sys_cost fake_store env"
  for oob env opts t v0
proof
  fix s ev s'
  let ?inv = "\<lambda>s. sys_reachable oob fake_store fake_sane env opts t v0 s \<and> \<not> kw_cancelled (sy_watch s)"
  show "?inv s'" if "?inv s" and "quiet_step oob fake_store env (watch_options_of opts) t ev s = Some s'"
    using that quiet_step_sys [OF that(2)] quiet_uncancelled [OF that(2)] reachable_running
    by (blast intro: sys_reachable.step)
  show "sys_cost fake_store env s' < sys_cost fake_store env s"
    if "?inv s" "quiet_event ev" "quiet_step oob fake_store env (watch_options_of opts) t ev s = Some s'"
    using that fake.quiet_cost [OF fake.reachable_inv reachable_running _ quiet_step_sys] by blast
  show "sys_cost fake_store env s' \<le> sys_cost fake_store env s"
    if "?inv s" "\<not> quiet_event ev" "quiet_step oob fake_store env (watch_options_of opts) t ev s = Some s'"
    using consumer_cost [OF that(3,2)] .
  show "\<exists>ev s'. quiet_event ev \<and> quiet_step oob fake_store env (watch_options_of opts) t ev s = Some s'"
    if "?inv s" "\<not> settled fake_store s"
  proof -
    have r: "sys_reachable oob fake_store fake_sane env opts t v0 s" "\<not> kw_cancelled (sy_watch s)" using that(1) by simp_all
    note not_settled = that(2)
    obtain ev s' where "quiet_event ev" "sys_step oob fake_store env (watch_options_of opts) t ev s = Some s'"
      using fake.quiet_enabled [OF fake.reachable_inv [OF r(1)] reachable_running [OF r] not_settled] by blast
    then have "quiet_event ev \<and> quiet_step oob fake_store env (watch_options_of opts) t ev s = Some s'"
      by (simp add: quiet_step_def)
    then show ?thesis by blast
  qed
qed

lemma quiet_run_steps:
  "quiet_run oob fake_store env (watch_options_of opts) t evs s = fake_quiet.steps oob env opts t evs s"
  by (induction evs arbitrary: s) (simp_all add: fun_eq_iff cong: Option.bind_cong)

text \<open>
  C3. The configuration converges. From any state of a watch that is not cancelled, when the store is
  neither written nor failing, the goroutines make at most a bounded number of steps, whatever the
  consumer does, and can always go on to a state of rest in which every folder has seen the store. There
  the watch shows what the store holds: the value a load of it gives is the current one, or its tree is
  the rejected one, or the folders cannot be decoded; unless the last reload had failed to read a folder,
  no signal was pending and no folder had one to send.
\<close>

theorem config_converges:
  assumes "sys_reachable oob fake_store fake_sane env opts t v0 s" "\<not> kw_cancelled (sy_watch s)"
    and "n = length (contexts (ke_loader env))"
  shows "(quiet_run oob fake_store env (watch_options_of opts) t evs s = Some s' \<longrightarrow>
       length (filter quiet_event evs) \<le> n * (n + 15) + 13) \<and>
     (\<exists>own stop. list_all quiet_event own \<and>
        quiet_run oob fake_store env (watch_options_of opts) t own s = Some stop \<and> sy_store stop = sy_store s \<and>
        (kw_pc (sy_watch stop) = RunPanicked \<and> \<not> any_free t \<or>
         resting fake_store stop \<and>
         (hears fake_store s \<longrightarrow> shows_store fake_store env (watch_options_of opts) t stop)))"
proof
  have "length (kw_folders (sy_watch s)) = n"
    using fake.reachable_inv [OF assms(1)] unfolding fake.sys_inv_def folders_ok_def assms(3) by (metis length_map)
  then have "sys_cost fake_store env s \<le> n * (n + 15) + 13" using sys_cost_le assms(3) by metis
  then show "quiet_run oob fake_store env (watch_options_of opts) t evs s = Some s' \<longrightarrow>
      length (filter quiet_event evs) \<le> n * (n + 15) + 13"
    using fake_quiet.bounded [OF conjI [OF assms(1,2)]] by (fastforce simp: quiet_run_steps)
  obtain own stop where own: "list_all quiet_event own"
    "quiet_run oob fake_store env (watch_options_of opts) t own s = Some stop" "settled fake_store stop"
    using fake_quiet.reaches_end [OF conjI [OF assms(1,2)]] unfolding quiet_run_steps by blast
  have r: "sys_reachable oob fake_store fake_sane env opts t v0 stop" and st: "sy_store stop = sy_store s"
    and h: "hears fake_store s \<Longrightarrow> hears fake_store stop"
    using fake.quiet_end [OF own(2) assms(1,2)] by auto
  have "kw_pc (sy_watch stop) = RunPanicked \<and> \<not> any_free t \<or>
      resting fake_store stop \<and> (hears fake_store s \<longrightarrow> shows_store fake_store env (watch_options_of opts) t stop)"
    using own(3) kv_never_panics [OF sys_watch_reachable [OF r]] fake.rest_shows_store [OF r] fake.rest_hears [OF r] h
    by (auto simp: settled_def)
  then show "\<exists>own stop. list_all quiet_event own \<and>
      quiet_run oob fake_store env (watch_options_of opts) t own s = Some stop \<and> sy_store stop = sy_store s \<and>
      (kw_pc (sy_watch stop) = RunPanicked \<and> \<not> any_free t \<or>
       resting fake_store stop \<and>
       (hears fake_store s \<longrightarrow> shows_store fake_store env (watch_options_of opts) t stop))"
    using own st by blast
qed

subsection \<open>Two runs\<close>

primrec sys_run ::
    "(f64 \<Rightarrow> int) \<Rightarrow> ('a, 'c) kv_server \<Rightarrow> kv_env \<Rightarrow> watch_options \<Rightarrow> gotype \<Rightarrow> 'c sys_event list \<Rightarrow> 'a kv_system \<Rightarrow>
     'a kv_system option" where
  "sys_run oob srv env o' t [] s = Some s"
| "sys_run oob srv env o' t (ev # evs) s =
     Option.bind (sys_step oob srv env o' t ev s) (sys_run oob srv env o' t evs)"

lemma sys_run_reachable:
  "sys_run oob srv env (watch_options_of opts) t evs s = Some s' \<Longrightarrow> sys_reachable oob srv sane env opts t v0 s \<Longrightarrow>
   sys_reachable oob srv sane env opts t v0 s'"
  by (induction evs arbitrary: s) (auto simp: bind_eq_Some_conv intro: sys_reachable.step)

text \<open>An agent that holds one key, and a watch that was started when its value was another.\<close>

definition agent_with :: "string \<Rightarrow> fake_agent" where
  "agent_with v = fake_do (PutKV ''config/application/host'' v) (new_fake ''1.22'')"

definition started :: "fake_agent kv_system" where
  "started =
     \<lparr>sy_store = agent_with ''h2'', sy_watch = new_kv_watch race_env (host_value ''h0''),
      sy_reads = map (\<lambda>f. (f, listed store_first 5 f)) (contexts two_folders)\<rparr>"

lemma agent_with_held:
  "fa_index (agent_with v) = 2" "fake_sane (agent_with v)"
  "kv_content f (agent_with v) = filter (\<lambda>(k, v). has_prefix k f) [(''config/application/host'', v)]"
proof -
  show "fa_index (agent_with v) = 2" "fake_sane (agent_with v)"
    by (simp_all add: agent_with_def fake_call_defs new_fake_def fake_sane_def)
  let ?key = "''config/application/host''"
  have kv: "fa_kv (agent_with v) = fmupd ?key v fmempty" by (simp add: agent_with_def fake_call_defs new_fake_def)
  have "ffilter (\<lambda>k. has_prefix k f) {|?key|} = (if has_prefix ?key f then {|?key|} else {||})" by auto
  then have "kv_keys f (agent_with v) = (if has_prefix ?key f then [?key] else [])"
    by (simp add: kv_keys_def kv sorted_list_of_fset.rep_eq)
  then show "kv_content f (agent_with v) = filter (\<lambda>(k, v). has_prefix k f) [(?key, v)]"
    by (simp add: kv_content_def kv)
qed

lemma agent_listed: "(\<lambda>f. Inr (held fake_store (agent_with v) f)) = listed [(''config/application/host'', v)] 2"
  by (simp add: fun_eq_iff listed_def agent_with_held)

lemma agent_value:
  assumes "trim_space v = v"
  shows "\<exists>m. value_of_store fake_store race_env (watch_options_of []) sample_struct (agent_with v) =
    Some (host_value v, Some m, None)"
proof -
  have "\<exists>m i. load no_doc two_folders (listed [(''config/application/host'', v)] 2) = Inr (m, i) \<and>
      fmlookup m ''host'' = Some (Leaf (SText v))"
    by (simp add: load_def two_folders_contexts listed_def layers merge_tree_lookup)
  then show ?thesis unfolding value_of_store_def agent_listed using store_built assms by blast
qed

lemma started_reachable:
  "sys_reachable oob fake_store fake_sane race_env [] sample_struct (host_value ''h0'') started"
proof -
  let ?reads = "map (\<lambda>f. (f, listed store_first 5 f)) (contexts two_folders)"
  obtain m where m: "build_value race_env (watch_options_of []) sample_struct (listed store_first 5) =
      Some (host_value ''h0'', Some m, None)"
    using built(1) by blast
  have "load no_doc two_folders (answers_of ?reads) = load no_doc two_folders (listed store_first 5)"
    by (simp add: load_def two_folders_contexts answers_of_def listed_def store_first_def layers)
  then have "build_value race_env (watch_options_of []) sample_struct (answers_of ?reads) =
      Some (host_value ''h0'', Some m, None)"
    using m build_value_load [of race_env "answers_of ?reads" "listed store_first 5"] by (simp add: race_env_def)
  then show ?thesis unfolding started_def
    by (intro sys_reachable.start) (simp_all add: agent_with_held start_kv_watch_def race_env_def new_kv_watch_def comp_def)
qed

theorem config_converges_witness:
  "\<exists>own stop. list_all quiet_event own \<and>
     quiet_run (\<lambda>_. 0) fake_store race_env (watch_options_of []) sample_struct own started = Some stop \<and>
     resting fake_store stop \<and> kw_current (sy_watch started) = host_value ''h0'' \<and>
     kw_current (sy_watch stop) = host_value ''h2''"
proof -
  have "\<not> kw_cancelled (sy_watch started)" "hears fake_store started" "sy_store started = agent_with ''h2''"
    by (simp_all add: started_def new_kv_watch_def hears_def read_failed_def listed_def list_ex_iff)
  moreover have "any_free sample_struct" by (simp add: sample_struct_def)
  ultimately obtain own stop where own: "list_all quiet_event own"
    "quiet_run (\<lambda>_. 0) fake_store race_env (watch_options_of []) sample_struct own started = Some stop"
    "resting fake_store stop" "sy_store stop = agent_with ''h2''"
    "shows_store fake_store race_env (watch_options_of []) sample_struct stop"
    using config_converges [OF started_reachable _ refl, of "\<lambda>_. 0" "[]" started] by auto
  then have "kw_current (sy_watch stop) = host_value ''h2''"
    using agent_value [OF trimmed(3)] by (auto simp: shows_store_def)
  moreover have "kw_current (sy_watch started) = host_value ''h0''" by (simp add: started_def new_kv_watch_def)
  ultimately show ?thesis using own by blast
qed

text \<open>
  The other run: the watch is started before the key is changed. Both folders answer for the changed
  store, the first read of the reload they ask for fails, and both folders wait in their next query.
\<close>

definition lapse_events :: "fake_call sys_event list" where
  "lapse_events =
     [Local (Folder 0 (Paced 0)), Blocking 0, Local (Folder 1 (Paced 0)), Blocking 1,
      Local TakeSignal, Go, ReadFails CtxDeadlineExceeded, Go,
      Local (Folder 0 (Paced 0)), Local (Folder 1 (Paced 0))]"

lemma agent_query:
  "srv_query fake_store f want (agent_with v) =
     (if want = 0 \<or> want < 2 then Answer (filter (\<lambda>(k, v). has_prefix k f) [(''config/application/host'', v)], 2) else Blocks)"
  using fake.asks [OF agent_with_held(2), of f want] by (simp add: agent_with_held)

lemma two_folders_settings:
  "ke_loader race_env = two_folders" "ke_parse race_env = no_doc"
  "ld_MinInterval two_folders = second"
  by (simp_all add: race_env_def two_folders_def new_loader_def)

lemma unread_value:
  "build_value race_env o' t (answers_of [(''config/application/'', Inl err)]) =
     Some (zero_value t, None, Some (Errorf (''consulx: read config '' @ ''config/application/'' @ '': '') [err]))"
  by (simp add: build_value_def load_def two_folders_settings two_folders_contexts answers_of_def)

lemma lapse_run:
  "\<exists>s. sys_run oob fake_store race_env (watch_options_of []) sample_struct lapse_events started = Some s \<and>
     kw_pc (sy_watch s) = RunWait \<and> \<not> kw_changed (sy_watch s) \<and> \<not> kw_cancelled (sy_watch s) \<and>
     map fw_index (kw_folders (sy_watch s)) = [2, 2] \<and> map fw_failures (kw_folders (sy_watch s)) = [0, 0] \<and>
     map fw_pc (kw_folders (sy_watch s)) = [FwRequest, FwRequest] \<and>
     kw_current (sy_watch s) = host_value ''h0'' \<and> sy_store s = agent_with ''h2''"
proof -
  obtain l1 l2 where l: "limiter_wait oob (new_limiter second 2) 0 = (0, l1)" "limiter_wait oob l1 0 = (0, l2)"
    using two_admitted by blast
  have q: "folder_query fake_store s i want =
      (if i < length (kw_folders (sy_watch s)) then
        (if want = 0 \<or> want < 2 then Some (Inr (map fst (filter (\<lambda>(k, v). has_prefix k (fw_folder (kw_folders (sy_watch s) ! i))) [(''config/application/host'', v)]), 2)) else None)
       else None)" if "sy_store s = agent_with v" for s i want v
    using that by (simp add: folder_query_def agent_query)
  show ?thesis
    unfolding lapse_events_def started_def
    by (simp add: new_kv_watch_def two_folders_settings two_folders_contexts new_folder_def folder_step_def l q on_watch_def
        folder_response_def folder_effects_def next_index_def run_step_def reload_def after_build_def observe_def
        read_next_def loaded_def unread_value Let_def)
qed

text \<open>In a settled state nothing of the watch moves when every folder waits in a query.\<close>

lemma waiting_stuck:
  assumes "kw_pc (sy_watch s) = RunWait" "\<not> kw_changed (sy_watch s)" "sy_store s = agent_with v"
    and "list_all (\<lambda>fw. fw_index fw = 2 \<and> fw_pc fw = FwRequest) (kw_folders (sy_watch s))" "quiet_event ev"
  shows "sys_step oob fake_store env o' t ev s = None"
proof -
  have "folder_query fake_store s i (fw_index (kw_folders (sy_watch s) ! i)) = None" for i
    using assms(3,4) by (auto simp: folder_query_def agent_query list_all_length)
  then show ?thesis using assms
    by (cases ev rule: quiet_event.cases)
      (auto simp: read_next_def on_watch_def run_step_def folder_step_def list_all_length)
qed

text \<open>
  C30. A reload whose read fails is not tried again. In this run a key has been changed, both folders
  have been answered for the change and the reload they asked for has failed to read a folder. The loop
  waits, the folders wait in their next query without a failure, no step is left until the store or the
  network does something, and the watch keeps the old value although the store answers and loading it
  now gives the new one.
\<close>

theorem failed_reload_lapses:
  "\<exists>s m. sys_reachable oob fake_store fake_sane race_env [] sample_struct (host_value ''h0'') s \<and>
     \<not> kw_cancelled (sy_watch s) \<and> resting fake_store s \<and>
     map fw_failures (kw_folders (sy_watch s)) = [0, 0] \<and>
     (\<nexists>ev s'. quiet_event ev \<and> sys_step oob fake_store race_env (watch_options_of []) sample_struct ev s = Some s') \<and>
     kw_current (sy_watch s) = host_value ''h0'' \<and>
     value_of_store fake_store race_env (watch_options_of []) sample_struct (sy_store s) =
       Some (host_value ''h2'', Some m, None)"
proof -
  obtain s where run: "sys_run oob fake_store race_env (watch_options_of []) sample_struct lapse_events started = Some s"
    and pc: "kw_pc (sy_watch s) = RunWait" "\<not> kw_changed (sy_watch s)" "\<not> kw_cancelled (sy_watch s)"
    and fs: "map fw_index (kw_folders (sy_watch s)) = [2, 2]" "map fw_failures (kw_folders (sy_watch s)) = [0, 0]"
    "map fw_pc (kw_folders (sy_watch s)) = [FwRequest, FwRequest]"
    and st: "kw_current (sy_watch s) = host_value ''h0''" "sy_store s = agent_with ''h2''"
    using lapse_run [of oob] by (elim exE conjE) (rule that)
  obtain f1 f2 where f: "kw_folders (sy_watch s) = [f1, f2]" using fs(1) by (auto simp: map_eq_Cons_conv)
  have r: "sys_reachable oob fake_store fake_sane race_env [] sample_struct (host_value ''h0'') s"
    using sys_run_reachable [OF run started_reachable] .
  have "resting fake_store s" using pc fs f by (simp add: resting_def caught_up_def st agent_with_held)
  moreover have "sys_step oob fake_store race_env (watch_options_of []) sample_struct ev s = None" if "quiet_event ev" for ev
    by (rule waiting_stuck [OF pc(1,2) st(2) _ that]) (use fs f in simp)
  then have "\<nexists>ev s'. quiet_event ev \<and> sys_step oob fake_store race_env (watch_options_of []) sample_struct ev s = Some s'"
    by fastforce
  moreover obtain m where "value_of_store fake_store race_env (watch_options_of []) sample_struct (sy_store s) =
      Some (host_value ''h2'', Some m, None)"
    using agent_value [OF trimmed(3)] st(2) by auto
  ultimately show ?thesis using r pc(3) fs(2) st(1) by (intro exI conjI)
qed

end
