(* ===== verification/ServiceSystem.thy ===== *)
theory ServiceSystem
  imports FakeAgent Watch
begin

text \<open>
  The watch of a service (discovery/watch.go) together with the catalogue it reads and the consumer of
  its events. The catalogue is a parameter with the laws of a blocking query (locale
  \<open>health_store\<close>); the health endpoint of the tests' agent (internal/fakeconsul) keeps them. An answer is
  one step: what the goroutine does between the answer and its next request is \<open>watch_iteration\<close>.
\<close>

record ('a, 'c) health_server =
  hs_query :: "64 word \<Rightarrow> 'a \<Rightarrow> (service_entry list \<times> 64 word) pass"
  hs_write :: "'c \<Rightarrow> 'a \<Rightarrow> 'a"
  hs_room :: "'a \<Rightarrow> bool"

definition listed_entries :: "('a, 'c) health_server \<Rightarrow> 'a \<Rightarrow> service_entry list \<times> 64 word" where
  "listed_entries srv a = (case hs_query srv 0 a of Answer r \<Rightarrow> r | Blocks \<Rightarrow> ([], 0))"

text \<open>The instances a query of this catalogue returns.\<close>

definition catalogue_instances ::
    "(api_check list \<Rightarrow> status) \<Rightarrow> query \<Rightarrow> ('a, 'c) health_server \<Rightarrow> 'a \<Rightarrow> service_instance list" where
  "catalogue_instances agg q srv a =
     (case fetch agg q (Inr (listed_entries srv a)) of Inl _ \<Rightarrow> [] | Inr (ins, _) \<Rightarrow> ins)"

record 'a service_system =
  ss_store :: 'a
  ss_sys :: watch_sys

datatype 'c service_event =
    StoreWrite 'c
  | Poll
  | PollElapsed
  | PollFails goerr
  | TakeEvent
  | TakeErr
  | CloseWatch

definition iterated ::
    "(api_check list \<Rightarrow> status) \<Rightarrow> discovery_config \<Rightarrow> query \<Rightarrow> health_answer \<Rightarrow> 'a service_system \<Rightarrow> 'a service_system" where
  "iterated agg cfg q answer s =
     s\<lparr>ss_sys := (ss_sys s)\<lparr>ws_watch := snd (watch_iteration agg cfg q answer (ws_watch (ss_sys s)))\<rparr>\<rparr>"

definition polled ::
    "(api_check list \<Rightarrow> status) \<Rightarrow> discovery_config \<Rightarrow> query \<Rightarrow> ('a, 'c) health_server \<Rightarrow> 64 word \<Rightarrow>
     'a service_system \<Rightarrow> 'a service_system option" where
  "polled agg cfg q srv want s =
     (if w_stopped (ws_watch (ss_sys s)) then None
      else (case hs_query srv want (ss_store s) of
              Blocks \<Rightarrow> None
            | Answer r \<Rightarrow> Some (iterated agg cfg q (Inr r) s)))"

fun service_step ::
    "(api_check list \<Rightarrow> status) \<Rightarrow> discovery_config \<Rightarrow> query \<Rightarrow> ('a, 'c) health_server \<Rightarrow> 'c service_event \<Rightarrow>
     'a service_system \<Rightarrow> 'a service_system option" where
  "service_step agg cfg q srv (StoreWrite c) s =
     (if hs_room srv (ss_store s) then Some (s\<lparr>ss_store := hs_write srv c (ss_store s)\<rparr>) else None)"
| "service_step agg cfg q srv Poll s =
     polled agg cfg q srv (o_WaitIndex (snd (watch_request cfg q (ws_watch (ss_sys s))))) s"
| "service_step agg cfg q srv PollElapsed s = polled agg cfg q srv 0 s"
| "service_step agg cfg q srv (PollFails err) s =
     (if w_stopped (ws_watch (ss_sys s)) then None else Some (iterated agg cfg q (Inl err) s))"
| "service_step agg cfg q srv TakeEvent s =
     (case mb_receive (w_box (ws_watch (ss_sys s))) of
        None \<Rightarrow> None
      | Some (ev, box) \<Rightarrow>
          Some (s\<lparr>ss_sys := (ss_sys s)\<lparr>ws_watch := (ws_watch (ss_sys s))\<lparr>w_box := box\<rparr>,
                                        ws_seen := ws_seen (ss_sys s) @ [ev]\<rparr>\<rparr>))"
| "service_step agg cfg q srv TakeErr s =
     (case w_errs (ws_watch (ss_sys s)) of
        None \<Rightarrow> None
      | Some err \<Rightarrow> Some (s\<lparr>ss_sys := (ss_sys s)\<lparr>ws_watch := (ws_watch (ss_sys s))\<lparr>w_errs := None\<rparr>\<rparr>\<rparr>))"
| "service_step agg cfg q srv CloseWatch s =
     Some (s\<lparr>ss_sys := (ss_sys s)\<lparr>ws_watch := (ws_watch (ss_sys s))\<lparr>w_stopped := True\<rparr>\<rparr>\<rparr>)"

inductive service_reachable ::
    "(api_check list \<Rightarrow> status) \<Rightarrow> discovery_config \<Rightarrow> query \<Rightarrow> ('a, 'c) health_server \<Rightarrow> ('a \<Rightarrow> bool) \<Rightarrow>
     'a service_system \<Rightarrow> bool"
  for agg cfg q srv sane where
  start: "sane a \<Longrightarrow> start_watch q = Inr w \<Longrightarrow>
    service_reachable agg cfg q srv sane \<lparr>ss_store = a, ss_sys = \<lparr>ws_watch = w, ws_seen = []\<rparr>\<rparr>"
| step: "service_reachable agg cfg q srv sane s \<Longrightarrow> service_step agg cfg q srv ev s = Some s' \<Longrightarrow>
    service_reachable agg cfg q srv sane s'"

lemma request_index [simp]: "o_WaitIndex (snd (watch_request cfg q w)) = w_index w"
  by (simp add: watch_request_def)

lemma service_step_watch:
  "service_step agg cfg q srv ev s = Some s' \<Longrightarrow>
     ss_sys s' = ss_sys s \<or> watch_step agg cfg q (ss_sys s) (ss_sys s')"
  by (cases ev) (auto simp: polled_def iterated_def intro: watch_step.intros split: if_splits option.splits pass.splits)

lemma service_watch_reachable:
  "service_reachable agg cfg q srv sane s \<Longrightarrow> watch_reachable agg cfg q (ss_sys s)"
proof (induction rule: service_reachable.induct)
  case (step s ev s')
  then show ?case using service_step_watch [OF step.hyps(2)] watch_reachable.step by metis
qed (simp add: watch_reachable.start)

text \<open>
  The laws of a blocking query: it waits exactly while the index is not above the one it carries, the index
  is positive and does not go back, and moves when the answer changes.
\<close>

locale health_store =
  fixes srv :: "('a, 'c) health_server" and sane :: "'a \<Rightarrow> bool"
  assumes sane_write: "sane a \<Longrightarrow> hs_room srv a \<Longrightarrow> sane (hs_write srv c a)"
    and asks: "sane a \<Longrightarrow> hs_query srv want a =
      (if want = 0 \<or> want < snd (listed_entries srv a) then Answer (listed_entries srv a) else Blocks)"
    and index_pos: "sane a \<Longrightarrow> snd (listed_entries srv a) \<noteq> 0"
    and index_mono: "sane a \<Longrightarrow> hs_room srv a \<Longrightarrow> snd (listed_entries srv a) \<le> snd (listed_entries srv (hs_write srv c a))"
    and index_moves: "sane a \<Longrightarrow> hs_room srv a \<Longrightarrow>
      fst (listed_entries srv (hs_write srv c a)) \<noteq> fst (listed_entries srv a) \<Longrightarrow>
      snd (listed_entries srv a) < snd (listed_entries srv (hs_write srv c a))"
begin

definition service_inv :: "(api_check list \<Rightarrow> status) \<Rightarrow> query \<Rightarrow> 'a service_system \<Rightarrow> bool" where
  "service_inv agg q s \<longleftrightarrow>
     (let w = ws_watch (ss_sys s); a = ss_store s
      in sane a \<and> w_index w \<le> snd (listed_entries srv a) \<and>
         (w_index w = snd (listed_entries srv a) \<longrightarrow>
            w_haveState w \<and> mb_last (w_box w) = catalogue_instances agg q srv a))"

lemma fetch_listed: "fetch agg q (Inr (listed_entries srv a)) =
    Inr (catalogue_instances agg q srv a, snd (listed_entries srv a))"
  by (simp add: catalogue_instances_def fetch_def Let_def split: prod.splits)

text \<open>After an answer the watch holds what the catalogue holds, and its index.\<close>

lemma answered:
  assumes "sane (ss_store s)" "w_index (ws_watch (ss_sys s)) \<le> snd (listed_entries srv (ss_store s))"
    and "watch_inv (ss_sys s)" "s' = iterated agg cfg q (Inr (listed_entries srv (ss_store s))) s"
  shows "ss_store s' = ss_store s \<and> w_index (ws_watch (ss_sys s')) = snd (listed_entries srv (ss_store s)) \<and>
    w_haveState (ws_watch (ss_sys s')) \<and> mb_last (w_box (ws_watch (ss_sys s'))) = catalogue_instances agg q srv (ss_store s) \<and>
    w_current (ws_watch (ss_sys s')) = Some (new_snapshot (catalogue_instances agg q srv (ss_store s))) \<and>
    w_stopped (ws_watch (ss_sys s')) = w_stopped (ws_watch (ss_sys s))"
  using assms index_pos [OF assms(1)]
  by (auto simp: iterated_def watch_iteration_def fetch_listed on_response_def Let_def next_index_def watch_inv_def)

lemma service_inv_step:
  assumes "service_inv agg q s" "watch_inv (ss_sys s)" "service_step agg cfg q srv ev s = Some s'"
  shows "service_inv agg q s'"
proof -
  let ?a = "ss_store s" and ?w = "ws_watch (ss_sys s)"
  have sane: "sane ?a" and le: "w_index ?w \<le> snd (listed_entries srv ?a)" using assms(1) by (simp_all add: service_inv_def Let_def)
  have poll: "service_inv agg q s'" if "polled agg cfg q srv want s = Some s'" for want
  proof -
    have "s' = iterated agg cfg q (Inr (listed_entries srv ?a)) s"
      using that asks [OF sane] by (auto simp: polled_def split: if_splits)
    from answered [OF sane le assms(2) this] show ?thesis using sane by (simp add: service_inv_def Let_def)
  qed
  show ?thesis
  proof (cases ev)
    case (StoreWrite c)
    let ?a' = "hs_write srv c ?a"
    have s': "s' = s\<lparr>ss_store := ?a'\<rparr>" "hs_room srv ?a" using assms(3) StoreWrite by (auto split: if_splits)
    note mono = index_mono [OF sane s'(2), of c] and moves = index_moves [OF sane s'(2), of c]
    have "w_haveState ?w \<and> mb_last (w_box ?w) = catalogue_instances agg q srv ?a'"
      if i: "w_index ?w = snd (listed_entries srv ?a')"
    proof -
      have idx: "snd (listed_entries srv ?a') = snd (listed_entries srv ?a)" using i le mono by simp
      then have "listed_entries srv ?a' = listed_entries srv ?a" using moves by (intro prod_eqI) force+
      then have "catalogue_instances agg q srv ?a' = catalogue_instances agg q srv ?a" by (simp add: catalogue_instances_def)
      then show ?thesis using assms(1) i idx by (simp add: service_inv_def Let_def)
    qed
    moreover have "w_index ?w \<le> snd (listed_entries srv ?a')" using le mono by simp
    ultimately show ?thesis using sane_write [OF sane s'(2)] s' by (simp add: service_inv_def Let_def)
  next
    case (PollFails err)
    then have "s' = iterated agg cfg q (Inl err) s" using assms(3) by (auto split: if_splits)
    then show ?thesis using sane index_pos [OF sane]
      by (auto simp: service_inv_def Let_def iterated_def watch_iteration_def fetch_def)
  next
    case TakeEvent
    then show ?thesis using assms(1,3) by (auto simp: service_inv_def Let_def mb_receive_simps split: option.splits)
  next
    case TakeErr
    then show ?thesis using assms(1,3) by (auto simp: service_inv_def Let_def split: option.splits)
  next
    case CloseWatch
    then show ?thesis using assms(1,3) by (auto simp: service_inv_def Let_def)
  qed (use poll assms(3) in auto)
qed

lemma service_reachable_inv:
  "service_reachable agg cfg q srv sane s \<Longrightarrow> service_inv agg q s"
proof (induction rule: service_reachable.induct)
  case (start a w)
  then show ?case using index_pos
    by (auto simp: service_inv_def Let_def start_watch_def new_watch_def split: if_splits)
next
  case (step s ev s')
  then show ?case
    using service_inv_step [OF step.IH watch_reachable_inv [OF service_watch_reachable [OF step.hyps(1)]] step.hyps(2)]
    by blast
qed

text \<open>The query of the watch waits exactly when the watch holds what the catalogue holds.\<close>

lemma poll_waits:
  assumes "service_reachable agg cfg q srv sane s" "\<not> w_stopped (ws_watch (ss_sys s))"
  shows "case service_step agg cfg q srv Poll s of
     None \<Rightarrow> w_current (ws_watch (ss_sys s)) = Some (new_snapshot (catalogue_instances agg q srv (ss_store s)))
   | Some s' \<Rightarrow> ss_store s' = ss_store s \<and>
       w_current (ws_watch (ss_sys s')) = Some (new_snapshot (catalogue_instances agg q srv (ss_store s))) \<and>
       service_step agg cfg q srv Poll s' = None"
proof -
  let ?a = "ss_store s" and ?w = "ws_watch (ss_sys s)"
  have inv: "service_inv agg q s" and winv: "watch_inv (ss_sys s)"
    using service_reachable_inv [OF assms(1)] watch_reachable_inv [OF service_watch_reachable [OF assms(1)]] .
  then have sane: "sane ?a" and le: "w_index ?w \<le> snd (listed_entries srv ?a)" by (simp_all add: service_inv_def Let_def)
  show ?thesis
  proof (cases "w_index ?w = 0 \<or> w_index ?w < snd (listed_entries srv ?a)")
    case True
    then have s1: "service_step agg cfg q srv Poll s = Some (iterated agg cfg q (Inr (listed_entries srv ?a)) s)"
      using asks [OF sane] assms(2) by (simp add: polled_def)
    show ?thesis unfolding s1
      using answered [OF sane le winv refl, of agg cfg q] assms(2) index_pos [OF sane] asks [OF sane]
      by (simp add: polled_def)
  next
    case False
    then have "w_index ?w = snd (listed_entries srv ?a)" using le by simp
    then have "w_current ?w = Some (new_snapshot (catalogue_instances agg q srv ?a))"
      using inv winv by (simp add: service_inv_def watch_inv_def Let_def)
    then show ?thesis using False asks [OF sane] by (auto simp: polled_def)
  qed
qed

end

subsection \<open>The health endpoint of the tests' agent\<close>

text \<open>It applies the passing and tag filters of a query; the filter expression is Consul's.\<close>

definition fake_catalogue :: "(api_check list \<Rightarrow> status) \<Rightarrow> query \<Rightarrow> (fake_agent, fake_call) health_server" where
  "fake_catalogue agg q =
     \<lparr>hs_query = health_pass agg (q_name q) (q_passing q) (q_tags q), hs_write = fake_do, hs_room = fake_room\<rparr>"

definition matching_entries :: "(api_check list \<Rightarrow> status) \<Rightarrow> query \<Rightarrow> fake_agent \<Rightarrow> service_entry list" where
  "matching_entries agg q a =
     filter (fake_matches agg (q_passing q) (q_tags q))
       (case fmlookup (fa_health a) (q_name q) of None \<Rightarrow> [] | Some es \<Rightarrow> es)"

lemma listed_fake [simp]: "listed_entries (fake_catalogue agg q) a = (matching_entries agg q a, fa_index a)"
  by (simp add: listed_entries_def fake_catalogue_def health_pass_def matching_entries_def)

lemma fake_entries_move:
  assumes "fake_room a" "matching_entries agg q (fake_do c a) \<noteq> matching_entries agg q a"
  shows "fa_index a < fa_index (fake_do c a)"
proof -
  have "fa_health (fake_do c a) \<noteq> fa_health a" using assms(2) by (auto simp: matching_entries_def)
  then show ?thesis using fake_do_room(3) assms(1) by blast
qed

interpretation fake_health: health_store "fake_catalogue agg q" fake_sane for agg q
proof
  fix a c want
  show "fake_sane a \<Longrightarrow> hs_query (fake_catalogue agg q) want a =
      (if want = 0 \<or> want < snd (listed_entries (fake_catalogue agg q) a)
       then Answer (listed_entries (fake_catalogue agg q) a) else Blocks)"
    by (simp add: matching_entries_def) (simp add: fake_catalogue_def health_pass_def)
  show "fake_sane a \<Longrightarrow> snd (listed_entries (fake_catalogue agg q) a) \<noteq> 0" by (simp add: fake_sane_def)
qed (simp_all, simp_all add: fake_catalogue_def fake_do_room fake_entries_move)

text \<open>The published snapshot and the consumer, with the one event it may not have read, agree with the
  catalogue.\<close>

definition shows_catalogue ::
    "(api_check list \<Rightarrow> status) \<Rightarrow> query \<Rightarrow> ('a, 'c) health_server \<Rightarrow> 'a service_system \<Rightarrow> bool" where
  "shows_catalogue agg q srv s \<longleftrightarrow>
     (let now = catalogue_instances agg q srv (ss_store s); w = ws_watch (ss_sys s); view = consumer_view (ws_seen (ss_sys s))
      in w_current w = Some (new_snapshot now) \<and>
         (case mb_chan (w_box w) of None \<Rightarrow> view = now | Some ev \<Rightarrow> ev = diff view now))"

lemma current_shows:
  assumes "watch_inv (ss_sys s)" "w_current (ws_watch (ss_sys s)) = Some (new_snapshot (catalogue_instances agg q srv (ss_store s)))"
  shows "shows_catalogue agg q srv s"
proof -
  have ok: "feed.box_ok (w_box (ws_watch (ss_sys s))) (ws_seen (ss_sys s))" using assms(1) by (simp add: watch_inv_def Let_def)
  have "mb_last (w_box (ws_watch (ss_sys s))) = catalogue_instances agg q srv (ss_store s)"
    using assms by (auto simp: watch_inv_def Let_def new_snapshot_def split: if_splits)
  then show ?thesis using feed.one_event_behind [OF ok] assms(2)
    by (auto simp: shows_catalogue_def Let_def consumer_view_feed)
qed

text \<open>
  C4. A service watch converges to the catalogue. After any writes, answers, elapsed waits, failures and
  receives, either the query of the watch waits, and then the published snapshot is what the catalogue
  holds and the consumer holds it too or has exactly the event that leads there still to read; or the
  query is answered at once, and after this one answer that is so and the next query waits.
\<close>

theorem service_watch_converges:
  assumes "service_reachable agg cfg q (fake_catalogue agg q) fake_sane s" "\<not> w_stopped (ws_watch (ss_sys s))"
  shows "case service_step agg cfg q (fake_catalogue agg q) Poll s of
     None \<Rightarrow> shows_catalogue agg q (fake_catalogue agg q) s
   | Some s' \<Rightarrow> ss_store s' = ss_store s \<and> shows_catalogue agg q (fake_catalogue agg q) s' \<and>
       service_step agg cfg q (fake_catalogue agg q) Poll s' = None"
proof (cases "service_step agg cfg q (fake_catalogue agg q) Poll s")
  case None
  then show ?thesis using fake_health.poll_waits [OF assms] current_shows watch_reachable_inv [OF service_watch_reachable [OF assms(1)]]
    by simp
next
  case (Some s')
  have "watch_inv (ss_sys s')"
    using watch_reachable_inv [OF service_watch_reachable [OF service_reachable.step [OF assms(1) Some]]] .
  moreover have p: "ss_store s' = ss_store s \<and>
      w_current (ws_watch (ss_sys s')) = Some (new_snapshot (catalogue_instances agg q (fake_catalogue agg q) (ss_store s))) \<and>
      service_step agg cfg q (fake_catalogue agg q) Poll s' = None"
    using fake_health.poll_waits [OF assms] Some by (simp del: service_step.simps)
  ultimately have "shows_catalogue agg q (fake_catalogue agg q) s'" by (intro current_shows) simp_all
  then show ?thesis using p Some by (simp del: service_step.simps)
qed

definition health_agent :: fake_agent where
  "health_agent = fake_do (SetHealth ''orders'' [sample_entry ''a'', sample_entry ''b'']) (new_fake ''1.22'')"

theorem service_watch_converges_witness:
  "let q = service_query ''orders''; agg = (\<lambda>_. StatusPassing); srv = fake_catalogue agg q;
       s0 = \<lparr>ss_store = health_agent, ss_sys = \<lparr>ws_watch = new_watch, ws_seen = []\<rparr>\<rparr>
   in \<exists>s. service_step agg (new_discovery \<lparr>dc_WaitTime = 0, dc_RequestTimeout = second, dc_MinInterval = 0, dc_Retry = None\<rparr>)
            q srv Poll s0 = Some s \<and> shows_catalogue agg q srv s \<and>
          map i_ID (snapshot_list (w_current (ws_watch (ss_sys s)))) = [''a'', ''b'']"
proof -
  let ?q = "service_query ''orders''" and ?agg = "\<lambda>_ :: api_check list. StatusPassing"
  let ?cfg = "new_discovery \<lparr>dc_WaitTime = 0, dc_RequestTimeout = second, dc_MinInterval = 0, dc_Retry = None\<rparr>"
  let ?srv = "fake_catalogue ?agg ?q"
  let ?s0 = "\<lparr>ss_store = health_agent, ss_sys = \<lparr>ws_watch = new_watch, ws_seen = []\<rparr>\<rparr>"
  have r: "service_reachable ?agg ?cfg ?q ?srv fake_sane ?s0"
    by (rule service_reachable.start) (simp_all add: start_watch_def service_query_def health_agent_def fake_sane_def
        fake_call_defs new_fake_def)
  obtain es idx where "hs_query ?srv 0 health_agent = Answer (es, idx)" by (simp add: fake_catalogue_def health_pass_def)
  then obtain s where s: "service_step ?agg ?cfg ?q ?srv Poll ?s0 = Some s"
    by (simp add: polled_def new_watch_def)
  have st: "\<not> w_stopped (ws_watch (ss_sys ?s0))" by (simp add: new_watch_def)
  from service_watch_converges [OF r st] s have shows': "ss_store s = health_agent" "shows_catalogue ?agg ?q ?srv s"
    by (simp_all del: service_step.simps)
  have "map i_ID (catalogue_instances ?agg ?q ?srv health_agent) = [''a'', ''b'']"
    by (simp add: catalogue_instances_def fetch_def matching_entries_def health_agent_def fake_call_defs new_fake_def
        service_query_def fake_matches_def sort_instances_def from_entry_def sample_entry_def sort_key_of_def Let_def)
  then have "map i_ID (snapshot_list (w_current (ws_watch (ss_sys s)))) = [''a'', ''b'']"
    using shows' by (simp add: shows_catalogue_def Let_def)
  then show ?thesis using s shows'(2) by (auto simp: Let_def simp del: service_step.simps)
qed

end
