(* ===== verification/RegSystem.thy ===== *)
theory RegSystem
  imports FakeAgent
begin

text \<open>
  The registrar of reliability.go together with the agent it talks to (internal/fakeconsul): its
  attempts register at the agent, its blocking queries are answered by it, and the agent may fail, hang
  or forget its services in between. The two requests of an attempt meet the same state of the agent.
\<close>

record reg_system =
  rs_agent :: fake_agent
  rs_pc :: reg_pc
  rs_client :: client

definition http_err :: "http_error \<Rightarrow> goerr" where
  "http_err e = StatusError (fst e) (snd e)"

text \<open>What a request comes back with: a hanging agent lets it time out, a failing one answers its code.\<close>

definition gated :: "fake_agent \<Rightarrow> 'x res \<Rightarrow> 'x res" where
  "gated a answer =
     (case fst (fake_admit [] a) of
        Hangs \<Rightarrow> Inl CtxDeadlineExceeded
      | Fails code \<Rightarrow> Inl (StatusError code ''injected failure'')
      | Passes \<Rightarrow> answer)"

definition self_answer :: "fake_agent \<Rightarrow> (string \<times> string \<times> string) res" where
  "self_answer a =
     gated a (case fake_self a of Inl e \<Rightarrow> Inl (http_err e) | Inr (dc, node, v) \<Rightarrow> Inr (v, dc, node))"

text \<open>The definition an attempt sends, if it sends one; it does not depend on how it is answered.\<close>

definition sent_definition :: "system \<Rightarrow> answers \<Rightarrow> client \<Rightarrow> agent_service option" where
  "sent_definition sy an c =
     (case last (cl_requests (snd (register sy an c))) of (ServiceRegister r, _) \<Rightarrow> Some r | _ \<Rightarrow> None)"

definition attempt_answers :: "system \<Rightarrow> fake_agent \<Rightarrow> answers \<Rightarrow> client \<Rightarrow> answers \<times> fake_agent" where
  "attempt_answers sy a an c =
     (let an1 = an\<lparr>an_self := self_answer a\<rparr>
      in case sent_definition sy an1 c of
           None \<Rightarrow> (an1, a)
         | Some r \<Rightarrow>
             (case gated a (Inr ()) of
                Inl e \<Rightarrow> (an1\<lparr>an_register := Some e\<rparr>, a)
              | Inr _ \<Rightarrow>
                  (let (res, a') = fake_register (Some r) a
                   in (an1\<lparr>an_register := map_option http_err res\<rparr>, a'))))"

text \<open>The answer of a query for a service: the hash, or the error; \<open>None\<close> while it waits.\<close>

definition service_answer ::
    "(agent_service \<Rightarrow> string) \<Rightarrow> string \<Rightarrow> string \<Rightarrow> fake_agent \<Rightarrow> string res option" where
  "service_answer hash_of sid hash a =
     (case gated a (Inr ()) of
        Inl e \<Rightarrow> Some (Inl e)
      | Inr _ \<Rightarrow>
          (case get_service hash_of sid hash a of
             Blocks \<Rightarrow> None
           | Answer (Inl e) \<Rightarrow> Some (Inl (http_err e))
           | Answer (Inr (svc, h)) \<Rightarrow> Some (Inr h)))"

text \<open>
  The events: something done to the agent; a step of the registrar between two operations; an attempt; the
  answer of its query, at once, when the wait time is over, or lost on the way; a timer; the draw of a
  delay; the end of its context, and the registrar seeing it.
\<close>

datatype rs_event =
    AgentCall fake_call
  | RegInternal
  | RegTry answers duration nat
  | RegAnswered
  | RegElapsed
  | RegBroken goerr
  | RegTimer
  | RegDraw nat
  | RegCancel
  | RegSeesCancel

definition registrar_moves ::
    "(nat \<Rightarrow> int \<Rightarrow> duration \<times> bool) \<Rightarrow> system \<Rightarrow> reg_event \<Rightarrow> reg_system \<Rightarrow> reg_system option" where
  "registrar_moves nd sy e s =
     map_option (\<lambda>(pc, c). s\<lparr>rs_pc := pc, rs_client := c\<rparr>) (registrar nd sy e (rs_pc s) (rs_client s))"

fun watched_service :: "reg_pc \<Rightarrow> (string \<times> string) option" where
  "watched_service (RegWatching f sid hash) = Some (sid, hash)"
| "watched_service _ = None"

fun rs_step ::
    "(nat \<Rightarrow> int \<Rightarrow> duration \<times> bool) \<Rightarrow> system \<Rightarrow> (agent_service \<Rightarrow> string) \<Rightarrow> rs_event \<Rightarrow> reg_system \<Rightarrow>
     reg_system option" where
  "rs_step nd sy hash_of (AgentCall call) s = Some (s\<lparr>rs_agent := fake_do call (rs_agent s)\<rparr>)"
| "rs_step nd sy hash_of RegInternal s = registrar_moves nd sy Internal s"
| "rs_step nd sy hash_of (RegTry an since draw) s =
     (let (an', a') = attempt_answers sy (rs_agent s) an (rs_client s)
      in map_option (\<lambda>s'. s'\<lparr>rs_agent := a'\<rparr>) (registrar_moves nd sy (Attempted an' since draw) s))"
| "rs_step nd sy hash_of RegAnswered s =
     Option.bind (watched_service (rs_pc s)) (\<lambda>(sid, hash).
       Option.bind (service_answer hash_of sid hash (rs_agent s)) (\<lambda>answer. registrar_moves nd sy (Watched answer) s))"
| "rs_step nd sy hash_of RegElapsed s =
     Option.bind (watched_service (rs_pc s)) (\<lambda>(sid, hash).
       Option.bind (service_answer hash_of sid [] (rs_agent s)) (\<lambda>answer. registrar_moves nd sy (Watched answer) s))"
| "rs_step nd sy hash_of (RegBroken err) s = registrar_moves nd sy (Watched (Inl err)) s"
| "rs_step nd sy hash_of RegTimer s = registrar_moves nd sy TimerFired s"
| "rs_step nd sy hash_of (RegDraw draw) s = registrar_moves nd sy (Chosen draw) s"
| "rs_step nd sy hash_of RegCancel s = Some (s\<lparr>rs_client := (rs_client s)\<lparr>cl_cancelled := True\<rparr>\<rparr>)"
| "rs_step nd sy hash_of RegSeesCancel s = registrar_moves nd sy CtxDone s"

text \<open>Reachable from the moment \<open>Start\<close> launches the registrar, whatever the first attempt brought.\<close>

inductive rs_reachable ::
    "(nat \<Rightarrow> int \<Rightarrow> duration \<times> bool) \<Rightarrow> system \<Rightarrow> (agent_service \<Rightarrow> string) \<Rightarrow> client \<Rightarrow> reg_system \<Rightarrow> bool"
  for nd sy hash_of c0 where
  start: "rs_reachable nd sy hash_of c0 \<lparr>rs_agent = a, rs_pc = RegTop 0, rs_client = c0\<rparr>"
| step: "rs_reachable nd sy hash_of c0 s \<Longrightarrow> rs_step nd sy hash_of ev s = Some s' \<Longrightarrow>
    rs_reachable nd sy hash_of c0 s'"

subsection \<open>What an attempt leaves\<close>

text \<open>What the registrar does not touch, and a generated ID, which is kept once there is one.\<close>

definition same_setup :: "client \<Rightarrow> client \<Rightarrow> bool" where
  "same_setup c c' \<longleftrightarrow>
     cl_cfg c' = cl_cfg c \<and> cl_scheme c' = cl_scheme c \<and> cl_server c' = cl_server c \<and>
     cl_listener c' = cl_listener c \<and> cl_resolver c' = cl_resolver c \<and> cl_hook c' = cl_hook c \<and>
     (cl_generated c = None \<or> cl_generated c' = cl_generated c)"

lemma same_setup_refl [simp]: "same_setup c c"
  by (simp add: same_setup_def)

lemma same_setup_trans: "same_setup a b \<Longrightarrow> same_setup b c \<Longrightarrow> same_setup a c"
  by (auto simp: same_setup_def)

lemma service_id_keeps: "cl_generated c = None \<or> cl_generated (snd (service_id sy rnd port c)) = cl_generated c"
  by (auto simp: service_id_def Let_def split: option.splits)

lemma build_setup: "same_setup c (snd (build_registration sy an ep c))"
proof -
  obtain sid c1 where s: "service_id sy (an_random an) (ep_Port ep) c = (sid, c1)" by fastforce
  obtain g where "c1 = c\<lparr>cl_generated := g\<rparr>" using service_id_frame [OF s] by blast
  moreover have "cl_generated c = None \<or> cl_generated c1 = cl_generated c"
    using service_id_keeps [of c sy "an_random an" "ep_Port ep"] s by simp
  ultimately show ?thesis using s by (auto simp: build_registration_def Let_def same_setup_def)
qed

text \<open>What stays, apart from the record of the registration, of requests and of measurements.\<close>

definition left_alone :: "client \<Rightarrow> client \<Rightarrow> bool" where
  "left_alone c c' \<longleftrightarrow>
     same_setup c c' \<and> cl_state c' = cl_state c \<and> cl_cancelled c' = cl_cancelled c"

lemma build_alone: "left_alone c (snd (build_registration sy an ep c))"
proof -
  obtain res c' where b: "build_registration sy an ep c = (res, c')" by fastforce
  obtain g where "c' = c\<lparr>cl_generated := g\<rparr>" using build_registration_frame [OF b] by blast
  then show ?thesis using build_setup [of c sy an ep] b by (simp add: left_alone_def)
qed

lemma submit_alone: "left_alone c (snd (submit an ep r c))"
  by (auto simp: left_alone_def same_setup_def submit_def Let_def emit_def send_def split: option.splits)

lemma left_alone_trans: "left_alone a b \<Longrightarrow> left_alone b c \<Longrightarrow> left_alone a c"
  by (auto simp: left_alone_def dest: same_setup_trans)

lemma define_alone: "left_alone c (snd (define_and_submit sy an c))"
proof (cases "resolve_endpoint sy (an_ctx an) c")
  case (Inr ep)
  obtain res c' where b: "build_registration sy an ep c = (res, c')" by fastforce
  have "left_alone c c'" using build_alone [of c sy an ep] b by simp
  then show ?thesis using Inr b left_alone_trans [OF _ submit_alone]
    by (cases res) (simp_all add: define_and_submit_def)
qed (simp add: define_and_submit_def left_alone_def)

lemma register_alone: "left_alone c (snd (register sy an c))"
proof -
  obtain a where "snd (detect_agent (an_self an) c) =
      c\<lparr>cl_requests := cl_requests c @ [(AgentSelf, request_bound c)], cl_agent := a\<rparr>"
    by (rule detect_agent_shape [of "an_self an" c])
  then have d: "left_alone c (snd (detect_agent (an_self an) c))" by (simp add: left_alone_def same_setup_def)
  then show ?thesis using left_alone_trans [OF d define_alone]
    by (auto simp: register_def split: prod.splits sum.splits)
qed

text \<open>An attempt that sends a definition ends as the agent answers it.\<close>

lemma sent_last: "fst (last (cl_requests (snd (register sy an c)))) = ServiceRegister r \<longleftrightarrow> sent_definition sy an c = Some r"
  by (auto simp: sent_definition_def split: prod.splits consul_request.splits)

lemma register_sent:
  assumes "sent_definition sy an c = Some r"
  shows "fst (register sy an c) = map_option (op_error (Some ErrRegistrationFailed)) (an_register an)"
    and "an_register an = None \<Longrightarrow> rgn_Registered (cl_reg (snd (register sy an c))) \<and>
      rgn_ServiceID (cl_reg (snd (register sy an c))) = agent_service.as_ID r"
proof -
  let ?c1 = "snd (detect_agent (an_self an) c)"
  obtain a where c1: "?c1 = c\<lparr>cl_requests := cl_requests c @ [(AgentSelf, request_bound c)], cl_agent := a\<rparr>"
    by (rule detect_agent_shape [of "an_self an" c])
  have sent: "fst (last (cl_requests (snd (register sy an c)))) = ServiceRegister r" using assms by (simp add: sent_last)
  have "register sy an c = define_and_submit sy an ?c1"
    using sent c1 by (auto simp: register_def split: prod.splits sum.splits if_splits)
  moreover obtain err c' where d: "define_and_submit sy an ?c1 = (err, c')" by fastforce
  ultimately have r: "register sy an c = (err, c')" by simp
  have "\<not> refused an ?c1 err c'" using sent c1 r by (auto simp: refused_def)
  then have "submitted sy an ?c1 err c'" using define_and_submit_outcome [OF d] by blast
  then show "fst (register sy an c) = map_option (op_error (Some ErrRegistrationFailed)) (an_register an)"
    and "an_register an = None \<Longrightarrow> rgn_Registered (cl_reg (snd (register sy an c))) \<and>
      rgn_ServiceID (cl_reg (snd (register sy an c))) = agent_service.as_ID r"
    using sent r by (auto simp: submitted_def registered_as_def)
qed

lemma sent_answered: "sent_definition sy (an\<lparr>an_register := x\<rparr>) c = sent_definition sy an c"
proof -
  let ?an = "an\<lparr>an_register := x\<rparr>"
  have b: "build_registration sy ?an ep c' = build_registration sy an ep c'" for ep c'
    by (simp add: build_registration_def readiness_of_def)
  have "cl_requests (snd (define_and_submit sy ?an c')) = cl_requests (snd (define_and_submit sy an c'))" for c'
    by (auto simp: define_and_submit_def b submit_fields split: sum.splits prod.splits)
  then have "cl_requests (snd (register sy ?an c)) = cl_requests (snd (register sy an c))"
    by (auto simp: register_def split: sum.splits prod.splits)
  then show ?thesis by (simp add: sent_definition_def)
qed

subsection \<open>Invariants\<close>

fun flat_pc :: "reg_pc \<Rightarrow> bool" where
  "flat_pc (RegLoad t k) = False"
| "flat_pc (RegStore t k) = False"
| "flat_pc RegDone = False"
| "flat_pc _ = True"

text \<open>The registrar follows the registration it made, and after an answer it is not degraded.\<close>

fun follows :: "reg_pc \<Rightarrow> registration \<Rightarrow> bool" where
  "follows RegGotten g = rgn_Registered g"
| "follows (RegEnter f) g = rgn_Registered g"
| "follows (RegWatch f sid hash) g = (rgn_Registered g \<and> sid = rgn_ServiceID g)"
| "follows (RegWatching f sid hash) g = (rgn_Registered g \<and> sid = rgn_ServiceID g)"
| "follows (RegHealthy sid hash) g = (rgn_Registered g \<and> sid = rgn_ServiceID g \<and> hash \<noteq> [])"
| "follows (RegPause sid hash) g = (rgn_Registered g \<and> sid = rgn_ServiceID g \<and> hash \<noteq> [])"
| "follows (RegLoad t k) g = (flat_pc k \<and> follows k g)"
| "follows (RegStore t k) g = (flat_pc k \<and> follows k g)"
| "follows _ g = True"

fun answered_pc :: "reg_pc \<Rightarrow> bool" where
  "answered_pc (RegWatch f sid hash) = (hash \<noteq> [])"
| "answered_pc (RegWatching f sid hash) = (hash \<noteq> [])"
| "answered_pc (RegPause sid hash) = True"
| "answered_pc _ = False"

fun recovers :: "reg_pc \<Rightarrow> lstate \<Rightarrow> bool" where
  "recovers (RegLoad t k) st = (answered_pc k \<longrightarrow> t = StateRunning)"
| "recovers (RegStore t k) st = (answered_pc k \<longrightarrow> t = StateRunning)"
| "recovers pc st = (answered_pc pc \<longrightarrow> st \<noteq> StateDegraded)"

definition rs_inv :: "client \<Rightarrow> reg_system \<Rightarrow> bool" where
  "rs_inv c0 s \<longleftrightarrow>
     same_setup c0 (rs_client s) \<and> follows (rs_pc s) (cl_reg (rs_client s)) \<and>
     recovers (rs_pc s) (cl_state (rs_client s))"

lemma recovers_flat: "flat_pc pc \<Longrightarrow> recovers pc st \<longleftrightarrow> (answered_pc pc \<longrightarrow> st \<noteq> StateDegraded)"
  by (cases pc) auto

lemma set_state_frame [simp]:
  "cl_reg (set_state t c) = cl_reg c" "cl_state (set_state t c) = t" "cl_cancelled (set_state t c) = cl_cancelled c"
  "same_setup c0 (set_state t c) = same_setup c0 c"
  by (simp_all add: set_state_def Let_def emit_def same_setup_def)

lemma small_frames [simp]:
  "cl_reg (emit m c) = cl_reg c" "cl_state (emit m c) = cl_state c" "same_setup c0 (emit m c) = same_setup c0 c"
  "cl_reg (report_error e c) = cl_reg c" "cl_state (report_error e c) = cl_state c"
  "same_setup c0 (report_error e c) = same_setup c0 c"
  "cl_reg (send q b c) = cl_reg c" "cl_state (send q b c) = cl_state c" "same_setup c0 (send q b c) = same_setup c0 c"
  "cl_state (mark_lost c) = cl_state c" "same_setup c0 (mark_lost c) = same_setup c0 c"
  "cl_cancelled (emit m c) = cl_cancelled c" "cl_cancelled (report_error e c) = cl_cancelled c"
  "cl_cancelled (send q b c) = cl_cancelled c" "cl_cancelled (mark_lost c) = cl_cancelled c"
  by (simp_all add: emit_def report_error_def send_def mark_lost_def same_setup_def)

definition reg_inv :: "client \<Rightarrow> reg_pc \<Rightarrow> client \<Rightarrow> bool" where
  "reg_inv c0 pc c \<longleftrightarrow> same_setup c0 c \<and> follows pc (cl_reg c) \<and> recovers pc (cl_state c)"

lemma registrar_inv:
  assumes "registrar nd sy e pc c = Some (pc', c')" "reg_inv c0 pc c"
    and "\<And>an since draw. e = Attempted an since draw \<Longrightarrow> fst (register sy an c) = None \<Longrightarrow>
      rgn_Registered (cl_reg (snd (register sy an c)))"
    and "\<And>h. e = Watched (Inr h) \<Longrightarrow> h \<noteq> []"
  shows "reg_inv c0 pc' c'"
proof (cases pc)
  case (RegAttempt n)
  then obtain an since draw err c1 where e: "e = Attempted an since draw" "register sy an c = (err, c1)"
    "(pc', c') = after_attempt nd n since draw err c1"
    using assms(1) by (auto split: reg_event.splits prod.splits)
  have "left_alone c c1" using register_alone [of c sy an] e(2) by simp
  then have "same_setup c0 c1" using assms(2) same_setup_trans by (auto simp: reg_inv_def left_alone_def)
  then show ?thesis using e assms(3) [OF e(1)]
    by (auto simp: after_attempt_def reg_inv_def split: option.splits if_splits)
next
  case (RegWatching f sid hash)
  then obtain answer where e: "e = Watched answer" "(pc', c') = after_watch f sid answer c"
    using assms(1) by (auto split: reg_event.splits)
  then show ?thesis using assms(2,4) RegWatching
    by (auto simp: after_watch_def reg_inv_def split: sum.splits if_splits)
next
  case (RegLoad t k)
  then show ?thesis using assms(1,2)
    by (auto simp: reg_inv_def recovers_flat may_move_def split: reg_event.splits)
next
  case (RegStore t k)
  then show ?thesis using assms(1,2) by (auto simp: reg_inv_def recovers_flat split: reg_event.splits)
qed (use assms(1,2) in \<open>auto simp: reg_inv_def split: reg_event.splits if_splits\<close>)

lemma register_ok:
  assumes "fst (register sy an c) = None"
  shows "rgn_Registered (cl_reg (snd (register sy an c)))"
proof -
  let ?c1 = "snd (detect_agent (an_self an) c)"
  obtain err c' where d: "define_and_submit sy an ?c1 = (err, c')" by fastforce
  have r: "register sy an c = (err, c')" "err = None"
    using assms d by (auto simp: register_def split: prod.splits sum.splits if_splits)
  then have "\<not> refused an ?c1 err c'" by (auto simp: refused_def)
  then have "submitted sy an ?c1 err c'" using define_and_submit_outcome [OF d] by blast
  then show ?thesis using r by (auto simp: submitted_def registered_as_def)
qed

lemma service_answer_hash:
  "service_answer hash_of sid hash a = Some (Inr h) \<Longrightarrow> \<exists>svc. h = hash_of svc"
  by (auto simp: service_answer_def get_service_def gated_def split: fake_gate.splits option.splits if_splits sum.splits pass.splits)

lemma registrar_moves_Some:
  "registrar_moves nd sy e s = Some s' \<longleftrightarrow>
     (\<exists>pc c. registrar nd sy e (rs_pc s) (rs_client s) = Some (pc, c) \<and> s' = s\<lparr>rs_pc := pc, rs_client := c\<rparr>)"
  by (auto simp: registrar_moves_def)

lemma rs_inv_reg: "rs_inv c0 s \<longleftrightarrow> reg_inv c0 (rs_pc s) (rs_client s)"
  by (simp add: rs_inv_def reg_inv_def)

lemma moves_inv:
  assumes "registrar_moves nd sy e s = Some s'" "rs_inv c0 s" "\<And>h. e = Watched (Inr h) \<Longrightarrow> h \<noteq> []"
  shows "rs_inv c0 s'"
  using assms(1,2) registrar_inv [OF _ _ register_ok assms(3)] by (auto simp: registrar_moves_Some rs_inv_reg)

lemma rs_inv_step:
  assumes "rs_step nd sy hash_of ev s = Some s'" "rs_inv c0 s" "\<And>svc. hash_of svc \<noteq> []"
  shows "rs_inv c0 s'"
proof (cases ev)
  case (RegTry an since draw)
  then obtain an' a' s1 where "registrar_moves nd sy (Attempted an' since draw) s = Some s1" "s' = s1\<lparr>rs_agent := a'\<rparr>"
    using assms(1) by (auto split: prod.splits)
  moreover from this(1) have "rs_inv c0 s1" by (rule moves_inv [OF _ assms(2)]) simp
  ultimately show ?thesis by (simp add: rs_inv_def)
next
  case RegAnswered
  then obtain sid hash answer where "service_answer hash_of sid hash (rs_agent s) = Some answer"
    "registrar_moves nd sy (Watched answer) s = Some s'"
    using assms(1) by (auto simp: bind_eq_Some_conv)
  note r = this
  show ?thesis
  proof (rule moves_inv [OF r(2) assms(2)])
    fix h assume "Watched answer = Watched (Inr h)"
    then show "h \<noteq> []" using service_answer_hash [of hash_of sid hash "rs_agent s" h] r(1) assms(3) by auto
  qed
next
  case RegElapsed
  then obtain sid answer where "service_answer hash_of sid [] (rs_agent s) = Some answer"
    "registrar_moves nd sy (Watched answer) s = Some s'"
    using assms(1) by (auto simp: bind_eq_Some_conv)
  note r = this
  show ?thesis
  proof (rule moves_inv [OF r(2) assms(2)])
    fix h assume "Watched answer = Watched (Inr h)"
    then show "h \<noteq> []" using service_answer_hash [of hash_of sid "[]" "rs_agent s" h] r(1) assms(3) by auto
  qed
qed (use assms(1,2) moves_inv [OF _ assms(2)] in \<open>auto simp: rs_inv_def same_setup_def\<close>)

lemma rs_reachable_inv:
  assumes "rs_reachable nd sy hash_of c0 s" "\<And>svc. hash_of svc \<noteq> []"
  shows "rs_inv c0 s"
  using assms(1)
proof (induction rule: rs_reachable.induct)
  case (step s ev s')
  then show ?case using rs_inv_step assms(2) by blast
qed (simp add: rs_inv_def)

text \<open>The state the registrar leaves a running or degraded client in, and the states it is about to store.\<close>

definition up_state :: "lstate \<Rightarrow> bool" where
  "up_state st \<longleftrightarrow> st = StateRunning \<or> st = StateDegraded"

fun stores_up :: "reg_pc \<Rightarrow> bool" where
  "stores_up (RegLoad t k) = (up_state t \<and> stores_up k)"
| "stores_up (RegStore t k) = (up_state t \<and> stores_up k)"
| "stores_up _ = True"

definition up :: "reg_system \<Rightarrow> bool" where
  "up s \<longleftrightarrow> up_state (cl_state (rs_client s)) \<and> stores_up (rs_pc s)"

lemma up_targets [simp]: "up_state StateRunning" "up_state StateDegraded"
  by (simp_all add: up_state_def)

lemma registrar_up:
  assumes "registrar nd sy e pc c = Some (pc', c')" "up_state (cl_state c)" "stores_up pc"
  shows "up_state (cl_state c') \<and> stores_up pc'"
proof (cases pc)
  case (RegAttempt n)
  then obtain an since draw err c1 where e: "e = Attempted an since draw" "register sy an c = (err, c1)"
    "(pc', c') = after_attempt nd n since draw err c1"
    using assms(1) by (auto split: reg_event.splits prod.splits)
  have "cl_state c1 = cl_state c" using register_alone [of c sy an] e(2) by (simp add: left_alone_def)
  then show ?thesis using e(3) assms(2) by (auto simp: after_attempt_def split: option.splits if_splits)
next
  case (RegWatching f sid hash)
  then obtain answer where "after_watch f sid answer c = (pc', c')"
    using assms(1) by (auto split: reg_event.splits)
  then show ?thesis using assms(2) by (auto simp: after_watch_def split: sum.splits if_splits)
qed (use assms in \<open>auto split: reg_event.splits if_splits\<close>)

lemma moves_up: "registrar_moves nd sy e s = Some s' \<Longrightarrow> up s \<Longrightarrow> up s'"
  using registrar_up by (auto simp: registrar_moves_Some up_def)

lemma up_step: "rs_step nd sy hash_of ev s = Some s' \<Longrightarrow> up s \<Longrightarrow> up s'"
proof (cases ev)
  case (RegTry an since draw)
  moreover assume "rs_step nd sy hash_of ev s = Some s'" "up s"
  ultimately obtain a' s1 e where "registrar_moves nd sy e s = Some s1" "s' = s1\<lparr>rs_agent := a'\<rparr>" "up s"
    by (auto split: prod.splits)
  then show ?thesis using moves_up by (fastforce simp: up_def)
qed (auto simp: up_def [of "_ :: reg_system"] bind_eq_Some_conv dest: moves_up)

lemma rs_reachable_up: "rs_reachable nd sy hash_of c0 s \<Longrightarrow> up_state (cl_state c0) \<Longrightarrow> up s"
proof (induction rule: rs_reachable.induct)
  case (step s ev s')
  then show ?case using up_step by blast
qed (simp add: up_def)

subsection \<open>The way back to a registered service\<close>

text \<open>An agent that answers; one whose answers do not stop the definition of this client.\<close>

definition answering :: "fake_agent \<Rightarrow> bool" where
  "answering a \<longleftrightarrow> \<not> fa_hang a \<and> fa_failAll a = 0 \<and> fa_failNext a \<le> 0"

definition accepts :: "system \<Rightarrow> answers \<Rightarrow> fake_agent \<Rightarrow> client \<Rightarrow> bool" where
  "accepts sy an a c \<longleftrightarrow>
     (case sent_definition sy (an\<lparr>an_self := self_answer a\<rparr>) c of
        None \<Rightarrow> False
      | Some r \<Rightarrow> agent_service.as_ID r \<noteq> [] \<and> fst (fake_register (Some r) a) = None)"

definition holds_service :: "fake_agent \<Rightarrow> string \<Rightarrow> bool" where
  "holds_service a sid \<longleftrightarrow> fake_Service sid a \<noteq> None"

definition watch_cost :: "(agent_service \<Rightarrow> string) \<Rightarrow> fake_agent \<Rightarrow> string \<Rightarrow> string \<Rightarrow> nat" where
  "watch_cost hash_of a sid hash =
     (case fake_Service sid a of
        None \<Rightarrow> 16
      | Some svc \<Rightarrow> if hash \<noteq> [] \<and> hash = hash_of svc then 0 else 6)"

primrec reg_cost :: "(agent_service \<Rightarrow> string) \<Rightarrow> fake_agent \<Rightarrow> registration \<Rightarrow> reg_pc \<Rightarrow> nat" where
  "reg_cost hash_of a g (RegTop f) = (if rgn_Registered g then watch_cost hash_of a (rgn_ServiceID g) [] + 3 else 13)"
| "reg_cost hash_of a g (RegAttempt n) = 12"
| "reg_cost hash_of a g (RegWait n d) = 13"
| "reg_cost hash_of a g RegGotten = watch_cost hash_of a (rgn_ServiceID g) [] + 5"
| "reg_cost hash_of a g (RegEnter f) = watch_cost hash_of a (rgn_ServiceID g) [] + 2"
| "reg_cost hash_of a g (RegWatch f sid hash) = watch_cost hash_of a sid hash + 1"
| "reg_cost hash_of a g (RegWatching f sid hash) = watch_cost hash_of a sid hash"
| "reg_cost hash_of a g (RegHealthy sid hash) = watch_cost hash_of a sid hash + 5"
| "reg_cost hash_of a g (RegPause sid hash) = watch_cost hash_of a sid hash + 2"
| "reg_cost hash_of a g (RegReport f err) = 21"
| "reg_cost hash_of a g (RegSleep f d) = 20"
| "reg_cost hash_of a g (RegLoad t k) = reg_cost hash_of a g k + 2"
| "reg_cost hash_of a g (RegStore t k) = reg_cost hash_of a g k + 1"
| "reg_cost hash_of a g RegDone = 0"

lemma watch_cost_le: "watch_cost hash_of a sid hash \<le> 16"
  by (auto simp: watch_cost_def split: option.splits)

lemma flat_cost: "flat_pc pc \<Longrightarrow> reg_cost hash_of a g pc \<le> 21"
proof -
  have "watch_cost hash_of a sid hash \<le> 16" "watch_cost hash_of a sid hash \<le> 18" "watch_cost hash_of a sid hash \<le> 19"
    "watch_cost hash_of a sid hash \<le> 20" "watch_cost hash_of a sid hash \<le> 21" for sid hash
    using watch_cost_le [of hash_of a sid hash] by linarith+
  then show "flat_pc pc \<Longrightarrow> reg_cost hash_of a g pc \<le> 21" by (cases pc) simp_all
qed

text \<open>The steps the registrar makes while the agent answers and nothing else happens.\<close>

fun own_step :: "answers \<Rightarrow> rs_event \<Rightarrow> bool" where
  "own_step an0 RegInternal = True"
| "own_step an0 (RegTry an since draw) = (an = an0)"
| "own_step an0 RegAnswered = True"
| "own_step an0 RegTimer = True"
| "own_step an0 (RegDraw draw) = True"
| "own_step an0 _ = False"

definition quiet_agent_step ::
    "(nat \<Rightarrow> int \<Rightarrow> duration \<times> bool) \<Rightarrow> system \<Rightarrow> (agent_service \<Rightarrow> string) \<Rightarrow> answers \<Rightarrow> rs_event \<Rightarrow> reg_system \<Rightarrow>
     reg_system option" where
  "quiet_agent_step nd sy hash_of an0 ev s = (if own_step an0 ev then rs_step nd sy hash_of ev s else None)"

lemma gated_answering: "answering a \<Longrightarrow> gated a x = x"
  by (simp add: gated_def fake_admit_def answering_def)

lemma answer_while_answering:
  assumes "answering a"
  shows "service_answer hash_of sid hash a =
    (case fake_Service sid a of
       None \<Rightarrow> Some (Inl (StatusError 404 (''unknown service ID: '' @ sid)))
     | Some svc \<Rightarrow> if hash \<noteq> [] \<and> hash = hash_of svc then None else Some (Inr (hash_of svc)))"
  by (auto simp: service_answer_def gated_answering [OF assms] get_service_def fake_Service_def http_err_def split: option.splits)

lemma accepted_attempt:
  assumes "answering a" "accepts sy an a c" "attempt_answers sy a an c = (an', a')"
  shows "fst (register sy an' c) = None \<and> rgn_Registered (cl_reg (snd (register sy an' c))) \<and>
    holds_service a' (rgn_ServiceID (cl_reg (snd (register sy an' c)))) \<and> answering a' \<and>
    fa_version a' = fa_version a \<and> fa_forbidSelf a' = fa_forbidSelf a"
proof -
  let ?an1 = "an\<lparr>an_self := self_answer a\<rparr>"
  obtain r where r: "sent_definition sy ?an1 c = Some r" "agent_service.as_ID r \<noteq> []" "fst (fake_register (Some r) a) = None"
    using assms(2) by (auto simp: accepts_def split: option.splits)
  then have an': "an' = ?an1\<lparr>an_register := None\<rparr>" "a' = snd (fake_register (Some r) a)"
    using assms(3) by (auto simp: attempt_answers_def Let_def gated_answering [OF assms(1)] split: prod.splits)
  have "sent_definition sy an' c = Some r" "an_register an' = None" using r(1) by (simp_all add: an'(1) sent_answered)
  note s = register_sent [OF this(1)] this(2)
  have "answering a' \<and> holds_service a' (agent_service.as_ID r) \<and> fa_version a' = fa_version a \<and> fa_forbidSelf a' = fa_forbidSelf a"
    using r(2,3) assms(1)
    by (auto simp: an'(2) fake_register_def notify_locked_def answering_def holds_service_def fake_Service_def Let_def split: if_splits)
  then show ?thesis using s by simp
qed

text \<open>Whatever else the client went through, an answering agent of this version takes its definition.\<close>

definition always_accepted :: "system \<Rightarrow> answers \<Rightarrow> client \<Rightarrow> fake_agent \<Rightarrow> bool" where
  "always_accepted sy an0 c0 a0 \<longleftrightarrow>
     (\<forall>c a. same_setup c0 c \<and> answering a \<and> fa_version a = fa_version a0 \<and> fa_forbidSelf a = fa_forbidSelf a0 \<longrightarrow>
        accepts sy an0 a c)"

definition restoring :: "system \<Rightarrow> (agent_service \<Rightarrow> string) \<Rightarrow> answers \<Rightarrow> client \<Rightarrow> reg_system \<Rightarrow> bool" where
  "restoring sy hash_of an0 c0 s \<longleftrightarrow>
     rs_inv c0 s \<and> \<not> cl_cancelled (rs_client s) \<and> rs_pc s \<noteq> RegDone \<and> answering (rs_agent s) \<and>
     always_accepted sy an0 c0 (rs_agent s) \<and> (\<forall>svc. hash_of svc \<noteq> [])"

definition reg_waits :: "(agent_service \<Rightarrow> string) \<Rightarrow> reg_system \<Rightarrow> bool" where
  "reg_waits hash_of s \<longleftrightarrow>
     (case watched_service (rs_pc s) of
        None \<Rightarrow> False
      | Some (sid, hash) \<Rightarrow> service_answer hash_of sid hash (rs_agent s) = None)"

definition system_cost :: "(agent_service \<Rightarrow> string) \<Rightarrow> reg_system \<Rightarrow> nat" where
  "system_cost hash_of s = reg_cost hash_of (rs_agent s) (cl_reg (rs_client s)) (rs_pc s)"

lemma watched_service_Some: "watched_service pc = Some (sid, hash) \<longleftrightarrow> (\<exists>f. pc = RegWatching f sid hash)"
  by (cases pc) auto

lemma status_404 [simp]: "is_status (StatusError 404 m) 404"
  by (simp add: is_status_def as_status_def)

text \<open>One own step: the system stays on its way back and is closer to the end of it.\<close>

definition closer :: "(agent_service \<Rightarrow> string) \<Rightarrow> reg_system \<Rightarrow> reg_system \<Rightarrow> bool" where
  "closer hash_of s s' \<longleftrightarrow>
     system_cost hash_of s' < system_cost hash_of s \<and> \<not> cl_cancelled (rs_client s') \<and> rs_pc s' \<noteq> RegDone \<and>
     answering (rs_agent s') \<and> fa_version (rs_agent s') = fa_version (rs_agent s) \<and>
     fa_forbidSelf (rs_agent s') = fa_forbidSelf (rs_agent s)"

lemma internal_closer:
  assumes "registrar_moves nd sy Internal s = Some s'" "restoring sy hash_of an0 c0 s"
  shows "closer hash_of s s'"
proof -
  have "\<not> cl_cancelled (rs_client s)" "answering (rs_agent s)" "follows (rs_pc s) (cl_reg (rs_client s))"
    using assms(2) by (simp_all add: restoring_def rs_inv_def)
  then show ?thesis using assms(1)
    by (cases "rs_pc s") (auto simp: registrar_moves_Some closer_def system_cost_def split: if_splits)
qed

lemma timer_closer:
  assumes "registrar_moves nd sy TimerFired s = Some s' \<or> registrar_moves nd sy (Chosen draw) s = Some s'"
    and "restoring sy hash_of an0 c0 s"
  shows "closer hash_of s s'"
proof -
  have c: "\<not> cl_cancelled (rs_client s)" "answering (rs_agent s)" using assms(2) by (simp_all add: restoring_def)
  have "watch_cost hash_of a sid [] + 3 < 20" for a sid
    using watch_cost_le [of hash_of a sid "[]"] by simp
  then show ?thesis using assms(1) c
    by (cases "rs_pc s") (auto simp: registrar_moves_Some closer_def system_cost_def split: if_splits)
qed

lemma answered_closer:
  assumes "watched_service (rs_pc s) = Some (sid, hash)" "service_answer hash_of sid hash (rs_agent s) = Some answer"
    and "registrar_moves nd sy (Watched answer) s = Some s'" "restoring sy hash_of an0 c0 s"
  shows "closer hash_of s s'"
proof -
  obtain f where pc: "rs_pc s = RegWatching f sid hash" using assms(1) by (auto simp: watched_service_Some)
  have c: "\<not> cl_cancelled (rs_client s)" and a: "answering (rs_agent s)" and h: "hash_of svc \<noteq> []" for svc
    using assms(4) by (simp_all add: restoring_def)
  have ans: "service_answer hash_of sid hash (rs_agent s) =
    (case fake_Service sid (rs_agent s) of
       None \<Rightarrow> Some (Inl (StatusError 404 (''unknown service ID: '' @ sid)))
     | Some svc \<Rightarrow> if hash \<noteq> [] \<and> hash = hash_of svc then None else Some (Inr (hash_of svc)))"
    by (rule answer_while_answering [OF a])
  obtain pc' c' where m: "after_watch f sid answer (rs_client s) = (pc', c')" "s' = s\<lparr>rs_pc := pc', rs_client := c'\<rparr>"
    using assms(3) pc by (auto simp: registrar_moves_Some)
  show ?thesis
  proof (cases "fake_Service sid (rs_agent s)")
    case None
    then have "answer = Inl (StatusError 404 (''unknown service ID: '' @ sid))" using ans assms(2) by simp
    then have "pc' = RegLoad StateDegraded (RegTop f)" "c' = mark_lost (rs_client s)"
      using m(1) c by (simp_all add: after_watch_def)
    then show ?thesis using None m(2) c a
      by (simp add: closer_def system_cost_def pc watch_cost_def) (simp add: mark_lost_def)
  next
    case (Some svc)
    then have "answer = Inr (hash_of svc)" "\<not> (hash \<noteq> [] \<and> hash = hash_of svc)"
      using ans assms(2) by (auto split: if_splits)
    moreover from this(1) have "pc' = RegHealthy sid (hash_of svc)" "c' = rs_client s" using m(1) by (simp_all add: after_watch_def)
    ultimately show ?thesis using Some m(2) c a h by (auto simp: closer_def system_cost_def pc watch_cost_def)
  qed
qed

lemma try_closer:
  assumes "attempt_answers sy (rs_agent s) an0 (rs_client s) = (an', a')"
    and "registrar_moves nd sy (Attempted an' since draw) s = Some s1" "s' = s1\<lparr>rs_agent := a'\<rparr>"
    and "restoring sy hash_of an0 c0 s"
  shows "closer hash_of s s'"
proof -
  have c: "\<not> cl_cancelled (rs_client s)" "answering (rs_agent s)" "accepts sy an0 (rs_agent s) (rs_client s)"
    using assms(4) by (auto simp: restoring_def always_accepted_def rs_inv_def)
  note att = accepted_attempt [OF c(2,3) assms(1)]
  obtain n where pc: "rs_pc s = RegAttempt n"
    using assms(2) by (cases "rs_pc s") (auto simp: registrar_moves_Some)
  have s1: "s1 = s\<lparr>rs_pc := RegGotten, rs_client := snd (register sy an' (rs_client s))\<rparr>"
    using assms(2) att by (auto simp: registrar_moves_Some pc after_attempt_def split: prod.splits)
  have "left_alone (rs_client s) (snd (register sy an' (rs_client s)))" by (rule register_alone)
  then have nc: "\<not> cl_cancelled (snd (register sy an' (rs_client s)))" using c(1) by (simp add: left_alone_def)
  have "watch_cost hash_of a' (rgn_ServiceID (cl_reg (snd (register sy an' (rs_client s))))) [] = 6"
    using att by (auto simp: watch_cost_def holds_service_def)
  then show ?thesis using att nc by (simp add: closer_def system_cost_def assms(3) s1 pc)
qed

lemma own_closer:
  assumes "quiet_agent_step nd sy hash_of an0 ev s = Some s'" "restoring sy hash_of an0 c0 s"
  shows "closer hash_of s s'"
proof -
  have own: "own_step an0 ev" and step: "rs_step nd sy hash_of ev s = Some s'"
    using assms(1) by (simp_all add: quiet_agent_step_def split: if_splits)
  show ?thesis
  proof (cases ev)
    case (RegTry an since draw)
    then show ?thesis using own step try_closer [OF _ _ _ assms(2)] by (auto split: prod.splits)
  next
    case RegAnswered
    then show ?thesis using step answered_closer [OF _ _ _ assms(2)] by (auto simp: bind_eq_Some_conv)
  qed (use own step internal_closer [OF _ assms(2)] timer_closer [OF disjI1 assms(2)] timer_closer [OF disjI2 assms(2)] in auto)
qed

lemma closer_restoring:
  assumes "quiet_agent_step nd sy hash_of an0 ev s = Some s'" "restoring sy hash_of an0 c0 s"
  shows "restoring sy hash_of an0 c0 s'"
proof -
  have "rs_step nd sy hash_of ev s = Some s'" using assms(1) by (simp add: quiet_agent_step_def split: if_splits)
  then have "rs_inv c0 s'" using rs_inv_step assms(2) by (auto simp: restoring_def)
  moreover have "always_accepted sy an0 c0 (rs_agent s')"
    using assms(2) own_closer [OF assms] by (simp add: restoring_def always_accepted_def closer_def)
  ultimately show ?thesis using own_closer [OF assms] assms(2) by (simp add: restoring_def closer_def)
qed

lemma own_enabled:
  assumes "restoring sy hash_of an0 c0 s" "\<not> reg_waits hash_of s"
  shows "\<exists>ev s'. own_step an0 ev \<and> quiet_agent_step nd sy hash_of an0 ev s = Some s'"
proof -
  have c: "\<not> cl_cancelled (rs_client s)" "rs_pc s \<noteq> RegDone" using assms(1) by (simp_all add: restoring_def)
  have any: ?thesis if "own_step an0 ev" "rs_step nd sy hash_of ev s \<noteq> None" for ev
    using that by (auto simp: quiet_agent_step_def)
  show ?thesis
  proof (cases "rs_pc s")
    case (RegAttempt n)
    then show ?thesis using any [of "RegTry an0 0 0"] by (auto simp: registrar_moves_def split: prod.splits)
  next
    case (RegWatching f sid hash)
    then obtain answer where "service_answer hash_of sid hash (rs_agent s) = Some answer"
      using assms(2) by (auto simp: reg_waits_def)
    then show ?thesis using any [of RegAnswered] RegWatching by (simp add: registrar_moves_def)
  next
    case (RegReport f err)
    then show ?thesis using any [of "RegDraw 0"] by (simp add: registrar_moves_def)
  next
    case (RegWait n d)
    then show ?thesis using any [of RegTimer] c by (simp add: registrar_moves_def)
  next
    case (RegPause sid hash)
    then show ?thesis using any [of RegTimer] by (simp add: registrar_moves_def)
  next
    case (RegSleep f d)
    then show ?thesis using any [of RegTimer] by (simp add: registrar_moves_def)
  qed (use any [of RegInternal] c in \<open>simp_all add: registrar_moves_def\<close>)
qed

interpretation restore: winding_down "quiet_agent_step nd sy hash_of an0" "own_step an0"
    "restoring sy hash_of an0 c0" "reg_waits hash_of" "system_cost hash_of"
  for nd sy hash_of an0 c0
proof
  fix s ev s'
  show "restoring sy hash_of an0 c0 s \<Longrightarrow> quiet_agent_step nd sy hash_of an0 ev s = Some s' \<Longrightarrow> restoring sy hash_of an0 c0 s'"
    using closer_restoring by blast
  show "restoring sy hash_of an0 c0 s \<Longrightarrow> own_step an0 ev \<Longrightarrow> quiet_agent_step nd sy hash_of an0 ev s = Some s' \<Longrightarrow>
      system_cost hash_of s' < system_cost hash_of s"
    using own_closer by (auto simp: closer_def)
  show "restoring sy hash_of an0 c0 s \<Longrightarrow> \<not> own_step an0 ev \<Longrightarrow> quiet_agent_step nd sy hash_of an0 ev s = Some s' \<Longrightarrow>
      system_cost hash_of s' \<le> system_cost hash_of s"
    by (simp add: quiet_agent_step_def)
  show "restoring sy hash_of an0 c0 s \<Longrightarrow> \<not> reg_waits hash_of s \<Longrightarrow>
      \<exists>ev s'. own_step an0 ev \<and> quiet_agent_step nd sy hash_of an0 ev s = Some s'"
    by (rule own_enabled)
qed

primrec agent_run ::
    "(nat \<Rightarrow> int \<Rightarrow> duration \<times> bool) \<Rightarrow> system \<Rightarrow> (agent_service \<Rightarrow> string) \<Rightarrow> answers \<Rightarrow> rs_event list \<Rightarrow> reg_system \<Rightarrow>
     reg_system option" where
  "agent_run nd sy hash_of an0 [] s = Some s"
| "agent_run nd sy hash_of an0 (ev # evs) s =
     Option.bind (quiet_agent_step nd sy hash_of an0 ev s) (agent_run nd sy hash_of an0 evs)"

lemma agent_run_steps: "agent_run nd sy hash_of an0 evs s = restore.steps nd sy hash_of an0 evs s"
  by (induction evs arbitrary: s) (simp_all add: fun_eq_iff cong: Option.bind_cong)

lemma agent_run_restoring:
  "agent_run nd sy hash_of an0 evs s = Some s' \<Longrightarrow> restoring sy hash_of an0 c0 s \<Longrightarrow> restoring sy hash_of an0 c0 s'"
  by (induction evs arbitrary: s) (auto simp: bind_eq_Some_conv dest: closer_restoring)

lemma system_cost_le:
  assumes "restoring sy hash_of an0 c0 s"
  shows "system_cost hash_of s \<le> 23"
proof -
  have f: "follows (rs_pc s) (cl_reg (rs_client s))" "rs_pc s \<noteq> RegDone"
    using assms by (simp_all add: restoring_def rs_inv_def)
  show ?thesis
  proof (cases "flat_pc (rs_pc s)")
    case True
    then show ?thesis using flat_cost [OF True, of hash_of "rs_agent s" "cl_reg (rs_client s)"] by (simp add: system_cost_def)
  next
    case False
    then consider t k where "rs_pc s = RegLoad t k" | t k where "rs_pc s = RegStore t k"
      using f(2) by (cases "rs_pc s") auto
    then show ?thesis
    proof cases
      case (1 t k)
      then have "flat_pc k" using f(1) by simp
      then show ?thesis using 1 flat_cost [of k hash_of "rs_agent s" "cl_reg (rs_client s)"] by (simp add: system_cost_def)
    next
      case (2 t k)
      then have "flat_pc k" using f(1) by simp
      then show ?thesis using 2 flat_cost [of k hash_of "rs_agent s" "cl_reg (rs_client s)"] by (simp add: system_cost_def)
    qed
  qed
qed

lemma rs_reachable_run:
  "agent_run nd sy hash_of an0 evs s = Some s' \<Longrightarrow> rs_reachable nd sy hash_of c0 s \<Longrightarrow> rs_reachable nd sy hash_of c0 s'"
  by (induction evs arbitrary: s)
    (auto simp: quiet_agent_step_def bind_eq_Some_conv split: if_splits intro: rs_reachable.step)

text \<open>
  C5. A lost registration comes back. Whatever happened before (the agent failed, hung, answered with
  errors, forgot its services), once it answers and takes the definition of this client, a registrar that
  has neither been cancelled nor given up makes at most 23 more steps by itself, and can always make
  them until its blocking query waits. Then the agent holds the service under the ID the client has
  recorded as registered, with the hash the query carries, and a client that was Running or Degraded when the
  registrar was launched is Running.
\<close>

theorem registration_restored:
  assumes "rs_reachable nd sy hash_of c0 s" "\<forall>svc. hash_of svc \<noteq> []"
    and "\<not> cl_cancelled (rs_client s)" "rs_pc s \<noteq> RegDone"
    and "answering (rs_agent s)" "always_accepted sy an0 c0 (rs_agent s)"
    and "cl_state c0 = StateRunning \<or> cl_state c0 = StateDegraded"
  shows "(agent_run nd sy hash_of an0 evs s = Some s' \<longrightarrow> length (filter (own_step an0) evs) \<le> 23) \<and>
    (\<exists>own stop f sid svc. list_all (own_step an0) own \<and> agent_run nd sy hash_of an0 own s = Some stop \<and>
       rs_pc stop = RegWatching f sid (hash_of svc) \<and> fake_Service sid (rs_agent stop) = Some svc \<and>
       service_answer hash_of sid (hash_of svc) (rs_agent stop) = None \<and>
       rgn_Registered (cl_reg (rs_client stop)) \<and> rgn_ServiceID (cl_reg (rs_client stop)) = sid \<and>
       cl_state (rs_client stop) = StateRunning)"
proof
  have r: "restoring sy hash_of an0 c0 s"
    using rs_reachable_inv [OF assms(1)] assms(2-6) by (simp add: restoring_def)
  show "agent_run nd sy hash_of an0 evs s = Some s' \<longrightarrow> length (filter (own_step an0) evs) \<le> 23"
    using restore.bounded [OF r] system_cost_le [OF r] by (fastforce simp: agent_run_steps)
  obtain own stop where own: "list_all (own_step an0) own" "agent_run nd sy hash_of an0 own s = Some stop" "reg_waits hash_of stop"
    using restore.reaches_end [OF r] unfolding agent_run_steps by blast
  have stop: "restoring sy hash_of an0 c0 stop" using agent_run_restoring [OF own(2) r] .
  obtain f sid hash where pc: "rs_pc stop = RegWatching f sid hash" and w: "service_answer hash_of sid hash (rs_agent stop) = None"
    using own(3) by (auto simp: reg_waits_def watched_service_Some split: option.splits)
  obtain svc where svc: "fake_Service sid (rs_agent stop) = Some svc" "hash \<noteq> []" "hash = hash_of svc"
    using w stop by (auto simp: answer_while_answering restoring_def split: option.splits if_splits)
  have inv: "follows (rs_pc stop) (cl_reg (rs_client stop))" "recovers (rs_pc stop) (cl_state (rs_client stop))"
    using stop by (simp_all add: restoring_def rs_inv_def)
  have "rs_reachable nd sy hash_of c0 stop" using rs_reachable_run [OF own(2) assms(1)] .
  then have "up stop" using rs_reachable_up assms(7) by (simp add: up_state_def)
  then have "cl_state (rs_client stop) = StateRunning" using inv(2) pc svc(2) by (auto simp: up_def up_state_def)
  then show "\<exists>own stop f sid svc. list_all (own_step an0) own \<and> agent_run nd sy hash_of an0 own s = Some stop \<and>
       rs_pc stop = RegWatching f sid (hash_of svc) \<and> fake_Service sid (rs_agent stop) = Some svc \<and>
       service_answer hash_of sid (hash_of svc) (rs_agent stop) = None \<and>
       rgn_Registered (cl_reg (rs_client stop)) \<and> rgn_ServiceID (cl_reg (rs_client stop)) = sid \<and>
       cl_state (rs_client stop) = StateRunning"
    using own(1,2) pc w svc inv by (intro exI [of _ own] exI [of _ stop] exI [of _ f] exI [of _ sid] exI [of _ svc]) simp
qed

lemma sample_accepted: "always_accepted sample_system sample_answers sample_client (forbid_self (new_fake ''1.22''))"
  unfolding always_accepted_def
proof (intro allI impI)
  fix c a
  assume h: "same_setup sample_client c \<and> answering a \<and> fa_version a = fa_version (forbid_self (new_fake ''1.22'')) \<and>
    fa_forbidSelf a = fa_forbidSelf (forbid_self (new_fake ''1.22''))"
  then have like: "sample_like c" using sample_like_client
    by (auto simp: same_setup_def sample_like_def)
  have self: "self_answer a = Inl (StatusError 403 ''Permission denied'')"
    using h by (simp add: self_answer_def gated_answering fake_self_def forbid_self_def http_err_def)
  let ?an = "sample_answers\<lparr>an_self := self_answer a\<rparr>" and ?c = "send AgentSelf (request_bound c) c"
  have "is_status (Errorf [] [ErrConsulUnavailable, StatusError 403 ''Permission denied'']) 403"
    by (simp add: is_status_def as_status_def)
  then have r: "register sample_system ?an c = define_and_submit sample_system ?an ?c"
    by (simp add: register_def detect_agent_def detect_def self Let_def)
  have like': "sample_like ?c" using like by (simp add: sample_like_def send_def)
  then obtain ep where ep: "resolve_endpoint sample_system (\<lambda>_. None) ?c = Inr ep" "ep_Address ep = ''10.0.0.7''"
    by (simp add: sample_like_endpoint sample_endpoint)
  have "cl_cfg ?c = cl_cfg sample_client" "cl_hook ?c = None" "cl_generated ?c = Some ''orders-1''"
    using like' by (simp_all add: sample_like_def)
  note b = sample_build [OF this ep(2)]
  have b': "build_registration sample_system ?an ep ?c = build_registration sample_system sample_answers ep ?c"
    by (simp add: build_registration_def readiness_of_def)
  let ?d = "service_definition sample_system (readiness_of sample_answers ?c) (cl_cfg ?c) ''orders-1'' ep"
  have "an_ctx ?an = (\<lambda>_. None)" by (simp add: sample_answers_def)
  then have d: "register sample_system ?an c = submit ?an ep ?d ?c"
    unfolding r by (simp add: define_and_submit_def ep b b')
  have sent: "sent_definition sample_system ?an c = Some ?d"
    by (simp add: sent_definition_def d submit_fields)
  have cfg: "cl_cfg ?c = cl_cfg sample_client" using like' by (simp add: sample_like_def)
  have "sv_Name (cf_Service (cl_cfg ?c)) \<noteq> []" "slice_list (sv_Ports (cf_Service (cl_cfg ?c))) = []"
    unfolding cfg by (simp_all add: sample_client_def sample_service no_service_def slice_list_def)
  then show "accepts sample_system sample_answers a c"
    using h sent by (simp add: accepts_def fake_register_def answering_def service_definition_def Let_def)
qed

theorem registration_restored_witness:
  "\<exists>own stop svc. agent_run (\<lambda>_ _. (second, True)) sample_system (\<lambda>_. ''h'') sample_answers own
       \<lparr>rs_agent = forbid_self (new_fake ''1.22''), rs_pc = RegTop 0, rs_client = sample_client\<lparr>cl_state := StateDegraded\<rparr>\<rparr> =
       Some stop \<and>
     fake_Service (rgn_ServiceID (cl_reg (rs_client stop))) (rs_agent stop) = Some svc \<and>
     rgn_Registered (cl_reg (rs_client stop)) \<and> cl_state (rs_client stop) = StateRunning"
proof -
  let ?c = "sample_client\<lparr>cl_state := StateDegraded\<rparr>"
  let ?s = "\<lparr>rs_agent = forbid_self (new_fake ''1.22''), rs_pc = RegTop 0, rs_client = ?c\<rparr>"
  have r: "rs_reachable (\<lambda>_ _. (second, True)) sample_system (\<lambda>_. ''h'') ?c ?s"
    by (rule rs_reachable.start)
  have "same_setup ?c = same_setup sample_client" by (simp add: fun_eq_iff same_setup_def)
  then have "always_accepted sample_system sample_answers ?c (rs_agent ?s)"
    using sample_accepted by (simp add: always_accepted_def)
  then have h: "\<not> cl_cancelled (rs_client ?s)" "rs_pc ?s \<noteq> RegDone" "answering (rs_agent ?s)"
    "always_accepted sample_system sample_answers ?c (rs_agent ?s)"
    "cl_state ?c = StateRunning \<or> cl_state ?c = StateDegraded"
    by (simp_all add: sample_client_def answering_def forbid_self_def new_fake_def)
  have "\<forall>svc :: agent_service. ''h'' \<noteq> []" by simp
  from conjunct2 [OF registration_restored [OF r this h]] show ?thesis by blast
qed

end
