(* ===== verification/StopSystem.thy ===== *)
theory StopSystem
  imports RegSystem Contexts
begin

text \<open>
  The whole runtime of lifecycle.go with the agent it registers at (internal/fakeconsul): what Stop leaves
  behind. The agent decides what a registration or a deregistration does; an answer may be lost on its
  way back, after the agent has acted on the request or without it having arrived. The error the client
  sees then is the one in the observation of the attempt (\<open>an_register\<close>).
\<close>

record stop_system =
  st_agent :: fake_agent
  st_run :: runtime

definition answered_attempt ::
    "system \<Rightarrow> bool \<Rightarrow> fake_agent \<Rightarrow> answers \<Rightarrow> client \<Rightarrow> answers \<times> fake_agent" where
  "answered_attempt sy arrives a an c =
     (let (an', a') = attempt_answers sy a an c
      in case an_register an of
           None \<Rightarrow> (an', a')
         | Some e \<Rightarrow> (an'\<lparr>an_register := Some e\<rparr>, if arrives then a' else a))"

text \<open>The attempts of a fail-fast start, up to the first that succeeds.\<close>

fun answered_attempts ::
    "system \<Rightarrow> bool list \<Rightarrow> attempt list \<Rightarrow> client \<Rightarrow> fake_agent \<Rightarrow> attempt list \<times> fake_agent" where
  "answered_attempts sy arrive [] c a = ([], a)"
| "answered_attempts sy arrive (x # xs) c a =
     (let (an, a1) = answered_attempt sy (arrive = [] \<or> hd arrive) a (at_answers x) c;
          (err, c1) = register sy an c; x' = x\<lparr>at_answers := an\<rparr>
      in if err = None then ([x'], a1)
         else (let (ys, a2) = answered_attempts sy (tl arrive) xs c1 a1 in (x' # ys, a2)))"

text \<open>What \<open>start\<close> is answered; it makes no attempt that is not given, and is given none it does not make.\<close>

definition answered_start ::
    "system \<Rightarrow> bool list \<Rightarrow> start_env \<Rightarrow> client \<Rightarrow> fake_agent \<Rightarrow> start_env \<times> fake_agent" where
  "answered_start sy arrive env c a =
     (if \<not> auto_register (cf_Lifecycle (cl_cfg c)) \<or> isl (resolve_endpoint sy (se_ctx env) c) then (env, a)
      else if lc_FailFast (cf_Lifecycle (cl_cfg c))
      then (let (xs, a') = answered_attempts sy arrive (se_attempts env) c a in (env\<lparr>se_attempts := xs\<rparr>, a'))
      else (let (an, a') = answered_attempt sy (arrive = [] \<or> hd arrive) a (se_first env) c
            in (env\<lparr>se_first := an\<rparr>, a')))"

definition deregister_answer :: "fake_agent \<Rightarrow> string \<Rightarrow> goerr option \<times> fake_agent" where
  "deregister_answer a sid =
     (case gated a (Inr ()) of
        Inl e \<Rightarrow> (Some e, a)
      | Inr _ \<Rightarrow> (let (res, a') = fake_deregister sid a in (map_option http_err res, a')))"

definition deregisters :: "client \<Rightarrow> bool" where
  "deregisters c \<longleftrightarrow> lc_DeregisterOnShutdown (cf_Lifecycle (cl_cfg c)) = Some True"

datatype stop_event =
    AgentDoes fake_call
  | Starts start_env "bool list"
  | Attempts answers duration nat bool
  | ShutsDown "duration option"
  | ShutdownLost "duration option" goerr bool
  | Runs Lifecycle.event

fun apart_from_agent :: "Lifecycle.event \<Rightarrow> bool" where
  "apart_from_agent (CallStart env) = False"
| "apart_from_agent (Shutdown b answer) = False"
| "apart_from_agent (TaskReg (Attempted an since draw)) = False"
| "apart_from_agent _ = True"

definition on_runtime :: "fake_agent \<Rightarrow> runtime option \<Rightarrow> stop_system option" where
  "on_runtime a r = map_option (\<lambda>r'. \<lparr>st_agent = a, st_run = r'\<rparr>) r"

text \<open>A 404 says that the service is not known; an agent that fails does it with another status, and a
  request that is lost has none.\<close>

definition honest :: "fake_agent \<Rightarrow> bool" where
  "honest a \<longleftrightarrow> fa_failAll a \<noteq> 404"

fun stop_step ::
    "(nat \<Rightarrow> int \<Rightarrow> duration \<times> bool) \<Rightarrow> system \<Rightarrow> stop_event \<Rightarrow> stop_system \<Rightarrow> stop_system option" where
  "stop_step nd sy (AgentDoes call) s =
     (let a = fake_do call (st_agent s) in if honest a then Some (s\<lparr>st_agent := a\<rparr>) else None)"
| "stop_step nd sy (Starts env arrive) s =
     (let r = st_run s; c = set_state StateStarting (rt_client r)
      in if cl_state (rt_client r) = StateIdle
         then (let (env', a) = answered_start sy arrive env c (st_agent s)
               in if lc_FailFast (cf_Lifecycle (cl_cfg c)) \<and>
                     register_with_retry nd sy True 1 (butlast (se_attempts env')) c \<noteq> None then None
                  else on_runtime a (runtime_step nd sy (CallStart env') r))
         else on_runtime (st_agent s) (runtime_step nd sy (CallStart env) r))"
| "stop_step nd sy (Attempts an since draw arrives) s =
     (let r = st_run s; (an', a) = answered_attempt sy arrives (st_agent s) an (rt_client r)
      in on_runtime a (runtime_step nd sy (TaskReg (Attempted an' since draw)) r))"
| "stop_step nd sy (ShutsDown b) s =
     (let r = st_run s; c = rt_client r; sid = rgn_ServiceID (cl_reg c);
          (answer, a) = (if deregisters c \<and> sid \<noteq> [] then deregister_answer (st_agent s) sid else (None, st_agent s))
      in on_runtime a (runtime_step nd sy (Shutdown b answer) r))"
| "stop_step nd sy (ShutdownLost b e arrives) s =
     (let r = st_run s; c = rt_client r; sid = rgn_ServiceID (cl_reg c)
      in if deregisters c \<and> sid \<noteq> [] \<and> as_status e = None
         then on_runtime (if arrives then snd (deregister_answer (st_agent s) sid) else st_agent s)
                (runtime_step nd sy (Shutdown b (Some e)) r)
         else None)"
| "stop_step nd sy (Runs ev) s =
     (if apart_from_agent ev then on_runtime (st_agent s) (runtime_step nd sy ev (st_run s)) else None)"

lemma on_runtime_Some: "on_runtime a r = Some s \<longleftrightarrow> (\<exists>r'. r = Some r' \<and> s = \<lparr>st_agent = a, st_run = r'\<rparr>)"
  by (auto simp: on_runtime_def)

text \<open>Reachable from a client that was never registered, whatever the agent holds.\<close>

inductive stop_reachable ::
    "(nat \<Rightarrow> int \<Rightarrow> duration \<times> bool) \<Rightarrow> system \<Rightarrow> stop_system \<Rightarrow> bool" for nd sy where
  start: "fresh c \<Longrightarrow> rgn_ServiceID (cl_reg c) = [] \<Longrightarrow> honest a \<Longrightarrow>
    stop_reachable nd sy \<lparr>st_agent = a, st_run = initial c\<rparr>"
| step: "stop_reachable nd sy s \<Longrightarrow> stop_step nd sy ev s = Some s' \<Longrightarrow> stop_reachable nd sy s'"

text \<open>Every step is one of the runtime, or of the agent alone.\<close>

lemma stop_step_runtime:
  "stop_step nd sy ev s = Some s' \<Longrightarrow> st_run s' = st_run s \<or> (\<exists>e. runtime_step nd sy e (st_run s) = Some (st_run s'))"
  by (cases ev) (auto simp: on_runtime_Some Let_def split: if_splits prod.splits)

lemma stop_runtime_reachable: "stop_reachable nd sy s \<Longrightarrow> reachable nd sy (st_run s)"
proof (induction rule: stop_reachable.induct)
  case (step s ev s')
  then show ?case using stop_step_runtime [OF step.hyps(2)] by (metis reach_step)
qed (simp add: reach_init)

subsection \<open>What the client keeps of its registration\<close>

lemma register_failed_reg:
  assumes "register sy an c = (Some e, c')"
  shows "cl_reg c' = cl_reg c"
proof -
  obtain a where c1: "snd (detect_agent (an_self an) c) =
      c\<lparr>cl_requests := cl_requests c @ [(AgentSelf, request_bound c)], cl_agent := a\<rparr>"
    by (rule detect_agent_shape [of "an_self an" c])
  show ?thesis using assms c1 define_and_submit_outcome [of sy an "snd (detect_agent (an_self an) c)" "Some e" c']
    by (auto simp: register_def refused_def submitted_def split: prod.splits sum.splits if_splits)
qed

lemma retry_failed_reg:
  "register_with_retry nd sy True n as c = Some (Some e, c') \<Longrightarrow> cl_reg c' = cl_reg c"
proof (induction nd sy "True" n as c rule: register_with_retry.induct)
  case (2 nd sy n a as c0)
  obtain err c1 where r: "register sy (at_answers a) c0 = (err, c1)" by fastforce
  show ?case
  proof (cases err)
    case None
    then show ?thesis using 2(2) r by (simp add: attempt_error_def)
  next
    case (Some x)
    then have "cl_reg c1 = cl_reg c0" using register_failed_reg r by simp
    moreover have "cl_reg c' = cl_reg c1"
      using 2(2) 2(1) [OF r [symmetric] refl] unfolding register_with_retry.simps r Let_def
      by (auto split: option.splits if_splits)
    ultimately show ?thesis by simp
  qed
qed simp

lemma set_degraded_reg [simp]: "cl_reg (set_degraded c) = cl_reg c"
  by (simp add: set_degraded_def)

lemma start_failed_reg: "start nd sy env c = Some (Some e, c', tasks) \<Longrightarrow> cl_reg c' = cl_reg c"
  by (auto simp: start_def split: if_splits sum.splits option.splits prod.splits
      dest: register_failed_reg retry_failed_reg)

definition same_record :: "client \<Rightarrow> client \<Rightarrow> bool" where
  "same_record c c' \<longleftrightarrow> cl_reg c' = cl_reg c \<and> cl_cfg c' = cl_cfg c"

lemma receive_record: "receive_error c = Some (e, c') \<Longrightarrow> same_record c c'"
  by (auto simp: same_record_def receive_error_def split: list.splits)

lemma notify_record: "same_record c (notify_health_changed c)"
  by (simp add: same_record_def notify_health_changed_def)

lemma finish_record: "finish c = Some c' \<Longrightarrow> same_record c c'"
  by (auto simp: same_record_def finish_Some close_services_def)

subsection \<open>The end\<close>

text \<open>No Stop of this client reported an error, apart from those that came before Start.\<close>

definition clean :: "runtime \<Rightarrow> bool" where
  "clean r \<longleftrightarrow> (\<forall>e. (Stop, Some e) \<in> set (rt_returns r) \<longrightarrow> e = ErrNotStarted)"

definition ending :: "runtime \<Rightarrow> bool" where
  "ending r \<longleftrightarrow> rt_op r = StopDrain \<or> rt_op r = StopFinish None \<or> cl_state (rt_client r) = StateStopped \<and> clean r"

definition gone :: "stop_system \<Rightarrow> bool" where
  "gone s \<longleftrightarrow>
     (let c = rt_client (st_run s); sid = rgn_ServiceID (cl_reg c)
      in deregisters c \<and> sid \<noteq> [] \<longrightarrow> fake_Service sid (st_agent s) = None)"

definition stop_inv :: "stop_system \<Rightarrow> bool" where
  "stop_inv s \<longleftrightarrow>
     (let r = st_run s
      in honest (st_agent s) \<and> life_ok r \<and> (cl_state (rt_client r) = StateIdle \<longrightarrow> rgn_ServiceID (cl_reg (rt_client r)) = []) \<and>
         (\<forall>e. rt_op r = StopFinish (Some e) \<longrightarrow> e \<noteq> ErrNotStarted) \<and>
         (ending r \<longrightarrow> gone s))"

lemma call_start_ends:
  assumes "call_start nd sy env r = Some r'" "cl_state (rt_client r) = StateIdle"
  shows "cl_state (rt_client r') \<noteq> StateIdle \<and>
    (rt_op r' = StartLoad \<and> cl_state (rt_client r') \<noteq> StateStopped \<or>
     rt_op r' = OpNone \<and> cl_reg (rt_client r') = cl_reg (rt_client r))"
proof -
  let ?c = "set_state StateStarting (rt_client r)"
  obtain err c' tasks where st: "start nd sy env ?c = Some (err, c', tasks)"
    using assms by (auto simp: call_start_def Let_def split: option.splits)
  have state: "cl_state c' \<in> {StateStarting, StateDegraded}" using start_life(4) [OF st] by simp
  show ?thesis
  proof (cases err)
    case None
    have "cl_state (rt_client (if tasks then launch c' r else r\<lparr>rt_client := c'\<rparr>)) = cl_state c'"
      using launch_fields(4) [of c' r] by (simp add: same_life_def)
    then show ?thesis using assms st state None by (auto simp: call_start_def Let_def)
  next
    case (Some e)
    then have "cl_reg c' = cl_reg (rt_client r)" using start_failed_reg st by fastforce
    then show ?thesis using assms st Some
      by (auto simp: call_start_def returns_def finish_fields Let_def split: option.splits)
  qed
qed

lemma task_alive:
  assumes "life_ok r" "runtime_step nd sy ev r = Some r'" "ev = TaskReg e \<or> ev = TaskHb h"
  shows "\<not> past_wait (rt_op r) \<and> cl_state (rt_client r) \<noteq> StateStopped \<and> cl_state (rt_client r) \<noteq> StateIdle"
  using assms life_okD(3,5) [OF assms(1)] ended_no_step
  by (auto simp: runtime_step_def split: option.splits)

lemma idle_kept:
  assumes ok: "life_ok r" and s: "runtime_step nd sy ev r = Some r'" and idle: "cl_state (rt_client r') = StateIdle"
  shows "cl_state (rt_client r) = StateIdle \<and> cl_reg (rt_client r') = cl_reg (rt_client r)"
proof -
  have before: "cl_state (rt_client r) = StateIdle"
  proof (rule ccontr)
    assume "cl_state (rt_client r) \<noteq> StateIdle"
    then have "cl_state (rt_client r') < cl_state (rt_client r)"
      using idle order.not_eq_order_implies_strict state_order(1) by metis
    from only_stores_lower [OF s this] show False
    proof (elim disjE exE conjE)
      assume "ev = OpStep" "rt_op r = StartStore"
      then show False using s idle by (auto simp: runtime_step_def op_step_def returns_def)
    next
      fix e t k
      assume t: "ev = TaskReg e" "rt_reg r = Some (RegStore t k)"
      then have "t \<in> {StateRunning, StateDegraded}" using life_okD(4) [OF ok] by fastforce
      then show False using s idle t by (auto simp: runtime_step_def split: reg_event.splits)
    qed
  qed
  then have "rt_op r = OpNone" "rt_reg r = None" "rt_hb r = None"
    using life_okD(1,5) [OF ok] by (auto simp: allowed_states_def split: if_splits)
  then have "cl_reg (rt_client r') = cl_reg (rt_client r)"
    using s before idle call_start_ends notify_record [of "rt_client r"]
    by (cases ev) (auto simp: runtime_step_def op_step_def call_stop_def returns_def same_record_def Let_def
        dest!: receive_record)
  with before show ?thesis by simp
qed

lemma op_step_ending:
  assumes ok: "life_ok r" and s: "op_step r = Some r'" and e: "ending r'"
    and f: "\<forall>e. rt_op r = StopFinish (Some e) \<longrightarrow> e \<noteq> ErrNotStarted"
  shows "ending r \<and> same_record (rt_client r) (rt_client r')"
proof (cases "rt_op r")
  case StopDrain
  then show ?thesis using s by (auto simp: op_step_def ending_def same_record_def)
next
  case (StopFinish err)
  then obtain c' where c': "finish (rt_client r) = Some c'" "r' = returns Stop err (r\<lparr>rt_client := c'\<rparr>)"
    using s by (auto simp: op_step_def split: option.splits)
  then have "err = None" using e f StopFinish
    by (cases err) (auto simp: ending_def clean_def returns_def)
  then show ?thesis using StopFinish c' finish_record [OF c'(1)] by (simp add: ending_def returns_def)
qed (use s e life_okD(1) [OF ok] in
    \<open>auto simp: op_step_def ending_def returns_def allowed_states_def Let_def split: if_splits\<close>)

lemma ending_before:
  assumes ok: "life_ok r" and s: "runtime_step nd sy ev r = Some r'" and e: "ending r'"
    and ev: "\<forall>env. ev \<noteq> CallStart env" "\<forall>b x. ev \<noteq> Shutdown b x"
    and f: "\<forall>e. rt_op r = StopFinish (Some e) \<longrightarrow> e \<noteq> ErrNotStarted"
  shows "ending r \<and> same_record (rt_client r) (rt_client r')"
proof (cases ev)
  case (TaskReg x)
  note alive = task_alive [OF ok s disjI1 [OF TaskReg]]
  obtain pc pc' c' where r: "rt_reg r = Some pc" "registrar nd sy x pc (rt_client r) = Some (pc', c')"
    "r' = r\<lparr>rt_client := c', rt_reg := Some pc'\<rparr>"
    using s TaskReg by (auto simp: runtime_step_def split: option.splits)
  have "cl_state c' \<noteq> StateStopped"
    using registrar_life [OF r(2)] alive life_okD(4) [OF ok r(1)] by (auto simp: same_life_def)
  then show ?thesis using e alive r(3) by (auto simp: ending_def)
next
  case (TaskHb x)
  note alive = task_alive [OF ok s disjI2 [OF TaskHb]]
  obtain pc pc' c' where r: "heart x pc (rt_client r) = Some (pc', c')" "r' = r\<lparr>rt_client := c', rt_hb := Some pc'\<rparr>"
    using s TaskHb by (auto simp: runtime_step_def split: option.splits)
  have "cl_state c' \<noteq> StateStopped" using same_life_heart [OF r(1)] alive by (auto simp: same_life_def)
  then show ?thesis using e alive r(2) by (auto simp: ending_def)
next
  case CallStop
  then show ?thesis using s e
    by (auto simp: runtime_step_def call_stop_def returns_def ending_def clean_def same_record_def Let_def split: if_splits)
next
  case OpStep
  then show ?thesis using s op_step_ending [OF ok _ e f] by (simp add: runtime_step_def)
next
  case Receive
  then obtain x c' where r: "receive_error (rt_client r) = Some (x, c')" "r' = r\<lparr>rt_client := c'\<rparr>"
    using s by (auto simp: runtime_step_def)
  then show ?thesis using e receive_record [OF r(1)] same_life_state [OF same_life_receive [OF r(1)]]
    by (simp add: ending_def clean_def)
next
  case Push
  then show ?thesis using s e notify_record same_life_state [OF same_life_notify]
    by (auto simp: runtime_step_def ending_def clean_def)
qed (use ev in auto)

lemma fake_do_keeps_gone: "fake_Service sid a = None \<Longrightarrow> fake_Service sid (fake_do call a) = None"
  by (cases call) (simp_all add: fake_Service_def fake_call_defs)

lemma is_status_plain: "as_status e = None \<Longrightarrow> \<not> is_status e k"
  by (simp add: is_status_def)

lemma deregister_answer_gone:
  assumes "honest a" "deregister_answer a sid = (answer, a')" "\<forall>e. answer = Some e \<longrightarrow> is_status e 404"
  shows "fake_Service sid a' = None"
  using assms
  by (auto simp: deregister_answer_def gated_def fake_admit_def honest_def is_status_def as_status_def fake_deregister_def
      fake_Service_def notify_locked_def http_err_def split: if_splits)

lemma deregister_answer_honest: "honest a \<Longrightarrow> honest (snd (deregister_answer a sid))"
  by (auto simp: deregister_answer_def fake_deregister_def honest_def notify_locked_def split: sum.splits)

lemma answered_attempt_honest:
  assumes "honest a" "answered_attempt sy arrives a an c = (an', a')"
  shows "honest a'"
proof -
  have f: "fake_register r a = (x, a2) \<Longrightarrow> fa_failAll a2 = fa_failAll a" for r x a2
    by (auto simp: fake_register_def notify_locked_def Let_def split: option.splits if_splits)
  have "honest (snd (attempt_answers sy a an c))"
    using assms(1) by (auto simp: attempt_answers_def honest_def Let_def f split: option.splits sum.splits prod.splits)
  then show ?thesis using assms by (auto simp: answered_attempt_def split: prod.splits option.splits if_splits)
qed

lemma answered_attempts_honest:
  "honest a \<Longrightarrow> answered_attempts sy arrive xs c a = (ys, a') \<Longrightarrow> honest a'"
proof (induction sy arrive xs c a arbitrary: ys rule: answered_attempts.induct)
  case (2 sy arrive x xs c a)
  obtain an a1 where 1: "answered_attempt sy (arrive = [] \<or> hd arrive) a (at_answers x) c = (an, a1)" by fastforce
  obtain err c1 where r: "register sy an c = (err, c1)" by fastforce
  show ?case using 2(1) [OF 1 [symmetric] refl r [symmetric] refl refl] 2(2,3) answered_attempt_honest [OF 2(2) 1] 1 r
    by (auto simp: Let_def split: if_splits prod.splits)
qed simp

lemma answered_start_honest:
  "honest a \<Longrightarrow> answered_start sy arrive env c a = (env', a') \<Longrightarrow> honest a'"
  by (auto simp: answered_start_def split: if_splits prod.splits
      dest: answered_attempts_honest answered_attempt_honest)

lemma deregister_cases:
  assumes "deregister b answer c = (err, c')" "rgn_ServiceID (cl_reg c) \<noteq> []"
  shows "rgn_ServiceID (cl_reg c') = rgn_ServiceID (cl_reg c) \<and> cl_cfg c' = cl_cfg c \<and>
    (case err of None \<Rightarrow> \<forall>e. answer = Some e \<longrightarrow> is_status e 404 | Some e \<Rightarrow> e \<noteq> ErrNotStarted)"
  using assms
  by (auto simp: deregister_def mark_lost_def emit_def send_def op_error_def Let_def split: option.splits if_splits)

lemma shutdown_gone:
  assumes ok: "life_ok r" and s: "runtime_step nd sy (Shutdown b answer) r = Some r'"
    and a: "deregisters (rt_client r) \<Longrightarrow> rgn_ServiceID (cl_reg (rt_client r)) \<noteq> [] \<Longrightarrow>
      \<forall>e. answer = Some e \<longrightarrow> is_status e 404 \<Longrightarrow> fake_Service (rgn_ServiceID (cl_reg (rt_client r))) a' = None"
  shows "(\<forall>e. rt_op r' = StopFinish (Some e) \<longrightarrow> e \<noteq> ErrNotStarted) \<and> (ending r' \<longrightarrow> gone \<lparr>st_agent = a', st_run = r'\<rparr>)"
proof -
  let ?c = "rt_client r"
  have op: "rt_op r = StopShutdown" and r': "r' = shutdown b answer r"
    using s by (auto simp: runtime_step_def split: if_splits)
  have alive: "cl_state ?c \<noteq> StateStopped" using life_okD(1) [OF ok] op by (auto simp: allowed_states_def)
  show ?thesis
  proof (cases "deregisters ?c \<and> rgn_ServiceID (cl_reg ?c) \<noteq> []")
    case False
    then show ?thesis using r' by (auto simp: shutdown_def gone_def deregisters_def)
  next
    case True
    obtain err c' where d: "deregister b answer ?c = (err, c')" by fastforce
    have state: "cl_state c' = cl_state ?c" using same_life_state [OF same_life_deregister [OF d]] .
    note k = deregister_cases [OF d]
    show ?thesis
    proof (cases err)
      case None
      then show ?thesis using True r' d k a by (auto simp: shutdown_def gone_def deregisters_def)
    next
      case (Some e)
      then show ?thesis using True r' d k alive state by (auto simp: shutdown_def ending_def deregisters_def)
    qed
  qed
qed

lemma failed_before:
  "runtime_step nd sy ev r = Some r' \<Longrightarrow> \<forall>b x. ev \<noteq> Shutdown b x \<Longrightarrow> rt_op r' = StopFinish (Some e) \<Longrightarrow>
     rt_op r = StopFinish (Some e)"
  by (cases ev; cases "rt_op r")
    (auto simp: runtime_step_def op_step_def call_start_def call_stop_def returns_def Let_def
      split: if_splits option.splits)

lemma stop_inv_keep:
  assumes inv: "stop_inv s" and s: "runtime_step nd sy ev (st_run s) = Some r'" and ev: "\<forall>b x. ev \<noteq> Shutdown b x"
    and h: "honest a'" and e: "ending r' \<Longrightarrow> gone \<lparr>st_agent = a', st_run = r'\<rparr>"
  shows "stop_inv \<lparr>st_agent = a', st_run = r'\<rparr>"
proof -
  have ok: "life_ok (st_run s)" using inv by (simp add: stop_inv_def Let_def)
  show ?thesis
    using inv h e life_ok_step [OF ok s] idle_kept [OF ok s] failed_before [OF s ev] by (auto simp: stop_inv_def Let_def)
qed

lemma stop_inv_runtime:
  assumes inv: "stop_inv s" and s: "runtime_step nd sy ev (st_run s) = Some r'"
    and ev: "\<forall>env. ev \<noteq> CallStart env" "\<forall>b x. ev \<noteq> Shutdown b x"
    and keep: "ending (st_run s) \<Longrightarrow> a' = st_agent s" and h: "honest a'"
  shows "stop_inv \<lparr>st_agent = a', st_run = r'\<rparr>"
proof (rule stop_inv_keep [OF inv s ev(2) h])
  assume e: "ending r'"
  have ok: "life_ok (st_run s)" "\<forall>e. rt_op (st_run s) = StopFinish (Some e) \<longrightarrow> e \<noteq> ErrNotStarted"
    "ending (st_run s) \<Longrightarrow> gone s"
    using inv by (simp_all add: stop_inv_def Let_def)
  from ending_before [OF ok(1) s e ev ok(2)] ok(3) keep show "gone \<lparr>st_agent = a', st_run = r'\<rparr>"
    by (simp add: gone_def same_record_def deregisters_def Let_def)
qed

lemma stop_inv_start:
  assumes inv: "stop_inv s" and s: "runtime_step nd sy (CallStart env) (st_run s) = Some r'" and h: "honest a'"
    and keep: "cl_state (rt_client (st_run s)) \<noteq> StateIdle \<Longrightarrow> a' = st_agent s"
  shows "stop_inv \<lparr>st_agent = a', st_run = r'\<rparr>"
proof (rule stop_inv_keep [OF inv s _ h])
  assume e: "ending r'"
  have c: "call_start nd sy env (st_run s) = Some r'" "rt_op (st_run s) = OpNone"
    using s by (auto simp: runtime_step_def split: if_splits)
  show "gone \<lparr>st_agent = a', st_run = r'\<rparr>"
  proof (cases "cl_state (rt_client (st_run s)) = StateIdle")
    case True
    then have "cl_reg (rt_client r') = cl_reg (rt_client (st_run s))"
      using call_start_ends [OF c(1) True] e by (auto simp: ending_def)
    then show ?thesis using inv True by (simp add: gone_def stop_inv_def Let_def)
  next
    case False
    then have "\<exists>x. r' = returns Start (Some x) (st_run s)"
      using c by (auto simp: call_start_def Let_def split: if_splits)
    then have "ending (st_run s)" "rt_client r' = rt_client (st_run s)"
      using e by (auto simp: ending_def clean_def returns_def)
    then show ?thesis using inv keep [OF False] by (simp add: gone_def stop_inv_def Let_def)
  qed
qed simp

lemma stop_inv_shutdown:
  assumes inv: "stop_inv s" and s: "runtime_step nd sy (Shutdown b answer) (st_run s) = Some r'" and h: "honest a'"
    and a: "deregisters (rt_client (st_run s)) \<Longrightarrow> rgn_ServiceID (cl_reg (rt_client (st_run s))) \<noteq> [] \<Longrightarrow>
      \<forall>e. answer = Some e \<longrightarrow> is_status e 404 \<Longrightarrow> fake_Service (rgn_ServiceID (cl_reg (rt_client (st_run s)))) a' = None"
  shows "stop_inv \<lparr>st_agent = a', st_run = r'\<rparr>"
proof -
  have ok: "life_ok (st_run s)" using inv by (simp add: stop_inv_def Let_def)
  have "(\<forall>e. rt_op r' = StopFinish (Some e) \<longrightarrow> e \<noteq> ErrNotStarted) \<and> (ending r' \<longrightarrow> gone \<lparr>st_agent = a', st_run = r'\<rparr>)"
    by (rule shutdown_gone [OF ok s]) (rule a)
  moreover have "cl_state (rt_client r') = StateIdle \<longrightarrow> rgn_ServiceID (cl_reg (rt_client r')) = []"
    using idle_kept [OF ok s] inv by (auto simp: stop_inv_def Let_def)
  ultimately show ?thesis using h life_ok_step [OF ok s] by (simp add: stop_inv_def Let_def)
qed

lemma stop_inv_step: "stop_inv s \<Longrightarrow> stop_step nd sy ev s = Some s' \<Longrightarrow> stop_inv s'"
proof (cases ev)
  case (AgentDoes call)
  assume "stop_inv s" "stop_step nd sy ev s = Some s'"
  then show ?thesis using AgentDoes fake_do_keeps_gone by (auto simp: stop_inv_def gone_def Let_def split: if_splits)
next
  case (Starts env arrive)
  assume inv: "stop_inv s" and s: "stop_step nd sy ev s = Some s'"
  then have h: "honest (st_agent s)" by (simp add: stop_inv_def Let_def)
  let ?c = "set_state StateStarting (rt_client (st_run s))"
  obtain env' a where e: "answered_start sy arrive env ?c (st_agent s) = (env', a)" by fastforce
  show ?thesis
  proof (cases "cl_state (rt_client (st_run s)) = StateIdle")
    case True
    obtain r' where r': "runtime_step nd sy (CallStart env') (st_run s) = Some r'" "s' = \<lparr>st_agent = a, st_run = r'\<rparr>"
      using s True by (auto simp: Starts e Let_def on_runtime_Some split: if_splits)
    show ?thesis unfolding r'(2)
      by (rule stop_inv_start [OF inv r'(1) answered_start_honest [OF h e]]) (simp add: True)
  next
    case False
    obtain r' where r': "runtime_step nd sy (CallStart env) (st_run s) = Some r'" "s' = \<lparr>st_agent = st_agent s, st_run = r'\<rparr>"
      using s False by (auto simp: Starts Let_def on_runtime_Some)
    show ?thesis unfolding r'(2) by (rule stop_inv_start [OF inv r'(1) h]) simp
  qed
next
  case (Attempts an since draw arrives)
  assume inv: "stop_inv s" and s: "stop_step nd sy ev s = Some s'"
  then have h: "honest (st_agent s)" and ok: "life_ok (st_run s)" by (simp_all add: stop_inv_def Let_def)
  obtain an' a where e: "answered_attempt sy arrives (st_agent s) an (rt_client (st_run s)) = (an', a)" by fastforce
  then obtain r' where r': "runtime_step nd sy (TaskReg (Attempted an' since draw)) (st_run s) = Some r'"
    "s' = \<lparr>st_agent = a, st_run = r'\<rparr>"
    using s Attempts by (auto simp: Let_def on_runtime_Some)
  have "\<not> ending (st_run s)" using task_alive [OF ok r'(1) disjI1 [OF refl]] by (auto simp: ending_def)
  then show ?thesis using stop_inv_runtime [OF inv r'(1)] answered_attempt_honest [OF h e] r'(2) by simp
next
  case (ShutsDown b)
  assume inv: "stop_inv s" and s: "stop_step nd sy ev s = Some s'"
  then have h: "honest (st_agent s)" by (simp add: stop_inv_def Let_def)
  let ?c = "rt_client (st_run s)" and ?sid = "rgn_ServiceID (cl_reg (rt_client (st_run s)))"
  obtain answer a where e: "(if deregisters ?c \<and> ?sid \<noteq> [] then deregister_answer (st_agent s) ?sid
      else (None, st_agent s)) = (answer, a)" by fastforce
  then have "honest a" using deregister_answer_honest [OF h, of ?sid] h by (auto split: if_splits)
  moreover obtain r' where r': "runtime_step nd sy (Shutdown b answer) (st_run s) = Some r'"
    "s' = \<lparr>st_agent = a, st_run = r'\<rparr>"
    using s ShutsDown e by (auto simp: Let_def on_runtime_Some)
  moreover have "fake_Service ?sid a = None"
    if "deregisters ?c" "?sid \<noteq> []" "\<forall>e. answer = Some e \<longrightarrow> is_status e 404"
    using deregister_answer_gone [OF h _ that(3)] e that by simp
  ultimately show ?thesis using stop_inv_shutdown [OF inv r'(1)] by blast
next
  case (ShutdownLost b e arrives)
  assume inv: "stop_inv s" and s: "stop_step nd sy ev s = Some s'"
  then have h: "honest (st_agent s)" by (simp add: stop_inv_def Let_def)
  let ?a = "if arrives then snd (deregister_answer (st_agent s) (rgn_ServiceID (cl_reg (rt_client (st_run s))))) else st_agent s"
  have a: "honest ?a" using deregister_answer_honest h by simp
  obtain r' where r': "runtime_step nd sy (Shutdown b (Some e)) (st_run s) = Some r'" "s' = \<lparr>st_agent = ?a, st_run = r'\<rparr>"
    "as_status e = None"
    using s ShutdownLost by (auto simp: Let_def on_runtime_Some split: if_splits)
  show ?thesis unfolding r'(2) by (rule stop_inv_shutdown [OF inv r'(1) a]) (use is_status_plain [OF r'(3)] in simp)
next
  case (Runs x)
  assume inv: "stop_inv s" and s: "stop_step nd sy ev s = Some s'"
  then have h: "honest (st_agent s)" by (simp add: stop_inv_def Let_def)
  show ?thesis using s Runs stop_inv_runtime [OF inv _ _ _ refl h] by (cases x) (auto simp: on_runtime_Some split: if_splits)
qed

lemma stop_reachable_inv: "stop_reachable nd sy s \<Longrightarrow> stop_inv s"
proof (induction rule: stop_reachable.induct)
  case (start c a)
  then show ?case using life_ok_initial [OF start.hyps(1)]
    by (simp add: stop_inv_def initial_def ending_def fresh_def)
qed (rule stop_inv_step)

text \<open>Once the client has stopped, only the agent itself changes what it holds.\<close>

lemma stopped_agent:
  assumes "stop_reachable nd sy s" "cl_state (rt_client (st_run s)) = StateStopped" "stop_step nd sy ev s = Some s'"
  shows "st_agent s' = st_agent s \<or> (\<exists>call. ev = AgentDoes call \<and> st_agent s' = fake_do call (st_agent s))"
proof -
  have ok: "life_ok (st_run s)" using stop_reachable_inv [OF assms(1)] by (simp add: stop_inv_def Let_def)
  have op: "rt_op (st_run s) = OpNone" and ended: "reg_ended (st_run s)" using stopped_op [OF ok] life_okD(3) [OF ok] assms(2) by auto
  show ?thesis using assms(2,3) op ended_no_step(1) [OF ended]
    by (cases ev) (auto simp: Let_def on_runtime_Some runtime_step_def split: if_splits prod.splits)
qed

text \<open>
  C6. Stop leaves nothing behind. Whatever the agent, the network and the other goroutines did, when a client
  with \<open>DeregisterOnShutdown\<close> has stopped and no Stop returned an error, the agent does not hold the service
  the client has on record, and no later step brings it back.
\<close>

theorem stop_removes_service:
  assumes "stop_reachable nd sy s" "cl_state (rt_client (st_run s)) = StateStopped" "clean (st_run s)"
    and "deregisters (rt_client (st_run s))" "rgn_ServiceID (cl_reg (rt_client (st_run s))) = sid" "sid \<noteq> []"
  shows "fake_Service sid (st_agent s) = None \<and>
    (\<forall>ev s'. stop_step nd sy ev s = Some s' \<longrightarrow> fake_Service sid (st_agent s') = None)"
proof -
  have "fake_Service sid (st_agent s) = None"
    using stop_reachable_inv [OF assms(1)] assms(2-6) by (auto simp: stop_inv_def ending_def gone_def Let_def)
  then show ?thesis using stopped_agent [OF assms(1,2)] fake_do_keeps_gone by metis
qed

subsection \<open>A service that stays\<close>

definition lost_with :: "goerr \<Rightarrow> answers" where
  "lost_with e = sample_answers\<lparr>an_register := Some e\<rparr>"

lemma lost_attempt:
  assumes c: "same_setup sample_client c" and a: "answering a" "fa_version a = ''1.22''" "fa_forbidSelf a"
  obtains an a' c1 where "answered_attempt sample_system arrives a (lost_with e) c = (an, a')"
    and "an_ctx an = (\<lambda>_. None)"
    and "register sample_system an c = (Some (op_error (Some ErrRegistrationFailed) e), c1)"
    and "cl_reg c1 = cl_reg c" "same_life c c1" "same_setup c c1"
    and "\<not> arrives \<longrightarrow> a' = a" "arrives \<longrightarrow> (\<exists>sid. sid \<noteq> [] \<and> fake_Service sid a' \<noteq> None)"
proof -
  have "accepts sample_system sample_answers a c"
    using sample_accepted c a
    by (auto simp: always_accepted_def answering_def forbid_self_def new_fake_def)
  then obtain r where r: "sent_definition sample_system (sample_answers\<lparr>an_self := self_answer a\<rparr>) c = Some r"
    "agent_service.as_ID r \<noteq> []" "fst (fake_register (Some r) a) = None"
    by (auto simp: accepts_def split: option.splits)
  obtain a2 where a2: "fake_register (Some r) a = (None, a2)" using r(3) by (metis prod.collapse)
  define an where "an = sample_answers\<lparr>an_self := self_answer a, an_register := Some e\<rparr>"
  have self: "(lost_with e)\<lparr>an_self := self_answer a\<rparr> = an" by (simp add: an_def lost_with_def sample_answers_def)
  have s: "sent_definition sample_system (an\<lparr>an_register := x\<rparr>) c = Some r" for x
    using r(1) sent_answered [where sy = sample_system and an = "sample_answers\<lparr>an_self := self_answer a\<rparr>" and x = x and c = c]
    by (simp add: an_def)
  have at: "attempt_answers sample_system a (lost_with e) c = (an\<lparr>an_register := None\<rparr>, a2)"
    by (simp add: attempt_answers_def self s [of "an_register an", simplified] gated_answering [OF a(1)] a2 Let_def)
  have "answered_attempt sample_system arrives a (lost_with e) c = (an, if arrives then a2 else a)"
    unfolding answered_attempt_def at by (simp add: lost_with_def) (simp add: an_def)
  moreover obtain c1 where c1: "register sample_system an c = (Some (op_error (Some ErrRegistrationFailed) e), c1)"
    using register_sent(1) [OF s [of "Some e"]] by (simp add: an_def) (metis prod.collapse)
  moreover have "same_setup c c1" using register_alone [of c sample_system an] c1 by (simp add: left_alone_def)
  moreover have "fake_Service (agent_service.as_ID r) a2 \<noteq> None"
    using a2 r(2) by (auto simp: fake_register_def fake_Service_def notify_locked_def Let_def split: if_splits)
  ultimately show thesis
    using that [of an _ c1] register_failed_reg [OF c1] same_life_register [OF c1] r(2)
    by (auto simp: an_def sample_answers_def)
qed

primrec stop_run ::
    "(nat \<Rightarrow> int \<Rightarrow> duration \<times> bool) \<Rightarrow> system \<Rightarrow> stop_event list \<Rightarrow> stop_system \<Rightarrow> stop_system option" where
  "stop_run nd sy [] s = Some s"
| "stop_run nd sy (ev # evs) s = Option.bind (stop_step nd sy ev s) (stop_run nd sy evs)"

lemma stop_run_reachable:
  "stop_run nd sy evs s = Some s' \<Longrightarrow> stop_reachable nd sy s \<Longrightarrow> stop_reachable nd sy s'"
  by (induction evs arbitrary: s) (auto intro: stop_reachable.step split: bind_splits)

lemma stop_run_append: "stop_run nd sy (es @ fs) s = Option.bind (stop_run nd sy es s) (stop_run nd sy fs)"
  by (induction es arbitrary: s) (simp_all split: bind_split)

text \<open>The first attempt does not arrive, Start returns, the registrar is about to try again.\<close>

definition leak_agent :: fake_agent where
  "leak_agent = forbid_self (new_fake ''1.22'')"

definition leak_start :: start_env where
  "leak_start = sample_start\<lparr>se_first := lost_with (Opaque ''refused'')\<rparr>"

definition leak_begin :: "stop_event list" where
  "leak_begin = [Starts leak_start [False], Runs OpStep, Runs (TaskReg Internal)]"

text \<open>Stop comes while the request is on its way; the agent takes it, the client does not wait for the answer.\<close>

definition leak_end :: "stop_event list" where
  "leak_end = [Runs CallStop, Runs OpStep, Runs OpStep, Attempts (lost_with CtxCanceled) 0 0 True, Runs OpStep,
     ShutsDown None, Runs OpStep]"

lemma leak_agent_answers: "answering leak_agent" "fa_version leak_agent = ''1.22''" "fa_forbidSelf leak_agent"
  by (simp_all add: leak_agent_def answering_def forbid_self_def new_fake_def)

lemma sample_client_state:
  "cl_state sample_client = StateIdle" "\<not> cl_cancelled sample_client" "\<not> cl_done sample_client"
  "\<not> cl_errs_closed sample_client" "cl_reg sample_client = no_registration"
  by (simp_all add: sample_client_def)

lemma leak_begins:
  "\<exists>c. stop_run nd sample_system leak_begin \<lparr>st_agent = leak_agent, st_run = initial sample_client\<rparr> =
       Some \<lparr>st_agent = leak_agent, st_run = \<lparr>rt_client = c, rt_op = OpNone, rt_reg = Some (RegAttempt 1), rt_hb = None,
         rt_returns = [(Start, None)]\<rparr>\<rparr> \<and>
     cl_state c = StateDegraded \<and> \<not> cl_cancelled c \<and> \<not> cl_done c \<and> \<not> cl_errs_closed c \<and>
     cl_reg c = no_registration \<and> same_setup sample_client c"
proof -
  let ?c = "set_state StateStarting sample_client"
  have alike: "same_setup sample_client ?c" by (simp add: same_setup_def set_state_def emit_def Let_def)
  obtain an a c1 where at: "answered_attempt sample_system False leak_agent (lost_with (Opaque ''refused'')) ?c = (an, a)"
      "an_ctx an = (\<lambda>_. None)"
      "register sample_system an ?c = (Some (op_error (Some ErrRegistrationFailed) (Opaque ''refused'')), c1)"
      "cl_reg c1 = cl_reg ?c" "same_life ?c c1" "same_setup ?c c1" "a = leak_agent"
    by (rule lost_attempt [OF alike leak_agent_answers, of False "Opaque ''refused''"]) auto
  have like: "sample_like ?c"
    using sample_like_client by (simp add: sample_like_def set_state_def emit_def Let_def)
  have st: "answered_start sample_system [False] leak_start ?c leak_agent = (leak_start\<lparr>se_first := an\<rparr>, leak_agent)"
    using at(1,7) by (simp add: answered_start_def leak_start_def sample_start_def sample_settings
        sample_like_endpoint [OF like] sample_endpoint)
  let ?c' = "set_degraded c1"
  have kind: "\<not> errors_is (op_error (Some ErrRegistrationFailed) (Opaque ''refused'')) t"
    if "t \<in> {ErrInvalidConfiguration, ErrUnsupportedFeature}" for t
    using that by (auto simp: op_error_def as_status_def)
  have "start nd sample_system (leak_start\<lparr>se_first := an\<rparr>) ?c = Some (None, ?c', True)"
    using at(3) kind by (simp add: start_def leak_start_def sample_start_def sample_settings
        sample_like_endpoint [OF like] sample_endpoint)
  moreover have "cl_cfg ?c' = cl_cfg sample_client"
    using at(5) by (simp add: set_degraded_def same_life_def)
  moreover have "CheckNone \<noteq> CheckTTL" by (simp add: check_type_defs)
  ultimately have one: "runtime_step nd sample_system (CallStart (leak_start\<lparr>se_first := an\<rparr>)) (initial sample_client) =
      Some \<lparr>rt_client = ?c', rt_op = StartLoad, rt_reg = Some (RegTop 0), rt_hb = None, rt_returns = []\<rparr>"
    by (simp add: runtime_step_def call_start_def initial_def sample_client_state launch_def sample_settings)
  have c': "cl_state ?c' = StateDegraded" "\<not> cl_cancelled ?c'" "\<not> cl_done ?c'" "\<not> cl_errs_closed ?c'"
    "cl_reg ?c' = no_registration" "same_setup sample_client ?c'"
    using at(4-6) sample_client_state
    by (auto simp: set_degraded_fields may_move_def same_life_def same_setup_def set_degraded_def set_state_def emit_def Let_def)
  have "rt_client (initial sample_client) = sample_client" by (simp add: initial_def)
  then have "stop_step nd sample_system (Starts leak_start [False]) \<lparr>st_agent = leak_agent, st_run = initial sample_client\<rparr> =
      Some \<lparr>st_agent = leak_agent, st_run =
        \<lparr>rt_client = ?c', rt_op = StartLoad, rt_reg = Some (RegTop 0), rt_hb = None, rt_returns = []\<rparr>\<rparr>"
    by (simp add: st sample_client_state sample_settings on_runtime_def one Let_def)
  moreover have "cl_reg c1 = no_registration" using at(4) sample_client_state(5) by simp
  ultimately have "stop_run nd sample_system leak_begin \<lparr>st_agent = leak_agent, st_run = initial sample_client\<rparr> =
      Some \<lparr>st_agent = leak_agent, st_run = \<lparr>rt_client = ?c', rt_op = OpNone, rt_reg = Some (RegAttempt 1), rt_hb = None,
         rt_returns = [(Start, None)]\<rparr>\<rparr>"
    by (simp add: leak_begin_def on_runtime_def runtime_step_def op_step_def returns_def c' no_registration_def del: stop_step.simps(2))
  then show ?thesis using c' by blast
qed

lemma sample_begins:
  "stop_reachable nd sample_system \<lparr>st_agent = leak_agent, st_run = initial sample_client\<rparr>"
  by (rule stop_reachable.start)
    (simp_all add: fresh_def sample_client_def honest_def leak_agent_def forbid_self_def new_fake_def no_registration_def)

lemma sample_deregisters: "lc_DeregisterOnShutdown (cf_Lifecycle (cl_cfg sample_client)) = Some True"
  by (simp add: sample_client_def sample_client_base_def apply_defaults_def no_config_def default_lifecycle_def
      no_lifecycle_def or_default_def Let_def)

lemma sample_drain: "lc_DrainDelay (cf_Lifecycle (cl_cfg sample_client)) = 0"
  by (simp add: sample_client_def sample_client_base_def apply_defaults_def no_config_def default_lifecycle_def
      no_lifecycle_def or_default_def Let_def)

lemma leak_run:
  "\<exists>s sid. stop_run nd sample_system (leak_begin @ leak_end) \<lparr>st_agent = leak_agent, st_run = initial sample_client\<rparr> = Some s \<and>
     cl_state (rt_client (st_run s)) = StateStopped \<and> rt_returns (st_run s) = [(Start, None), (Stop, None)] \<and>
     deregisters (rt_client (st_run s)) \<and> sid \<noteq> [] \<and> fake_Service sid (st_agent s) \<noteq> None"
proof -
  obtain c where c: "stop_run nd sample_system leak_begin \<lparr>st_agent = leak_agent, st_run = initial sample_client\<rparr> =
       Some \<lparr>st_agent = leak_agent, st_run = \<lparr>rt_client = c, rt_op = OpNone, rt_reg = Some (RegAttempt 1), rt_hb = None,
         rt_returns = [(Start, None)]\<rparr>\<rparr>"
     "cl_state c = StateDegraded" "\<not> cl_cancelled c" "\<not> cl_done c" "\<not> cl_errs_closed c"
     "cl_reg c = no_registration" "same_setup sample_client c"
    using leak_begins by blast
  define d where "d = (set_state StateStopping c)\<lparr>cl_health := set_draining True (cl_health (set_state StateStopping c)), cl_cancelled := True\<rparr>"
  have d: "same_setup sample_client d" "cl_state d = StateStopping" "cl_cancelled d" "\<not> cl_done d" "\<not> cl_errs_closed d"
    "cl_reg d = no_registration"
    using c by (auto simp: d_def same_setup_def set_state_def emit_def Let_def)
  obtain an a c1 sid where at: "answered_attempt sample_system True leak_agent (lost_with CtxCanceled) d = (an, a)"
      "register sample_system an d = (Some (op_error (Some ErrRegistrationFailed) CtxCanceled), c1)"
      "cl_reg c1 = cl_reg d" "same_life d c1" "same_setup d c1" "sid \<noteq> []" "fake_Service sid a \<noteq> None"
    by (rule lost_attempt [OF d(1) leak_agent_answers, of True CtxCanceled]) auto
  have "as_permanent (op_error (Some ErrRegistrationFailed) CtxCanceled) = None"
    by (simp add: op_error_def as_status_def as_permanent_def)
  then have failed: "after_attempt nd 1 0 0 (Some (op_error (Some ErrRegistrationFailed) CtxCanceled)) c1 = (RegDone, c1)"
    using at(4) d(3) by (simp add: after_attempt_def same_life_def)
  have dereg: "deregisters c1"
    using at(5) d(1) by (simp add: deregisters_def same_setup_def sample_deregisters)
  let ?r = "\<lambda>c op pc. \<lparr>rt_client = c, rt_op = op, rt_reg = Some pc, rt_hb = None, rt_returns = [(Start, None)]\<rparr>"
  have one: "stop_run nd sample_system [Runs CallStop, Runs OpStep, Runs OpStep]
      \<lparr>st_agent = leak_agent, st_run = ?r c OpNone (RegAttempt 1)\<rparr> =
      Some \<lparr>st_agent = leak_agent, st_run = ?r d StopWait (RegAttempt 1)\<rparr>"
    using c(2) by (simp add: on_runtime_def runtime_step_def op_step_def call_stop_def d_def Let_def)
  have two: "stop_run nd sample_system [Attempts (lost_with CtxCanceled) 0 0 True]
      \<lparr>st_agent = leak_agent, st_run = ?r d StopWait (RegAttempt 1)\<rparr> =
      Some \<lparr>st_agent = a, st_run = ?r c1 StopWait RegDone\<rparr>"
    using failed by (simp add: at(1,2) on_runtime_def runtime_step_def)
  have bare: "cl_reg c1 = no_registration" using at(3) d(6) by simp
  obtain c2 where c2: "finish c1 = Some c2" "cl_state c2 = StateStopped" "same_record c1 c2"
    using at(4) d(4,5) finish_record by (auto simp: finish_def same_life_def set_state_def emit_def close_services_def Let_def)
  have three: "stop_run nd sample_system [Runs OpStep, ShutsDown None, Runs OpStep]
      \<lparr>st_agent = a, st_run = ?r c1 StopWait RegDone\<rparr> =
      Some \<lparr>st_agent = a, st_run = ?r c2 OpNone RegDone\<lparr>rt_returns := [(Start, None), (Stop, None)]\<rparr>\<rparr>"
    by (simp add: on_runtime_def runtime_step_def op_step_def returns_def reg_ended_def hb_ended_def shutdown_def bare
        no_registration_def c2(1))
  have e: "leak_end = [Runs CallStop, Runs OpStep, Runs OpStep] @ [Attempts (lost_with CtxCanceled) 0 0 True] @
      [Runs OpStep, ShutsDown None, Runs OpStep]"
    by (simp add: leak_end_def)
  have "stop_run nd sample_system (leak_begin @ leak_end) \<lparr>st_agent = leak_agent, st_run = initial sample_client\<rparr> =
      Some \<lparr>st_agent = a, st_run = ?r c2 OpNone RegDone\<lparr>rt_returns := [(Start, None), (Stop, None)]\<rparr>\<rparr>"
    by (simp only: stop_run_append c(1) e one two three bind.simps)
  moreover have "deregisters c2" using dereg c2(3) by (simp add: deregisters_def same_record_def)
  ultimately show ?thesis using c2(2) at(6,7) by auto
qed

text \<open>
  C31. A registration whose answer Stop does not wait for stays. There is a run of a client that is to deregister
  when it stops in which the registrar's request is under way when Stop is called: the agent takes it, the client
  sees its own cancellation. Start and Stop both return nil, the client has stopped, and the agent
  holds the service; no step of the client removes it any more.
\<close>

theorem interrupted_registration_stays:
  "\<exists>s sid. stop_reachable nd sample_system s \<and> cl_state (rt_client (st_run s)) = StateStopped \<and>
     rt_returns (st_run s) = [(Start, None), (Stop, None)] \<and> deregisters (rt_client (st_run s)) \<and>
     sid \<noteq> [] \<and> fake_Service sid (st_agent s) \<noteq> None \<and>
     (\<nexists>ev s'. (\<nexists>call. ev = AgentDoes call) \<and> stop_step nd sample_system ev s = Some s' \<and> st_agent s' \<noteq> st_agent s)"
proof -
  obtain s sid where s: "stop_run nd sample_system (leak_begin @ leak_end) \<lparr>st_agent = leak_agent, st_run = initial sample_client\<rparr> = Some s"
    "cl_state (rt_client (st_run s)) = StateStopped" "rt_returns (st_run s) = [(Start, None), (Stop, None)]"
    "deregisters (rt_client (st_run s))" "sid \<noteq> []" "fake_Service sid (st_agent s) \<noteq> None"
    using leak_run by blast
  have "stop_reachable nd sample_system s" by (rule stop_run_reachable [OF s(1) sample_begins])
  then show ?thesis using s(2-6) stopped_agent by blast
qed

text \<open>A run in which nothing is lost.\<close>

definition clean_events :: "stop_event list" where
  "clean_events =
     [Starts sample_start [], Runs OpStep, Runs OpStep, Runs CallStop, Runs OpStep, Runs OpStep, Runs (TaskReg Internal),
      Runs OpStep, ShutsDown None, Runs OpStep]"

lemma clean_started:
  "\<exists>a c. stop_step nd sample_system (Starts sample_start []) \<lparr>st_agent = leak_agent, st_run = initial sample_client\<rparr> =
       Some \<lparr>st_agent = a, st_run = \<lparr>rt_client = c, rt_op = StartLoad, rt_reg = Some (RegTop 0), rt_hb = None, rt_returns = []\<rparr>\<rparr> \<and>
     cl_state c = StateStarting \<and> \<not> cl_done c \<and> \<not> cl_errs_closed c \<and> cl_cfg c = cl_cfg sample_client \<and>
     rgn_ServiceID (cl_reg c) \<noteq> [] \<and> answering a \<and> fake_Service (rgn_ServiceID (cl_reg c)) a \<noteq> None"
proof -
  let ?c = "set_state StateStarting sample_client"
  have alike: "same_setup sample_client ?c" by (simp add: same_setup_def set_state_def emit_def Let_def)
  have like: "sample_like ?c"
    using sample_like_client by (simp add: sample_like_def set_state_def emit_def Let_def)
  have acc: "accepts sample_system sample_answers leak_agent ?c"
    using sample_accepted alike leak_agent_answers by (simp add: always_accepted_def leak_agent_def)
  obtain an a where an: "attempt_answers sample_system leak_agent sample_answers ?c = (an, a)" by fastforce
  obtain r where r: "sent_definition sample_system (sample_answers\<lparr>an_self := self_answer leak_agent\<rparr>) ?c = Some r"
    "agent_service.as_ID r \<noteq> []" "fst (fake_register (Some r) leak_agent) = None"
    using acc by (auto simp: accepts_def split: option.splits)
  have "an = sample_answers\<lparr>an_self := self_answer leak_agent, an_register := None\<rparr>"
    using an r by (auto simp: attempt_answers_def Let_def gated_answering [OF leak_agent_answers(1)] split: prod.splits)
  then have none: "an_register an = None" "an_ctx an = (\<lambda>_. None)" and sent: "sent_definition sample_system an ?c = Some r"
    using r(1) by (simp_all add: sent_answered sample_answers_def)
  obtain c1 where c1: "register sample_system an ?c = (None, c1)" "rgn_ServiceID (cl_reg c1) = agent_service.as_ID r"
    using register_sent [OF sent] none(1) by (metis fst_conv snd_conv option.map(1) prod.exhaust)
  have held: "answering a" "fake_Service (agent_service.as_ID r) a \<noteq> None"
    using accepted_attempt [OF leak_agent_answers(1) acc an] c1 by (simp_all add: holds_service_def)
  have l: "same_life ?c c1" by (rule same_life_register [OF c1(1)])
  have "an_register sample_answers = None" by (simp add: sample_answers_def)
  then have st: "answered_start sample_system [] sample_start ?c leak_agent = (sample_start\<lparr>se_first := an\<rparr>, a)"
    using an none(1) by (simp add: answered_start_def answered_attempt_def sample_start_def sample_settings
        sample_like_endpoint [OF like] sample_endpoint)
  have "start nd sample_system (sample_start\<lparr>se_first := an\<rparr>) ?c = Some (None, c1, True)"
    using c1(1) by (simp add: start_def sample_start_def sample_settings sample_like_endpoint [OF like] sample_endpoint)
  moreover have cfg: "cl_cfg c1 = cl_cfg sample_client" using l by (simp add: same_life_def)
  moreover have "CheckNone \<noteq> CheckTTL" by (simp add: check_type_defs)
  ultimately have one: "runtime_step nd sample_system (CallStart (sample_start\<lparr>se_first := an\<rparr>)) (initial sample_client) =
      Some \<lparr>rt_client = c1, rt_op = StartLoad, rt_reg = Some (RegTop 0), rt_hb = None, rt_returns = []\<rparr>"
    by (simp add: runtime_step_def call_start_def initial_def sample_client_state launch_def sample_settings)
  have "rt_client (initial sample_client) = sample_client" by (simp add: initial_def)
  then have "stop_step nd sample_system (Starts sample_start []) \<lparr>st_agent = leak_agent, st_run = initial sample_client\<rparr> =
      Some \<lparr>st_agent = a, st_run = \<lparr>rt_client = c1, rt_op = StartLoad, rt_reg = Some (RegTop 0), rt_hb = None, rt_returns = []\<rparr>\<rparr>"
    by (simp add: st sample_client_state sample_settings on_runtime_def one Let_def)
  moreover have "cl_state c1 = StateStarting" "\<not> cl_done c1" "\<not> cl_errs_closed c1"
    using l sample_client_state by (simp_all add: same_life_def)
  ultimately show ?thesis using cfg c1(2) r(2) held by auto
qed

lemma clean_run:
  "\<exists>s. stop_run nd sample_system clean_events \<lparr>st_agent = leak_agent, st_run = initial sample_client\<rparr> = Some s \<and>
     cl_state (rt_client (st_run s)) = StateStopped \<and> rt_returns (st_run s) = [(Start, None), (Stop, None)] \<and>
     deregisters (rt_client (st_run s)) \<and> rgn_ServiceID (cl_reg (rt_client (st_run s))) \<noteq> []"
proof -
  obtain a c where c: "stop_step nd sample_system (Starts sample_start []) \<lparr>st_agent = leak_agent, st_run = initial sample_client\<rparr> =
       Some \<lparr>st_agent = a, st_run = \<lparr>rt_client = c, rt_op = StartLoad, rt_reg = Some (RegTop 0), rt_hb = None, rt_returns = []\<rparr>\<rparr>"
    "cl_state c = StateStarting" "\<not> cl_done c" "\<not> cl_errs_closed c" "cl_cfg c = cl_cfg sample_client"
    "rgn_ServiceID (cl_reg c) \<noteq> []" "answering a" "fake_Service (rgn_ServiceID (cl_reg c)) a \<noteq> None"
    using clean_started by blast
  let ?r = "\<lambda>c op pc. \<lparr>rt_client = c, rt_op = op, rt_reg = Some pc, rt_hb = None, rt_returns = [(Start, None)]\<rparr>"
  define d where "d = (set_state StateStopping (set_state StateRunning c))\<lparr>cl_health :=
    set_draining True (cl_health (set_state StateStopping (set_state StateRunning c))), cl_cancelled := True\<rparr>"
  have d: "cl_cancelled d" "\<not> cl_done d" "\<not> cl_errs_closed d" "cl_cfg d = cl_cfg sample_client"
    "rgn_ServiceID (cl_reg d) = rgn_ServiceID (cl_reg c)"
    using c(3-5) by (auto simp: d_def set_state_def emit_def Let_def)
  have one: "stop_run nd sample_system
      [Runs OpStep, Runs OpStep, Runs CallStop, Runs OpStep, Runs OpStep, Runs (TaskReg Internal), Runs OpStep]
      \<lparr>st_agent = a, st_run = \<lparr>rt_client = c, rt_op = StartLoad, rt_reg = Some (RegTop 0), rt_hb = None, rt_returns = []\<rparr>\<rparr> =
      Some \<lparr>st_agent = a, st_run = ?r d StopShutdown RegDone\<rparr>"
    using c(2) d(1) by (simp add: on_runtime_def runtime_step_def op_step_def call_stop_def returns_def reg_ended_def
        hb_ended_def d_def [symmetric] Let_def)
  obtain a' where dereg: "deregister_answer a (rgn_ServiceID (cl_reg c)) = (None, a')"
    using c(7,8) by (auto simp: deregister_answer_def gated_answering fake_deregister_def fake_Service_def)
  obtain d2 where d2: "deregister None None d = (None, d2)"
    "rgn_ServiceID (cl_reg d2) = rgn_ServiceID (cl_reg c)" "cl_cfg d2 = cl_cfg sample_client"
    "\<not> cl_done d2" "\<not> cl_errs_closed d2"
    using c(6) d(2-5) by (simp add: deregister_def mark_lost_def emit_def send_def Let_def)
  obtain d3 where d3: "finish d2 = Some d3" "cl_state d3 = StateStopped" "same_record d2 d3"
    using d2(4,5) finish_record finish_Some finish_fields(1) by metis
  have two: "stop_run nd sample_system [ShutsDown None, Runs OpStep] \<lparr>st_agent = a, st_run = ?r d StopShutdown RegDone\<rparr> =
      Some \<lparr>st_agent = a', st_run = ?r d3 OpNone RegDone\<lparr>rt_returns := [(Start, None), (Stop, None)]\<rparr>\<rparr>"
    using c(6) by (simp add: on_runtime_def runtime_step_def op_step_def returns_def shutdown_def deregisters_def d(4,5)
        sample_deregisters sample_drain dereg d2(1) d3(1))
  have e: "clean_events = [Starts sample_start []] @
      [Runs OpStep, Runs OpStep, Runs CallStop, Runs OpStep, Runs OpStep, Runs (TaskReg Internal), Runs OpStep] @
      [ShutsDown None, Runs OpStep]"
    by (simp add: clean_events_def)
  have "stop_run nd sample_system clean_events \<lparr>st_agent = leak_agent, st_run = initial sample_client\<rparr> =
      Some \<lparr>st_agent = a', st_run = ?r d3 OpNone RegDone\<lparr>rt_returns := [(Start, None), (Stop, None)]\<rparr>\<rparr>"
    unfolding e stop_run_append by (simp only: stop_run.simps(2) [of _ _ "Starts sample_start []" "[]"] c(1) bind.simps
        stop_run.simps(1) one two)
  then show ?thesis using c(6) d2(2,3) d3(2,3) by (simp add: deregisters_def same_record_def sample_deregisters)
qed

theorem stop_removes_service_witness:
  "\<exists>(s :: stop_system) sid. cl_state (rt_client (st_run s)) = StateStopped \<and>
     rt_returns (st_run s) = [(Start, None), (Stop, None)] \<and> rgn_ServiceID (cl_reg (rt_client (st_run s))) = sid \<and> sid \<noteq> [] \<and> fake_Service sid (st_agent s) = None"
proof -
  obtain s where s: "stop_run (\<lambda>_ _. (0, True)) sample_system clean_events
      \<lparr>st_agent = leak_agent, st_run = initial sample_client\<rparr> = Some s"
    "cl_state (rt_client (st_run s)) = StateStopped" "rt_returns (st_run s) = [(Start, None), (Stop, None)]"
    "deregisters (rt_client (st_run s))" "rgn_ServiceID (cl_reg (rt_client (st_run s))) \<noteq> []"
    using clean_run by blast
  have "clean (st_run s)" by (simp add: clean_def s(3))
  from stop_removes_service [OF stop_run_reachable [OF s(1) sample_begins] s(2) this s(4) refl s(5)] s(2,3,5)
  show ?thesis by blast
qed

end
