(* ===== verification/Spec2Isabelle.thy ===== *)
theory Spec2Isabelle
  imports Backoff Blocking Compat ServiceID Watch WatchLoop Balancer Health Validate Lifecycle Contexts Access
    Metrics FakeAgent KVRace KVSystem KVConverge ServiceSystem RegSystem StopSystem
begin

text \<open>
  ConsulX is a Go library that runs a service with Consul: it registers the service and keeps it
  registered, answers its health checks, finds and balances over other services, and loads their
  configuration from the key-value store. This development is a shallow embedding of it. Paths are those
  of the repository.

  Parts and interactions.

  \<^item> A client is built from layers of configuration: environment, \<open>Config\<close> values and options, then
    defaults and validation (\<open>config.go\<close>, \<open>env.go\<close>, \<open>file.go\<close>, \<open>options.go\<close>, \<open>New\<close> of \<open>client.go\<close>).
  \<^item> \<open>Start\<close> resolves the endpoint of the service, registers it and launches the registrar and the
    heartbeat; \<open>Stop\<close> drains, cancels and waits for them, deregisters and finishes (\<open>lifecycle.go\<close>,
    \<open>reliability.go\<close>, \<open>registration.go\<close>, \<open>endpoint.go\<close>, \<open>resolver.go\<close>). The tasks share the state word,
    the registration and the error channel with the calls of the application.
  \<^item> Health: components are pushed or checked, probes combine them, and a handler put in front of the
    application's answers them (\<open>health/\<close>, \<open>http.go\<close>). Draining makes readiness fail before the
    deregistration.
  \<^item> Discovery: a query becomes a filter, a watch is a blocking query that diffs its answers and sends
    events through a one-slot channel; a balancer owns one watch per service and picks from its snapshot
    (\<open>discovery/\<close>, \<open>balancer/\<close>).
  \<^item> Configuration from KV: folders are decoded to trees, merged, bound to a Go value, validated; a watch
    repeats this when a folder changes (\<open>kvconfig/\<close>, \<open>internal/bind\<close>, \<open>kv.go\<close>).
  \<^item> Everything that waits for Consul follows the index rule and the limiter of \<open>internal/blocking\<close> and
    the delays of \<open>internal/backoff\<close>.

  Theories. \<open>Prelude\<close>, \<open>GoFloat\<close>, \<open>GoStrings\<close>, \<open>GoNet\<close> and \<open>GoTime\<close> hold the part of the Go language and
  its standard library the code uses: 64-bit integers with wrap-around, binary64 numbers with rounding,
  byte strings, addresses and durations. \<open>Winding\<close> is the argument by which systems are shown to come to
  an end. Each of the others models the files it names and begins with the correspondence of its
  definitions.

  \<^item> \<open>Errors\<close> (\<open>errors.go\<close>): error values with their chains, \<open>errors.Is\<close> and \<open>errors.As\<close>.
  \<^item> \<open>Backoff\<close>, \<open>Blocking\<close>, \<open>Compat\<close>, \<open>ServiceID\<close>, \<open>Netaddr\<close>: the packages of \<open>internal/\<close> with these
    names.
  \<^item> \<open>Instance\<close>, \<open>Query\<close>, \<open>Mailbox\<close>, \<open>Watch\<close>, \<open>WatchLoop\<close> (\<open>discovery/\<close>); \<open>Picker\<close>, \<open>Ejection\<close>, \<open>Balancer\<close>
    (\<open>balancer/\<close>); \<open>Health\<close> (\<open>health/\<close>).
  \<^item> \<open>Config\<close>, \<open>Validate\<close> (\<open>config.go\<close>), \<open>Environment\<close> (\<open>env.go\<close>), \<open>Settings\<close> (\<open>options.go\<close>,
    \<open>apiclient.go\<close>, \<open>http.go\<close>, \<open>New\<close>), \<open>Access\<close> (\<open>secret.go\<close>, \<open>file.go\<close>, \<open>discover.go\<close>,
    \<open>contrib/fiber\<close>).
  \<^item> \<open>Endpoint\<close> (\<open>resolver.go\<close>, \<open>endpoint.go\<close>), \<open>Client\<close> (\<open>client.go\<close>, \<open>observability.go\<close>),
    \<open>Registration\<close>, \<open>Reliability\<close>, \<open>Lifecycle\<close> (the files with these names), \<open>Contexts\<close> (the waits and
    deadlines of several files).
  \<^item> \<open>Tree\<close>, \<open>Loading\<close> (\<open>kvconfig/kvconfig.go\<close>, \<open>kv.go\<close>), \<open>Bind\<close> (\<open>internal/bind\<close>), \<open>KVWatch\<close>
    (\<open>kvconfig/watch.go\<close>), \<open>Metrics\<close> (\<open>contrib/prometheus\<close>, \<open>contrib/otel\<close>), \<open>FakeAgent\<close>
    (\<open>internal/fakeconsul\<close>, the agent of the tests).
  \<^item> Compositions: \<open>KVRace\<close>, \<open>KVSystem\<close> and \<open>KVConverge\<close> put the configuration watch and its store
    together, \<open>ServiceSystem\<close> the service watch and the catalogue, \<open>RegSystem\<close> the registrar and the agent,
    \<open>StopSystem\<close> the whole runtime and the agent.
    The store and the catalogue are records of functions whose laws (those of Consul's blocking queries) are
    the locales \<open>kv_store\<close> and \<open>health_store\<close>; the agent of the tests interprets both.

  State. A struct is a record with the fields of the code, a slice that may be nil a list option where
  the difference shows, a Go map a finite map. What Go leaves open (the order of a map, a random draw,
  the clock) and what another program answers (Consul, the operating system, the YAML decoder) are
  arguments. A concurrent component is a step function or relation on its shared state in which each
  goroutine has a program counter, and a step is the code between two accesses to something shared; the
  requests, measurements and results of calls are logged in the state, so that a property can speak of
  them.

  What the lemmas show.

  \<^item> Life cycle: the invariants of every interleaving of Start, Stop, the tasks and the application, what
    the two calls return, and that Stop ends (\<open>Lifecycle\<close>); what a registration sends and changes
    (\<open>Registration\<close>); which endpoint is registered (\<open>Endpoint\<close>).
  \<^item> Watches: a consumer that gets fewer events than there were changes still ends with the current
    state, for services (\<open>Watch\<close>, over the locale \<open>coalescing\<close> of \<open>Mailbox\<close>) and for configuration
    (\<open>KVWatch\<close>, which also shows that no signal is lost and that a rejected one is reported once). The
    goroutine of a service watch refines its description (\<open>WatchLoop\<close>). Cancelled watches end (\<open>KVWatch\<close>,
    \<open>WatchLoop\<close>, over the locale \<open>winding_down\<close> of \<open>Winding\<close>).
  \<^item> Configuration: every field ends with the last layer that sets it (\<open>Config\<close>, over the locale \<open>layering\<close>), validation
    accepts what it should and names every field that breaks its rule (\<open>Validate\<close>), \<open>New\<close> reports its problems
    stage by stage (\<open>Settings\<close>), folders and trees keep every setting and its
    precedence (\<open>Tree\<close>), binding keeps types, reports everything and panics only on an empty interface
    (\<open>Bind\<close>), secrets do not show (\<open>Access\<close>).
  \<^item> Choice: round robin is fair, an ejected host is not picked, the ejection set refines the history of
    reports, no watch leaks (\<open>Picker\<close> with the locale \<open>index_picker\<close>, \<open>Ejection\<close>, \<open>Balancer\<close>).
  \<^item> Composition: once the writes stop, a configuration watch whose reloads read one folder after the other
    comes to rest and shows what the store holds (\<open>KVConverge\<close>), the consumer of a service watch holds what
    the catalogue holds (\<open>ServiceSystem\<close>), and once the agent accepts it the service is registered again and
    the client Running (\<open>RegSystem\<close>). A client whose Stop returned nil leaves the service it has on record
    nowhere, but a registration whose answer Stop did not wait for is not on record and stays (\<open>StopSystem\<close>). Two hypotheses of \<open>KVConverge\<close> are needed: folders that have keys keep
    one, because \<open>KVRace\<close> is a run in which a key written and deleted again leaves a stale value current, and
    the last read succeeds, because \<open>failed_reload_lapses\<close> is a run in which a failed reload is not retried.
    \<open>FakeAgent\<close> shows that the agent of the tests keeps the index and hash rules.
  \<^item> Algorithms: delays stay within their bounds (the locales \<open>rounding\<close> and \<open>delayer\<close>), the index rule
    (the locale \<open>index_rule\<close>), versions, identifiers, filters and addresses.

  Bounds. The loop of \<open>Retry\<close> may run forever and is a \<open>partial_function\<close>: \<open>retry_terminates\<close> shows that
  a bounded policy makes it return. Once \<open>Stop\<close> waits for the tasks, the registrar takes at most 9 more
  steps and 15 steps suffice to the end (\<open>stop_completes\<close>); a cancelled service watch ends after at most 8
  steps, a configuration watch after at most 10 and 4 for each folder. After the last write, a watch of
  \<open>n\<close> folders rests after at most \<open>n * (n + 15) + 13\<close> steps of its own, and a registrar after at most 23.
  The index of a store must not wrap: a write needs room for the next index. No definition has fuel; the
  loops of the code are structural recursions or have a measure.

  Not modelled. Logging; the HTTP requests of the official Consul client, whose answers are arguments;
  the exact text of most error messages (the kind and the wrapped errors are kept); pointer identity
  (\<open>Snapshot.Same\<close>); the public Register, Deregister and maintenance calls in between Start and Stop; \<open>otel.HTTPClient\<close>; recursive Go types as destinations of a binding, which are their
  unfolding; the HTTP server and the JSON of \<open>internal/fakeconsul\<close>; the examples.
\<close>

end
